(* ===== verification/Smelt_Prelude.thy ===== *)
theory Smelt_Prelude
  imports Main "HOL-Library.Word"
begin

text \<open>
  Shared vocabulary of the development: the C integer types as fixed-width words, the
  machine memory as a store of 64-bit cells, the loads, stores and block operations the
  queue code performs on it, and the arithmetic of ring positions and of cell addresses
  every backend proof relies on.
\<close>

unbundle bit_operations_syntax

section \<open>Types\<close>

type_synonym u8 = "8 word"
type_synonym u16 = "16 word"
type_synonym u32 = "32 word"
type_synonym u64 = "64 word"

text \<open>
  A pointer is a 64-bit address, \<open>NULL\<close> is 0. Memory is a store of the 8-byte cells at the
  multiples of 8, little endian, so that a \<open>uint16_t\<close> or \<open>uint32_t\<close> object at the start of
  a cell is its low half-word or word. Nothing bounds an access: a write past the end of
  an object hits the next cell, as it does on the machine.
\<close>

type_synonym addr = "64 word"
type_synonym mem = "addr \<Rightarrow> u64"

section \<open>Collections of rules\<close>

named_theorems ring_simps \<open>arithmetic of ring positions\<close>
named_theorems cell_simps \<open>addresses of cells and what stores leave unchanged\<close>

section \<open>Loads, stores and block operations\<close>

definition ld16 :: "mem \<Rightarrow> addr \<Rightarrow> u16" where
  "ld16 m a = ucast (m a)"

definition st16 :: "mem \<Rightarrow> addr \<Rightarrow> u16 \<Rightarrow> mem" where
  "st16 m a v = m(a := (m a AND NOT (mask 16)) OR ucast v)"

definition ld32 :: "mem \<Rightarrow> addr \<Rightarrow> u32" where
  "ld32 m a = ucast (m a)"

definition st32 :: "mem \<Rightarrow> addr \<Rightarrow> u32 \<Rightarrow> mem" where
  "st32 m a v = m(a := (m a AND NOT (mask 32)) OR ucast v)"

text \<open>
  \<open>memset(a, 0, n)\<close>: of the cell at distance \<open>d\<close> from \<open>a\<close> the low \<open>n - d\<close> bytes are cleared,
  all eight of them for every cell but the last.
\<close>

definition mem_clear :: "mem \<Rightarrow> addr \<Rightarrow> nat \<Rightarrow> mem" where
  "mem_clear m a n =
     (\<lambda>x. let k = min 8 (n - unat (x - a)) in push_bit (8 * k) (drop_bit (8 * k) (m x)))"

text \<open>The loop \<open>for (i = from; i < to; ++i) dst[i] = src[i]\<close> into memory at \<open>a\<close>.\<close>

fun copy_to_mem :: "mem \<Rightarrow> addr \<Rightarrow> (nat \<Rightarrow> u64) \<Rightarrow> nat \<Rightarrow> nat \<Rightarrow> mem" where
  "copy_to_mem m a f from 0 = m"
| "copy_to_mem m a f from (Suc k) =
     (if k < from then m else (copy_to_mem m a f from k)(a + 8 * of_nat k := f k))"

text \<open>The loop \<open>for (i = 0; i < to; ++i) dst[i] = src[i]\<close> out of memory at \<open>a\<close>.\<close>

fun copy_from_mem :: "mem \<Rightarrow> addr \<Rightarrow> (nat \<Rightarrow> u64) \<Rightarrow> nat \<Rightarrow> (nat \<Rightarrow> u64)" where
  "copy_from_mem m a f 0 = f"
| "copy_from_mem m a f (Suc k) = (copy_from_mem m a f k)(k := m (a + 8 * of_nat k))"

text \<open>The \<open>j\<close>-th cell of an object.\<close>

definition cell :: "addr \<Rightarrow> nat \<Rightarrow> addr" where
  "cell a j = a + 8 * of_nat j"

section \<open>Ring positions\<close>

lemma mod_neq [ring_simps]:
  fixes s t n :: nat
  assumes "s < t" "t < s + n"
  shows "s mod n \<noteq> t mod n"
proof
  assume "s mod n = t mod n"
  then have "n dvd t - s"
    using assms(1) by (metis less_imp_le mod_eq_dvd_iff_nat)
  then have "n \<le> t - s"
    using assms(1) by (simp add: dvd_imp_le)
  then show False using assms by simp
qed

lemma mod_inj_window:
  fixes s t b n :: nat
  assumes "b \<le> s" "s < b + n" "b \<le> t" "t < b + n" "s mod n = t mod n"
  shows "s = t"
  using assms mod_neq[of s t n] mod_neq[of t s n] by (cases s t rule: linorder_cases) auto

lemma window_representative:
  fixes b n i :: nat
  assumes "i < n"
  shows "\<exists>s. b \<le> s \<and> s < b + n \<and> s mod n = i"
proof -
  define s where "s = b + (i + n - b mod n) mod n"
  have "s mod n = (b mod n + (i + n - b mod n)) mod n"
    unfolding s_def by (simp add: mod_simps)
  also have "b mod n + (i + n - b mod n) = i + n"
    using assms by (simp add: less_imp_le trans_le_add2)
  finally have "s mod n = i" using assms by simp
  moreover have "b \<le> s" "s < b + n" using assms by (simp_all add: s_def)
  ultimately show ?thesis by blast
qed

lemma Suc_mod_eq [ring_simps]:
  fixes s n :: nat
  assumes "0 < n"
  shows "Suc s mod n = (if Suc (s mod n) = n then 0 else Suc (s mod n))"
  using assms by (simp add: mod_Suc)

lemma Suc_div_eq [ring_simps]:
  fixes s n :: nat
  assumes "0 < n"
  shows "Suc s div n = (if Suc (s mod n) = n then Suc (s div n) else s div n)"
  using assms by (simp add: div_Suc mod_Suc)

lemma round_div [ring_simps]:
  fixes s n :: nat
  shows "0 < n \<Longrightarrow> (s + n) div n = Suc (s div n)"
  by (simp add: div_add_self2)

lemma line_word_eq_iff:
  fixes a b i j :: nat
  assumes "i < 8" "j < 8"
  shows "8 * a + i = 8 * b + j \<longleftrightarrow> a = b \<and> i = j"
  using assms by presburger

section \<open>Words as residues\<close>

lemma of_nat_inj_window:
  assumes "(of_nat a :: 'a::len word) = of_nat b" "a \<le> b" "b < a + 2 ^ LENGTH('a)"
  shows "a = b"
proof (rule ccontr)
  assume "a \<noteq> b"
  from assms(1) have "a mod 2 ^ LENGTH('a) = b mod 2 ^ LENGTH('a)"
    by (simp add: word_of_nat_eq_iff take_bit_eq_mod)
  moreover have "a < b" using assms(2) \<open>a \<noteq> b\<close> by simp
  ultimately show False using mod_neq[of a b "2 ^ LENGTH('a)"] assms(3) by simp
qed

lemma of_nat_eq_window:
  assumes "a \<le> b" "b < a + 2 ^ LENGTH('a)"
  shows "(of_nat a :: 'a::len word) = of_nat b \<longleftrightarrow> a = b"
  using assms of_nat_inj_window by blast

lemma unat_of_nat_small:
  "a < 2 ^ LENGTH('a) \<Longrightarrow> unat (of_nat a :: 'a::len word) = a"
  by (simp add: unat_of_nat take_bit_eq_mod)

lemma of_nat_small_inj:
  "a < 2 ^ LENGTH('a) \<Longrightarrow> b < 2 ^ LENGTH('a) \<Longrightarrow> (of_nat a :: 'a::len word) = of_nat b \<longleftrightarrow> a = b"
  by (metis unat_of_nat_small)

lemma unat_diff_of_nat:
  assumes "a \<le> b" "b - a < 2 ^ LENGTH('a)"
  shows "unat (of_nat b - of_nat a :: 'a::len word) = b - a"
proof -
  have "(of_nat b - of_nat a :: 'a word) = of_nat (b - a)"
    using assms(1) by simp
  then show ?thesis using assms(2) by (simp only: unat_of_nat_small)
qed

text \<open>A ring index kept in a machine word: \<open>s\<close> modulo a ring size that is a word itself.\<close>

lemma unat_ring_index:
  fixes sz :: "'a::len word"
  assumes "0 < unat sz"
  shows "unat (of_nat (s mod unat sz) :: 'a word) = s mod unat sz"
proof (rule unat_of_nat_small)
  have "s mod unat sz < unat sz" using assms by simp
  also have "\<dots> < 2 ^ LENGTH('a)" by (rule unsigned_less)
  finally show "s mod unat sz < 2 ^ LENGTH('a)" .
qed

lemma ring_index_wraps:
  fixes sz :: "'a::len word"
  assumes "0 < unat sz"
  shows "of_nat (s mod unat sz) + 1 = sz \<longleftrightarrow> Suc (s mod unat sz) = unat sz"
proof -
  have "s mod unat sz < unat sz" using assms by simp
  moreover have "unat sz < 2 ^ LENGTH('a)" by (rule unsigned_less)
  ultimately have "unat (of_nat (Suc (s mod unat sz)) :: 'a word) = Suc (s mod unat sz)"
    by (intro unat_of_nat_small) linarith
  moreover have "(of_nat (s mod unat sz) + 1 :: 'a word) = of_nat (Suc (s mod unat sz))" by simp
  ultimately show ?thesis by (metis word_unat_eq_iff)
qed

lemma ring_index_step:
  fixes sz :: "'a::len word"
  assumes "0 < unat sz"
  shows "(if of_nat (s mod unat sz) + 1 = sz then 0 else of_nat (s mod unat sz) + 1) =
         (of_nat (Suc s mod unat sz) :: 'a word)"
  using ring_index_wraps[OF assms, of s] assms by (simp add: Suc_mod_eq)

text \<open>A 16-bit index compared with a 64-bit ring size, as the shared-memory queues do.\<close>

lemma ucast_index: "k < 65536 \<Longrightarrow> (ucast (of_nat k :: u16) :: u64) = of_nat k"
  by (simp add: word_unat_eq_iff unsigned_ucast_eq unat_of_nat take_bit_eq_mod)

lemma unat_index: "k < 65536 \<Longrightarrow> unat (of_nat k :: u16) = k"
  by (simp add: unat_of_nat_small)

lemma index_is_size:
  fixes sz :: u64
  assumes "k < 65536" "unat sz < 65536"
  shows "(ucast (of_nat k :: u16) :: u64) = sz \<longleftrightarrow> k = unat sz"
proof -
  have "k < 2 ^ LENGTH(64)" using assms(1) by simp
  then have "unat (of_nat k :: u64) = k" by (rule unat_of_nat_small)
  then show ?thesis using ucast_index[OF assms(1)] by (metis word_unat_eq_iff)
qed

text \<open>The index of a writer that wraps only at its next write.\<close>

definition lazy_pos :: "nat \<Rightarrow> nat \<Rightarrow> nat" where
  "lazy_pos n s = (if s mod n = 0 \<and> 0 < s then n else s mod n)"

lemma lazy_pos_Suc: "0 < n \<Longrightarrow> lazy_pos n (Suc s) = Suc (s mod n)"
  by (simp add: lazy_pos_def Suc_mod_eq)

lemma lazy_pos_rewind:
  fixes sz :: u64
  assumes "0 < unat sz" "unat sz < 65536" "l = of_nat (lazy_pos (unat sz) s)"
  shows "(if ucast l = sz then 0 else l) = (of_nat (s mod unat sz) :: u16)"
proof -
  have "s mod unat sz < unat sz" using assms(1) by simp
  then have "lazy_pos (unat sz) s < 65536" using assms(2) by (simp add: lazy_pos_def)
  then have "ucast l = sz \<longleftrightarrow> lazy_pos (unat sz) s = unat sz"
    unfolding assms(3) using assms(2) by (rule index_is_size)
  moreover have "lazy_pos (unat sz) s = unat sz \<Longrightarrow> s mod unat sz = 0"
    "lazy_pos (unat sz) s \<noteq> unat sz \<Longrightarrow> lazy_pos (unat sz) s = s mod unat sz"
    using \<open>s mod unat sz < unat sz\<close> unfolding lazy_pos_def by (auto split: if_splits)
  ultimately show ?thesis using assms(3) by (cases "ucast l = sz") simp_all
qed

lemma index_step:
  fixes sz :: u64
  assumes "0 < unat sz" "unat sz < 65536"
  shows "(let l = of_nat (s mod unat sz) + 1 :: u16 in if ucast l = sz then 0 else l) =
         of_nat (Suc s mod unat sz)"
proof -
  have "Suc (s mod unat sz) < 65536" using assms mod_less_divisor[OF assms(1), of s] by linarith
  then have "(ucast (of_nat (Suc (s mod unat sz)) :: u16) :: u64) = sz \<longleftrightarrow> Suc (s mod unat sz) = unat sz"
    using assms(2) by (rule index_is_size)
  moreover have "(of_nat (s mod unat sz) + 1 :: u16) = of_nat (Suc (s mod unat sz))" by simp
  ultimately show ?thesis using assms(1) by (simp only: Let_def Suc_mod_eq) simp
qed

section \<open>Cells\<close>

lemma cell_0 [simp]: "cell a 0 = a"
  by (simp add: cell_def)

lemma cell_cell [simp]: "cell (cell a i) j = cell a (i + j)"
  by (simp add: cell_def algebra_simps)

lemma cell_nat: "cell a j = a + of_nat (8 * j)"
  by (simp add: cell_def)

lemma cell_eq_iff [cell_simps]:
  assumes "i < 2 ^ 61" "j < 2 ^ 61"
  shows "cell a i = cell a j \<longleftrightarrow> i = j"
proof -
  have "(of_nat (8 * i) :: 64 word) = of_nat (8 * j) \<longleftrightarrow> 8 * i = 8 * j"
  proof (cases "i \<le> j")
    case True
    then show ?thesis using assms by (intro of_nat_eq_window) simp_all
  next
    case False
    then have "(of_nat (8 * j) :: 64 word) = of_nat (8 * i) \<longleftrightarrow> 8 * j = 8 * i"
      using assms by (intro of_nat_eq_window) simp_all
    then show ?thesis by argo
  qed
  then show ?thesis by (simp only: cell_nat add_left_cancel) simp
qed

lemma word_cell [cell_simps]: "a + 8 * of_nat j = cell a j"
  by (simp add: cell_def)

text \<open>The cell addresses that the C pointer arithmetic on cache lines computes.\<close>

lemma line_cell [cell_simps]:
  fixes p :: u16
  shows "a + 64 * ucast p = cell a (8 * unat p)"
proof -
  have "(ucast p :: 64 word) = of_nat (unat p)"
    by simp
  then show ?thesis by (simp add: cell_def)
qed

section \<open>Effect of stores\<close>

lemma mask_part: "ucast ((x AND NOT (mask n)) OR ucast v) = v"
  if "n = LENGTH('b)" "LENGTH('b) \<le> 64" for x :: "64 word" and v :: "'b::len word"
  by (rule bit_word_eqI) (use that in \<open>auto simp: bit_simps\<close>)

lemma ld16_st16 [simp]: "ld16 (st16 m a v) b = (if b = a then v else ld16 m b)"
  by (simp add: ld16_def st16_def mask_part)

lemma ld32_st32 [simp]: "ld32 (st32 m a v) b = (if b = a then v else ld32 m b)"
  by (simp add: ld32_def st32_def mask_part)

lemma st16_other [simp]: "b \<noteq> a \<Longrightarrow> st16 m a v b = m b"
  by (simp add: st16_def)

lemma st32_other [simp]: "b \<noteq> a \<Longrightarrow> st32 m a v b = m b"
  by (simp add: st32_def)

lemma ld16_fun_upd [simp]: "b \<noteq> a \<Longrightarrow> ld16 (m(a := v)) b = ld16 m b"
  by (simp add: ld16_def)

lemma ld32_fun_upd [simp]: "b \<noteq> a \<Longrightarrow> ld32 (m(a := v)) b = ld32 m b"
  by (simp add: ld32_def)

lemma ld16_cong: "m a = m' a \<Longrightarrow> ld16 m a = ld16 m' a"
  by (simp add: ld16_def)

lemma ld32_cong: "m a = m' a \<Longrightarrow> ld32 m a = ld32 m' a"
  by (simp add: ld32_def)

lemma mem_clear_outside [simp]: "n \<le> unat (x - a) \<Longrightarrow> mem_clear m a n x = m x"
  by (simp add: mem_clear_def)

lemma mem_clear_inside: "unat (x - a) + 8 \<le> n \<Longrightarrow> mem_clear m a n x = 0"
  by (rule bit_word_eqI) (simp add: mem_clear_def min_def bit_simps)

lemma mem_clear_cell:
  assumes "j < 2 ^ 61" "8 * j + 8 \<le> n"
  shows "mem_clear m a n (cell a j) = 0"
proof (rule mem_clear_inside)
  have "cell a j - a = of_nat (8 * j)" by (simp add: cell_nat)
  moreover have "8 * j < 2 ^ LENGTH(64)" using assms(1) by simp
  ultimately have "unat (cell a j - a) = 8 * j" by (simp only: unat_of_nat_small)
  then show "unat (cell a j - a) + 8 \<le> n" using assms(2) by simp
qed

lemma copy_to_mem_other:
  "(\<forall>k. from \<le> k \<and> k < n \<longrightarrow> x \<noteq> cell a k) \<Longrightarrow> copy_to_mem m a f from n x = m x"
  by (induction n) (auto simp: cell_def)

lemma copy_to_mem_cell:
  assumes "n \<le> 2 ^ 61" "j < 2 ^ 61"
  shows "copy_to_mem m a f from n (cell a j) =
           (if from \<le> j \<and> j < n then f j else m (cell a j))"
  using assms by (induction n) (auto simp: word_cell cell_eq_iff less_Suc_eq)

lemma copy_from_mem_eq:
  "copy_from_mem m a f n = (\<lambda>k. if k < n then m (cell a k) else f k)"
  by (induction n) (auto simp: word_cell fun_eq_iff less_Suc_eq)

end
