(* ===== verification/Smelt_Error.thy ===== *)
theory Smelt_Error
  imports Smelt_Prelude
begin

text \<open>
  Error values (\<open>inc/smlt_error.h\<close>): the enumeration of error codes with the numbers the
  compiler gives its members, the 64-bit error value that packs a stack of 10-bit codes,
  and the four operations on it.
\<close>

type_synonym errval_t = u64

datatype smlt_err_code =
    SMLT_SUCCESS | SMLT_ERR_NODE_INVALD | SMLT_ERR_INIT | SMLT_ERR_MALLOC_FAIL
  | SMLT_ERR_INVAL | SMLT_ERR_BAD_ALIGNMENT | SMLT_ERR_PLATFORM_INIT
  | SMLT_ERR_TOPOLOGY_INIT | SMLT_ERR_GENERATOR
  | SMLT_ERR_NODE_START | SMLT_ERR_NODE_CREATE | SMLT_ERR_NODE_JOIN
  | SMLT_ERR_ALLOC_UMP | SMLT_ERR_ALLOC_FFQ | SMLT_ERR_ALLOC_SHM
  | SMLT_ERR_DESTROY_UMP | SMLT_ERR_DESTROY_FFQ | SMLT_ERR_DESTRYO_SHM
  | SMLT_ERR_SHM_INIT
  | SMLT_ERR_CHAN_CREATE | SMLT_ERR_CHAN_DESTROY | SMLT_ERR_CHAN_WOULD_BLOCK
  | SMLT_ERR_QUEUE_RECV | SMLT_ERR_QUEUE_SEND | SMLT_ERR_QUEUE_STATE
  | SMLT_ERR_QUEUE_EMPTY | SMLT_ERR_QUEUE_FULL | SMLT_ERR_QUEUE_PREPARE
  | SMLT_ERR_QUEUE_INIT | SMLT_ERR_SEND | SMLT_ERR_NOTIFY | SMLT_ERR

text \<open>
  The number of each member: an explicit initialiser restarts the count, a member without
  one is its predecessor plus one.
\<close>

fun err_num :: "smlt_err_code \<Rightarrow> nat" where
  "err_num SMLT_SUCCESS = 0"
| "err_num SMLT_ERR_NODE_INVALD = 1"
| "err_num SMLT_ERR_INIT = 2"
| "err_num SMLT_ERR_MALLOC_FAIL = 3"
| "err_num SMLT_ERR_INVAL = 4"
| "err_num SMLT_ERR_BAD_ALIGNMENT = 5"
| "err_num SMLT_ERR_PLATFORM_INIT = 6"
| "err_num SMLT_ERR_TOPOLOGY_INIT = 7"
| "err_num SMLT_ERR_GENERATOR = 8"
| "err_num SMLT_ERR_NODE_START = 5"
| "err_num SMLT_ERR_NODE_CREATE = 6"
| "err_num SMLT_ERR_NODE_JOIN = 7"
| "err_num SMLT_ERR_ALLOC_UMP = 8"
| "err_num SMLT_ERR_ALLOC_FFQ = 9"
| "err_num SMLT_ERR_ALLOC_SHM = 10"
| "err_num SMLT_ERR_DESTROY_UMP = 11"
| "err_num SMLT_ERR_DESTROY_FFQ = 12"
| "err_num SMLT_ERR_DESTRYO_SHM = 13"
| "err_num SMLT_ERR_SHM_INIT = 8"
| "err_num SMLT_ERR_CHAN_CREATE = 9"
| "err_num SMLT_ERR_CHAN_DESTROY = 10"
| "err_num SMLT_ERR_CHAN_WOULD_BLOCK = 11"
| "err_num SMLT_ERR_QUEUE_RECV = 12"
| "err_num SMLT_ERR_QUEUE_SEND = 13"
| "err_num SMLT_ERR_QUEUE_STATE = 14"
| "err_num SMLT_ERR_QUEUE_EMPTY = 15"
| "err_num SMLT_ERR_QUEUE_FULL = 16"
| "err_num SMLT_ERR_QUEUE_PREPARE = 17"
| "err_num SMLT_ERR_QUEUE_INIT = 18"
| "err_num SMLT_ERR_SEND = 19"
| "err_num SMLT_ERR_NOTIFY = 20"
| "err_num SMLT_ERR = 21"

text \<open>The conversion of a code to an error value that a \<open>return\<close> of a code performs.\<close>

definition errval :: "smlt_err_code \<Rightarrow> errval_t" where
  "errval c = of_nat (err_num c)"

text \<open>\<open>smlt_err_no\<close>: the code on top of the stack, as the number of an enumeration member.\<close>

definition smlt_err_no :: "errval_t \<Rightarrow> nat" where
  "smlt_err_no e = unat (e AND (push_bit 10 1 - 1))"

definition smlt_err_is_fail :: "errval_t \<Rightarrow> bool" where
  "smlt_err_is_fail e \<longleftrightarrow> smlt_err_no e \<noteq> err_num SMLT_SUCCESS"

definition smlt_err_is_ok :: "errval_t \<Rightarrow> bool" where
  "smlt_err_is_ok e \<longleftrightarrow> smlt_err_no e = err_num SMLT_SUCCESS"

definition smlt_err_push :: "errval_t \<Rightarrow> smlt_err_code \<Rightarrow> errval_t" where
  "smlt_err_push e c = push_bit 10 e OR (1023 AND errval c)"

section \<open>Library\<close>

lemma err_num_less: "err_num c < 1024"
  by (cases c) simp_all

lemma smlt_err_no_mod: "smlt_err_no e = unat e mod 1024"
proof -
  have "e AND (push_bit 10 1 - 1) = take_bit 10 e"
    by (simp add: take_bit_eq_mask mask_eq_exp_minus_1 push_bit_eq_mult)
  then show ?thesis
    by (simp add: smlt_err_no_def take_bit_eq_mod unat_mod)
qed

lemma unat_errval: "unat (errval c) = err_num c"
  using err_num_less[of c] by (simp add: errval_def unat_of_nat_small)

lemma smlt_err_no_errval [simp]: "smlt_err_no (errval c) = err_num c"
  using err_num_less[of c] by (simp add: smlt_err_no_mod unat_errval)

lemma smlt_err_is_fail_errval [simp]: "smlt_err_is_fail (errval c) \<longleftrightarrow> err_num c \<noteq> 0"
  by (simp add: smlt_err_is_fail_def)

lemma smlt_err_is_ok_errval [simp]: "smlt_err_is_ok (errval c) \<longleftrightarrow> err_num c = 0"
  by (simp add: smlt_err_is_ok_def)

lemma smlt_err_ok_iff_not_fail: "smlt_err_is_ok e \<longleftrightarrow> \<not> smlt_err_is_fail e"
  by (simp add: smlt_err_is_ok_def smlt_err_is_fail_def)

lemma err_num_0_iff: "err_num c = 0 \<longleftrightarrow> c = SMLT_SUCCESS"
  by (cases c) simp_all

lemma errval_eq_iff [simp]: "errval c = errval d \<longleftrightarrow> err_num c = err_num d"
  by (metis unat_errval errval_def)

lemma take_bit_errval: "take_bit 10 (errval c) = errval c"
  using err_num_less[of c] unat_errval[of c]
  by (intro word_unat_eq_iff[THEN iffD2]) (simp add: take_bit_eq_mod unat_mod)

lemma errval_no_high_bits: "10 \<le> n \<Longrightarrow> \<not> bit (errval c) n"
  by (subst take_bit_errval[symmetric]) (simp add: bit_take_bit_iff)

lemma smlt_err_push_eq: "smlt_err_push e c = push_bit 10 e OR errval c"
  using take_bit_errval[of c]
  by (simp add: smlt_err_push_def take_bit_eq_mask mask_eq_exp_minus_1 and.commute)

lemma take_bit_smlt_err_push: "take_bit 10 (smlt_err_push e c) = errval c"
  by (rule bit_word_eqI)
    (auto simp: smlt_err_push_eq bit_simps errval_no_high_bits not_less)

lemma smlt_err_no_take_bit: "smlt_err_no e = unat (take_bit 10 e)"
  by (simp add: smlt_err_no_mod take_bit_eq_mod unat_mod)

lemma smlt_err_no_push [simp]: "smlt_err_no (smlt_err_push e c) = err_num c"
  by (simp add: smlt_err_no_take_bit take_bit_smlt_err_push unat_errval)

lemma smlt_err_is_fail_push [simp]:
  "smlt_err_is_fail (smlt_err_push e c) \<longleftrightarrow> c \<noteq> SMLT_SUCCESS"
  by (simp add: smlt_err_is_fail_def err_num_0_iff)

lemma smlt_err_push_neq_success [simp]:
  "c \<noteq> SMLT_SUCCESS \<Longrightarrow> smlt_err_push e c \<noteq> errval SMLT_SUCCESS"
  by (metis smlt_err_is_fail_push smlt_err_is_fail_errval err_num.simps(1))

lemma drop_bit_smlt_err_push: "drop_bit 10 (smlt_err_push e c) = take_bit 54 e"
  by (rule bit_word_eqI)
    (auto simp: smlt_err_push_eq bit_simps errval_no_high_bits dest: bit_imp_le_length)

text \<open>The error value after pushing a list of codes, the last one on top.\<close>

fun push_all :: "errval_t \<Rightarrow> smlt_err_code list \<Rightarrow> errval_t" where
  "push_all e [] = e"
| "push_all e (c # cs) = push_all (smlt_err_push e c) cs"

lemma push_all_snoc: "push_all e (cs @ [c]) = smlt_err_push (push_all e cs) c"
  by (induction cs arbitrary: e) auto

lemma drop_bit_push_all:
  assumes "10 * (k + 1) \<le> 64" "k < length cs"
  shows "take_bit 10 (drop_bit (10 * k) (push_all e cs)) = errval (rev cs ! k)"
  using assms
proof (induction k arbitrary: cs)
  case 0
  then obtain ds c where "cs = ds @ [c]" by (cases cs rule: rev_cases) auto
  then show ?case by (simp add: push_all_snoc take_bit_smlt_err_push)
next
  case (Suc k)
  then obtain ds c where cs: "cs = ds @ [c]" by (cases cs rule: rev_cases) auto
  have "take_bit 10 (drop_bit (10 * Suc k) (push_all e cs)) =
        take_bit 10 (drop_bit (10 * k) (take_bit 54 (push_all e ds)))"
    by (simp add: cs push_all_snoc drop_bit_drop_bit add.commute
        flip: drop_bit_smlt_err_push[of _ c])
  also have "\<dots> = take_bit 10 (drop_bit (10 * k) (push_all e ds))"
    using Suc.prems by (intro bit_word_eqI) (auto simp: bit_simps)
  also have "\<dots> = errval (rev ds ! k)"
    using Suc by (simp add: cs)
  finally show ?case by (simp add: cs)
qed

section \<open>Properties\<close>

text \<open>
  Claim C28: an error value keeps the last six codes that were pushed on it. The top code
  is what \<open>smlt_err_no\<close> reports, and shifting the value right by ten bits \<open>k\<close> times exposes
  the code pushed \<open>k\<close> pushes earlier, for \<open>k\<close> up to 5.
\<close>

theorem err_stack_roundtrip:
  assumes "k < 6" "k < length cs"
  shows "smlt_err_no (drop_bit (10 * k) (push_all e cs)) = err_num (rev cs ! k)"
  using assms by (simp add: smlt_err_no_take_bit drop_bit_push_all unat_errval)

theorem err_stack_roundtrip_witness:
  "smlt_err_no (drop_bit (10 * 1)
     (push_all 0 [SMLT_ERR_BAD_ALIGNMENT, SMLT_ERR_QUEUE_INIT, SMLT_ERR_CHAN_CREATE])) =
   err_num SMLT_ERR_QUEUE_INIT"
  using err_stack_roundtrip
    [of 1 "[SMLT_ERR_BAD_ALIGNMENT, SMLT_ERR_QUEUE_INIT, SMLT_ERR_CHAN_CREATE]" 0]
  by simp

end
