(* ===== verification/Smelt_Memory.thy ===== *)
theory Smelt_Memory
  imports Smelt_Prelude
begin

text \<open>
  The platform memory allocator (\<open>src/platforms/linux/mem.c\<close> with the macros of
  \<open>inc/smlt_platform.h\<close>), in the default configuration without
  \<open>SMLT_CONFIG_LINUX_NUMA_ALIGN\<close>: a block of libnuma is over-allocated, the returned pointer
  is aligned inside it, and the two cells in front of it remember the block and its size for
  \<open>smlt_platform_free\<close>. The libnuma calls are parameters over an abstract allocator state.
\<close>

section \<open>Definitions\<close>

definition SMLT_MEM_IS_POWER_OF_TWO :: "u64 \<Rightarrow> bool" where
  "SMLT_MEM_IS_POWER_OF_TWO x \<longleftrightarrow> 0 < x \<and> x AND (x - 1) = 0"

definition SMLT_MEM_ALIGN :: "addr \<Rightarrow> u64 \<Rightarrow> addr" where
  "SMLT_MEM_ALIGN a al = (a + (al - 1)) AND - al"

text \<open>\<open>sizeof(void *)\<close> and \<open>sizeof(uintptr_t)\<close>.\<close>

abbreviation (input) PTR_SIZE :: u64 where
  "PTR_SIZE \<equiv> 8"

text \<open>
  \<open>smlt_platform_alloc\<close>. A bad alignment returns \<open>NULL\<close>; a failing \<open>numa_alloc_local\<close> hits the
  assertion and aborts, which is \<open>None\<close>.
\<close>

definition smlt_platform_alloc ::
  "(u64 \<Rightarrow> 'h \<Rightarrow> addr \<times> 'h) \<Rightarrow> u64 \<Rightarrow> u64 \<Rightarrow> bool \<Rightarrow> 'h \<times> mem \<Rightarrow> (addr \<times> 'h \<times> mem) option"
where
  "smlt_platform_alloc numa_alloc_local bytes align0 do_clear w =
     (let (h, m) = w; align = (if align0 < PTR_SIZE then PTR_SIZE else align0) in
      if \<not> SMLT_MEM_IS_POWER_OF_TWO align then Some (0, h, m)
      else
        let (buf, h') = numa_alloc_local (bytes + align + 2 * PTR_SIZE) h in
        if buf = 0 then None
        else
          let ret_buf = SMLT_MEM_ALIGN (buf + 2 * PTR_SIZE) align;
              m1 = m(ret_buf - PTR_SIZE := buf);
              m2 = m1(ret_buf - 2 * PTR_SIZE := bytes + align + 2 * PTR_SIZE);
              m3 = (if do_clear then mem_clear m2 ret_buf (unat bytes) else m2)
          in Some (ret_buf, h', m3))"

definition smlt_platform_alloc_on_node ::
  "(u64 \<Rightarrow> u8 \<Rightarrow> 'h \<Rightarrow> addr \<times> 'h) \<Rightarrow> int \<Rightarrow> u64 \<Rightarrow> u64 \<Rightarrow> u8 \<Rightarrow> bool \<Rightarrow> 'h \<times> mem \<Rightarrow> addr \<times> 'h \<times> mem"
where
  "smlt_platform_alloc_on_node numa_alloc_onnode numa_max_node bytes align0 node do_clear w =
     (let (h, m) = w; align = (if align0 < PTR_SIZE then PTR_SIZE else align0) in
      if int (unat node) > numa_max_node then (0, h, m)
      else if \<not> SMLT_MEM_IS_POWER_OF_TWO align then (0, h, m)
      else
        let (buf, h') = numa_alloc_onnode (bytes + align + 2 * PTR_SIZE) node h in
        if buf = 0 then (0, h', m)
        else
          let buf_aligned = SMLT_MEM_ALIGN (buf + 2 * PTR_SIZE) align;
              m1 = m(buf_aligned - PTR_SIZE := buf);
              m2 = m1(buf_aligned - 2 * PTR_SIZE := bytes + align + 2 * PTR_SIZE);
              m3 = (if do_clear then mem_clear m2 buf_aligned (unat bytes) else m2)
          in (buf_aligned, h', m3))"

definition smlt_platform_free ::
  "(addr \<Rightarrow> u64 \<Rightarrow> 'h \<Rightarrow> 'h) \<Rightarrow> addr \<Rightarrow> 'h \<times> mem \<Rightarrow> 'h \<times> mem"
where
  "smlt_platform_free numa_free hdr w =
     (let (h, m) = w in (numa_free (m (hdr - PTR_SIZE)) (m (hdr - 2 * PTR_SIZE)) h, m))"

section \<open>Powers of two\<close>

lemma nat_and_pred_eq_0:
  fixes x :: nat
  assumes "0 < x" "x AND (x - 1) = 0"
  shows "\<exists>k. x = 2 ^ k"
  using assms
proof (induction x rule: less_induct)
  case (less x)
  show ?case
  proof (cases "even x")
    case True
    then obtain y where x: "x = 2 * y" by auto
    then have "0 < y" using less.prems(1) by simp
    have "x - 1 = 2 * (y - 1) + 1" using \<open>0 < y\<close> by (simp add: x)
    then have "x AND (x - 1) = 2 * (y AND (y - 1))"
      using \<open>0 < y\<close> by (subst and_rec) (simp add: x)
    then have "y AND (y - 1) = 0" using less.prems(2) by simp
    then obtain k where "y = 2 ^ k" using less.IH[of y] \<open>0 < y\<close> x by auto
    then have "x = 2 ^ Suc k" by (simp add: x)
    then show ?thesis by blast
  next
    case False
    then obtain y where x: "x = 2 * y + 1" by (auto elim: oddE)
    have "x AND (x - 1) = 2 * y" by (subst and_rec) (simp add: x)
    then have "x = 2 ^ 0" using less.prems(2) x by simp
    then show ?thesis by blast
  qed
qed

lemma power_of_two_exp:
  assumes "SMLT_MEM_IS_POWER_OF_TWO x"
  shows "\<exists>k < 64. x = 2 ^ k"
proof -
  have "0 < unat x" using assms by (simp add: SMLT_MEM_IS_POWER_OF_TWO_def word_gt_0 unat_gt_0)
  moreover from this have "unat (x - 1) = unat x - 1"
    by (metis less_not_refl unat_0 unat_minus_one)
  then have "unat x AND (unat x - 1) = 0"
    using assms by (metis SMLT_MEM_IS_POWER_OF_TWO_def unsigned_and_eq unat_0)
  ultimately obtain k where k: "unat x = 2 ^ k" using nat_and_pred_eq_0 by blast
  moreover have "unat x < 2 ^ 64" using unsigned_less[of x] by simp
  ultimately have "k < 64" by (metis power_strict_increasing_iff one_less_numeral_iff semiring_norm(76))
  moreover have "x = of_nat (2 ^ k)"
    unfolding k[symmetric] by simp
  then have "x = 2 ^ k" by simp
  ultimately show ?thesis by blast
qed

lemma unat_power_two: "k < 64 \<Longrightarrow> unat (2 ^ k :: 64 word) = 2 ^ k"
proof -
  assume "k < 64"
  then have "(2::nat) ^ k < 2 ^ LENGTH(64)" by (intro power_strict_increasing) simp_all
  then have "unat (of_nat (2 ^ k) :: 64 word) = 2 ^ k" by (rule unat_of_nat_small)
  then show ?thesis by simp
qed

lemma SMLT_MEM_ALIGN_unat:
  assumes "k < 64" "unat a + 2 ^ k - 1 < 2 ^ 64"
  shows "unat (SMLT_MEM_ALIGN a (2 ^ k)) = (unat a + (2 ^ k - 1)) div 2 ^ k * 2 ^ k"
proof -
  have "a + (2 ^ k - 1) = of_nat (unat a + (2 ^ k - 1))"
    by (simp only: of_nat_add of_nat_diff one_le_power one_le_numeral) simp
  moreover have "unat a + (2 ^ k - 1) < 2 ^ LENGTH(64)"
    using assms(2) by simp
  ultimately have sum: "unat (a + (2 ^ k - 1)) = unat a + (2 ^ k - 1)"
    by (simp only: unat_of_nat_small)
  have "SMLT_MEM_ALIGN a (2 ^ k) = push_bit k (drop_bit k (a + (2 ^ k - 1)))"
    by (rule bit_word_eqI)
      (auto simp: SMLT_MEM_ALIGN_def minus_exp_eq_not_mask bit_simps)
  also have "unat \<dots> = push_bit k (drop_bit k (unat (a + (2 ^ k - 1))))"
    by (rule bit_eqI) (auto simp: bit_simps unsigned_drop_bit_eq dest: bit_imp_le_length)
  finally show ?thesis by (simp add: sum push_bit_eq_mult drop_bit_eq_div)
qed

lemma align_up_bounds:
  fixes x n :: nat
  assumes "0 < n"
  shows "x \<le> (x + (n - 1)) div n * n" "(x + (n - 1)) div n * n < x + n"
proof -
  have "x + (n - 1) = (x + (n - 1)) div n * n + (x + (n - 1)) mod n" by simp
  moreover have "(x + (n - 1)) mod n < n" using assms by simp
  ultimately show "x \<le> (x + (n - 1)) div n * n" "(x + (n - 1)) div n * n < x + n"
    using assms by linarith+
qed

lemma SMLT_MEM_ALIGN_bounds:
  assumes "SMLT_MEM_IS_POWER_OF_TWO al" "unat a + unat al \<le> 2 ^ 64"
  shows "unat al dvd unat (SMLT_MEM_ALIGN a al)"
    and "unat a \<le> unat (SMLT_MEM_ALIGN a al)"
    and "unat (SMLT_MEM_ALIGN a al) < unat a + unat al"
proof -
  obtain k where k: "k < 64" "al = 2 ^ k" using power_of_two_exp[OF assms(1)] by blast
  have pos: "0 < (2::nat) ^ k" by simp
  then have "unat a + 2 ^ k - 1 < 2 ^ 64"
    using assms(2) k by (simp add: unat_power_two)
  then have "unat (SMLT_MEM_ALIGN a al) = (unat a + (2 ^ k - 1)) div 2 ^ k * 2 ^ k"
    using k SMLT_MEM_ALIGN_unat by simp
  then show "unat al dvd unat (SMLT_MEM_ALIGN a al)"
    and "unat a \<le> unat (SMLT_MEM_ALIGN a al)"
    and "unat (SMLT_MEM_ALIGN a al) < unat a + unat al"
    using align_up_bounds[OF pos, of "unat a"] k by (simp_all add: unat_power_two)
qed

section \<open>A block and the pointer inside it\<close>

text \<open>What both allocation functions do with the block libnuma gave them.\<close>

definition place_block :: "mem \<Rightarrow> addr \<Rightarrow> u64 \<Rightarrow> u64 \<Rightarrow> bool \<Rightarrow> addr \<times> mem" where
  "place_block m buf bytes align do_clear =
     (let r = SMLT_MEM_ALIGN (buf + 16) align;
          m2 = m(r - 8 := buf, r - 16 := bytes + align + 16)
      in (r, if do_clear then mem_clear m2 r (unat bytes) else m2))"

definition eff_align :: "u64 \<Rightarrow> u64" where
  "eff_align al = (if al < 8 then 8 else al)"

lemma alloc_on_node_place_block:
  "smlt_platform_alloc_on_node na mx bytes al node clr (h, m) =
     (if int (unat node) > mx \<or> \<not> SMLT_MEM_IS_POWER_OF_TWO (eff_align al) then (0, h, m)
      else case na (bytes + eff_align al + 16) node h of (buf, h') \<Rightarrow>
        if buf = 0 then (0, h', m)
        else case place_block m buf bytes (eff_align al) clr of (r, m') \<Rightarrow> (r, h', m'))"
  by (simp add: smlt_platform_alloc_on_node_def place_block_def eff_align_def Let_def
      split: prod.split)

lemma alloc_place_block:
  "smlt_platform_alloc na bytes al clr (h, m) =
     (if \<not> SMLT_MEM_IS_POWER_OF_TWO (eff_align al) then Some (0, h, m)
      else case na (bytes + eff_align al + 16) h of (buf, h') \<Rightarrow>
        if buf = 0 then None
        else case place_block m buf bytes (eff_align al) clr of (r, m') \<Rightarrow> Some (r, h', m'))"
  by (simp add: smlt_platform_alloc_def place_block_def eff_align_def Let_def
      split: prod.split)

text \<open>The block handed out by libnuma ends inside the address space.\<close>

definition block_fits :: "addr \<Rightarrow> u64 \<Rightarrow> u64 \<Rightarrow> bool" where
  "block_fits buf bytes align \<longleftrightarrow> unat buf + unat bytes + unat align + 16 < 2 ^ 64"

lemma unat_diff_back:
  fixes x r :: addr
  assumes "unat x < unat r"
  shows "unat (x - r) = 2 ^ 64 - (unat r - unat x)"
  using assms by (simp add: unat_sub_if')

lemma unat_cell:
  assumes "unat r + 8 * j < 2 ^ 64"
  shows "unat (cell r j) = unat r + 8 * j"
proof -
  have "cell r j = of_nat (unat r + 8 * j)" by (simp add: cell_nat)
  moreover have "unat r + 8 * j < 2 ^ LENGTH(64)" using assms by simp
  ultimately show ?thesis by (simp only: unat_of_nat_small)
qed

lemma mem_clear_apart:
  assumes "unat x < unat a \<or> unat a + n \<le> unat x" "unat a + n \<le> 2 ^ 64"
  shows "mem_clear m a n x = m x"
proof (rule mem_clear_outside, cases "unat x < unat a")
  case True
  then show "n \<le> unat (x - a)" using unat_diff_back[OF True] assms(2) by simp
next
  case False
  then have "unat (x - a) = unat x - unat a" by (simp add: unat_sub word_le_nat_alt)
  then show "n \<le> unat (x - a)" using assms(1) False by simp
qed

lemma place_block_bounds:
  assumes "SMLT_MEM_IS_POWER_OF_TWO al" "block_fits buf bytes al"
    and "place_block m buf bytes al clr = (r, m')"
  shows "unat al dvd unat r" "unat buf + 16 \<le> unat r"
    and "unat r + unat bytes \<le> unat buf + unat (bytes + al + 16)"
    and "unat (bytes + al + 16) = unat bytes + unat al + 16"
    and "unat r < unat buf + 16 + unat al"
proof -
  have "unat (buf + 16) = unat buf + 16"
    using assms(2) by (subst unat_add_lem[THEN iffD1]) (simp_all add: block_fits_def)
  then have "unat (buf + 16) + unat al \<le> 2 ^ 64"
    using assms(2) by (simp add: block_fits_def)
  from SMLT_MEM_ALIGN_bounds[OF assms(1) this] \<open>unat (buf + 16) = unat buf + 16\<close>
  show "unat al dvd unat r" "unat buf + 16 \<le> unat r"
    using assms(3) by (auto simp: place_block_def Let_def)
  have "unat (bytes + al) = unat bytes + unat al"
    using assms(2) by (subst unat_add_lem[THEN iffD1]) (simp_all add: block_fits_def)
  then show eq: "unat (bytes + al + 16) = unat bytes + unat al + 16"
    using assms(2) by (subst unat_add_lem[THEN iffD1]) (simp_all add: block_fits_def)
  show "unat r < unat buf + 16 + unat al"
    using SMLT_MEM_ALIGN_bounds(3)[OF assms(1), of "buf + 16"] assms(3)
      \<open>unat (buf + 16) = unat buf + 16\<close> \<open>unat (buf + 16) + unat al \<le> 2 ^ 64\<close>
    by (auto simp: place_block_def Let_def)
  then show "unat r + unat bytes \<le> unat buf + unat (bytes + al + 16)" using eq by simp
qed

lemma place_block_header:
  assumes "SMLT_MEM_IS_POWER_OF_TWO al" "block_fits buf bytes al"
    and "place_block m buf bytes al clr = (r, m')"
  shows "m' (r - 8) = buf" "m' (r - 16) = bytes + al + 16"
proof -
  have b: "unat buf + 16 \<le> unat r" "unat bytes + 16 < 2 ^ 64"
    using place_block_bounds[OF assms] assms(2) by (auto simp: block_fits_def)
  have "unat (- 8 :: addr) = 2 ^ 64 - 8" "unat (- 16 :: addr) = 2 ^ 64 - 16" by simp_all
  then have "unat bytes \<le> unat (- 8 :: addr)" "unat bytes \<le> unat (- 16 :: addr)"
    using b(2) by simp_all
  then show "m' (r - 8) = buf" "m' (r - 16) = bytes + al + 16"
    using assms(3) by (auto simp: place_block_def Let_def split: if_splits)
qed

lemma place_block_cleared:
  assumes "place_block m buf bytes al True = (r, m')" "8 * j + 8 \<le> unat bytes"
  shows "m' (cell r j) = 0"
proof -
  have "unat bytes < 2 ^ 64" using unsigned_less[of bytes] by simp
  then have "j < 2 ^ 61" using assms(2) by simp
  then show ?thesis using assms by (auto simp: place_block_def Let_def mem_clear_cell)
qed

lemma place_block_outside:
  assumes "SMLT_MEM_IS_POWER_OF_TWO al" "block_fits buf bytes al"
    and "place_block m buf bytes al clr = (r, m')"
    and "unat x < unat buf \<or> unat buf + unat (bytes + al + 16) \<le> unat x"
  shows "m' x = m x"
proof -
  note b = place_block_bounds[OF assms(1-3)]
  have "unat (r - 8) = unat r - 8" "unat (r - 16) = unat r - 16"
    using b(2) by (simp_all add: unat_sub word_le_nat_alt)
  then have ne: "x \<noteq> r - 8" "x \<noteq> r - 16" using assms(4) b by auto
  have "unat bytes \<le> unat (x - r)"
  proof (cases "unat x < unat r")
    case True
    then show ?thesis using unat_diff_back[OF True] b assms(2) by (simp add: block_fits_def)
  next
    case False
    then have "unat (x - r) = unat x - unat r" by (simp add: unat_sub word_le_nat_alt)
    then show ?thesis using assms(4) b False by auto
  qed
  then show ?thesis using assms(3) ne by (auto simp: place_block_def Let_def split: if_splits)
qed

text \<open>What a pointer from an allocation is good for, and what releasing it gives back.\<close>

lemma place_block_sound:
  assumes two: "SMLT_MEM_IS_POWER_OF_TWO al" and fits: "block_fits buf bytes al"
    and place: "place_block m buf bytes al True = (r, m')"
  shows "unat al dvd unat r \<and> unat buf + 16 \<le> unat r \<and>
     unat r + unat bytes \<le> unat buf + unat (bytes + al + 16) \<and>
     (\<forall>j. 8 * j + 8 \<le> unat bytes \<longrightarrow> m' (cell r j) = 0) \<and>
     (\<forall>x. unat x < unat buf \<or> unat buf + unat (bytes + al + 16) \<le> unat x \<longrightarrow> m' x = m x) \<and>
     smlt_platform_free nf r (h'', m') = (nf buf (bytes + al + 16) h'', m')"
proof -
  note b = place_block_bounds[OF two fits place] place_block_header[OF two fits place]
  then have "smlt_platform_free nf r (h'', m') = (nf buf (bytes + al + 16) h'', m')"
    by (simp add: smlt_platform_free_def)
  then show ?thesis using b place_block_cleared[OF place] place_block_outside[OF two fits place] by blast
qed

lemma alloc_on_node_block:
  assumes call: "smlt_platform_alloc_on_node na mx bytes al node True (h, m) = (r, h', m')"
    and "r \<noteq> 0"
    and numa: "block_fits (fst (na (bytes + eff_align al + 16) node h)) bytes (eff_align al)"
  shows "\<exists>buf. na (bytes + eff_align al + 16) node h = (buf, h') \<and>
     unat (eff_align al) dvd unat r \<and>
     unat buf + 16 \<le> unat r \<and>
     unat r + unat bytes \<le> unat buf + unat (bytes + eff_align al + 16) \<and>
     (\<forall>j. 8 * j + 8 \<le> unat bytes \<longrightarrow> m' (cell r j) = 0) \<and>
     (\<forall>x. unat x < unat buf \<or> unat buf + unat (bytes + eff_align al + 16) \<le> unat x
          \<longrightarrow> m' x = m x) \<and>
     smlt_platform_free nf r (h'', m') = (nf buf (bytes + eff_align al + 16) h'', m')"
proof -
  obtain buf where na: "na (bytes + eff_align al + 16) node h = (buf, h')"
    and two: "SMLT_MEM_IS_POWER_OF_TWO (eff_align al)"
    and place: "place_block m buf bytes (eff_align al) True = (r, m')"
    using call \<open>r \<noteq> 0\<close>
    by (auto simp: alloc_on_node_place_block split: if_splits prod.splits)
  have "block_fits buf bytes (eff_align al)" using numa na by simp
  from place_block_sound[OF two this place, of nf h''] na show ?thesis by (intro exI[of _ buf]) simp
qed

lemma alloc_block:
  assumes call: "smlt_platform_alloc na bytes al True (h, m) = Some (r, h', m')"
    and "r \<noteq> 0"
    and numa: "block_fits (fst (na (bytes + eff_align al + 16) h)) bytes (eff_align al)"
  shows "\<exists>buf. na (bytes + eff_align al + 16) h = (buf, h') \<and> SMLT_MEM_IS_POWER_OF_TWO (eff_align al) \<and>
     place_block m buf bytes (eff_align al) True = (r, m') \<and> block_fits buf bytes (eff_align al)"
proof -
  obtain buf where "na (bytes + eff_align al + 16) h = (buf, h')" "SMLT_MEM_IS_POWER_OF_TWO (eff_align al)"
    "place_block m buf bytes (eff_align al) True = (r, m')"
    using call \<open>r \<noteq> 0\<close> by (auto simp: alloc_place_block split: if_splits prod.splits)
  with numa show ?thesis by simp
qed

section \<open>Two page-aligned blocks\<close>

text \<open>
  What the queue pair initialisers rely on: two blocks of \<open>sz\<close> bytes that libnuma hands out one
  after the other end inside the address space and do not overlap.
\<close>

definition numa_blocks_ok :: "(u64 \<Rightarrow> u8 \<Rightarrow> 'h \<Rightarrow> addr \<times> 'h) \<Rightarrow> u64 \<Rightarrow> u8 \<Rightarrow> u8 \<Rightarrow> 'h \<Rightarrow> bool" where
  "numa_blocks_ok na sz n1 n2 h =
     (let (b1, h1) = na sz n1 h; (b2, h2) = na sz n2 h1
      in unat b1 + unat sz < 2 ^ 64 \<and> unat b2 + unat sz < 2 ^ 64 \<and>
         (unat b1 + unat sz \<le> unat b2 \<or> unat b2 + unat sz \<le> unat b1))"

lemma page_block:
  assumes call: "smlt_platform_alloc_on_node na mx bytes 4096 nd True (h, m) = (r, h1, m1)" "r \<noteq> 0"
    and small: "unat bytes < 2 ^ 63"
    and fits: "unat (fst (na (bytes + 4096 + 16) nd h)) + unat (bytes + 4096 + 16) < 2 ^ 64"
  shows "\<exists>b. na (bytes + 4096 + 16) nd h = (b, h1) \<and> unat b \<le> unat r \<and>
           unat r + unat bytes \<le> unat b + unat (bytes + 4096 + 16) \<and>
           (\<forall>x. unat x < unat b \<or> unat b + unat (bytes + 4096 + 16) \<le> unat x \<longrightarrow> m1 x = m x)"
proof -
  have al: "eff_align 4096 = 4096" by (simp add: eff_align_def)
  have "unat bytes + 4096 + 16 < 2 ^ LENGTH(64)" using small by simp
  moreover have "bytes + 4096 + 16 = of_nat (unat bytes + 4096 + 16)" by simp
  ultimately have sz: "unat (bytes + 4096 + 16) = unat bytes + 4096 + 16"
    by (simp only: unat_of_nat_small)
  have "block_fits (fst (na (bytes + eff_align 4096 + 16) nd h)) bytes (eff_align 4096)"
    using fits sz by (simp add: block_fits_def al)
  from alloc_on_node_block[OF call this, where nf = "\<lambda>_ _ u. u" and h'' = "()"] obtain b where
    b: "na (bytes + 4096 + 16) nd h = (b, h1)" "unat b + 16 \<le> unat r"
    "unat r + unat bytes \<le> unat b + unat (bytes + 4096 + 16)"
    "\<forall>x. unat x < unat b \<or> unat b + unat (bytes + 4096 + 16) \<le> unat x \<longrightarrow> m1 x = m x"
    unfolding al by blast
  then show ?thesis by (intro exI[of _ b]) simp
qed

lemma two_page_blocks:
  assumes A: "smlt_platform_alloc_on_node na mx bytes 4096 n1 True (h, m) = (r1, h1, m1)" "r1 \<noteq> 0"
    and B: "smlt_platform_alloc_on_node na mx bytes 4096 n2 True (h1, m2) = (r2, h2, m3)" "r2 \<noteq> 0"
    and small: "unat bytes < 2 ^ 63" and numa: "numa_blocks_ok na (bytes + 4096 + 16) n1 n2 h"
  shows "unat r1 + unat bytes < 2 ^ 64" "unat r2 + unat bytes < 2 ^ 64"
    "unat r1 + unat bytes \<le> unat r2 \<or> unat r2 + unat bytes \<le> unat r1"
    "\<And>x. unat r1 \<le> unat x \<Longrightarrow> unat x < unat r1 + unat bytes \<Longrightarrow> m3 x = m2 x"
proof -
  let ?sz = "unat (bytes + 4096 + 16)"
  obtain b1 b2 h2' where n1: "na (bytes + 4096 + 16) n1 h = (b1, h1)"
    and n2: "na (bytes + 4096 + 16) n2 h1 = (b2, h2')"
    and ok: "unat b1 + ?sz < 2 ^ 64" "unat b2 + ?sz < 2 ^ 64"
      "unat b1 + ?sz \<le> unat b2 \<or> unat b2 + ?sz \<le> unat b1"
    using numa A by (auto simp: numa_blocks_ok_def alloc_on_node_place_block eff_align_def
        split: prod.splits if_splits)
  have P: "unat b1 \<le> unat r1" "unat r1 + unat bytes \<le> unat b1 + ?sz"
    using page_block[OF A small, unfolded n1 fst_conv, OF ok(1)] by blast+
  have Q: "unat b2 \<le> unat r2" "unat r2 + unat bytes \<le> unat b2 + ?sz"
    "\<And>x. unat x < unat b2 \<or> unat b2 + ?sz \<le> unat x \<Longrightarrow> m3 x = m2 x"
    using page_block[OF B small, unfolded n2 fst_conv, OF ok(2)] by blast+
  show "unat r1 + unat bytes < 2 ^ 64" "unat r2 + unat bytes < 2 ^ 64"
    "unat r1 + unat bytes \<le> unat r2 \<or> unat r2 + unat bytes \<le> unat r1"
    using ok P Q(1,2) by linarith+
  show "m3 x = m2 x" if "unat r1 \<le> unat x" "unat x < unat r1 + unat bytes" for x
    using that ok(3) P by (intro Q(3)) linarith
qed

section \<open>Properties\<close>

text \<open>
  Claim C27: a non-null pointer from \<open>smlt_platform_alloc_on_node\<close> is aligned as requested,
  the requested bytes and the two header cells lie inside the block libnuma returned, the
  object is zeroed, no cell outside the block is written, and \<open>smlt_platform_free\<close> hands
  exactly that block with its full size back to libnuma. The hypothesis is that libnuma's
  block ends inside the address space.
\<close>

theorem alloc_on_node_sound:
  assumes call: "smlt_platform_alloc_on_node na mx bytes al node True (h, m) = (r, h', m')"
    and "r \<noteq> 0"
    and numa: "block_fits (fst (na (bytes + eff_align al + 16) node h)) bytes (eff_align al)"
  shows "\<exists>buf. na (bytes + eff_align al + 16) node h = (buf, h') \<and>
     unat (eff_align al) dvd unat r \<and>
     unat buf + 16 \<le> unat r \<and>
     unat r + unat bytes \<le> unat buf + unat (bytes + eff_align al + 16) \<and>
     (\<forall>j. 8 * j + 8 \<le> unat bytes \<longrightarrow> m' (cell r j) = 0) \<and>
     (\<forall>x. unat x < unat buf \<or> unat buf + unat (bytes + eff_align al + 16) \<le> unat x
          \<longrightarrow> m' x = m x) \<and>
     smlt_platform_free nf r (h'', m') = (nf buf (bytes + eff_align al + 16) h'', m')"
  by (rule alloc_on_node_block[OF assms])

theorem alloc_on_node_sound_witness:
  "\<exists>r h' m'. smlt_platform_alloc_on_node (\<lambda>sz n h. (65536 + 8, h + unat sz)) 3 128 64 1 True
       (0 :: nat, \<lambda>_. 7) = (r, h', m') \<and> r = 65600 \<and> m' (cell r 15) = 0 \<and> m' (cell r 20) = 7 \<and>
     smlt_platform_free (\<lambda>b sz h. h - unat sz) r (h', m') = (0, m')"
proof -
  let ?na = "\<lambda>(sz :: u64) (n :: u8) h. (65536 + 8 :: addr, h + unat sz)"
  obtain r h' m' where call: "smlt_platform_alloc_on_node ?na 3 128 64 1 True
      (0 :: nat, \<lambda>_. 7) = (r, h', m')"
    by (metis prod_cases3)
  have "SMLT_MEM_IS_POWER_OF_TWO 64" by (simp add: SMLT_MEM_IS_POWER_OF_TWO_def)
  then have r: "r = 65600" and h': "h' = 208"
    using call by (auto simp: smlt_platform_alloc_on_node_def SMLT_MEM_ALIGN_def)
  have "block_fits (fst (?na (128 + eff_align 64 + 16) 1 (0 :: nat))) 128 (eff_align 64)"
    by (simp add: block_fits_def eff_align_def)
  from alloc_on_node_sound[OF call _ this, of "\<lambda>b sz h. h - unat sz" h']
  have "\<forall>j. 8 * j + 8 \<le> 128 \<longrightarrow> m' (cell r j) = 0"
    and out: "\<forall>x. 65544 + 208 \<le> unat x \<longrightarrow> m' x = 7"
    and "smlt_platform_free (\<lambda>b sz h. h - unat sz) r (h', m') = (0, m')"
    using r h' by (auto simp: eff_align_def)
  moreover from out have "m' (cell r 20) = 7" using r by (simp add: cell_def)
  ultimately show ?thesis using call r by simp
qed

end
