(* ===== verification/Smelt_Message.thy ===== *)
theory Smelt_Message
  imports Smelt_Memory
begin

text \<open>
  Messages (\<open>inc/smlt_message.h\<close>, \<open>src/message.c\<close>): the message descriptor, its allocation
  and release, and its accessors. The payload is the memory behind the data pointer, word
  \<open>i\<close> of it being \<open>msg_data i\<close>; nothing bounds the index, as nothing bounds it in C.
\<close>

section \<open>Definitions\<close>

record smlt_msg =
  msg_words :: u32
  msg_bufsize :: u32
  msg_data_ptr :: addr
  msg_data :: "nat \<Rightarrow> u64"

abbreviation (input) SMELT_MESSAGE_MIN_SIZE :: u32 where
  "SMELT_MESSAGE_MIN_SIZE \<equiv> 56"

text \<open>\<open>sizeof(struct smlt_msg)\<close>: two 32-bit fields and a pointer.\<close>

abbreviation (input) SIZEOF_SMLT_MSG :: u64 where
  "SIZEOF_SMLT_MSG \<equiv> 16"

abbreviation (input) SMLT_DEFAULT_ALIGNMENT :: u64 where
  "SMLT_DEFAULT_ALIGNMENT \<equiv> 0"

text \<open>
  \<open>smlt_message_alloc\<close>: the address of the descriptor and the descriptor; \<open>None\<close> where the
  code panics.
\<close>

definition smlt_message_alloc ::
  "(u64 \<Rightarrow> 'h \<Rightarrow> addr \<times> 'h) \<Rightarrow> u32 \<Rightarrow> 'h \<times> mem \<Rightarrow> (addr \<times> smlt_msg \<times> 'h \<times> mem) option"
where
  "smlt_message_alloc numa_alloc_local size0 w =
     (let size = (if size0 < SMELT_MESSAGE_MIN_SIZE then SMELT_MESSAGE_MIN_SIZE else size0) in
      case smlt_platform_alloc numa_alloc_local SIZEOF_SMLT_MSG SMLT_DEFAULT_ALIGNMENT True w of
        None \<Rightarrow> None
      | Some (msg, w1) \<Rightarrow>
          if msg = 0 then None
          else
            let words = size div 8;
                words' = (if size mod 8 \<noteq> 0 then words + 1 else words) in
            case smlt_platform_alloc numa_alloc_local (ucast size) SMLT_DEFAULT_ALIGNMENT True w1 of
              None \<Rightarrow> None
            | Some (data, w2) \<Rightarrow>
                if data = 0 then None
                else Some (msg, \<lparr>msg_words = words', msg_bufsize = size, msg_data_ptr = data,
                                 msg_data = (\<lambda>i. snd w2 (cell data i))\<rparr>, w2))"

definition smlt_message_alloc_no_buffer ::
  "(u64 \<Rightarrow> 'h \<Rightarrow> addr \<times> 'h) \<Rightarrow> 'h \<times> mem \<Rightarrow> (addr \<times> smlt_msg \<times> 'h \<times> mem) option"
where
  "smlt_message_alloc_no_buffer numa_alloc_local w =
     (case smlt_platform_alloc numa_alloc_local SIZEOF_SMLT_MSG SMLT_DEFAULT_ALIGNMENT True w of
        None \<Rightarrow> None
      | Some (msg, w1) \<Rightarrow>
          if msg = 0 then None
          else Some (msg, \<lparr>msg_words = 0, msg_bufsize = 0, msg_data_ptr = 0,
                           msg_data = (\<lambda>i. snd w1 (cell 0 i))\<rparr>, w1))"

text \<open>\<open>smlt_message_free\<close>: \<open>None\<close> is the null message. Both blocks are freed, data first.\<close>

definition smlt_message_free ::
  "(addr \<Rightarrow> u64 \<Rightarrow> 'h \<Rightarrow> 'h) \<Rightarrow> (addr \<times> smlt_msg) option \<Rightarrow> 'h \<times> mem \<Rightarrow> 'h \<times> mem"
where
  "smlt_message_free numa_free msg w =
     (case msg of
        None \<Rightarrow> w
      | Some (p, r) \<Rightarrow> smlt_platform_free numa_free p (smlt_platform_free numa_free (msg_data_ptr r) w))"

definition smlt_message_get_data :: "smlt_msg \<Rightarrow> nat \<Rightarrow> u64" where
  "smlt_message_get_data msg = msg_data msg"

definition smlt_message_set_data ::
  "smlt_msg \<Rightarrow> addr \<Rightarrow> (nat \<Rightarrow> u64) \<Rightarrow> u32 \<Rightarrow> u32 \<Rightarrow> smlt_msg"
where
  "smlt_message_set_data msg ptr data words bytes =
     msg\<lparr>msg_data_ptr := ptr, msg_data := data, msg_words := words, msg_bufsize := bytes\<rparr>"

definition smlt_msg_set_length :: "smlt_msg \<Rightarrow> u32 \<Rightarrow> smlt_msg" where
  "smlt_msg_set_length msg words = msg\<lparr>msg_words := words\<rparr>"

definition smlt_message_length_words :: "smlt_msg \<Rightarrow> u32" where
  "smlt_message_length_words msg = msg_words msg"

definition smlt_message_length_bytes :: "smlt_msg \<Rightarrow> u32" where
  "smlt_message_length_bytes msg = msg_words msg * 8"

section \<open>Library\<close>

text \<open>The message as the list of its words, and a message made of a list of words.\<close>

definition msg_payload :: "smlt_msg \<Rightarrow> u64 list" where
  "msg_payload msg = map (msg_data msg) [0..<unat (msg_words msg)]"

definition msg_of :: "u64 list \<Rightarrow> smlt_msg" where
  "msg_of xs = \<lparr>msg_words = of_nat (length xs), msg_bufsize = 8 * of_nat (length xs),
                msg_data_ptr = 8, msg_data = (\<lambda>i. if i < length xs then xs ! i else 0)\<rparr>"

lemma msg_payload_msg_of: "length xs < 2 ^ 32 \<Longrightarrow> msg_payload (msg_of xs) = xs"
proof -
  assume "length xs < 2 ^ 32"
  then have "unat (of_nat (length xs) :: u32) = length xs" by (simp add: unat_of_nat_small)
  then show ?thesis
    by (simp only: msg_payload_def msg_of_def smlt_msg.simps) (intro nth_equalityI, simp_all)
qed

lemma length_msg_payload [simp]: "length (msg_payload msg) = unat (msg_words msg)"
  by (simp add: msg_payload_def)

lemma nth_msg_payload: "i < unat (msg_words msg) \<Longrightarrow> msg_payload msg ! i = msg_data msg i"
  by (simp add: msg_payload_def)

lemma words_round_up:
  "(if x mod 8 \<noteq> 0 then x div 8 + 1 else x div 8) = (x + 7) div (8::nat)"
proof (cases "x mod 8 = 0")
  case True
  then show ?thesis by auto
next
  case False
  have "x + 7 = 8 * (x div 8) + x mod 8 + 7" by simp
  also have "\<dots> = (x mod 8 - 1) + 8 * (x div 8 + 1)" using False by simp
  finally have "(x + 7) div 8 = (x mod 8 - 1) div 8 + (x div 8 + 1)"
    by (simp only: div_mult_self2) 
  moreover have "(x mod 8 - 1) div 8 = 0" by (simp add: less_imp_diff_less)
  ultimately show ?thesis using False by simp
qed

lemma unat_words_round_up:
  fixes sz :: u32
  shows "unat (if sz mod 8 \<noteq> 0 then sz div 8 + 1 else sz div 8) = (unat sz + 7) div 8"
proof -
  have "sz mod 8 \<noteq> 0 \<longleftrightarrow> unat sz mod 8 \<noteq> 0" by (simp add: unat_eq_0 [symmetric] unat_mod del: unat_eq_0)
  moreover have "unat (sz div 8 + 1) = unat sz div 8 + 1"
  proof -
    have "unat sz < 2 ^ 32" using unsigned_less[of sz] by simp
    then show ?thesis by (subst unat_add_lem[THEN iffD1]) (simp_all add: unat_div)
  qed
  ultimately have "unat (if sz mod 8 \<noteq> 0 then sz div 8 + 1 else sz div 8) =
      (if unat sz mod 8 \<noteq> 0 then unat sz div 8 + 1 else unat sz div 8)" by (simp add: unat_div)
  then show ?thesis by (simp only: words_round_up)
qed

text \<open>
  What \<open>smlt_message_alloc\<close> relies on: the two blocks that libnuma hands out for a descriptor and a buffer of
  \<open>bytes\<close> bytes, each with 24 bytes for the header and the alignment, are aligned to words, end inside the
  address space and do not overlap.
\<close>

definition message_size :: "u32 \<Rightarrow> u32" where
  "message_size bytes = (if bytes < SMELT_MESSAGE_MIN_SIZE then SMELT_MESSAGE_MIN_SIZE else bytes)"

definition message_blocks_ok :: "(u64 \<Rightarrow> 'h \<Rightarrow> addr \<times> 'h) \<Rightarrow> u32 \<Rightarrow> 'h \<Rightarrow> bool" where
  "message_blocks_ok na bytes h =
     (let (b1, h1) = na (SIZEOF_SMLT_MSG + 24) h; (b2, _) = na (ucast (message_size bytes) + 24) h1
      in unat b1 mod 8 = 0 \<and> unat b2 mod 8 = 0 \<and>
         unat b1 + unat SIZEOF_SMLT_MSG + 24 < 2 ^ 64 \<and> unat b2 + unat (message_size bytes) + 24 < 2 ^ 64 \<and>
         (unat b1 + unat SIZEOF_SMLT_MSG + 24 \<le> unat b2 \<or> unat b2 + unat (message_size bytes) + 24 \<le> unat b1))"

text \<open>A buffer from \<open>smlt_platform_alloc\<close> with the default alignment, in a block that is aligned to words.\<close>

lemma default_block:
  assumes call: "smlt_platform_alloc na bytes SMLT_DEFAULT_ALIGNMENT True (h, m) = Some (r, h', m')" "r \<noteq> 0"
    and fits: "unat (fst (na (bytes + 24) h)) + unat bytes + 24 < 2 ^ 64" and al: "unat (fst (na (bytes + 24) h)) mod 8 = 0"
  obtains b where "na (bytes + 24) h = (b, h')" "unat r = unat b + 16"
    "\<forall>j. 8 * j + 8 \<le> unat bytes \<longrightarrow> m' (cell r j) = 0"
    "\<forall>x. unat x < unat b \<or> unat b + unat bytes + 24 \<le> unat x \<longrightarrow> m' x = m x"
    "m' (r - 8) = b" "m' (r - 16) = bytes + 24"
proof -
  have e: "eff_align SMLT_DEFAULT_ALIGNMENT = 8" by (simp add: eff_align_def)
  have sum: "bytes + eff_align SMLT_DEFAULT_ALIGNMENT + 16 = bytes + 24" by (simp add: e)
  note total = sum[unfolded e]
  have "block_fits (fst (na (bytes + eff_align SMLT_DEFAULT_ALIGNMENT + 16) h)) bytes (eff_align SMLT_DEFAULT_ALIGNMENT)"
    using fits unfolding sum by (simp add: block_fits_def e)
  from alloc_block[OF call this] obtain b where
    b: "na (bytes + 24) h = (b, h')" and two: "SMLT_MEM_IS_POWER_OF_TWO 8"
    and place: "place_block m b bytes 8 True = (r, m')" and fit: "block_fits b bytes 8"
    unfolding e total by blast
  note B = place_block_bounds[OF two fit place] and H = place_block_header[OF two fit place]
  have eight: "unat (8 :: u64) = 8" by simp
  have "unat r < unat b + 16 + 8" using B(5) by simp
  moreover have "8 dvd unat r" "8 dvd unat b" using B(1) al b by auto
  ultimately have r: "unat r = unat b + 16" using B(2) by presburger
  show thesis
  proof (rule that[OF b r])
    show "\<forall>j. 8 * j + 8 \<le> unat bytes \<longrightarrow> m' (cell r j) = 0" using place_block_cleared[OF place] by blast
    have "m' x = m x" if "unat x < unat b \<or> unat b + unat bytes + 24 \<le> unat x" for x
      by (rule place_block_outside[OF two fit place]) (use that B(4)[unfolded eight] in linarith)
    then show "\<forall>x. unat x < unat b \<or> unat b + unat bytes + 24 \<le> unat x \<longrightarrow> m' x = m x" by blast
  qed (use H in simp_all)
qed

lemma smlt_message_alloc_cases:
  assumes "smlt_message_alloc na bytes (h, m) = Some (p, msg, h', m')"
  obtains h1 m1 where "smlt_platform_alloc na SIZEOF_SMLT_MSG SMLT_DEFAULT_ALIGNMENT True (h, m) = Some (p, h1, m1)" "p \<noteq> 0"
    "smlt_platform_alloc na (ucast (message_size bytes)) SMLT_DEFAULT_ALIGNMENT True (h1, m1) = Some (msg_data_ptr msg, h', m')"
    "msg_data_ptr msg \<noteq> 0" "msg_bufsize msg = message_size bytes" "msg_data msg = (\<lambda>i. m' (cell (msg_data_ptr msg) i))"
    "unat (msg_words msg) = (unat (message_size bytes) + 7) div 8"
proof -
  let ?words = "if message_size bytes mod 8 \<noteq> 0 then message_size bytes div 8 + 1 else message_size bytes div 8"
  obtain q h1 m1 where A: "smlt_platform_alloc na SIZEOF_SMLT_MSG SMLT_DEFAULT_ALIGNMENT True (h, m) = Some (q, h1, m1)" "q \<noteq> 0"
    using assms by (auto simp: smlt_message_alloc_def Let_def split: option.splits prod.splits if_splits)
  have "smlt_message_alloc na bytes (h, m) =
      (case smlt_platform_alloc na (ucast (message_size bytes)) SMLT_DEFAULT_ALIGNMENT True (h1, m1) of
         None \<Rightarrow> None
       | Some (data, w2) \<Rightarrow>
           if data = 0 then None
           else Some (q, \<lparr>msg_words = ?words, msg_bufsize = message_size bytes, msg_data_ptr = data,
                          msg_data = (\<lambda>i. snd w2 (cell data i))\<rparr>, w2))"
    using A(2) unfolding smlt_message_alloc_def message_size_def Let_def A(1) by (simp only: option.case prod.case if_False)
  with assms obtain data where B: "smlt_platform_alloc na (ucast (message_size bytes)) SMLT_DEFAULT_ALIGNMENT True (h1, m1) = Some (data, h', m')"
    "data \<noteq> 0" "p = q" "msg = \<lparr>msg_words = ?words, msg_bufsize = message_size bytes, msg_data_ptr = data, msg_data = (\<lambda>i. m' (cell data i))\<rparr>"
    by (cases "smlt_platform_alloc na (ucast (message_size bytes)) SMLT_DEFAULT_ALIGNMENT True (h1, m1)") (simp_all split: prod.splits if_split_asm)
  then show thesis using that[of h1 m1] A unat_words_round_up[of "message_size bytes"] by simp
qed

section \<open>Properties\<close>

text \<open>
  Claim C29: a message from \<open>smlt_message_alloc\<close> owns what it describes. Its buffer holds at least 56 and at
  least \<open>bytes\<close> bytes and its word count is that rounded up to whole words; the second block that libnuma
  gave was requested with the size of the buffer, all words of the message lie in it, behind its header,
  and the complete words of the buffer are zero; the descriptor lies in the first block, apart from
  the words; and \<open>smlt_message_free\<close> gives exactly the two blocks back, with the sizes requested. The
  hypothesis is that libnuma's blocks are aligned to words, end inside the address space and do not overlap.
\<close>

theorem message_alloc_sound:
  assumes call: "smlt_message_alloc na bytes (h, m) = Some (p, msg, h', m')" and numa: "message_blocks_ok na bytes h"
  shows "56 \<le> unat (msg_bufsize msg) \<and> unat bytes \<le> unat (msg_bufsize msg) \<and>
     unat (msg_words msg) = (unat (msg_bufsize msg) + 7) div 8 \<and>
     (\<exists>b1 h1 b2. na (SIZEOF_SMLT_MSG + 24) h = (b1, h1) \<and> na (ucast (msg_bufsize msg) + 24) h1 = (b2, h') \<and>
        unat p = unat b1 + 16 \<and> unat (msg_data_ptr msg) = unat b2 + 16 \<and>
        unat (msg_data_ptr msg) + 8 * unat (msg_words msg) \<le> unat b2 + unat (msg_bufsize msg) + 24 \<and>
        (unat p + unat SIZEOF_SMLT_MSG \<le> unat (msg_data_ptr msg) \<or>
         unat (msg_data_ptr msg) + 8 * unat (msg_words msg) \<le> unat p) \<and>
        (\<forall>j. 8 * j + 8 \<le> unat (msg_bufsize msg) \<longrightarrow> msg_data msg j = 0) \<and>
        smlt_message_free nf (Some (p, msg)) (g, m') =
          (nf b1 (SIZEOF_SMLT_MSG + 24) (nf b2 (ucast (msg_bufsize msg) + 24) g), m'))"
proof -
  obtain h1 m1 where A: "smlt_platform_alloc na SIZEOF_SMLT_MSG SMLT_DEFAULT_ALIGNMENT True (h, m) = Some (p, h1, m1)" "p \<noteq> 0"
    and B: "smlt_platform_alloc na (ucast (message_size bytes)) SMLT_DEFAULT_ALIGNMENT True (h1, m1) = Some (msg_data_ptr msg, h', m')"
      "msg_data_ptr msg \<noteq> 0"
    and d: "msg_bufsize msg = message_size bytes" "msg_data msg = (\<lambda>i. m' (cell (msg_data_ptr msg) i))"
      "unat (msg_words msg) = (unat (message_size bytes) + 7) div 8"
    using smlt_message_alloc_cases[OF call] .
  let ?z = "unat (message_size bytes)"
  obtain b1 k1 b2 k2 where na: "na (SIZEOF_SMLT_MSG + 24) h = (b1, k1)" "na (ucast (message_size bytes) + 24) k1 = (b2, k2)"
    by fastforce
  note ok = numa[unfolded message_blocks_ok_def na Let_def prod.case]
  have z: "unat (ucast (message_size bytes) :: u64) = ?z" 
    using unsigned_less[of "message_size bytes", where 'a = nat] by (simp add: unsigned_ucast_eq take_bit_nat_eq_self)
  have k: "k1 = h1" using A na(1) by (auto simp: alloc_place_block eff_align_def split: if_splits prod.splits)
  have f1: "unat (fst (na (SIZEOF_SMLT_MSG + 24) h)) + unat SIZEOF_SMLT_MSG + 24 < 2 ^ 64" "unat (fst (na (SIZEOF_SMLT_MSG + 24) h)) mod 8 = 0"
    unfolding na(1) fst_conv using ok by blast+
  obtain c1 where c1: "na (SIZEOF_SMLT_MSG + 24) h = (c1, h1)" "unat p = unat c1 + 16" "m1 (p - 8) = c1" "m1 (p - 16) = SIZEOF_SMLT_MSG + 24"
    by (rule default_block[OF A f1])
  have f2: "unat (fst (na (ucast (message_size bytes) + 24) h1)) + unat (ucast (message_size bytes) :: u64) + 24 < 2 ^ 64"
    "unat (fst (na (ucast (message_size bytes) + 24) h1)) mod 8 = 0"
    unfolding na(2)[unfolded k] fst_conv z using ok by blast+
  obtain c2 where c2: "na (ucast (message_size bytes) + 24) h1 = (c2, h')" "unat (msg_data_ptr msg) = unat c2 + 16"
    "\<forall>j. 8 * j + 8 \<le> ?z \<longrightarrow> m' (cell (msg_data_ptr msg) j) = 0"
    "\<forall>x. unat x < unat c2 \<or> unat c2 + ?z + 24 \<le> unat x \<longrightarrow> m' x = m1 x"
    "m' (msg_data_ptr msg - 8) = c2" "m' (msg_data_ptr msg - 16) = ucast (message_size bytes) + 24"
    by (rule default_block[OF B f2, unfolded z])
  have b: "c1 = b1" "c2 = b2" "k2 = h'" using c1(1) c2(1) na k by simp_all
  have min: "56 \<le> ?z" "unat bytes \<le> ?z" by (auto simp: message_size_def word_less_nat_alt)
  have p: "unat (p - 8) = unat b1 + 8" "unat (p - 16) = unat b1" using c1(2) b(1) by (simp_all add: unat_sub word_le_nat_alt)
  have keep: "m' (p - 8) = b1" "m' (p - 16) = SIZEOF_SMLT_MSG + 24"
    using c2(4)[rule_format, of "p - 8"] c2(4)[rule_format, of "p - 16"] c1(3,4) ok b p by auto
  have "smlt_message_free nf (Some (p, msg)) (g, m') =
      (nf b1 (SIZEOF_SMLT_MSG + 24) (nf b2 (ucast (msg_bufsize msg) + 24) g), m')"
    using keep c2(5,6) b d(1) by (simp add: smlt_message_free_def smlt_platform_free_def)
  moreover have "unat (msg_data_ptr msg) + 8 * unat (msg_words msg) \<le> unat b2 + ?z + 24" using c2(2) d(3) b by simp
  moreover have "unat p + unat SIZEOF_SMLT_MSG \<le> unat (msg_data_ptr msg) \<or> unat (msg_data_ptr msg) + 8 * unat (msg_words msg) \<le> unat p"
    using ok c1(2) c2(2) d(3) b by auto
  moreover have "msg_data msg j = 0" if "8 * j + 8 \<le> ?z" for j using c2(3) that d(2) by simp
  ultimately show ?thesis using min c1(1,2) c2(1,2) b d(1,3) by auto
qed

theorem message_alloc_sound_witness:
  "\<exists>p msg h' m'. smlt_message_alloc (\<lambda>sz h. (h, h + 4096)) 100 (4096, \<lambda>_. 3) = Some (p, msg, h', m') \<and>
     unat (msg_bufsize msg) = 100 \<and> unat (msg_words msg) = 13 \<and> unat p = 4112 \<and> unat (msg_data_ptr msg) = 8208 \<and>
     msg_data msg 11 = 0 \<and> smlt_message_free (\<lambda>b sz g. (b, sz) # g) (Some (p, msg)) ([], m') = ([(4096, 40), (8192, 124)], m')"
proof -
  let ?na = "\<lambda>(sz :: u64) (h :: u64). (h, h + 4096)"
  have two: "SMLT_MEM_IS_POWER_OF_TWO 8" by (simp add: SMLT_MEM_IS_POWER_OF_TWO_def)
  obtain p msg h' m' where call: "smlt_message_alloc ?na 100 (4096, \<lambda>_. 3) = Some (p, msg, h', m')"
    by (simp add: smlt_message_alloc_def smlt_platform_alloc_def SMLT_MEM_ALIGN_def two)
  moreover have "message_blocks_ok ?na 100 4096" by (simp add: message_blocks_ok_def message_size_def)
  note sound = message_alloc_sound[OF call this, of "\<lambda>b sz g. (b, sz) # g" "[]"]
  obtain h1 m1 where "msg_bufsize msg = message_size 100" using smlt_message_alloc_cases[OF call] by metis
  then have "msg_bufsize msg = 100" by (simp add: message_size_def)
  ultimately show ?thesis using sound by (intro exI[of _ p] exI[of _ msg] exI[of _ h'] exI[of _ m']) auto
qed

end
