(* ===== verification/Fifo_Channel.thy ===== *)
theory Fifo_Channel
  imports Main
begin

text \<open>
  The contract that a point-to-point backend offers to its clients: a bounded first-in
  first-out channel with non-blocking operations. A backend instantiates the locale with its
  own state, its own send and receive, its invariant and the function that reads the pending
  messages out of its memory; every client fact is proved here once, for all interleavings of
  the two sides.
\<close>

section \<open>Runs of a channel\<close>

datatype 'm chan_op = Send 'm | Recv

text \<open>
  A schedule of the two endpoints: the messages accepted by the sender's calls, the messages
  delivered by the receiver's calls, in order, and the final state.
\<close>

fun chan_run ::
  "('m \<Rightarrow> 's \<Rightarrow> bool \<times> 's) \<Rightarrow> ('s \<Rightarrow> 'm option \<times> 's) \<Rightarrow> 'm chan_op list \<Rightarrow> 's \<Rightarrow>
   'm list \<times> 'm list \<times> 's"
where
  "chan_run snd_op rcv_op [] s = ([], [], s)"
| "chan_run snd_op rcv_op (Send x # ops) s =
     (let (ok, s1) = snd_op x s; (acc, del, s2) = chan_run snd_op rcv_op ops s1
      in (if ok then x # acc else acc, del, s2))"
| "chan_run snd_op rcv_op (Recv # ops) s =
     (let (r, s1) = rcv_op s; (acc, del, s2) = chan_run snd_op rcv_op ops s1
      in (acc, (case r of None \<Rightarrow> del | Some x \<Rightarrow> x # del), s2))"

fun op_ok :: "('m \<Rightarrow> bool) \<Rightarrow> 'm chan_op \<Rightarrow> bool" where
  "op_ok good (Send x) = good x"
| "op_ok good Recv = True"

lemma ops_okI: "(\<And>x. Send x \<in> set ops \<Longrightarrow> good x) \<Longrightarrow> list_all (op_ok good) ops"
proof -
  assume *: "\<And>x. Send x \<in> set ops \<Longrightarrow> good x"
  have "op_ok good oper" if "oper \<in> set ops" for oper
    using that * by (cases oper rule: chan_op.exhaust) auto
  then show ?thesis by (simp add: list_all_iff)
qed

text \<open>
  A blocking call is a loop over the non-blocking one; between two attempts the other side may
  act. \<open>env k\<close> is what the other side does to the state before attempt \<open>k\<close>; \<open>fuel\<close> bounds the
  attempts that are looked at, and \<open>None\<close> is a loop that has not returned within them.
\<close>

fun spin :: "(nat \<Rightarrow> 's \<Rightarrow> 's) \<Rightarrow> ('s \<Rightarrow> 'r option \<times> 's) \<Rightarrow> nat \<Rightarrow> nat \<Rightarrow> 's \<Rightarrow> ('r \<times> 's) option" where
  "spin env attempt k 0 s = None"
| "spin env attempt k (Suc fuel) s =
     (let (r, s') = attempt (env k s) in
      case r of Some v \<Rightarrow> Some (v, s') | None \<Rightarrow> spin env attempt (Suc k) fuel s')"

text \<open>An attempt that reports only whether it succeeded.\<close>

definition try_op :: "('s \<Rightarrow> bool \<times> 's) \<Rightarrow> 's \<Rightarrow> unit option \<times> 's" where
  "try_op f s = (let (ok, s') = f s in (if ok then Some () else None, s'))"

text \<open>The same loop over another representation of the state and of the result.\<close>

lemma spin_map:
  assumes "\<And>s. attempt' (g s) = map_prod (map_option f) g (attempt s)"
    and "\<And>k s. env' k (g s) = g (env k s)"
  shows "spin env' attempt' k fuel (g s) = map_option (map_prod f g) (spin env attempt k fuel s)"
proof (induction fuel arbitrary: k s)
  case 0
  then show ?case by simp
next
  case (Suc fuel)
  obtain r s' where "attempt (env k s) = (r, s')" by fastforce
  then show ?case using Suc.IH by (cases r) (simp_all add: assms)
qed

lemma spin_result:
  assumes "spin env attempt k fuel s = Some (v, s')"
  shows "\<exists>s0. attempt s0 = (Some v, s')"
  using assms
proof (induction fuel arbitrary: k s)
  case 0
  then show ?case by simp
next
  case (Suc fuel)
  obtain r s1 where "attempt (env k s) = (r, s1)" by fastforce
  then show ?case using Suc by (cases r) auto
qed

section \<open>The contract\<close>

locale fifo_channel =
  fixes inv :: "'s \<Rightarrow> bool"
    and pending :: "'s \<Rightarrow> 'm list"
    and good :: "'m \<Rightarrow> bool"
    and snd_op :: "'m \<Rightarrow> 's \<Rightarrow> bool \<times> 's"
    and rcv_op :: "'s \<Rightarrow> 'm option \<times> 's"
    and room :: "'s \<Rightarrow> nat"
  assumes send_accepted:
    "\<lbrakk>inv s; good x; snd_op x s = (True, s')\<rbrakk> \<Longrightarrow> inv s' \<and> pending s' = pending s @ [x] \<and> room s' = room s"
    and send_refused:
    "\<lbrakk>inv s; good x; snd_op x s = (False, s')\<rbrakk> \<Longrightarrow>
       inv s' \<and> pending s' = pending s \<and> pending s \<noteq> [] \<and> room s' = room s"
    and recv_delivers:
    "\<lbrakk>inv s; rcv_op s = (Some x, s')\<rbrakk> \<Longrightarrow> inv s' \<and> pending s = x # pending s' \<and> room s' = room s"
    and recv_empty:
    "\<lbrakk>inv s; rcv_op s = (None, s')\<rbrakk> \<Longrightarrow> inv s' \<and> pending s = [] \<and> pending s' = [] \<and> room s' = room s"
    and pending_bounded: "inv s \<Longrightarrow> length (pending s) \<le> room s"
begin

lemma send_cases:
  assumes "inv s" "good x" "snd_op x s = (ok, s')"
  shows "inv s'" "pending s' = pending s @ (if ok then [x] else [])" "room s' = room s"
    "ok \<or> pending s \<noteq> []"
  using send_accepted[OF assms(1,2), of s'] send_refused[OF assms(1,2), of s'] assms(3)
  by (cases ok; simp)+

lemma recv_cases:
  assumes "inv s" "rcv_op s = (r, s')"
  shows "inv s'" "pending s = (case r of None \<Rightarrow> [] | Some y \<Rightarrow> [y]) @ pending s'" "room s' = room s"
    "r = None \<Longrightarrow> pending s = [] \<and> pending s' = []"
  using recv_delivers[OF assms(1), of _ s'] recv_empty[OF assms(1), of s'] assms(2)
  by (cases r; simp)+

lemma run_fifo:
  assumes "inv s" "list_all (op_ok good) ops" "chan_run snd_op rcv_op ops s = (acc, del, s')"
  shows "inv s' \<and> pending s @ acc = del @ pending s' \<and> room s' = room s"
  using assms
proof (induction ops arbitrary: s acc del)
  case Nil
  then show ?case by simp
next
  case (Cons oper ops)
  show ?case
  proof (cases oper)
    case (Send x)
    obtain ok s1 where 1: "snd_op x s = (ok, s1)" by fastforce
    obtain acc1 where 2: "chan_run snd_op rcv_op ops s1 = (acc1, del, s')"
      and acc: "acc = (if ok then x # acc1 else acc1)"
      using Cons.prems(3) Send 1 by (auto split: prod.splits)
    have "good x" using Cons.prems(2) Send by simp
    note s1 = send_cases[OF Cons.prems(1) this 1]
    show ?thesis using Cons.IH[OF s1(1) _ 2] Cons.prems(2) acc s1(2,3) by (cases ok) simp_all
  next
    case Recv
    obtain r s1 where 1: "rcv_op s = (r, s1)" by fastforce
    obtain del1 where 2: "chan_run snd_op rcv_op ops s1 = (acc, del1, s')"
      and del: "del = (case r of None \<Rightarrow> del1 | Some x \<Rightarrow> x # del1)"
      using Cons.prems(3) Recv 1 by (auto split: prod.splits)
    note s1 = recv_cases[OF Cons.prems(1) 1]
    show ?thesis using Cons.IH[OF s1(1) _ 2] Cons.prems(2) del s1(2,3) by (cases r) simp_all
  qed
qed

text \<open>Started empty, the receiver sees a prefix of what was accepted, and at most \<open>room\<close> are under way.\<close>

lemma run_prefix:
  assumes "inv s" "pending s = []" "list_all (op_ok good) ops"
    "chan_run snd_op rcv_op ops s = (acc, del, s')"
  shows "acc = del @ pending s'" "length acc \<le> length del + room s"
proof -
  have *: "inv s' \<and> acc = del @ pending s' \<and> room s' = room s"
    using run_fifo[OF assms(1,3,4)] assms(2) by simp
  then show "acc = del @ pending s'" by simp
  show "length acc \<le> length del + room s" using * pending_bounded[of s'] by simp
qed

text \<open>Draining: as many receives as there are pending messages return all of them and empty the channel.\<close>

lemma drain:
  assumes "inv s"
  shows "\<exists>s'. chan_run snd_op rcv_op (replicate (length (pending s)) Recv) s = ([], pending s, s') \<and>
              inv s' \<and> pending s' = []"
  using assms
proof (induction "pending s" arbitrary: s)
  case Nil
  then show ?case by simp
next
  case (Cons x xs)
  obtain r s1 where 1: "rcv_op s = (r, s1)" by fastforce
  note s1' = recv_cases[OF Cons.prems 1]
  obtain y where r: "r = Some y" using s1'(4) Cons.hyps(2) by (cases r) simp_all
  then have s1: "inv s1" "pending s = y # pending s1" using s1' by simp_all
  then have "xs = pending s1" using Cons.hyps(2) by simp
  from Cons.hyps(1)[OF this s1(1)] s1(2) show ?case by (auto simp: 1 r)
qed

text \<open>
  No deadlock: a sender that retries while the receiver takes one message between two
  attempts gets its message in after at most one attempt per pending message and one more.
\<close>

lemma send_spin_terminates:
  assumes "inv s" "good x" "length (pending s) < fuel"
  shows "\<exists>s'. spin (\<lambda>_ s. snd (rcv_op s)) (try_op (snd_op x)) k fuel s = Some ((), s') \<and>
              inv s' \<and> (\<exists>ys zs. pending s = zs @ ys \<and> pending s' = ys @ [x])"
  using assms
proof (induction fuel arbitrary: s k)
  case 0
  then show ?case by simp
next
  case (Suc fuel)
  obtain r s1 where 1: "rcv_op s = (r, s1)" by fastforce
  note s1 = recv_cases[OF Suc.prems(1) 1]
  obtain ok s2 where 2: "snd_op x s1 = (ok, s2)" by fastforce
  note s2 = send_cases[OF s1(1) Suc.prems(2) 2]
  show ?case
  proof (cases ok)
    case True
    then show ?thesis using 1 2 s1(2) s2(1,2) by (auto simp: try_op_def)
  next
    case False
    then have "length (pending s2) < fuel"
      using Suc.prems(3) s1(2,4) s2(2,4) by (cases r) simp_all
    from Suc.IH[OF s2(1) Suc.prems(2) this, of "Suc k"] obtain s' ys zs where
      *: "spin (\<lambda>_ s. snd (rcv_op s)) (try_op (snd_op x)) (Suc k) fuel s2 = Some ((), s')"
      "inv s'" "pending s2 = zs @ ys" "pending s' = ys @ [x]" by blast
    moreover have "pending s = ((case r of None \<Rightarrow> [] | Some y \<Rightarrow> [y]) @ zs) @ ys"
      using s1(2) s2(2) False *(3) by simp
    moreover have "try_op (snd_op x) s1 = (None, s2)" using 2 False by (simp add: try_op_def)
    ultimately show ?thesis using 1 by (intro exI[of _ s']) auto
  qed
qed

text \<open>A receiver that waits on an empty channel returns the message the sender puts in while it waits.\<close>

lemma recv_spin_returns:
  assumes "inv s" "good x" "pending s = []" "k \<le> j" "j < k + fuel"
  shows "\<exists>s'. spin (\<lambda>i s. if i = j then snd (snd_op x s) else s) rcv_op k fuel s = Some (x, s') \<and>
              inv s' \<and> pending s' = []"
  using assms
proof (induction fuel arbitrary: s k)
  case 0
  then show ?case by simp
next
  case (Suc fuel)
  show ?case
  proof (cases "k = j")
    case True
    obtain ok s1 where 1: "snd_op x s = (ok, s1)" by fastforce
    note s1 = send_cases[OF Suc.prems(1,2) 1]
    obtain r s2 where 2: "rcv_op s1 = (r, s2)" by fastforce
    have "r = Some x \<and> inv s2 \<and> pending s2 = []"
      using recv_cases[OF s1(1) 2] s1(2,4) Suc.prems(3) by (cases r) simp_all
    then show ?thesis using True 1 2 by simp
  next
    case False
    obtain r s1 where 1: "rcv_op s = (r, s1)" by fastforce
    have "r = None \<and> inv s1 \<and> pending s1 = []"
      using recv_cases[OF Suc.prems(1) 1] Suc.prems(3) by (cases r) simp_all
    then show ?thesis
      using False 1 Suc.IH[of s1 "Suc k"] Suc.prems by simp
  qed
qed

end

section \<open>One writer, several readers\<close>

datatype 'm mcast_op = MSend 'm | MRecv nat

text \<open>A schedule of a writer and its readers: the accepted messages, the deliveries with their readers, the state.\<close>

fun mcast_run ::
  "('m \<Rightarrow> 's \<Rightarrow> bool \<times> 's) \<Rightarrow> (nat \<Rightarrow> 's \<Rightarrow> 'm option \<times> 's) \<Rightarrow> 'm mcast_op list \<Rightarrow> 's \<Rightarrow>
   'm list \<times> (nat \<times> 'm) list \<times> 's"
where
  "mcast_run snd_op rcv_op [] s = ([], [], s)"
| "mcast_run snd_op rcv_op (MSend x # ops) s =
     (let (ok, s1) = snd_op x s; (acc, del, s2) = mcast_run snd_op rcv_op ops s1
      in (if ok then x # acc else acc, del, s2))"
| "mcast_run snd_op rcv_op (MRecv i # ops) s =
     (let (r, s1) = rcv_op i s; (acc, del, s2) = mcast_run snd_op rcv_op ops s1
      in (acc, (case r of None \<Rightarrow> del | Some x \<Rightarrow> (i, x) # del), s2))"

definition delivered_to :: "nat \<Rightarrow> (nat \<times> 'm) list \<Rightarrow> 'm list" where
  "delivered_to i del = map snd (filter (\<lambda>p. fst p = i) del)"

fun mcast_op_ok :: "('m \<Rightarrow> bool) \<Rightarrow> nat \<Rightarrow> 'm mcast_op \<Rightarrow> bool" where
  "mcast_op_ok good n (MSend x) = good x"
| "mcast_op_ok good n (MRecv i) = (i < n)"

locale multicast_channel =
  fixes inv :: "'s \<Rightarrow> bool"
    and readers :: "'s \<Rightarrow> nat"
    and pending :: "nat \<Rightarrow> 's \<Rightarrow> 'm list"
    and good :: "'m \<Rightarrow> bool"
    and snd_op :: "'m \<Rightarrow> 's \<Rightarrow> bool \<times> 's"
    and rcv_op :: "nat \<Rightarrow> 's \<Rightarrow> 'm option \<times> 's"
  assumes msend: "\<lbrakk>inv s; good x; snd_op x s = (ok, s')\<rbrakk> \<Longrightarrow>
      inv s' \<and> readers s' = readers s \<and>
      (\<forall>i < readers s. pending i s' = pending i s @ (if ok then [x] else []))"
    and mrecv: "\<lbrakk>inv s; i < readers s; rcv_op i s = (r, s')\<rbrakk> \<Longrightarrow>
      inv s' \<and> readers s' = readers s \<and>
      pending i s = (case r of None \<Rightarrow> [] | Some x \<Rightarrow> [x]) @ pending i s' \<and>
      (r = None \<longrightarrow> pending i s = []) \<and>
      (\<forall>j < readers s. j \<noteq> i \<longrightarrow> pending j s' = pending j s)"
begin

lemma mcast_run_each:
  assumes "inv s" "list_all (mcast_op_ok good (readers s)) ops" "mcast_run snd_op rcv_op ops s = (acc, del, s')"
  shows "inv s' \<and> readers s' = readers s \<and>
         (\<forall>i < readers s. pending i s @ acc = delivered_to i del @ pending i s')"
  using assms
proof (induction ops arbitrary: s acc del)
  case Nil
  then show ?case by (simp add: delivered_to_def)
next
  case (Cons oper ops)
  show ?case
  proof (cases oper)
    case (MSend x)
    obtain ok s1 where 1: "snd_op x s = (ok, s1)" by fastforce
    obtain acc1 where 2: "mcast_run snd_op rcv_op ops s1 = (acc1, del, s')"
      and acc: "acc = (if ok then x # acc1 else acc1)"
      using Cons.prems(3) MSend 1 by (auto split: prod.splits)
    have "good x" using Cons.prems(2) MSend by simp
    from msend[OF Cons.prems(1) this 1] have s1: "inv s1" "readers s1 = readers s"
      "\<And>i. i < readers s \<Longrightarrow> pending i s1 = pending i s @ (if ok then [x] else [])" by simp_all
    have "list_all (mcast_op_ok good (readers s1)) ops" using Cons.prems(2) s1(2) by simp
    from Cons.IH[OF s1(1) this 2] show ?thesis using s1(2,3) acc by (cases ok) simp_all
  next
    case (MRecv i)
    obtain r s1 where 1: "rcv_op i s = (r, s1)" by fastforce
    obtain del1 where 2: "mcast_run snd_op rcv_op ops s1 = (acc, del1, s')"
      and del: "del = (case r of None \<Rightarrow> del1 | Some x \<Rightarrow> (i, x) # del1)"
      using Cons.prems(3) MRecv 1 by (auto split: prod.splits)
    have "i < readers s" using Cons.prems(2) MRecv by simp
    from mrecv[OF Cons.prems(1) this 1] have s1: "inv s1" "readers s1 = readers s"
      "pending i s = (case r of None \<Rightarrow> [] | Some x \<Rightarrow> [x]) @ pending i s1"
      "\<And>j. j < readers s \<Longrightarrow> j \<noteq> i \<Longrightarrow> pending j s1 = pending j s" by simp_all
    have "list_all (mcast_op_ok good (readers s1)) ops" using Cons.prems(2) s1(2) by simp
    note ih = Cons.IH[OF s1(1) this 2]
    have "pending j s @ acc = delivered_to j del @ pending j s'" if "j < readers s" for j
    proof (cases "j = i")
      case True
      then show ?thesis using ih s1(2,3) that del by (cases r) (simp_all add: delivered_to_def)
    next
      case False
      then show ?thesis using ih s1(2) s1(4)[OF that False, symmetric] that del
        by (cases r) (simp_all add: delivered_to_def)
    qed
    then show ?thesis using ih s1(2) by simp
  qed
qed

end

text \<open>A point-to-point channel is a multicast channel with one reader.\<close>

sublocale fifo_channel \<subseteq> single: multicast_channel
  inv "\<lambda>_. 1" "\<lambda>_. pending" good snd_op "\<lambda>_. rcv_op"
proof unfold_locales
  fix s x ok s'
  assume a: "inv s" "good x" "snd_op x s = (ok, s')"
  from send_cases[OF a] show "inv s' \<and> 1 = (1 :: nat) \<and>
      (\<forall>i < (1 :: nat). pending s' = pending s @ (if ok then [x] else []))" by simp
next
  fix s and i :: nat and r s'
  assume a: "inv s" "rcv_op s = (r, s')" and i: "i < 1"
  from recv_cases[OF a] show "inv s' \<and> 1 = (1 :: nat) \<and>
      pending s = (case r of None \<Rightarrow> [] | Some x \<Rightarrow> [x]) @ pending s' \<and>
      (r = None \<longrightarrow> pending s = []) \<and> (\<forall>j < (1 :: nat). j \<noteq> i \<longrightarrow> pending s' = pending s)"
    using i by simp
qed

section \<open>Both directions of a link\<close>

text \<open>The direction of an operation is a truth value; a schedule mixes the operations of both directions.\<close>

datatype 'm duplex_op = DSend bool 'm | DRecv bool

fun duplex_run ::
  "(bool \<Rightarrow> 'm \<Rightarrow> 's \<Rightarrow> bool \<times> 's) \<Rightarrow> (bool \<Rightarrow> 's \<Rightarrow> 'm option \<times> 's) \<Rightarrow> 'm duplex_op list \<Rightarrow> 's \<Rightarrow>
   (bool \<times> 'm) list \<times> (bool \<times> 'm) list \<times> 's"
where
  "duplex_run snd_op rcv_op [] s = ([], [], s)"
| "duplex_run snd_op rcv_op (DSend d x # ops) s =
     (let (ok, s1) = snd_op d x s; (acc, del, s2) = duplex_run snd_op rcv_op ops s1
      in (if ok then (d, x) # acc else acc, del, s2))"
| "duplex_run snd_op rcv_op (DRecv d # ops) s =
     (let (r, s1) = rcv_op d s; (acc, del, s2) = duplex_run snd_op rcv_op ops s1
      in (acc, (case r of None \<Rightarrow> del | Some x \<Rightarrow> (d, x) # del), s2))"

definition in_direction :: "bool \<Rightarrow> (bool \<times> 'm) list \<Rightarrow> 'm list" where
  "in_direction d xs = map snd (filter (\<lambda>p. fst p = d) xs)"

lemma in_direction_simps [simp]:
  "in_direction d [] = []"
  "in_direction d ((d', x) # xs) = (if d' = d then x # in_direction d xs else in_direction d xs)"
  by (simp_all add: in_direction_def)

fun duplex_op_ok :: "('m \<Rightarrow> bool) \<Rightarrow> 'm duplex_op \<Rightarrow> bool" where
  "duplex_op_ok good (DSend d x) = good x"
| "duplex_op_ok good (DRecv d) = True"

locale duplex_channel =
  fixes inv :: "'s \<Rightarrow> bool"
    and pending :: "bool \<Rightarrow> 's \<Rightarrow> 'm list"
    and good :: "'m \<Rightarrow> bool"
    and snd_op :: "bool \<Rightarrow> 'm \<Rightarrow> 's \<Rightarrow> bool \<times> 's"
    and rcv_op :: "bool \<Rightarrow> 's \<Rightarrow> 'm option \<times> 's"
  assumes dsend: "\<lbrakk>inv s; good x; snd_op d x s = (ok, s')\<rbrakk> \<Longrightarrow>
      inv s' \<and> pending d s' = pending d s @ (if ok then [x] else []) \<and> pending (\<not> d) s' = pending (\<not> d) s \<and>
      (ok \<or> pending d s \<noteq> [])"
    and drecv: "\<lbrakk>inv s; rcv_op d s = (r, s')\<rbrakk> \<Longrightarrow>
      inv s' \<and> pending d s = (case r of None \<Rightarrow> [] | Some x \<Rightarrow> [x]) @ pending d s' \<and>
      pending (\<not> d) s' = pending (\<not> d) s \<and> (r = None \<longrightarrow> pending d s = [])"
begin

lemma duplex_run_each:
  assumes "inv s" "list_all (duplex_op_ok good) ops" "duplex_run snd_op rcv_op ops s = (acc, del, s')"
  shows "inv s' \<and> (\<forall>d. pending d s @ in_direction d acc = in_direction d del @ pending d s')"
  using assms
proof (induction ops arbitrary: s acc del)
  case Nil
  then show ?case by simp
next
  case (Cons oper ops)
  show ?case
  proof (cases oper)
    case (DSend d x)
    obtain ok s1 where 1: "snd_op d x s = (ok, s1)" by fastforce
    obtain acc1 where 2: "duplex_run snd_op rcv_op ops s1 = (acc1, del, s')"
      and acc: "acc = (if ok then (d, x) # acc1 else acc1)"
      using Cons.prems(3) DSend 1 by (auto split: prod.splits)
    have "good x" using Cons.prems(2) DSend by simp
    note s1 = dsend[OF Cons.prems(1) this 1]
    have ih: "inv s' \<and> (\<forall>d. pending d s1 @ in_direction d acc1 = in_direction d del @ pending d s')"
      using Cons.IH[OF conjunct1[OF s1] _ 2] Cons.prems(2) by simp
    have "pending d' s @ in_direction d' acc = pending d' s1 @ in_direction d' acc1" for d'
      using s1 acc by (cases "d' = d") auto
    then show ?thesis using ih by simp
  next
    case (DRecv d)
    obtain r s1 where 1: "rcv_op d s = (r, s1)" by fastforce
    obtain del1 where 2: "duplex_run snd_op rcv_op ops s1 = (acc, del1, s')"
      and del: "del = (case r of None \<Rightarrow> del1 | Some x \<Rightarrow> (d, x) # del1)"
      using Cons.prems(3) DRecv 1 by (auto split: prod.splits)
    note s1 = drecv[OF Cons.prems(1) 1]
    have ih: "inv s' \<and> (\<forall>d. pending d s1 @ in_direction d acc = in_direction d del1 @ pending d s')"
      using Cons.IH[OF conjunct1[OF s1] _ 2] Cons.prems(2) by simp
    have "pending d' s @ in_direction d' acc = in_direction d' del @ pending d' s'" for d'
    proof -
      let ?pre = "if d' = d then (case r of None \<Rightarrow> [] | Some x \<Rightarrow> [x]) else []"
      have "pending d' s = ?pre @ pending d' s1" using s1 by (cases "d' = d") auto
      moreover have "in_direction d' del = ?pre @ in_direction d' del1" using del by (cases r) simp_all
      moreover have "pending d' s1 @ in_direction d' acc = in_direction d' del1 @ pending d' s'" using ih by blast
      ultimately show ?thesis by simp
    qed
    then show ?thesis using ih by simp
  qed
qed

end

end
