(* ===== verification/Ffq_Queue.thy ===== *)
theory Ffq_Queue
  imports Smelt_Error Smelt_Message Fifo_Channel
begin

text \<open>
  The FFQ backend (\<open>inc/backends/ffq/\<close>, \<open>src/backends/ffq/\<close>): one-directional rings of
  cache-line slots in which the first payload word is also the full/empty flag. A slot whose
  first word is \<open>SMLT_FFQ_SLOT_EMPTY\<close> (all ones) is free; the sender writes the first word last
  and the receiver resets it after copying. The theory holds the operations, the invariant and
  the refinement to a bounded first-in first-out channel.
\<close>

section \<open>Queues\<close>

abbreviation (input) SMLT_FFQ_SLOT_EMPTY :: u64 where "SMLT_FFQ_SLOT_EMPTY \<equiv> - 1"
abbreviation (input) SMLT_FFQ_SLOT_NOTIFY :: u64 where "SMLT_FFQ_SLOT_NOTIFY \<equiv> 0"
abbreviation (input) SMLT_FFQ_MSG_BYTES :: u64 where "SMLT_FFQ_MSG_BYTES \<equiv> 64"
abbreviation (input) SMLT_FFQ_MSG_WORDS :: u16 where "SMLT_FFQ_MSG_WORDS \<equiv> 8"

datatype smlt_ffq_direction_t = SMLT_FFQ_DIRECTION_SEND | SMLT_FFQ_DIRECTION_RECV

record smlt_ffq_queue =
  fq_slots :: addr
  fq_size :: u16
  fq_pos :: u16
  fq_direction :: smlt_ffq_direction_t

text \<open>The loop of \<open>smlt_ffq_queue_init_tx\<close> that marks the first \<open>n\<close> slots empty.\<close>

fun ffq_mark_empty :: "mem \<Rightarrow> addr \<Rightarrow> nat \<Rightarrow> mem" where
  "ffq_mark_empty m slots 0 = m"
| "ffq_mark_empty m slots (Suc i) =
     (ffq_mark_empty m slots i)(slots + 64 * of_nat i := SMLT_FFQ_SLOT_EMPTY)"

definition smlt_ffq_queue_init_tx ::
  "mem \<Rightarrow> addr \<Rightarrow> u16 \<Rightarrow> errval_t \<times> mem \<times> smlt_ffq_queue"
where
  "smlt_ffq_queue_init_tx m buf slots =
     (errval SMLT_SUCCESS, ffq_mark_empty m buf (unat slots),
      \<lparr>fq_slots = buf, fq_size = slots, fq_pos = 0, fq_direction = SMLT_FFQ_DIRECTION_SEND\<rparr>)"

definition smlt_ffq_queue_init_rx :: "addr \<Rightarrow> u16 \<Rightarrow> errval_t \<times> smlt_ffq_queue" where
  "smlt_ffq_queue_init_rx buf slots =
     (errval SMLT_SUCCESS,
      \<lparr>fq_slots = buf, fq_size = slots, fq_pos = 0, fq_direction = SMLT_FFQ_DIRECTION_RECV\<rparr>)"

definition smlt_ffq_queue_get_next :: "smlt_ffq_queue \<Rightarrow> addr" where
  "smlt_ffq_queue_get_next q = fq_slots q + 64 * ucast (fq_pos q)"

definition smlt_ffq_queue_can_send :: "mem \<Rightarrow> smlt_ffq_queue \<Rightarrow> bool" where
  "smlt_ffq_queue_can_send m q =
     (if fq_direction q \<noteq> SMLT_FFQ_DIRECTION_SEND then False
      else let slot = fq_slots q + 64 * ucast (fq_pos q) in m slot = SMLT_FFQ_SLOT_EMPTY)"

text \<open>\<open>if (++q->pos == q->size) q->pos = 0;\<close>\<close>

definition ffq_advance :: "smlt_ffq_queue \<Rightarrow> smlt_ffq_queue" where
  "ffq_advance q = q\<lparr>fq_pos := (if fq_pos q + 1 = fq_size q then 0 else fq_pos q + 1)\<rparr>"

definition smlt_ffq_queue_send_raw ::
  "mem \<Rightarrow> smlt_ffq_queue \<Rightarrow> (nat \<Rightarrow> u64) \<Rightarrow> u16 \<Rightarrow> errval_t \<times> mem \<times> smlt_ffq_queue"
where
  "smlt_ffq_queue_send_raw m q val_ptr num0 =
     (if \<not> smlt_ffq_queue_can_send m q then (errval SMLT_ERR_QUEUE_FULL, m, q)
      else
        let s = fq_slots q + 64 * ucast (fq_pos q);
            num = (if num0 > SMLT_FFQ_MSG_WORDS then SMLT_FFQ_MSG_WORDS else num0);
            m1 = copy_to_mem m s val_ptr 1 (unat num);
            m2 = m1(s := val_ptr 0)
        in (errval SMLT_SUCCESS, m2, ffq_advance q))"

definition smlt_ffq_queue_notify ::
  "mem \<Rightarrow> smlt_ffq_queue \<Rightarrow> errval_t \<times> mem \<times> smlt_ffq_queue"
where
  "smlt_ffq_queue_notify m q =
     (if \<not> smlt_ffq_queue_can_send m q then (errval SMLT_ERR_QUEUE_FULL, m, q)
      else
        let s = fq_slots q + 64 * ucast (fq_pos q)
        in (errval SMLT_SUCCESS, m(s := SMLT_FFQ_SLOT_NOTIFY), ffq_advance q))"

definition smlt_ffq_queue_can_recv :: "mem \<Rightarrow> smlt_ffq_queue \<Rightarrow> bool" where
  "smlt_ffq_queue_can_recv m c =
     (if fq_direction c \<noteq> SMLT_FFQ_DIRECTION_RECV then False
      else let slot = fq_slots c + 64 * ucast (fq_pos c) in m slot \<noteq> SMLT_FFQ_SLOT_EMPTY)"

text \<open>\<open>smlt_ffq_queue_recv_raw\<close>: \<open>val_ptr\<close> is \<open>None\<close> for a null pointer.\<close>

definition smlt_ffq_queue_recv_raw ::
  "mem \<Rightarrow> smlt_ffq_queue \<Rightarrow> (nat \<Rightarrow> u64) option \<Rightarrow> u16 \<Rightarrow>
   errval_t \<times> mem \<times> smlt_ffq_queue \<times> (nat \<Rightarrow> u64) option"
where
  "smlt_ffq_queue_recv_raw m q val_ptr num0 =
     (let s = fq_slots q + 64 * ucast (fq_pos q) in
      if m s = SMLT_FFQ_SLOT_EMPTY then (errval SMLT_ERR_QUEUE_EMPTY, m, q, val_ptr)
      else
        let num = (if num0 > SMLT_FFQ_MSG_WORDS then SMLT_FFQ_MSG_WORDS else num0);
            val' = map_option (\<lambda>f. copy_from_mem m s f (unat num)) val_ptr
        in (errval SMLT_SUCCESS, m(s := SMLT_FFQ_SLOT_EMPTY), ffq_advance q, val'))"

section \<open>Queue pairs\<close>

record smlt_ffq_queuepair =
  fqp_tx :: smlt_ffq_queue
  fqp_rx :: smlt_ffq_queue

text \<open>
  \<open>smlt_ffq_queuepair_init\<close>, with the allocator as a parameter. The first block carries the
  direction from \<open>dst\<close> to \<open>src\<close>. The queue initialisers always succeed, so that the only
  failures are those of the allocator.
\<close>

definition smlt_ffq_queuepair_init ::
  "(u64 \<Rightarrow> u64 \<Rightarrow> u8 \<Rightarrow> bool \<Rightarrow> 'h \<times> mem \<Rightarrow> addr \<times> 'h \<times> mem) \<Rightarrow> (addr \<Rightarrow> 'h \<times> mem \<Rightarrow> 'h \<times> mem) \<Rightarrow>
   u16 \<Rightarrow> u8 \<Rightarrow> u8 \<Rightarrow> smlt_ffq_queuepair \<Rightarrow> smlt_ffq_queuepair \<Rightarrow> 'h \<times> mem \<Rightarrow>
   errval_t \<times> smlt_ffq_queuepair \<times> smlt_ffq_queuepair \<times> 'h \<times> mem"
where
  "smlt_ffq_queuepair_init alloc free num_slots node_src node_dst src dst w =
     (let chan_size = ucast num_slots * SMLT_FFQ_MSG_BYTES;
          (shm_src, h1, m1) = alloc chan_size 4096 node_src True w in
      if shm_src = 0 then (errval SMLT_ERR_MALLOC_FAIL, src, dst, h1, m1)
      else
        let (err, rx) = smlt_ffq_queue_init_rx shm_src num_slots; src1 = src\<lparr>fqp_rx := rx\<rparr> in
        if smlt_err_is_fail err then (errval SMLT_ERR_QUEUE_INIT, src1, dst, free shm_src (h1, m1))
        else
          let (err, m2, tx) = smlt_ffq_queue_init_tx m1 shm_src num_slots;
              dst1 = dst\<lparr>fqp_tx := tx\<rparr> in
          if smlt_err_is_fail err then (errval SMLT_ERR_QUEUE_INIT, src1, dst1, free shm_src (h1, m2))
          else
            let (shm_dst, h3, m3) = alloc chan_size 4096 node_dst True (h1, m2) in
            if shm_dst = 0 then (errval SMLT_ERR_QUEUE_INIT, src1, dst1, free shm_src (h3, m3))
            else
              let (err, rx) = smlt_ffq_queue_init_rx shm_dst num_slots;
                  dst2 = dst1\<lparr>fqp_rx := rx\<rparr> in
              if smlt_err_is_fail err
              then (errval SMLT_ERR_QUEUE_INIT, src1, dst2, free shm_dst (free shm_src (h3, m3)))
              else
                let (err, m4, tx) = smlt_ffq_queue_init_tx m3 shm_dst num_slots;
                    src2 = src1\<lparr>fqp_tx := tx\<rparr> in
                if smlt_err_is_fail err
                then (errval SMLT_ERR_QUEUE_INIT, src2, dst2, free shm_dst (free shm_src (h3, m4)))
                else (errval SMLT_SUCCESS, src2, dst2, h3, m4))"

definition smlt_ffq_queuepair_destroy :: "smlt_ffq_queuepair \<Rightarrow> errval_t" where
  "smlt_ffq_queuepair_destroy qp = errval SMLT_SUCCESS"

definition smlt_ffq_queuepair_send_raw ::
  "mem \<Rightarrow> smlt_ffq_queuepair \<Rightarrow> (nat \<Rightarrow> u64) \<Rightarrow> u16 \<Rightarrow> errval_t \<times> mem \<times> smlt_ffq_queuepair"
where
  "smlt_ffq_queuepair_send_raw m qp val_ptr num =
     (let (err, m', tx) = smlt_ffq_queue_send_raw m (fqp_tx qp) val_ptr num
      in (err, m', qp\<lparr>fqp_tx := tx\<rparr>))"

definition smlt_ffq_queuepair_notify_raw ::
  "mem \<Rightarrow> smlt_ffq_queuepair \<Rightarrow> errval_t \<times> mem \<times> smlt_ffq_queuepair"
where
  "smlt_ffq_queuepair_notify_raw m qp =
     (let (err, m', tx) = smlt_ffq_queue_notify m (fqp_tx qp) in (err, m', qp\<lparr>fqp_tx := tx\<rparr>))"

definition smlt_ffq_queuepair_can_send_raw :: "mem \<Rightarrow> smlt_ffq_queuepair \<Rightarrow> bool" where
  "smlt_ffq_queuepair_can_send_raw m qp = smlt_ffq_queue_can_send m (fqp_tx qp)"

definition smlt_ffq_queuepair_recv_raw ::
  "mem \<Rightarrow> smlt_ffq_queuepair \<Rightarrow> (nat \<Rightarrow> u64) option \<Rightarrow> u16 \<Rightarrow>
   errval_t \<times> mem \<times> smlt_ffq_queuepair \<times> (nat \<Rightarrow> u64) option"
where
  "smlt_ffq_queuepair_recv_raw m qp val_ptr num =
     (let (err, m', rx, val') = smlt_ffq_queue_recv_raw m (fqp_rx qp) val_ptr num
      in (err, m', qp\<lparr>fqp_rx := rx\<rparr>, val'))"

definition smlt_ffq_queuepair_recv_notify_raw ::
  "mem \<Rightarrow> smlt_ffq_queuepair \<Rightarrow> errval_t \<times> mem \<times> smlt_ffq_queuepair"
where
  "smlt_ffq_queuepair_recv_notify_raw m qp =
     (let (err, m', rx, _) = smlt_ffq_queue_recv_raw m (fqp_rx qp) None 0
      in (err, m', qp\<lparr>fqp_rx := rx\<rparr>))"

definition smlt_ffq_queuepair_can_recv_raw :: "mem \<Rightarrow> smlt_ffq_queuepair \<Rightarrow> bool" where
  "smlt_ffq_queuepair_can_recv_raw m qp = smlt_ffq_queue_can_recv m (fqp_rx qp)"

text \<open>The word count of a message is a \<open>uint32_t\<close>, the parameter of the raw calls a \<open>uint16_t\<close>.\<close>

definition smlt_ffq_queuepair_send ::
  "mem \<Rightarrow> smlt_ffq_queuepair \<Rightarrow> smlt_msg \<Rightarrow> errval_t \<times> mem \<times> smlt_ffq_queuepair"
where
  "smlt_ffq_queuepair_send m ffq msg =
     smlt_ffq_queuepair_send_raw m ffq (msg_data msg) (ucast (msg_words msg))"

definition smlt_ffq_queuepair_notify ::
  "mem \<Rightarrow> smlt_ffq_queuepair \<Rightarrow> errval_t \<times> mem \<times> smlt_ffq_queuepair"
where
  "smlt_ffq_queuepair_notify m ffq = smlt_ffq_queuepair_notify_raw m ffq"

definition smlt_ffq_queuepair_can_send :: "mem \<Rightarrow> smlt_ffq_queuepair \<Rightarrow> bool" where
  "smlt_ffq_queuepair_can_send m ffq = smlt_ffq_queuepair_can_send_raw m ffq"

definition smlt_ffq_queuepair_recv ::
  "mem \<Rightarrow> smlt_ffq_queuepair \<Rightarrow> smlt_msg \<Rightarrow> errval_t \<times> mem \<times> smlt_ffq_queuepair \<times> smlt_msg"
where
  "smlt_ffq_queuepair_recv m ffq msg =
     (let val = (if msg_data_ptr msg = 0 then None else Some (msg_data msg));
          (err, m', ffq', val') = smlt_ffq_queuepair_recv_raw m ffq val (ucast (msg_words msg))
      in (err, m', ffq', case val' of None \<Rightarrow> msg | Some f \<Rightarrow> msg\<lparr>msg_data := f\<rparr>))"

definition smlt_ffq_queuepair_recv_notify ::
  "mem \<Rightarrow> smlt_ffq_queuepair \<Rightarrow> errval_t \<times> mem \<times> smlt_ffq_queuepair"
where
  "smlt_ffq_queuepair_recv_notify m ffq =
     (let (err, m', ffq', _) = smlt_ffq_queuepair_recv_raw m ffq None 0 in (err, m', ffq'))"

definition smlt_ffq_queuepair_can_recv :: "mem \<Rightarrow> smlt_ffq_queuepair \<Rightarrow> bool" where
  "smlt_ffq_queuepair_can_recv m ffq = smlt_ffq_queuepair_can_recv_raw m ffq"

end
