(* ===== verification/Ffq_Refine.thy ===== *)
theory Ffq_Refine
  imports Ffq_Queue
begin

text \<open>
  The FFQ backend implements a bounded first-in first-out channel that uses every slot. The
  invariant relates the two endpoints and the memory through the number of messages sent and
  received; the flag word of a slot tells exactly whether it is pending.
\<close>

section \<open>Positions and slots\<close>

abbreviation fsize :: "smlt_ffq_queue \<Rightarrow> nat" where
  "fsize q \<equiv> unat (fq_size q)"

definition ffq_at :: "smlt_ffq_queue \<Rightarrow> nat \<Rightarrow> bool" where
  "ffq_at q s \<longleftrightarrow> 0 < fsize q \<and> fq_pos q = of_nat (s mod fsize q)"

text \<open>Word \<open>j\<close> of the slot of message \<open>s\<close>.\<close>

definition fslot :: "smlt_ffq_queue \<Rightarrow> nat \<Rightarrow> nat \<Rightarrow> addr" where
  "fslot q s j = cell (fq_slots q) (8 * (s mod fsize q) + j)"

definition ffq_same :: "smlt_ffq_queue \<Rightarrow> smlt_ffq_queue \<Rightarrow> bool" where
  "ffq_same q r \<longleftrightarrow> fq_slots q = fq_slots r \<and> fq_size q = fq_size r"

lemma ffq_advance_fields [simp]:
  "fq_slots (ffq_advance q) = fq_slots q" "fq_size (ffq_advance q) = fq_size q"
  "fq_direction (ffq_advance q) = fq_direction q" "fslot (ffq_advance q) = fslot q"
  "ffq_same (ffq_advance q) r = ffq_same q r" "ffq_same q (ffq_advance r) = ffq_same q r"
  by (simp_all add: ffq_advance_def fslot_def ffq_same_def fun_eq_iff)

lemma ffq_at_advance: "ffq_at q s \<Longrightarrow> ffq_at (ffq_advance q) (Suc s)"
  using ring_index_step[of "fq_size q" s] by (auto simp: ffq_at_def ffq_advance_def)

lemma ffq_slot_address: "ffq_at q s \<Longrightarrow> fq_slots q + 64 * ucast (fq_pos q) = fslot q s 0"
  by (simp add: ffq_at_def fslot_def line_cell unat_ring_index del: unsigned_of_nat)

lemma cell_fslot: "cell (fslot q s j) k = fslot q s (j + k)"
  by (simp add: fslot_def add.assoc)

lemma fslot_same: "ffq_same q r \<Longrightarrow> fslot q = fslot r"
  by (simp add: ffq_same_def fslot_def fun_eq_iff)

lemma fslot_eq_iff:
  assumes "0 < fsize q" "i < 8" "j < 8"
  shows "fslot q s i = fslot q t j \<longleftrightarrow> s mod fsize q = t mod fsize q \<and> i = j"
proof -
  have "fsize q < 2 ^ LENGTH(16)" by (rule unsigned_less)
  then have "x mod fsize q < 65536" for x using mod_less_divisor[OF assms(1), of x] by simp
  from this[of s] this[of t]
  have "fslot q s i = fslot q t j \<longleftrightarrow> 8 * (s mod fsize q) + i = 8 * (t mod fsize q) + j"
    using assms unfolding fslot_def by (intro cell_eq_iff) simp_all
  then show ?thesis using assms by (simp add: line_word_eq_iff)
qed

section \<open>The invariant of one direction\<close>

text \<open>Among the slots of the current window, exactly those not yet sent carry the empty mark.\<close>

definition ffq_dir :: "nat \<Rightarrow> nat \<Rightarrow> mem \<Rightarrow> smlt_ffq_queue \<Rightarrow> smlt_ffq_queue \<Rightarrow> bool" where
  "ffq_dir S R m tx rx \<longleftrightarrow>
     ffq_same rx tx \<and> ffq_at tx S \<and> ffq_at rx R \<and>
     fq_direction tx = SMLT_FFQ_DIRECTION_SEND \<and> fq_direction rx = SMLT_FFQ_DIRECTION_RECV \<and>
     R \<le> S \<and> S \<le> R + fsize tx \<and>
     (\<forall>s. R \<le> s \<and> s < R + fsize tx \<longrightarrow> (m (fslot tx s 0) = - 1 \<longleftrightarrow> S \<le> s))"

lemma ffq_dirD:
  assumes "ffq_dir S R m tx rx"
  shows "ffq_same rx tx" "ffq_at tx S" "ffq_at rx R" "fq_direction tx = SMLT_FFQ_DIRECTION_SEND"
    "fq_direction rx = SMLT_FFQ_DIRECTION_RECV" "R \<le> S" "S \<le> R + fsize tx"
    "\<And>s. R \<le> s \<Longrightarrow> s < R + fsize tx \<Longrightarrow> (m (fslot tx s 0) = - 1) = (S \<le> s)"
    "0 < fsize tx" "fsize rx = fsize tx" "fslot rx = fslot tx"
  using assms fslot_same[of rx tx] unfolding ffq_dir_def ffq_at_def ffq_same_def by simp_all

lemma ffq_dir_can_send:
  assumes "ffq_dir S R m tx rx"
  shows "smlt_ffq_queue_can_send m tx \<longleftrightarrow> S < R + fsize tx"
proof (cases "S = R + fsize tx")
  case True
  note D = ffq_dirD[OF assms]
  have "fslot tx S 0 = fslot tx R 0" by (simp add: True fslot_def)
  moreover have "m (fslot tx R 0) \<noteq> - 1" using D(8)[of R] D(9) True by simp
  ultimately show ?thesis
    using True D(4) ffq_slot_address[OF D(2)] by (simp add: smlt_ffq_queue_can_send_def)
next
  case False
  note D = ffq_dirD[OF assms]
  then show ?thesis
    using False D(8)[of S] ffq_slot_address[OF D(2)] by (simp add: smlt_ffq_queue_can_send_def)
qed

lemma ffq_dir_can_recv:
  assumes "ffq_dir S R m tx rx"
  shows "m (fslot tx R 0) \<noteq> - 1 \<longleftrightarrow> R < S"
  using ffq_dirD(8)[OF assms, of R] ffq_dirD(6,9)[OF assms] by auto

lemma ffq_dir_publish:
  assumes dir: "ffq_dir S R m tx rx" and "S < R + fsize tx" "m' (fslot tx S 0) \<noteq> - 1"
    and frame: "\<And>x. (\<And>j. j < 8 \<Longrightarrow> x \<noteq> fslot tx S j) \<Longrightarrow> m' x = m x"
  shows "ffq_dir (Suc S) R m' (ffq_advance tx) rx"
proof -
  note D = ffq_dirD[OF dir]
  have "(m' (fslot tx s 0) = - 1) = (Suc S \<le> s)" if "R \<le> s" "s < R + fsize tx" for s
  proof (cases "s = S")
    case True
    then show ?thesis using assms(3) by simp
  next
    case False
    then have "s mod fsize tx \<noteq> S mod fsize tx"
      using mod_inj_window[of R s "fsize tx" S] that D(6) assms(2) by auto
    then have "m' (fslot tx s 0) = m (fslot tx s 0)"
      by (intro frame) (simp add: fslot_eq_iff[OF D(9)])
    then show ?thesis using D(8)[OF that] False by auto
  qed
  then show ?thesis
    using D(1,3-7) ffq_at_advance[OF D(2)] assms(2) by (simp add: ffq_dir_def)
qed

lemma ffq_dir_consume:
  assumes dir: "ffq_dir S R m tx rx" and "R < S"
  shows "ffq_dir S (Suc R) (m(fslot tx R 0 := - 1)) tx (ffq_advance rx)"
proof -
  note D = ffq_dirD[OF dir]
  have "((m(fslot tx R 0 := - 1)) (fslot tx s 0) = - 1) = (S \<le> s)"
    if "Suc R \<le> s" "s < Suc R + fsize tx" for s
  proof (cases "s = R + fsize tx")
    case True
    then have "fslot tx s 0 = fslot tx R 0" by (simp add: fslot_def)
    then show ?thesis using D(7) True by simp
  next
    case False
    then have "R mod fsize tx \<noteq> s mod fsize tx" using that by (intro mod_neq) auto
    then have "fslot tx s 0 \<noteq> fslot tx R 0" by (simp add: fslot_eq_iff[OF D(9)])
    then show ?thesis using D(8)[of s] that False by simp
  qed
  then show ?thesis
    using D(1,2,4-7) ffq_at_advance[OF D(3)] assms(2) by (simp add: ffq_dir_def)
qed

section \<open>Pending messages\<close>

text \<open>What a receiver that keeps receiving finds, reading \<open>w\<close> words of each message.\<close>

fun ffq_pending :: "nat \<Rightarrow> mem \<Rightarrow> nat \<Rightarrow> smlt_ffq_queue \<Rightarrow> u64 list list" where
  "ffq_pending w m 0 q = []"
| "ffq_pending w m (Suc k) q =
     (if m (fq_slots q + 64 * ucast (fq_pos q)) = - 1 then []
      else map (\<lambda>j. m (fq_slots q + 64 * ucast (fq_pos q) + 8 * of_nat j)) [0..<w]
           # ffq_pending w m k (ffq_advance q))"

definition fpayload :: "nat \<Rightarrow> mem \<Rightarrow> smlt_ffq_queue \<Rightarrow> nat \<Rightarrow> u64 list" where
  "fpayload w m q s = map (\<lambda>j. m (fslot q s j)) [0..<w]"

lemma ffq_pending_walk:
  assumes "ffq_at q r" "\<And>s. r \<le> s \<Longrightarrow> s < r + j \<Longrightarrow> m (fslot q s 0) \<noteq> - 1"
    "j \<le> k" "j < k \<Longrightarrow> m (fslot q (r + j) 0) = - 1"
  shows "ffq_pending w m k q = map (fpayload w m q) [r..<r + j]"
  using assms
proof (induction k arbitrary: q r j)
  case 0
  then show ?case by simp
next
  case (Suc k)
  note addr = ffq_slot_address[OF Suc.prems(1)]
  show ?case
  proof (cases j)
    case 0
    then show ?thesis using Suc.prems(4) addr by simp
  next
    case (Suc i)
    have same: "fpayload w m (ffq_advance q) = fpayload w m q"
      by (simp add: fpayload_def fun_eq_iff)
    have "ffq_pending w m k (ffq_advance q) = map (fpayload w m (ffq_advance q)) [Suc r..<Suc r + i]"
      by (rule Suc.IH) (use Suc.prems \<open>j = Suc i\<close> ffq_at_advance in auto)
    moreover have "m (fslot q r 0) \<noteq> - 1" using Suc.prems(2)[of r] \<open>j = Suc i\<close> by simp
    moreover have "[r..<r + j] = r # [Suc r..<Suc r + i]"
      using upt_conv_Cons[of r "r + j"] \<open>j = Suc i\<close> by (simp del: upt_Suc)
    ultimately show ?thesis
      using same addr by (simp add: fpayload_def word_cell cell_fslot)
  qed
qed

lemma ffq_dir_pending:
  assumes "ffq_dir S R m tx rx"
  shows "ffq_pending w m (fsize rx) rx = map (fpayload w m tx) [R..<S]"
proof -
  note D = ffq_dirD[OF assms]
  have "ffq_pending w m (fsize rx) rx = map (fpayload w m rx) [R..<R + (S - R)]"
  proof (rule ffq_pending_walk[OF D(3)])
    fix s assume "R \<le> s" "s < R + (S - R)"
    then show "m (fslot rx s 0) \<noteq> - 1" using D(7) D(8)[of s] D(11) by simp
  next
    assume "S - R < fsize rx"
    then show "m (fslot rx (R + (S - R)) 0) = - 1" using D(6,10,11) D(8)[of S] by auto
  qed (use D(7,10) in auto)
  then show ?thesis using D(6,11) by (simp add: fpayload_def)
qed

section \<open>Operations on a link\<close>

type_synonym ffq_link = "smlt_ffq_queuepair \<times> mem \<times> smlt_ffq_queuepair"

definition ffq_link_send :: "u64 list \<Rightarrow> ffq_link \<Rightarrow> bool \<times> ffq_link" where
  "ffq_link_send x = (\<lambda>(b, m, a).
     let (err, m', a') = smlt_ffq_queuepair_send m a (msg_of x) in (smlt_err_is_ok err, b, m', a'))"

definition ffq_link_recv :: "nat \<Rightarrow> ffq_link \<Rightarrow> u64 list option \<times> ffq_link" where
  "ffq_link_recv w = (\<lambda>(b, m, a).
     let (err, m', b', msg) = smlt_ffq_queuepair_recv m b (msg_of (replicate w 0))
     in (if smlt_err_is_ok err then Some (msg_payload msg) else None, b', m', a))"

definition ffq_link_inv :: "nat \<Rightarrow> ffq_link \<Rightarrow> bool" where
  "ffq_link_inv w = (\<lambda>(b, m, a). 0 < w \<and> w \<le> 8 \<and> (\<exists>S R. ffq_dir S R m (fqp_tx a) (fqp_rx b)))"

definition ffq_link_pending :: "nat \<Rightarrow> ffq_link \<Rightarrow> u64 list list" where
  "ffq_link_pending w = (\<lambda>(b, m, a). ffq_pending w m (fsize (fqp_rx b)) (fqp_rx b))"

definition ffq_link_room :: "ffq_link \<Rightarrow> nat" where
  "ffq_link_room = (\<lambda>(b, m, a). fsize (fqp_rx b))"

text \<open>A message the queue can carry: \<open>w\<close> words, the first one not the empty mark.\<close>

definition ffq_good :: "nat \<Rightarrow> u64 list \<Rightarrow> bool" where
  "ffq_good w x \<longleftrightarrow> length x = w \<and> hd x \<noteq> - 1"

lemma ffq_num_words:
  assumes "unat (msg_words msg) \<le> 8"
  shows "unat (let num0 = (ucast (msg_words msg) :: u16) in if num0 > 8 then 8 else num0) =
         unat (msg_words msg)"
proof -
  have "unat (ucast (msg_words msg) :: u16) = unat (msg_words msg)"
    using assms by (simp add: unsigned_ucast_eq take_bit_eq_mod)
  then show ?thesis using assms by (simp add: word_less_nat_alt)
qed

lemma ffq_send_eq:
  assumes "ffq_at (fqp_tx a) S" "unat (msg_words msg) \<le> 8"
  shows "smlt_ffq_queuepair_send m a msg =
    (if \<not> smlt_ffq_queue_can_send m (fqp_tx a) then (errval SMLT_ERR_QUEUE_FULL, m, a)
     else (errval SMLT_SUCCESS,
           (copy_to_mem m (fslot (fqp_tx a) S 0) (msg_data msg) 1 (unat (msg_words msg)))
             (fslot (fqp_tx a) S 0 := msg_data msg 0),
           a\<lparr>fqp_tx := ffq_advance (fqp_tx a)\<rparr>))"
  using ffq_num_words[OF assms(2)] ffq_slot_address[OF assms(1)]
  by (simp add: smlt_ffq_queuepair_send_def smlt_ffq_queuepair_send_raw_def
      smlt_ffq_queue_send_raw_def Let_def split: prod.split)

lemma ffq_recv_eq:
  assumes "ffq_at (fqp_rx b) R" "unat (msg_words msg) \<le> 8" "msg_data_ptr msg \<noteq> 0"
  shows "smlt_ffq_queuepair_recv m b msg =
    (if m (fslot (fqp_rx b) R 0) = - 1 then (errval SMLT_ERR_QUEUE_EMPTY, m, b, msg)
     else (errval SMLT_SUCCESS, m(fslot (fqp_rx b) R 0 := - 1), b\<lparr>fqp_rx := ffq_advance (fqp_rx b)\<rparr>,
           msg\<lparr>msg_data := copy_from_mem m (fslot (fqp_rx b) R 0) (msg_data msg) (unat (msg_words msg))\<rparr>))"
  using ffq_num_words[OF assms(2)] ffq_slot_address[OF assms(1)] assms(3)
  by (simp add: smlt_ffq_queuepair_recv_def smlt_ffq_queuepair_recv_raw_def
      smlt_ffq_queue_recv_raw_def Let_def split: prod.split)

lemma ffq_link_pending_eq:
  assumes "ffq_dir S R m (fqp_tx a) (fqp_rx b)"
  shows "ffq_link_pending w (b, m, a) = map (fpayload w m (fqp_tx a)) [R..<S]"
  using ffq_dir_pending[OF assms] by (simp add: ffq_link_pending_def)

lemma fpayload_advance [simp]: "fpayload w m (ffq_advance q) = fpayload w m q"
  by (simp add: fpayload_def fun_eq_iff)

text \<open>What a successful send does to memory.\<close>

lemma ffq_send_mem:
  assumes n: "0 < fsize q" and w: "w \<le> 8"
    and m': "m' = (copy_to_mem m (fslot q S 0) d 1 w)(fslot q S 0 := d 0)"
  shows "(\<And>j. j < 8 \<Longrightarrow> x \<noteq> fslot q S j) \<Longrightarrow> m' x = m x"
    and "0 < w \<Longrightarrow> fpayload w m' q S = map d [0..<w]"
    and "\<lbrakk>s mod fsize q \<noteq> S mod fsize q; v \<le> 8\<rbrakk> \<Longrightarrow> fpayload v m' q s = fpayload v m q s"
proof -
  have frame: "m' x = m x" if *: "\<And>j. j < 8 \<Longrightarrow> x \<noteq> fslot q S j" for x
  proof -
    have "copy_to_mem m (fslot q S 0) d 1 w x = m x"
      using * w by (intro copy_to_mem_other) (simp add: cell_fslot)
    then show ?thesis using *[of 0] m' by simp
  qed
  then show "(\<And>j. j < 8 \<Longrightarrow> x \<noteq> fslot q S j) \<Longrightarrow> m' x = m x" .
  show "\<lbrakk>s mod fsize q \<noteq> S mod fsize q; v \<le> 8\<rbrakk> \<Longrightarrow> fpayload v m' q s = fpayload v m q s"
    using frame by (simp add: fpayload_def fslot_eq_iff[OF n])
  show "fpayload w m' q S = map d [0..<w]" if "0 < w"
  proof -
    have "m' (fslot q S j) = d j" if "j < w" for j
      using that w copy_to_mem_cell[of w j m "fslot q S 0" d 1]
      by (cases "j = 0") (simp_all add: m' cell_fslot fslot_eq_iff[OF n])
    then show ?thesis by (simp add: fpayload_def)
  qed
qed

lemma ffq_send_step:
  assumes inv: "ffq_link_inv w (b, m, a)" and words: "unat (msg_words msg) = w"
    and first: "msg_data msg 0 \<noteq> - 1"
    and call: "smlt_ffq_queuepair_send m a msg = (err, m', a')"
  shows "ffq_link_inv w (b, m', a') \<and> fqp_rx a' = fqp_rx a \<and> ffq_same (fqp_tx a') (fqp_tx a) \<and>
    (err = errval SMLT_SUCCESS \<and> length (ffq_link_pending w (b, m, a)) < fsize (fqp_rx b) \<and>
       ffq_link_pending w (b, m', a') = ffq_link_pending w (b, m, a) @ [msg_payload msg] \<or>
     err = errval SMLT_ERR_QUEUE_FULL \<and> m' = m \<and> a' = a \<and>
       length (ffq_link_pending w (b, m, a)) = fsize (fqp_rx b))"
proof -
  from inv obtain S R where w: "0 < w" "w \<le> 8" and dir: "ffq_dir S R m (fqp_tx a) (fqp_rx b)"
    by (auto simp: ffq_link_inv_def)
  note D = ffq_dirD[OF dir] and can = ffq_dir_can_send[OF dir]
  note eq = ffq_send_eq[OF D(2), of msg m, unfolded call words, OF w(2)]
  have len: "length (ffq_link_pending w (b, m, a)) = S - R" by (simp add: ffq_link_pending_eq[OF dir])
  show ?thesis
  proof (cases "S < R + fsize (fqp_tx a)")
    case False
    then show ?thesis using eq can inv len D(7,10) by (auto simp: ffq_same_def)
  next
    case True
    then have a': "a' = a\<lparr>fqp_tx := ffq_advance (fqp_tx a)\<rparr>" "err = errval SMLT_SUCCESS"
      and m': "m' = (copy_to_mem m (fslot (fqp_tx a) S 0) (msg_data msg) 1 w)
                 (fslot (fqp_tx a) S 0 := msg_data msg 0)"
      using eq can by simp_all
    note mem = ffq_send_mem[OF D(9) w(2) m']
    have "m' (fslot (fqp_tx a) S 0) \<noteq> - 1" using first by (simp add: m')
    then have dir': "ffq_dir (Suc S) R m' (fqp_tx a') (fqp_rx b)"
      using ffq_dir_publish[OF dir True _ mem(1)] by (simp add: a'(1))
    have "s mod fsize (fqp_tx a) \<noteq> S mod fsize (fqp_tx a)" if "R \<le> s" "s < S" for s
      using that True by (intro mod_neq) auto
    then have "map (fpayload w m' (fqp_tx a)) [R..<Suc S] =
               map (fpayload w m (fqp_tx a)) [R..<S] @ [msg_payload msg]"
      using mem(2)[OF w(1)] mem(3)[OF _ w(2)] D(6) words by (simp add: msg_payload_def)
    then have "ffq_link_pending w (b, m', a') = ffq_link_pending w (b, m, a) @ [msg_payload msg]"
      by (simp only: ffq_link_pending_eq[OF dir] ffq_link_pending_eq[OF dir']) (simp add: a'(1))
    moreover have "ffq_link_inv w (b, m', a')" using w dir' by (auto simp: ffq_link_inv_def)
    ultimately show ?thesis
      using True len a' D(6,10) by (auto simp: ffq_same_def)
  qed
qed

lemma ffq_recv_step:
  assumes inv: "ffq_link_inv w (b, m, a)" and words: "unat (msg_words buf) = w" "msg_data_ptr buf \<noteq> 0"
    and call: "smlt_ffq_queuepair_recv m b buf = (err, m', b', msg)"
  shows "ffq_link_inv w (b', m', a) \<and> fqp_tx b' = fqp_tx b \<and> ffq_same (fqp_rx b') (fqp_rx b) \<and>
    (\<forall>x. (\<forall>s. x \<noteq> fslot (fqp_tx a) s 0) \<longrightarrow> m' x = m x) \<and>
    (err = errval SMLT_SUCCESS \<and>
       ffq_link_pending w (b, m, a) = msg_payload msg # ffq_link_pending w (b', m', a) \<or>
     err = errval SMLT_ERR_QUEUE_EMPTY \<and> m' = m \<and> b' = b \<and> msg = buf \<and>
       ffq_link_pending w (b, m, a) = [])"
proof -
  from inv obtain S R where w: "0 < w" "w \<le> 8" and dir: "ffq_dir S R m (fqp_tx a) (fqp_rx b)"
    by (auto simp: ffq_link_inv_def)
  note D = ffq_dirD[OF dir] and can = ffq_dir_can_recv[OF dir]
  note eq = ffq_recv_eq[OF D(3) _ words(2), of m, unfolded call words(1) D(11), OF w(2)]
  show ?thesis
  proof (cases "R < S")
    case False
    then show ?thesis using eq can inv D(6) by (auto simp: ffq_same_def ffq_link_pending_eq[OF dir])
  next
    case True
    then have r: "err = errval SMLT_SUCCESS" "m' = m(fslot (fqp_tx a) R 0 := - 1)"
      "b' = b\<lparr>fqp_rx := ffq_advance (fqp_rx b)\<rparr>"
      "msg = buf\<lparr>msg_data := copy_from_mem m (fslot (fqp_tx a) R 0) (msg_data buf) w\<rparr>"
      using eq can by simp_all
    have dir': "ffq_dir S (Suc R) m' (fqp_tx a) (fqp_rx b')"
      using ffq_dir_consume[OF dir True] r by simp
    have "fpayload w m' (fqp_tx a) s = fpayload w m (fqp_tx a) s" if "Suc R \<le> s" "s < S" for s
    proof -
      have "R mod fsize (fqp_tx a) \<noteq> s mod fsize (fqp_tx a)"
        using that D(7) by (intro mod_neq) auto
      then show ?thesis using w(2) by (auto simp: r fpayload_def fslot_eq_iff[OF D(9)])
    qed
    moreover have "msg_payload msg = fpayload w m (fqp_tx a) R"
      using r(4) words(1) by (simp add: msg_payload_def fpayload_def copy_from_mem_eq cell_fslot)
    ultimately have "map (fpayload w m (fqp_tx a)) [R..<S] =
                     msg_payload msg # map (fpayload w m' (fqp_tx a)) [Suc R..<S]"
      using True by (simp add: upt_conv_Cons)
    then have "ffq_link_pending w (b, m, a) = msg_payload msg # ffq_link_pending w (b', m', a)"
      by (simp only: ffq_link_pending_eq[OF dir] ffq_link_pending_eq[OF dir'])
    then show ?thesis
      using w dir' r(1,2) by (auto simp: ffq_link_inv_def) (auto simp: r(3) ffq_same_def)
  qed
qed

lemma ffq_words_msg_of: "length xs \<le> 8 \<Longrightarrow> unat (msg_words (msg_of xs)) = length xs"
  by (simp add: msg_of_def unat_of_nat_small)

lemma ffq_link_send_cases:
  assumes inv: "ffq_link_inv w s" and x: "ffq_good w x" and call: "ffq_link_send x s = (ok, s')"
  shows "ffq_link_inv w s'" "ffq_link_room s' = ffq_link_room s"
    "ffq_link_pending w s' = ffq_link_pending w s @ (if ok then [x] else [])"
    "ok \<longleftrightarrow> length (ffq_link_pending w s) < ffq_link_room s" "0 < ffq_link_room s"
proof -
  obtain b m a where s: "s = (b, m, a)" by (cases s)
  obtain err m' a' where c: "smlt_ffq_queuepair_send m a (msg_of x) = (err, m', a')"
    using prod_cases3 by blast
  have s': "s' = (b, m', a')" "ok \<longleftrightarrow> smlt_err_is_ok err" using call s c by (auto simp: ffq_link_send_def)
  have w: "0 < w" "w \<le> 8" using inv s by (simp_all add: ffq_link_inv_def)
  then have "unat (msg_words (msg_of x)) = w" "msg_data (msg_of x) 0 \<noteq> - 1"
    and p: "msg_payload (msg_of x) = x"
    using x by (simp_all add: ffq_good_def ffq_words_msg_of msg_payload_msg_of)
      (cases x; auto simp: msg_of_def)
  note step = ffq_send_step[OF inv[unfolded s] this(1,2) c, unfolded p]
  show "ffq_link_inv w s'" "ffq_link_room s' = ffq_link_room s"
    "ffq_link_pending w s' = ffq_link_pending w s @ (if ok then [x] else [])"
    "ok \<longleftrightarrow> length (ffq_link_pending w s) < ffq_link_room s"
    using step by (auto simp: s s' ffq_link_room_def)
  show "0 < ffq_link_room s"
    using inv ffq_dirD(9,10) by (fastforce simp: s ffq_link_inv_def ffq_link_room_def)
qed

lemma ffq_link_recv_cases:
  assumes inv: "ffq_link_inv w s" and call: "ffq_link_recv w s = (r, s')"
  shows "ffq_link_inv w s'" "ffq_link_room s' = ffq_link_room s"
    "ffq_link_pending w s = (case r of None \<Rightarrow> [] | Some x \<Rightarrow> [x]) @ ffq_link_pending w s'"
    "r = None \<Longrightarrow> ffq_link_pending w s = []"
proof -
  obtain b m a where s: "s = (b, m, a)" by (cases s)
  let ?buf = "msg_of (replicate w 0)"
  obtain err m' b' msg where c: "smlt_ffq_queuepair_recv m b ?buf = (err, m', b', msg)"
    using prod_cases4 by blast
  have s': "s' = (b', m', a)" "r = (if smlt_err_is_ok err then Some (msg_payload msg) else None)"
    using call s c by (auto simp: ffq_link_recv_def)
  have "unat (msg_words ?buf) = w" using inv by (simp add: s ffq_words_msg_of ffq_link_inv_def)
  moreover have "msg_data_ptr ?buf \<noteq> 0" by (simp add: msg_of_def)
  ultimately have step: "ffq_link_inv w (b', m', a) \<and> ffq_same (fqp_rx b') (fqp_rx b) \<and>
    (err = errval SMLT_SUCCESS \<and>
       ffq_link_pending w (b, m, a) = msg_payload msg # ffq_link_pending w (b', m', a) \<or>
     err = errval SMLT_ERR_QUEUE_EMPTY \<and> m' = m \<and> b' = b \<and> ffq_link_pending w (b, m, a) = [])"
    using ffq_recv_step[OF inv[unfolded s] _ _ c] by blast
  then show "ffq_link_inv w s'" "ffq_link_room s' = ffq_link_room s"
    "ffq_link_pending w s = (case r of None \<Rightarrow> [] | Some x \<Rightarrow> [x]) @ ffq_link_pending w s'"
    "r = None \<Longrightarrow> ffq_link_pending w s = []"
    by (auto simp: s s' ffq_link_room_def ffq_same_def)
qed

interpretation ffq: fifo_channel
  "ffq_link_inv w" "ffq_link_pending w" "ffq_good w" ffq_link_send "ffq_link_recv w" ffq_link_room
  for w
proof unfold_locales
  fix s s' x
  assume a: "ffq_link_inv w s" "ffq_good w x" "ffq_link_send x s = (True, s')"
  from ffq_link_send_cases[OF a]
  show "ffq_link_inv w s' \<and> ffq_link_pending w s' = ffq_link_pending w s @ [x] \<and>
        ffq_link_room s' = ffq_link_room s" by simp
next
  fix s s' x
  assume a: "ffq_link_inv w s" "ffq_good w x" "ffq_link_send x s = (False, s')"
  from ffq_link_send_cases[OF a]
  show "ffq_link_inv w s' \<and> ffq_link_pending w s' = ffq_link_pending w s \<and>
        ffq_link_pending w s \<noteq> [] \<and> ffq_link_room s' = ffq_link_room s" by auto
next
  fix s s' x
  assume a: "ffq_link_inv w s" "ffq_link_recv w s = (Some x, s')"
  from ffq_link_recv_cases[OF a]
  show "ffq_link_inv w s' \<and> ffq_link_pending w s = x # ffq_link_pending w s' \<and>
        ffq_link_room s' = ffq_link_room s" by simp
next
  fix s s'
  assume a: "ffq_link_inv w s" "ffq_link_recv w s = (None, s')"
  from ffq_link_recv_cases[OF a]
  show "ffq_link_inv w s' \<and> ffq_link_pending w s = [] \<and> ffq_link_pending w s' = [] \<and>
        ffq_link_room s' = ffq_link_room s" by simp
next
  fix s
  assume inv: "ffq_link_inv w s"
  obtain b m a where s: "s = (b, m, a)" by (cases s)
  from inv s obtain S R where dir: "ffq_dir S R m (fqp_tx a) (fqp_rx b)"
    by (auto simp: ffq_link_inv_def)
  show "length (ffq_link_pending w s) \<le> ffq_link_room s"
    using ffq_dirD(7,10)[OF dir] by (simp add: s ffq_link_pending_eq[OF dir] ffq_link_room_def)
qed

section \<open>Initialisation\<close>

definition ffq_fresh :: "addr \<Rightarrow> u16 \<Rightarrow> smlt_ffq_direction_t \<Rightarrow> smlt_ffq_queue" where
  "ffq_fresh buf slots d = \<lparr>fq_slots = buf, fq_size = slots, fq_pos = 0, fq_direction = d\<rparr>"

lemma ffq_line: "r + 64 * of_nat i = cell r (8 * i)"
  by (simp add: cell_def)

lemma ffq_mark_empty_slot:
  assumes "n \<le> 65536" "i < n"
  shows "ffq_mark_empty m r n (cell r (8 * i)) = - 1"
  using assms by (induction n) (auto simp: ffq_line less_Suc_eq cell_eq_iff)

lemma ffq_mark_empty_outside:
  assumes "unat x < unat r \<or> unat r + 64 * n \<le> unat x" "unat r + 64 * n < 2 ^ 64"
  shows "ffq_mark_empty m r n x = m x"
  using assms
proof (induction n)
  case 0
  then show ?case by simp
next
  case (Suc n)
  have "unat (cell r (8 * n)) = unat r + 64 * n" using Suc.prems(2) unat_cell[of r "8 * n"] by simp
  then have "x \<noteq> cell r (8 * n)" using Suc.prems(1) by auto
  then show ?case using Suc by (auto simp: ffq_line)
qed

lemma ffq_dir_init:
  assumes "slots \<noteq> 0"
    and "\<And>i. i < unat slots \<Longrightarrow> m (cell r (8 * i)) = - 1"
  shows "ffq_dir 0 0 m (ffq_fresh r slots SMLT_FFQ_DIRECTION_SEND) (ffq_fresh r slots SMLT_FFQ_DIRECTION_RECV)"
proof -
  have "0 < unat slots" using assms(1) by (simp add: unat_gt_0)
  then show ?thesis
    using assms(2) by (simp add: ffq_dir_def ffq_same_def ffq_at_def ffq_fresh_def fslot_def)
qed

lemma ffq_init_success:
  assumes "smlt_ffq_queuepair_init alloc free slots ns nd s0 d0 w = (errval SMLT_SUCCESS, src, dst, h', m')"
  obtains r1 h1 m1 r2 m3 where
    "alloc (ucast slots * 64) 4096 ns True w = (r1, h1, m1)" "r1 \<noteq> 0"
    "alloc (ucast slots * 64) 4096 nd True (h1, ffq_mark_empty m1 r1 (unat slots)) = (r2, h', m3)" "r2 \<noteq> 0"
    "m' = ffq_mark_empty m3 r2 (unat slots)"
    "fqp_rx src = ffq_fresh r1 slots SMLT_FFQ_DIRECTION_RECV"
    "fqp_tx src = ffq_fresh r2 slots SMLT_FFQ_DIRECTION_SEND"
    "fqp_rx dst = ffq_fresh r2 slots SMLT_FFQ_DIRECTION_RECV"
    "fqp_tx dst = ffq_fresh r1 slots SMLT_FFQ_DIRECTION_SEND"
proof -
  note unfold = smlt_ffq_queuepair_init_def smlt_ffq_queue_init_rx_def smlt_ffq_queue_init_tx_def
    ffq_fresh_def Let_def
  obtain r1 h1 m1 where A: "alloc (ucast slots * 64) 4096 ns True w = (r1, h1, m1)"
    using prod_cases3 by blast
  have r1: "r1 \<noteq> 0" using assms A by (cases "r1 = 0") (simp_all add: unfold)
  obtain r2 h2 m3 where B:
    "alloc (ucast slots * 64) 4096 nd True (h1, ffq_mark_empty m1 r1 (unat slots)) = (r2, h2, m3)"
    using prod_cases3 by blast
  have r2: "r2 \<noteq> 0" using assms A r1 B by (cases "r2 = 0") (simp_all add: unfold)
  show thesis
    using assms A r1 B r2 by (intro that[of r1 h1 m1 r2 m3]) (auto simp: unfold)
qed

lemma unat_ffq_size: "unat (ucast (slots :: u16) * 64 :: u64) = 64 * unat slots"
proof -
  have "unat slots < 2 ^ LENGTH(16)" by (rule unsigned_less)
  then have "64 * unat slots < 2 ^ LENGTH(64)" by simp
  moreover have "ucast slots * 64 = (of_nat (64 * unat slots) :: u64)" by simp
  ultimately show ?thesis by (simp only: unat_of_nat_small)
qed

section \<open>A concrete pair\<close>

definition fdemo_a :: smlt_ffq_queuepair where
  "fdemo_a = \<lparr>fqp_tx = ffq_fresh 4096 2 SMLT_FFQ_DIRECTION_SEND,
              fqp_rx = ffq_fresh 8192 2 SMLT_FFQ_DIRECTION_RECV\<rparr>"

definition fdemo_b :: smlt_ffq_queuepair where
  "fdemo_b = \<lparr>fqp_tx = ffq_fresh 8192 2 SMLT_FFQ_DIRECTION_SEND,
              fqp_rx = ffq_fresh 4096 2 SMLT_FFQ_DIRECTION_RECV\<rparr>"

lemma fdemo_link:
  assumes "0 < w" "w \<le> 8"
  shows "ffq_link_inv w (fdemo_b, \<lambda>_. - 1, fdemo_a)" "ffq_link_pending w (fdemo_b, \<lambda>_. - 1, fdemo_a) = []"
    "ffq_link_room (fdemo_b, \<lambda>_. - 1, fdemo_a) = 2"
proof -
  have dir: "ffq_dir 0 0 (\<lambda>_. - 1) (fqp_tx fdemo_a) (fqp_rx fdemo_b)"
    unfolding fdemo_a_def fdemo_b_def by simp (rule ffq_dir_init, simp_all)
  then show "ffq_link_inv w (fdemo_b, \<lambda>_. - 1, fdemo_a)"
    using assms by (auto simp: ffq_link_inv_def)
  show "ffq_link_pending w (fdemo_b, \<lambda>_. - 1, fdemo_a) = []"
    using ffq_link_pending_eq[OF dir] by simp
  show "ffq_link_room (fdemo_b, \<lambda>_. - 1, fdemo_a) = 2"
    by (simp add: ffq_link_room_def fdemo_b_def ffq_fresh_def)
qed

section \<open>Properties\<close>

lemma ffq_init_connects:
  assumes call: "smlt_ffq_queuepair_init (smlt_platform_alloc_on_node na mx) (smlt_platform_free nf)
                   slots ns nd s0 d0 (h, m) = (errval SMLT_SUCCESS, src, dst, h', m')"
    and numa: "numa_blocks_ok na (ucast slots * 64 + 4096 + 16) ns nd h"
    and slots: "slots \<noteq> 0" and w: "0 < w" "w \<le> 8"
  shows "ffq_link_inv w (dst, m', src) \<and> ffq_link_pending w (dst, m', src) = [] \<and>
         ffq_link_inv w (src, m', dst) \<and> ffq_link_pending w (src, m', dst) = [] \<and>
         ffq_link_room (dst, m', src) = unat slots \<and> ffq_link_room (src, m', dst) = unat slots"
proof -
  obtain r1 h1 m1 r2 m3 where
    A: "smlt_platform_alloc_on_node na mx (ucast slots * 64) 4096 ns True (h, m) = (r1, h1, m1)" "r1 \<noteq> 0"
    and B: "smlt_platform_alloc_on_node na mx (ucast slots * 64) 4096 nd True
             (h1, ffq_mark_empty m1 r1 (unat slots)) = (r2, h', m3)" "r2 \<noteq> 0"
    and m': "m' = ffq_mark_empty m3 r2 (unat slots)"
    and q: "fqp_rx src = ffq_fresh r1 slots SMLT_FFQ_DIRECTION_RECV"
    "fqp_tx src = ffq_fresh r2 slots SMLT_FFQ_DIRECTION_SEND"
    "fqp_rx dst = ffq_fresh r2 slots SMLT_FFQ_DIRECTION_RECV"
    "fqp_tx dst = ffq_fresh r1 slots SMLT_FFQ_DIRECTION_SEND"
    using ffq_init_success[OF call] by metis
  have n: "unat slots < 2 ^ LENGTH(16)" by (rule unsigned_less)
  have "unat (ucast slots * 64 :: u64) < 2 ^ 63" using n by (simp add: unat_ffq_size)
  note blocks = two_page_blocks[OF A B this numa, unfolded unat_ffq_size]
  have mark2: "m' (cell r2 (8 * i)) = - 1" if "i < unat slots" for i
    using that n by (simp add: m' ffq_mark_empty_slot)
  have mark1: "m' (cell r1 (8 * i)) = - 1" if "i < unat slots" for i
  proof -
    have u: "unat (cell r1 (8 * i)) = unat r1 + 64 * i" using that blocks(1) unat_cell[of r1 "8 * i"] by simp
    then have "m' (cell r1 (8 * i)) = m3 (cell r1 (8 * i))"
      using that blocks(2,3) unfolding m' by (intro ffq_mark_empty_outside) auto
    also have "\<dots> = ffq_mark_empty m1 r1 (unat slots) (cell r1 (8 * i))"
      using u that by (intro blocks(4)) auto
    finally show ?thesis using that n by (simp add: ffq_mark_empty_slot)
  qed
  have d: "ffq_dir 0 0 m' (fqp_tx src) (fqp_rx dst)" "ffq_dir 0 0 m' (fqp_tx dst) (fqp_rx src)"
    using mark1 mark2 slots by (simp_all add: q ffq_dir_init)
  then show ?thesis
    using w ffq_link_pending_eq[OF d(1)] ffq_link_pending_eq[OF d(2)]
    by (auto simp: ffq_link_inv_def ffq_link_room_def q ffq_fresh_def)
qed

text \<open>
  Claim C32: initialising an FFQ queue pair with a non-zero number of slots connects the two
  endpoints in both directions: each direction satisfies the channel invariant, holds no message
  and has room for as many messages as there are slots. The hypothesis is that libnuma's two
  blocks do not overlap.
\<close>

theorem ffq_init_links:
  assumes call: "smlt_ffq_queuepair_init (smlt_platform_alloc_on_node na mx) (smlt_platform_free nf)
                   slots ns nd s0 d0 (h, m) = (errval SMLT_SUCCESS, src, dst, h', m')"
    and numa: "numa_blocks_ok na (ucast slots * 64 + 4096 + 16) ns nd h"
    and slots: "slots \<noteq> 0" and w: "0 < w" "w \<le> 8"
  shows "ffq_link_inv w (dst, m', src) \<and> ffq_link_pending w (dst, m', src) = [] \<and>
         ffq_link_inv w (src, m', dst) \<and> ffq_link_pending w (src, m', dst) = [] \<and>
         ffq_link_room (dst, m', src) = unat slots \<and> ffq_link_room (src, m', dst) = unat slots"
  by (rule ffq_init_connects[OF assms])

theorem ffq_init_links_witness:
  "\<exists>src dst h' m'.
     smlt_ffq_queuepair_init (smlt_platform_alloc_on_node (\<lambda>sz n h. (h, h + 65536)) 3)
       (smlt_platform_free (\<lambda>b sz h. h)) 64 0 1 fdemo_a fdemo_b (65536, \<lambda>_. 5) =
       (errval SMLT_SUCCESS, src, dst, h', m') \<and>
     ffq_link_inv 8 (dst, m', src) \<and> ffq_link_pending 8 (src, m', dst) = []"
proof -
  let ?na = "\<lambda>(sz :: u64) (n :: u8) (h :: u64). (h, h + 65536)"
  have "SMLT_MEM_IS_POWER_OF_TWO 4096" by (simp add: SMLT_MEM_IS_POWER_OF_TWO_def)
  then obtain src dst h' m' where call:
    "smlt_ffq_queuepair_init (smlt_platform_alloc_on_node ?na 3) (smlt_platform_free (\<lambda>b sz h. h))
       64 0 1 fdemo_a fdemo_b (65536, \<lambda>_. 5) = (errval SMLT_SUCCESS, src, dst, h', m')"
    by (simp add: smlt_ffq_queuepair_init_def smlt_ffq_queue_init_rx_def smlt_ffq_queue_init_tx_def
        Let_def smlt_platform_alloc_on_node_def SMLT_MEM_ALIGN_def)
  have "numa_blocks_ok ?na (ucast (64 :: u16) * 64 + 4096 + 16) 0 1 65536"
    by (simp add: numa_blocks_ok_def)
  from ffq_init_links[OF call this, of 8] call show ?thesis by auto
qed

text \<open>
  Claim C19: over any interleaving of FFQ sends of messages whose first word is not the empty mark
  and receives, from an empty link, the delivered messages followed by the pending ones are
  exactly the accepted ones, in order and unaltered, and a send is accepted exactly when fewer
  messages than slots are pending.
\<close>

theorem ffq_fifo:
  assumes "ffq_link_inv w s" "ffq_link_pending w s = []"
    and "\<forall>x. Send x \<in> set ops \<longrightarrow> ffq_good w x"
    and "chan_run ffq_link_send (ffq_link_recv w) ops s = (acc, del, s')"
  shows "ffq_link_inv w s' \<and> acc = del @ ffq_link_pending w s' \<and>
         (\<forall>x. ffq_good w x \<longrightarrow>
            fst (ffq_link_send x s') = (length (ffq_link_pending w s') < ffq_link_room s))"
proof -
  have ok: "list_all (op_ok (ffq_good w)) ops" using assms(3) by (intro ops_okI) blast
  note run = ffq.run_fifo[OF assms(1) ok assms(4)]
  have "fst (ffq_link_send x s') = (length (ffq_link_pending w s') < ffq_link_room s)"
    if "ffq_good w x" for x
    using ffq_link_send_cases(4)[of w s' x] run that prod.collapse[of "ffq_link_send x s'"] by metis
  then show ?thesis using run assms(2) by auto
qed

theorem ffq_fifo_witness:
  "\<exists>acc del s'. chan_run ffq_link_send (ffq_link_recv 1) [Send [5], Recv, Send [6]]
      (fdemo_b, \<lambda>_. - 1, fdemo_a) = (acc, del, s') \<and>
     acc = del @ ffq_link_pending 1 s' \<and>
     fst (ffq_link_send [7] s') = (length (ffq_link_pending 1 s') < 2)"
proof -
  obtain acc del s' where run: "chan_run ffq_link_send (ffq_link_recv 1) [Send [5], Recv, Send [6]]
      (fdemo_b, \<lambda>_. - 1, fdemo_a) = (acc, del, s')" using prod_cases3 by blast
  have "ffq_good 1 [7]" by (simp add: ffq_good_def)
  moreover have "\<forall>x. Send x \<in> set [Send [5], Recv, Send [6]] \<longrightarrow> ffq_good 1 x"
    by (auto simp: ffq_good_def)
  ultimately show ?thesis
    using ffq_fifo[OF fdemo_link(1) fdemo_link(2) _ run] fdemo_link(3)[of 1] run by auto
qed

text \<open>A receive takes no slot for a message whose first word is the empty mark.\<close>

lemma ffq_recv_no_mark:
  assumes "0 < w" "w \<le> 8" "ffq_link_recv w s = (Some y, s')"
  shows "hd y \<noteq> - 1"
proof -
  obtain b m a where s: "s = (b, m, a)" by (cases s)
  let ?p = "fq_slots (fqp_rx b) + 64 * ucast (fq_pos (fqp_rx b))" and ?msg = "msg_of (replicate w (0 :: u64))"
  have w: "unat (msg_words ?msg) = w" using ffq_words_msg_of[of "replicate w 0"] assms(2) by simp
  obtain err m' b' msg where c: "smlt_ffq_queuepair_recv m b ?msg = (err, m', b', msg)" by (metis prod_cases4)
  then have y: "smlt_err_is_ok err" "y = msg_payload msg" using assms(3) by (auto simp: s ffq_link_recv_def split: if_splits)
  have "msg = ?msg\<lparr>msg_data := copy_from_mem m ?p (msg_data ?msg) w\<rparr> \<and> m ?p \<noteq> - 1"
    using c y(1) ffq_num_words[of ?msg] w assms(2)
    by (auto simp: smlt_ffq_queuepair_recv_def smlt_ffq_queuepair_recv_raw_def smlt_ffq_queue_recv_raw_def Let_def
        smlt_err_is_ok_errval msg_of_def split: if_splits)
  then have "msg_payload msg ! 0 = m ?p" "length (msg_payload msg) = w" "m ?p \<noteq> - 1"
    using w assms(1) by (simp_all add: nth_msg_payload copy_from_mem_eq cell_def)
  then show ?thesis using y(2) assms(1) by (cases "msg_payload msg") auto
qed

lemma ffq_run_no_mark:
  assumes "0 < w" "w \<le> 8" "chan_run ffq_link_send (ffq_link_recv w) ops s = (acc, del, s')" "y \<in> set del"
  shows "hd y \<noteq> - 1"
  using assms(3,4)
proof (induction ops arbitrary: s acc del)
  case (Cons op ops)
  show ?case
  proof (cases op)
    case (Send x)
    then show ?thesis using Cons by (auto simp: Let_def split: prod.splits)
  next
    case Recv
    obtain r s1 where r: "ffq_link_recv w s = (r, s1)" by (cases "ffq_link_recv w s") simp
    obtain acc1 del1 s2 where rest: "chan_run ffq_link_send (ffq_link_recv w) ops s1 = (acc1, del1, s2)" using prod_cases3 by blast
    then have "s2 = s'" "del = (case r of None \<Rightarrow> del1 | Some x \<Rightarrow> x # del1)" using Cons.prems(1) Recv r by auto
    then show ?thesis using Cons.IH[OF rest[unfolded \<open>s2 = s'\<close>]] Cons.prems(2) r ffq_recv_no_mark[OF assms(1,2), of s y s1]
      by (cases r) auto
  qed
qed simp

text \<open>
  The sender goes on round the ring: after the lost message, which was number \<open>S\<close>, and \<open>k\<close> more, the slots
  up to that of the lost message carry the empty mark.
\<close>

definition ffq_round :: "nat \<Rightarrow> nat \<Rightarrow> mem \<Rightarrow> smlt_ffq_queue \<Rightarrow> bool" where
  "ffq_round S k m q \<longleftrightarrow> ffq_at q (S + 1 + k) \<and> fq_direction q = SMLT_FFQ_DIRECTION_SEND \<and>
     (\<forall>s. S + 1 + k \<le> s \<and> s \<le> S + fsize q \<longrightarrow> m (fslot q s 0) = - 1)"

lemma ffq_round_send:
  assumes r: "ffq_round S k m (fqp_tx a)" and k: "k < fsize (fqp_tx a)" and w: "0 < w" "w \<le> 8" "length y = w"
  obtains m' where "ffq_link_send y (b, m, a) = (True, b, m', a\<lparr>fqp_tx := ffq_advance (fqp_tx a)\<rparr>)"
    "ffq_round S (Suc k) m' (ffq_advance (fqp_tx a))" "fpayload w m' (fqp_tx a) (S + 1 + k) = y"
proof -
  let ?q = "fqp_tx a" and ?s = "S + 1 + k"
  have at: "ffq_at ?q ?s" and dir: "fq_direction ?q = SMLT_FFQ_DIRECTION_SEND"
    and empty: "\<And>s. ?s \<le> s \<Longrightarrow> s \<le> S + fsize ?q \<Longrightarrow> m (fslot ?q s 0) = - 1" using r by (auto simp: ffq_round_def)
  have n: "0 < fsize ?q" using k by simp
  have words: "unat (msg_words (msg_of y)) = w" using ffq_words_msg_of[of y] w by simp
  define m' where "m' = (copy_to_mem m (fslot ?q ?s 0) (msg_data (msg_of y)) 1 w)(fslot ?q ?s 0 := msg_data (msg_of y) 0)"
  note mem = ffq_send_mem[OF n w(2) m'_def]
  have "smlt_ffq_queue_can_send m ?q"
    using empty[of ?s] k ffq_slot_address[OF at] dir by (simp add: smlt_ffq_queue_can_send_def)
  then have sent: "ffq_link_send y (b, m, a) = (True, b, m', a\<lparr>fqp_tx := ffq_advance ?q\<rparr>)"
    using ffq_send_eq[OF at, of "msg_of y" m] words w(2) by (simp add: ffq_link_send_def m'_def smlt_err_is_ok_errval)
  have "m' (fslot ?q s 0) = - 1" if "Suc ?s \<le> s" "s \<le> S + fsize ?q" for s
  proof -
    have "?s mod fsize ?q \<noteq> s mod fsize ?q" using that by (intro mod_neq) auto
    then have "m' (fslot ?q s 0) = m (fslot ?q s 0)" by (intro mem(1)) (auto simp: fslot_eq_iff[OF n])
    then show ?thesis using empty that by simp
  qed
  then have "ffq_round S (Suc k) m' (ffq_advance ?q)" using ffq_at_advance[OF at] dir by (simp add: ffq_round_def)
  moreover have "fpayload w m' ?q ?s = y"
    using mem(2)[OF w(1)] w by (simp add: msg_of_def) (rule nth_equalityI, simp_all)
  ultimately show thesis using that sent by blast
qed

lemma ffq_round_run:
  assumes "ffq_round S k m (fqp_tx a)" "k + length ys \<le> fsize (fqp_tx a)" "0 < w" "w \<le> 8" "\<forall>y \<in> set ys. length y = w"
  shows "\<exists>m' a'. chan_run ffq_link_send (ffq_link_recv w) (map Send ys) (b, m, a) = (ys, [], b, m', a') \<and>
     ffq_round S (k + length ys) m' (fqp_tx a') \<and> ffq_same (fqp_tx a') (fqp_tx a) \<and>
     (ys \<noteq> [] \<longrightarrow> fpayload w m' (fqp_tx a) (S + k + length ys) = last ys)"
  using assms
proof (induction ys arbitrary: k m a)
  case Nil
  then show ?case by (simp add: ffq_same_def)
next
  case (Cons y ys)
  obtain m1 where 1: "ffq_link_send y (b, m, a) = (True, b, m1, a\<lparr>fqp_tx := ffq_advance (fqp_tx a)\<rparr>)"
    "ffq_round S (Suc k) m1 (ffq_advance (fqp_tx a))" "fpayload w m1 (fqp_tx a) (S + 1 + k) = y"
    using ffq_round_send[OF Cons.prems(1) _ Cons.prems(3,4), of y b] Cons.prems(2,5) by auto
  let ?a = "a\<lparr>fqp_tx := ffq_advance (fqp_tx a)\<rparr>"
  from Cons.IH[of "Suc k" m1 ?a] 1(2) Cons.prems obtain m' a' where
    2: "chan_run ffq_link_send (ffq_link_recv w) (map Send ys) (b, m1, ?a) = (ys, [], b, m', a')"
    "ffq_round S (Suc k + length ys) m' (fqp_tx a')" "ffq_same (fqp_tx a') (fqp_tx ?a)"
    "ys \<noteq> [] \<longrightarrow> fpayload w m' (fqp_tx ?a) (S + Suc k + length ys) = last ys" by auto
  have "m' = m1" if "ys = []" using 2(1) that by simp
  then show ?case using 1 2 by (auto simp: Let_def)
qed

lemma ffq_mark_send:
  assumes dir: "ffq_dir S S m (fqp_tx a) rx" and w: "0 < w" "w \<le> 8" and x: "length x = w" "hd x = SMLT_FFQ_SLOT_EMPTY"
  obtains m1 where "ffq_link_send x (b, m, a) = (True, b, m1, a\<lparr>fqp_tx := ffq_advance (fqp_tx a)\<rparr>)"
    "ffq_round (S + fsize (fqp_tx a)) 0 m1 (ffq_advance (fqp_tx a))"
proof -
  note D = ffq_dirD[OF dir]
  let ?q = "fqp_tx a" and ?n = "fsize (fqp_tx a)"
  have wrap: "fslot ?q (s + ?n) = fslot ?q s" for s by (simp add: fslot_def fun_eq_iff)
  have "m (fslot ?q s 0) = - 1" if "S + ?n \<le> s" "s \<le> S + ?n - 1 + ?n" for s
    using D(8)[of "s - ?n"] wrap[of "s - ?n"] that D(9) by simp
  then have "ffq_round (S + ?n - 1) 0 m ?q" using D(2,4,9) by (simp add: ffq_round_def ffq_at_def)
  from ffq_round_send[OF this D(9) w x(1), of b] obtain m1 where
    1: "ffq_link_send x (b, m, a) = (True, b, m1, a\<lparr>fqp_tx := ffq_advance ?q\<rparr>)"
    "ffq_round (S + ?n - 1) 1 m1 (ffq_advance ?q)" "fpayload w m1 ?q (S + ?n) = x" using D(9) by auto
  have "m1 (fslot ?q (S + ?n) 0) = - 1" using 1(3) x w(1) by (cases w) (auto simp: fpayload_def upt_conv_Cons simp del: upt_Suc)
  then have "m1 (fslot ?q s 0) = - 1" if "S + ?n + 1 \<le> s" "s \<le> S + ?n + ?n" for s
    using 1(2) that D(9) wrap[of "S + ?n"] by (cases "s = S + ?n + ?n") (auto simp: ffq_round_def)
  then have "ffq_round (S + ?n) 0 m1 (ffq_advance ?q)" using 1(2) D(9) by (simp add: ffq_round_def)
  then show thesis using that 1(1) by blast
qed

lemma ffq_link_recv_eq:
  assumes "ffq_at (fqp_rx b) R" "w \<le> 8"
  shows "ffq_link_recv w (b, m, a) =
    (if m (fslot (fqp_rx b) R 0) = - 1 then (None, b, m, a)
     else (Some (fpayload w m (fqp_rx b) R), b\<lparr>fqp_rx := ffq_advance (fqp_rx b)\<rparr>, m(fslot (fqp_rx b) R 0 := - 1), a))"
proof -
  have "unat (msg_words (msg_of (replicate w (0 :: u64)))) = w" using ffq_words_msg_of[of "replicate w 0"] assms(2) by simp
  moreover have "msg_data_ptr (msg_of (replicate w (0 :: u64))) \<noteq> 0" by (simp add: msg_of_def)
  ultimately show ?thesis
    using ffq_recv_eq[OF assms(1), of "msg_of (replicate w 0)" m] assms(2)
    by (simp add: ffq_link_recv_def smlt_err_is_ok_errval msg_payload_def fpayload_def copy_from_mem_eq cell_fslot)
qed

text \<open>
  Claim C33: a message whose first word is the empty mark is lost, and it breaks the order of the others. On
  an empty link its send reports success. Whatever is sent and received afterwards, no receive ever
  returns it. While fewer messages than slots have been sent after it, all of them reported as sent, the
  receiver still finds the queue empty; the message that completes the round is received before all of
  them.
\<close>

theorem ffq_empty_mark_lost:
  assumes "ffq_link_inv w s" "ffq_link_pending w s = []" "length x = w" "hd x = SMLT_FFQ_SLOT_EMPTY"
  shows "\<exists>s1. ffq_link_send x s = (True, s1) \<and>
     (\<forall>ops acc del s2. chan_run ffq_link_send (ffq_link_recv w) ops s1 = (acc, del, s2) \<longrightarrow> x \<notin> set del) \<and>
     (\<forall>ys. (\<forall>y \<in> set ys. length y = w) \<and> length ys < ffq_link_room s \<longrightarrow>
        (\<exists>s2. chan_run ffq_link_send (ffq_link_recv w) (map Send ys) s1 = (ys, [], s2) \<and> ffq_link_recv w s2 = (None, s2))) \<and>
     (\<forall>ys. (\<forall>y \<in> set ys. length y = w) \<and> length ys = ffq_link_room s \<and> hd (last ys) \<noteq> SMLT_FFQ_SLOT_EMPTY \<longrightarrow>
        (\<exists>s2 s3. chan_run ffq_link_send (ffq_link_recv w) (map Send ys) s1 = (ys, [], s2) \<and> ffq_link_recv w s2 = (Some (last ys), s3)))"
proof -
  obtain b m a where s: "s = (b, m, a)" by (cases s)
  from assms(1) obtain S R where w: "0 < w" "w \<le> 8" and dir: "ffq_dir S R m (fqp_tx a) (fqp_rx b)"
    by (auto simp: s ffq_link_inv_def)
  note D = ffq_dirD[OF dir]
  let ?n = "fsize (fqp_tx a)" and ?q = "fqp_tx a" and ?run = "\<lambda>ys. chan_run ffq_link_send (ffq_link_recv w) (map Send ys)"
  let ?a = "a\<lparr>fqp_tx := ffq_advance ?q\<rparr>"
  have S: "S = R" using assms(2) D(6) by (auto simp: s ffq_link_pending_eq[OF dir])
  have room: "ffq_link_room s = ?n" using D(10) by (simp add: s ffq_link_room_def)
  obtain m1 where sent: "ffq_link_send x s = (True, b, m1, ?a)" and round: "ffq_round (R + ?n) 0 m1 (fqp_tx ?a)"
    using ffq_mark_send[OF dir[unfolded S] w assms(3,4), of b] by (auto simp: s)
  have wrap: "fslot ?q (R + ?n) = fslot ?q R" "fslot ?q (R + ?n + ?n) = fslot ?q R" by (simp_all add: fslot_def fun_eq_iff)
  have recv: "ffq_link_recv w (b, m2, a2) =
      (if m2 (fslot ?q R 0) = - 1 then (None, b, m2, a2)
       else (Some (fpayload w m2 ?q R), b\<lparr>fqp_rx := ffq_advance (fqp_rx b)\<rparr>, m2(fslot ?q R 0 := - 1), a2))" for m2 a2
    using ffq_link_recv_eq[OF D(3) w(2)] D(11) by (simp add: fpayload_def)
  have run: "\<exists>m2 a2. ?run ys (b, m1, ?a) = (ys, [], b, m2, a2) \<and> (length ys < ?n \<longrightarrow> m2 (fslot ?q R 0) = - 1) \<and>
      (length ys = ?n \<longrightarrow> fpayload w m2 ?q R = last ys)" if ys: "\<forall>y \<in> set ys. length y = w" "length ys \<le> ?n" for ys
  proof -
    obtain m2 a2 where r: "?run ys (b, m1, ?a) = (ys, [], b, m2, a2)" "ffq_round (R + ?n) (length ys) m2 (fqp_tx a2)"
      "ffq_same (fqp_tx a2) ?q" "ys \<noteq> [] \<longrightarrow> fpayload w m2 ?q (R + ?n + length ys) = last ys"
      using ffq_round_run[OF round, of ys w b] ys w by auto
    have "m2 (fslot ?q R 0) = - 1" if "length ys < ?n"
    proof -
      have "fsize (fqp_tx a2) = ?n" using r(3) by (simp add: ffq_same_def)
      then have "m2 (fslot (fqp_tx a2) (R + ?n + ?n) 0) = - 1" using r(2) that by (simp add: ffq_round_def)
      then show ?thesis using wrap(2) fslot_same[OF r(3)] by simp
    qed
    moreover have "fpayload w m2 ?q R = last ys" if "length ys = ?n"
      using r(4) that D(9) wrap(2) by (auto simp: fpayload_def)
    ultimately show ?thesis using r(1) by blast
  qed
  have "x \<notin> set del" if "chan_run ffq_link_send (ffq_link_recv w) ops (b, m1, ?a) = (acc, del, s2)" for ops acc del s2
    using ffq_run_no_mark[OF w that] assms(4) by blast
  moreover have "\<exists>s2. ?run ys (b, m1, ?a) = (ys, [], s2) \<and> ffq_link_recv w s2 = (None, s2)"
    if "(\<forall>y \<in> set ys. length y = w) \<and> length ys < ?n" for ys
    using run[of ys] that recv by force
  moreover have "\<exists>s2 s3. ?run ys (b, m1, ?a) = (ys, [], s2) \<and> ffq_link_recv w s2 = (Some (last ys), s3)"
    if ys: "(\<forall>y \<in> set ys. length y = w) \<and> length ys = ?n \<and> hd (last ys) \<noteq> SMLT_FFQ_SLOT_EMPTY" for ys
  proof -
    obtain m2 a2 where r: "?run ys (b, m1, ?a) = (ys, [], b, m2, a2)" "fpayload w m2 ?q R = last ys" using run[of ys] ys by auto
    have "hd (fpayload w m2 ?q R) = m2 (fslot ?q R 0)" using w(1) by (cases w) (auto simp: fpayload_def upt_conv_Cons simp del: upt_Suc)
    then have "m2 (fslot ?q R 0) \<noteq> - 1" using r(2) ys by simp
    then show ?thesis using r recv by auto
  qed
  ultimately show ?thesis unfolding room using sent by blast
qed

theorem ffq_empty_mark_lost_witness:
  "\<exists>s1 s2 s3. ffq_link_send [- 1] (fdemo_b, \<lambda>_. - 1, fdemo_a) = (True, s1) \<and>
     chan_run ffq_link_send (ffq_link_recv 1) [Send [6], Send [7]] s1 = ([[6], [7]], [], s2) \<and> ffq_link_recv 1 s2 = (Some [7], s3)"
proof -
  have *: "0 < (1 :: nat)" "(1 :: nat) \<le> 8" by simp_all
  from ffq_empty_mark_lost[OF fdemo_link(1,2)[OF *], of "[- 1]"] obtain s1 where
    s1: "ffq_link_send [- 1] (fdemo_b, \<lambda>_. - 1, fdemo_a) = (True, s1)"
    "\<forall>ys. (\<forall>y \<in> set ys. length y = 1) \<and> length ys = 2 \<and> hd (last ys) \<noteq> - 1 \<longrightarrow>
      (\<exists>s2 s3. chan_run ffq_link_send (ffq_link_recv 1) (map Send ys) s1 = (ys, [], s2) \<and> ffq_link_recv 1 s2 = (Some (last ys), s3))"
    unfolding fdemo_link(3)[OF *] by auto
  from s1(2)[rule_format, of "[[6], [7]]"] s1(1) show ?thesis by auto
qed

end
