(* ===== verification/Ffq_Concurrent.thy ===== *)
theory Ffq_Concurrent
  imports Ffq_Refine
begin

text \<open>
  The FFQ send and receive at the granularity of single memory accesses. The two functions run
  concurrently on the two ends of a ring; every load, every store of a payload word, and the
  stores that publish and release a slot are separate steps, interleaved arbitrarily. Stores
  take effect in program order, which is what the write barrier in \<open>smlt_ffq_queue_send_raw\<close>
  asks of the machine.
\<close>

section \<open>States and steps\<close>

text \<open>Where the sender and the receiver are in their function bodies, with their local variables.\<close>

datatype ffq_sender_pc = SIdle | SCopy "u64 list" nat
datatype ffq_receiver_pc = RIdle | RCopy "nat \<Rightarrow> u64" nat

record ffq_conc =
  fc_mem :: mem
  fc_tx :: smlt_ffq_queue
  fc_rx :: smlt_ffq_queue
  fc_spc :: ffq_sender_pc
  fc_rpc :: ffq_receiver_pc
  fc_sent :: "u64 list list"
  fc_delivered :: "u64 list list"

text \<open>
  The steps of \<open>smlt_ffq_queue_send_raw\<close> and of \<open>smlt_ffq_queue_recv_raw\<close> for messages of \<open>w\<close> words, of any
  contents. \<open>fc_sent\<close> records the messages in the order of their publishing stores, \<open>fc_delivered\<close> what
  the receive calls returned. A call that is refused because the queue is full or empty changes
  nothing and is no step.
\<close>

inductive ffq_sender_step :: "nat \<Rightarrow> ffq_conc \<Rightarrow> ffq_conc \<Rightarrow> bool" for w :: nat where
  send_check: "\<lbrakk>fc_spc \<sigma> = SIdle; length x = w; smlt_ffq_queue_can_send (fc_mem \<sigma>) (fc_tx \<sigma>)\<rbrakk>
     \<Longrightarrow> ffq_sender_step w \<sigma> (\<sigma>\<lparr>fc_spc := SCopy x 1\<rparr>)"
| send_word: "\<lbrakk>fc_spc \<sigma> = SCopy x i; i < w\<rbrakk>
     \<Longrightarrow> ffq_sender_step w \<sigma> (\<sigma>\<lparr>fc_mem := (fc_mem \<sigma>)(smlt_ffq_queue_get_next (fc_tx \<sigma>) + 8 * of_nat i := x ! i),
                            fc_spc := SCopy x (Suc i)\<rparr>)"
| send_publish: "\<lbrakk>fc_spc \<sigma> = SCopy x i; \<not> i < w\<rbrakk>
     \<Longrightarrow> ffq_sender_step w \<sigma> (\<sigma>\<lparr>fc_mem := (fc_mem \<sigma>)(smlt_ffq_queue_get_next (fc_tx \<sigma>) := x ! 0),
                            fc_tx := ffq_advance (fc_tx \<sigma>), fc_spc := SIdle, fc_sent := fc_sent \<sigma> @ [x]\<rparr>)"

inductive ffq_receiver_step :: "nat \<Rightarrow> ffq_conc \<Rightarrow> ffq_conc \<Rightarrow> bool" for w :: nat where
  recv_check: "\<lbrakk>fc_rpc \<sigma> = RIdle; fc_mem \<sigma> (smlt_ffq_queue_get_next (fc_rx \<sigma>)) \<noteq> - 1\<rbrakk>
     \<Longrightarrow> ffq_receiver_step w \<sigma> (\<sigma>\<lparr>fc_rpc := RCopy (\<lambda>_. 0) 0\<rparr>)"
| recv_word: "\<lbrakk>fc_rpc \<sigma> = RCopy f i; i < w\<rbrakk>
     \<Longrightarrow> ffq_receiver_step w \<sigma> (\<sigma>\<lparr>fc_rpc := RCopy (f(i := fc_mem \<sigma> (smlt_ffq_queue_get_next (fc_rx \<sigma>) + 8 * of_nat i))) (Suc i)\<rparr>)"
| recv_release: "\<lbrakk>fc_rpc \<sigma> = RCopy f i; \<not> i < w\<rbrakk>
     \<Longrightarrow> ffq_receiver_step w \<sigma> (\<sigma>\<lparr>fc_mem := (fc_mem \<sigma>)(smlt_ffq_queue_get_next (fc_rx \<sigma>) := - 1),
                            fc_rx := ffq_advance (fc_rx \<sigma>), fc_rpc := RIdle,
                            fc_delivered := fc_delivered \<sigma> @ [map f [0..<w]]\<rparr>)"

inductive_cases ffq_sender_stepE: "ffq_sender_step w \<sigma> \<sigma>'"
inductive_cases ffq_receiver_stepE: "ffq_receiver_step w \<sigma> \<sigma>'"

definition ffq_step :: "nat \<Rightarrow> ffq_conc \<Rightarrow> ffq_conc \<Rightarrow> bool" where
  "ffq_step w \<sigma> \<sigma>' \<longleftrightarrow> ffq_sender_step w \<sigma> \<sigma>' \<or> ffq_receiver_step w \<sigma> \<sigma>'"

text \<open>No message that has been published starts with the mark of an empty slot.\<close>

definition ffq_sent_ok :: "ffq_conc \<Rightarrow> bool" where
  "ffq_sent_ok \<sigma> \<longleftrightarrow> (\<forall>x \<in> set (fc_sent \<sigma>). hd x \<noteq> SMLT_FFQ_SLOT_EMPTY)"

text \<open>Two idle endpoints on a ring of \<open>slots\<close> empty slots at \<open>r\<close>.\<close>

definition ffq_conc_init :: "mem \<Rightarrow> addr \<Rightarrow> u16 \<Rightarrow> ffq_conc" where
  "ffq_conc_init m r slots =
     \<lparr>fc_mem = ffq_mark_empty m r (unat slots),
      fc_tx = snd (snd (smlt_ffq_queue_init_tx m r slots)), fc_rx = snd (smlt_ffq_queue_init_rx r slots),
      fc_spc = SIdle, fc_rpc = RIdle, fc_sent = [], fc_delivered = []\<rparr>"

section \<open>Invariant\<close>

text \<open>
  The pending slots hold their messages complete. A sender inside its copy owns the next slot and
  has written the words below its index; a receiver inside its copy owns the oldest slot and has
  read the words below its index.
\<close>

fun sender_ok :: "nat \<Rightarrow> nat \<Rightarrow> nat \<Rightarrow> mem \<Rightarrow> smlt_ffq_queue \<Rightarrow> ffq_sender_pc \<Rightarrow> bool" where
  "sender_ok w S R m tx SIdle = True"
| "sender_ok w S R m tx (SCopy x i) =
     (length x = w \<and> 0 < i \<and> i \<le> w \<and> S < R + fsize tx \<and>
      (\<forall>j. 0 < j \<and> j < i \<longrightarrow> m (fslot tx S j) = x ! j))"

fun receiver_ok :: "nat \<Rightarrow> nat \<Rightarrow> nat \<Rightarrow> u64 list list \<Rightarrow> ffq_receiver_pc \<Rightarrow> bool" where
  "receiver_ok w S R sent RIdle = True"
| "receiver_ok w S R sent (RCopy f i) = (R < S \<and> i \<le> w \<and> (\<forall>j < i. f j = sent ! R ! j))"

definition ffq_conc_inv :: "nat \<Rightarrow> ffq_conc \<Rightarrow> bool" where
  "ffq_conc_inv w \<sigma> \<longleftrightarrow>
     (let S = length (fc_sent \<sigma>); R = length (fc_delivered \<sigma>); m = fc_mem \<sigma>; tx = fc_tx \<sigma> in
      0 < w \<and> w \<le> 8 \<and> ffq_dir S R m tx (fc_rx \<sigma>) \<and>
      (\<forall>x \<in> set (fc_sent \<sigma>). length x = w) \<and>
      (\<forall>s. R \<le> s \<and> s < S \<longrightarrow> fpayload w m tx s = fc_sent \<sigma> ! s) \<and>
      fc_delivered \<sigma> = take R (fc_sent \<sigma>) \<and>
      sender_ok w S R m tx (fc_spc \<sigma>) \<and> receiver_ok w S R (fc_sent \<sigma>) (fc_rpc \<sigma>))"

lemma ffq_get_next_slot: "ffq_at q s \<Longrightarrow> smlt_ffq_queue_get_next q = fslot q s 0"
  by (simp add: smlt_ffq_queue_get_next_def ffq_slot_address)

lemma ffq_word_slot: "ffq_at q s \<Longrightarrow> smlt_ffq_queue_get_next q + 8 * of_nat j = fslot q s j"
  by (simp add: ffq_get_next_slot word_cell cell_fslot)

lemma ffq_conc_invD:
  assumes "ffq_conc_inv w \<sigma>"
  shows "0 < w" "w \<le> 8" "ffq_dir (length (fc_sent \<sigma>)) (length (fc_delivered \<sigma>)) (fc_mem \<sigma>) (fc_tx \<sigma>) (fc_rx \<sigma>)"
    "\<And>x. x \<in> set (fc_sent \<sigma>) \<Longrightarrow> length x = w"
    "\<And>s. length (fc_delivered \<sigma>) \<le> s \<Longrightarrow> s < length (fc_sent \<sigma>) \<Longrightarrow>
       fpayload w (fc_mem \<sigma>) (fc_tx \<sigma>) s = fc_sent \<sigma> ! s"
    "fc_delivered \<sigma> = take (length (fc_delivered \<sigma>)) (fc_sent \<sigma>)"
    "sender_ok w (length (fc_sent \<sigma>)) (length (fc_delivered \<sigma>)) (fc_mem \<sigma>) (fc_tx \<sigma>) (fc_spc \<sigma>)"
    "receiver_ok w (length (fc_sent \<sigma>)) (length (fc_delivered \<sigma>)) (fc_sent \<sigma>) (fc_rpc \<sigma>)"
  using assms unfolding ffq_conc_inv_def Let_def by blast+

lemma ffq_dir_flags:
  assumes "ffq_dir S R m tx rx" "\<And>s. m' (fslot tx s 0) = m (fslot tx s 0)"
  shows "ffq_dir S R m' tx rx"
  using assms by (simp add: ffq_dir_def)

lemma fpayload_other:
  assumes "0 < fsize q" "w \<le> 8" "j < 8" "s mod fsize q \<noteq> t mod fsize q"
  shows "fpayload w (m(fslot q t j := v)) q s = fpayload w m q s"
  using assms by (auto simp: fpayload_def fslot_eq_iff)

lemma fpayload_eqI:
  assumes "length x = w" "\<And>j. j < w \<Longrightarrow> m (fslot q s j) = x ! j"
  shows "fpayload w m q s = x"
  using assms by (intro nth_equalityI) (simp_all add: fpayload_def)

lemma nth_fpayload: "j < w \<Longrightarrow> fpayload w m q s ! j = m (fslot q s j)"
  by (simp add: fpayload_def)

lemma inv_send_word:
  assumes inv: "ffq_conc_inv w \<sigma>" and pc: "fc_spc \<sigma> = SCopy x i" "i < w"
  shows "ffq_conc_inv w (\<sigma>\<lparr>fc_mem := (fc_mem \<sigma>)(smlt_ffq_queue_get_next (fc_tx \<sigma>) + 8 * of_nat i := x ! i),
                           fc_spc := SCopy x (Suc i)\<rparr>)"
proof -
  let ?S = "length (fc_sent \<sigma>)" and ?R = "length (fc_delivered \<sigma>)" and ?tx = "fc_tx \<sigma>"
  note I = ffq_conc_invD[OF inv] and D = ffq_dirD[OF I(3)]
  have ok: "length x = w" "0 < i" "?S < ?R + fsize ?tx"
    "\<forall>j. 0 < j \<and> j < i \<longrightarrow> fc_mem \<sigma> (fslot ?tx ?S j) = x ! j" using I(7) by (simp_all add: pc)
  note addr = ffq_word_slot[OF D(2), of i]
  let ?m = "(fc_mem \<sigma>)(fslot ?tx ?S i := x ! i)"
  have "ffq_dir ?S ?R ?m ?tx (fc_rx \<sigma>)"
    using I(1,2) ok(2) pc(2) by (intro ffq_dir_flags[OF I(3)]) (auto simp: fslot_eq_iff[OF D(9)])
  moreover have "fpayload w ?m ?tx s = fc_sent \<sigma> ! s" if "?R \<le> s" "s < ?S" for s
  proof -
    have "s mod fsize ?tx \<noteq> ?S mod fsize ?tx" using that ok(3) by (intro mod_neq) auto
    then show ?thesis using fpayload_other[OF D(9) I(2)] pc(2) I(2) I(5)[OF that] by simp
  qed
  moreover have "?m (fslot ?tx ?S j) = x ! j" if "0 < j" "j < Suc i" for j
    using that ok(4) pc(2) I(2) by (auto simp: fslot_eq_iff[OF D(9)] less_Suc_eq)
  ultimately show ?thesis
    using I(1,2,4,6,8) ok pc(2) by (simp add: ffq_conc_inv_def Let_def addr)
qed

lemma inv_send_publish:
  assumes inv: "ffq_conc_inv w \<sigma>" and pc: "fc_spc \<sigma> = SCopy x i" "\<not> i < w" and x: "hd x \<noteq> SMLT_FFQ_SLOT_EMPTY"
  shows "ffq_conc_inv w (\<sigma>\<lparr>fc_mem := (fc_mem \<sigma>)(smlt_ffq_queue_get_next (fc_tx \<sigma>) := x ! 0),
           fc_tx := ffq_advance (fc_tx \<sigma>), fc_spc := SIdle, fc_sent := fc_sent \<sigma> @ [x]\<rparr>)"
proof -
  let ?S = "length (fc_sent \<sigma>)" and ?R = "length (fc_delivered \<sigma>)" and ?tx = "fc_tx \<sigma>"
  note I = ffq_conc_invD[OF inv] and D = ffq_dirD[OF I(3)]
  have ok: "length x = w" "hd x \<noteq> - 1" "i = w" "?S < ?R + fsize ?tx"
    "\<forall>j. 0 < j \<and> j < w \<longrightarrow> fc_mem \<sigma> (fslot ?tx ?S j) = x ! j" using I(7) pc(2) x by (auto simp: pc(1))
  let ?m = "(fc_mem \<sigma>)(fslot ?tx ?S 0 := x ! 0)"
  have "x ! 0 \<noteq> - 1" using ok(1,2) I(1) by (cases x) auto
  then have "ffq_dir (Suc ?S) ?R ?m (ffq_advance ?tx) (fc_rx \<sigma>)"
    using ok(4) by (intro ffq_dir_publish[OF I(3)]) auto
  moreover have "fpayload w ?m ?tx s = (fc_sent \<sigma> @ [x]) ! s" if "?R \<le> s" "s < Suc ?S" for s
  proof (cases "s = ?S")
    case True
    have "?m (fslot ?tx ?S j) = x ! j" if "j < w" for j
      using that ok(5) I(2) by (cases "j = 0") (auto simp: fslot_eq_iff[OF D(9)])
    then have "fpayload w ?m ?tx ?S = x" by (rule fpayload_eqI[OF ok(1)])
    then show ?thesis using True by simp
  next
    case False
    then have "s mod fsize ?tx \<noteq> ?S mod fsize ?tx" using that ok(4) by (intro mod_neq) auto
    then show ?thesis using fpayload_other[OF D(9) I(2)] I(5)[of s] that False by (simp add: nth_append)
  qed
  moreover have "receiver_ok w (Suc ?S) ?R (fc_sent \<sigma> @ [x]) (fc_rpc \<sigma>)"
    using I(8) by (cases "fc_rpc \<sigma>") (auto simp: nth_append)
  moreover have "fc_delivered \<sigma> = take ?R (fc_sent \<sigma> @ [x])" using I(6) D(6) by simp
  ultimately show ?thesis
    using I(1,2,4) ok(1) by (auto simp: ffq_conc_inv_def Let_def ffq_get_next_slot[OF D(2)])
qed

lemma inv_recv_word:
  assumes inv: "ffq_conc_inv w \<sigma>" and pc: "fc_rpc \<sigma> = RCopy f i" "i < w"
  shows "ffq_conc_inv w (\<sigma>\<lparr>fc_rpc :=
           RCopy (f(i := fc_mem \<sigma> (smlt_ffq_queue_get_next (fc_rx \<sigma>) + 8 * of_nat i))) (Suc i)\<rparr>)"
proof -
  let ?R = "length (fc_delivered \<sigma>)"
  note I = ffq_conc_invD[OF inv] and D = ffq_dirD[OF I(3)]
  have ok: "?R < length (fc_sent \<sigma>)" "\<forall>j < i. f j = fc_sent \<sigma> ! ?R ! j" using I(8) by (simp_all add: pc)
  have "fc_mem \<sigma> (fslot (fc_tx \<sigma>) ?R i) = fc_sent \<sigma> ! ?R ! i"
    using nth_fpayload[OF pc(2), of "fc_mem \<sigma>" "fc_tx \<sigma>" ?R] I(5)[of ?R] ok(1) by simp
  then have "receiver_ok w (length (fc_sent \<sigma>)) ?R (fc_sent \<sigma>)
     (RCopy (f(i := fc_mem \<sigma> (smlt_ffq_queue_get_next (fc_rx \<sigma>) + 8 * of_nat i))) (Suc i))"
    using ok pc(2) ffq_word_slot[OF D(3), of i] D(11) by (simp add: less_Suc_eq)
  then show ?thesis using inv by (simp add: ffq_conc_inv_def Let_def)
qed

lemma inv_recv_release:
  assumes inv: "ffq_conc_inv w \<sigma>" and pc: "fc_rpc \<sigma> = RCopy f i" "\<not> i < w"
  shows "ffq_conc_inv w (\<sigma>\<lparr>fc_mem := (fc_mem \<sigma>)(smlt_ffq_queue_get_next (fc_rx \<sigma>) := - 1),
           fc_rx := ffq_advance (fc_rx \<sigma>), fc_rpc := RIdle,
           fc_delivered := fc_delivered \<sigma> @ [map f [0..<w]]\<rparr>)"
proof -
  let ?S = "length (fc_sent \<sigma>)" and ?R = "length (fc_delivered \<sigma>)" and ?tx = "fc_tx \<sigma>"
  note I = ffq_conc_invD[OF inv] and D = ffq_dirD[OF I(3)]
  have ok: "?R < ?S" "i = w" "\<forall>j < w. f j = fc_sent \<sigma> ! ?R ! j" using I(8) pc(2) by (auto simp: pc(1))
  let ?m = "(fc_mem \<sigma>)(fslot ?tx ?R 0 := - 1)"
  have msg: "map f [0..<w] = fc_sent \<sigma> ! ?R"
    using ok I(4)[of "fc_sent \<sigma> ! ?R"] by (intro nth_equalityI) simp_all
  have "ffq_dir ?S (Suc ?R) ?m ?tx (ffq_advance (fc_rx \<sigma>))" using ffq_dir_consume[OF I(3) ok(1)] .
  moreover have "fpayload w ?m ?tx s = fc_sent \<sigma> ! s" if "Suc ?R \<le> s" "s < ?S" for s
  proof -
    have "?R mod fsize ?tx \<noteq> s mod fsize ?tx" using that D(7) by (intro mod_neq) auto
    then show ?thesis using fpayload_other[OF D(9) I(2)] that I(5)[of s] by simp
  qed
  moreover have "sender_ok w ?S (Suc ?R) ?m ?tx (fc_spc \<sigma>)"
    using I(7) I(2) by (cases "fc_spc \<sigma>") (auto simp: fslot_eq_iff[OF D(9)])
  moreover have "fc_delivered \<sigma> @ [map f [0..<w]] = take (Suc ?R) (fc_sent \<sigma>)"
    using I(6) ok(1) msg by (simp add: take_Suc_conv_app_nth)
  ultimately show ?thesis
    using I(1,2,4) Suc_leI[OF ok(1)]
    by (simp add: ffq_conc_inv_def Let_def ffq_get_next_slot[OF D(3)] D(11) min_absorb2)
qed

text \<open>The messages published stay on record, so that a proper record was a proper one before the step.\<close>

lemma ffq_step_sent_ok: "ffq_step w \<sigma> \<sigma>' \<Longrightarrow> ffq_sent_ok \<sigma>' \<Longrightarrow> ffq_sent_ok \<sigma>"
  by (auto simp: ffq_step_def ffq_sent_ok_def elim: ffq_sender_stepE ffq_receiver_stepE)

lemma ffq_sender_step_inv:
  assumes inv: "ffq_conc_inv w \<sigma>" and step: "ffq_sender_step w \<sigma> \<sigma>'" and ok: "ffq_sent_ok \<sigma>'"
  shows "ffq_conc_inv w \<sigma>'"
  using step
proof cases
  case (send_check x)
  note I = ffq_conc_invD[OF inv]
  have "length (fc_sent \<sigma>) < length (fc_delivered \<sigma>) + fsize (fc_tx \<sigma>)"
    using ffq_dir_can_send[OF I(3)] send_check by simp
  then show ?thesis using inv send_check I(1) by (simp add: ffq_conc_inv_def Let_def)
next
  case (send_publish x i)
  then have "hd x \<noteq> SMLT_FFQ_SLOT_EMPTY" using ok by (simp add: ffq_sent_ok_def)
  then show ?thesis using inv_send_publish[OF inv send_publish(2,3)] send_publish(1) by simp
qed (use inv inv_send_word in simp_all)

lemma ffq_receiver_step_inv:
  assumes inv: "ffq_conc_inv w \<sigma>" and step: "ffq_receiver_step w \<sigma> \<sigma>'"
  shows "ffq_conc_inv w \<sigma>'"
  using step
proof cases
  case recv_check
  note I = ffq_conc_invD[OF inv] and D = ffq_dirD[OF ffq_conc_invD(3)[OF inv]]
  have "length (fc_delivered \<sigma>) < length (fc_sent \<sigma>)"
    using ffq_dir_can_recv[OF I(3)] recv_check ffq_get_next_slot[OF D(3)] D(11) by simp
  then show ?thesis using inv recv_check by (simp add: ffq_conc_inv_def Let_def)
qed (use inv inv_recv_word inv_recv_release in simp_all)

lemma ffq_reachable_inv:
  assumes "(ffq_step w)\<^sup>*\<^sup>* \<sigma> \<sigma>'" "ffq_conc_inv w \<sigma>" "ffq_sent_ok \<sigma>'"
  shows "ffq_conc_inv w \<sigma>'"
  using assms
proof (induction rule: rtranclp_induct)
  case (step \<sigma>1 \<sigma>2)
  then have "ffq_conc_inv w \<sigma>1" using ffq_step_sent_ok by blast
  then show ?case using step ffq_sender_step_inv ffq_receiver_step_inv unfolding ffq_step_def by blast
qed simp

lemma ffq_conc_init_inv:
  assumes "slots \<noteq> 0" "0 < w" "w \<le> 8"
  shows "ffq_conc_inv w (ffq_conc_init m r slots)"
proof -
  have "unat slots < 2 ^ LENGTH(16)" by (rule unsigned_less)
  then have "ffq_dir 0 0 (ffq_mark_empty m r (unat slots)) (ffq_fresh r slots SMLT_FFQ_DIRECTION_SEND)
          (ffq_fresh r slots SMLT_FFQ_DIRECTION_RECV)"
    by (intro ffq_dir_init[OF assms(1)] ffq_mark_empty_slot) simp_all
  then show ?thesis
    using assms(2,3)
    by (simp add: ffq_conc_inv_def ffq_conc_init_def smlt_ffq_queue_init_tx_def
        smlt_ffq_queue_init_rx_def ffq_fresh_def)
qed

lemma ffq_never_stuck:
  assumes inv: "ffq_conc_inv w \<sigma>"
  shows "\<exists>\<sigma>'. ffq_step w \<sigma> \<sigma>'"
proof (cases "fc_spc \<sigma>")
  case (SCopy x i)
  then show ?thesis using send_word[of \<sigma> x i w] send_publish[of \<sigma> x i w] unfolding ffq_step_def by blast
next
  case SIdle
  note I = ffq_conc_invD[OF inv] and D = ffq_dirD[OF ffq_conc_invD(3)[OF inv]]
  show ?thesis
  proof (cases "smlt_ffq_queue_can_send (fc_mem \<sigma>) (fc_tx \<sigma>)")
    case True
    then show ?thesis using send_check[OF SIdle _ True, of "replicate w 0"] unfolding ffq_step_def by auto
  next
    case False
    then have full: "length (fc_delivered \<sigma>) < length (fc_sent \<sigma>)"
      using ffq_dir_can_send[OF I(3)] D(9) by simp
    show ?thesis
    proof (cases "fc_rpc \<sigma>")
      case RIdle
      have "fc_mem \<sigma> (smlt_ffq_queue_get_next (fc_rx \<sigma>)) \<noteq> - 1"
        using full ffq_dir_can_recv[OF I(3)] ffq_get_next_slot[OF D(3)] D(11) by simp
      then show ?thesis using recv_check[OF RIdle] unfolding ffq_step_def by blast
    next
      case (RCopy f i)
      then show ?thesis using recv_word[of \<sigma> f i w] recv_release[of \<sigma> f i w] unfolding ffq_step_def by blast
    qed
  qed
qed

section \<open>Properties\<close>

text \<open>
  Claim C11: the FFQ send and receive run concurrently at the granularity of single memory accesses. In
  every reachable state in which no published message starts with the mark of an empty slot, the
  receiver has been given exactly the first messages that were published, each complete and in order, no
  more messages than slots are under way, and at least one side can take a step.
\<close>

theorem ffq_concurrent_fifo:
  assumes "slots \<noteq> 0" "0 < w" "w \<le> 8"
    and "(ffq_step w)\<^sup>*\<^sup>* (ffq_conc_init m r slots) \<sigma>" "\<forall>x \<in> set (fc_sent \<sigma>). hd x \<noteq> SMLT_FFQ_SLOT_EMPTY"
  shows "fc_delivered \<sigma> = take (length (fc_delivered \<sigma>)) (fc_sent \<sigma>) \<and>
         length (fc_sent \<sigma>) \<le> length (fc_delivered \<sigma>) + fsize (fc_tx \<sigma>) \<and>
         (\<exists>\<sigma>'. ffq_step w \<sigma> \<sigma>')"
proof -
  have "ffq_sent_ok \<sigma>" using assms(5) by (simp add: ffq_sent_ok_def)
  then have inv: "ffq_conc_inv w \<sigma>"
    using ffq_reachable_inv[OF assms(4)] ffq_conc_init_inv[OF assms(1-3)] by simp
  note I = ffq_conc_invD[OF inv]
  show ?thesis using I(6) ffq_dirD(7)[OF I(3)] ffq_never_stuck[OF inv] by blast
qed

theorem ffq_concurrent_fifo_witness:
  "\<exists>\<sigma>. (ffq_step 1)\<^sup>*\<^sup>* (ffq_conc_init (\<lambda>_. 0) 4096 1) \<sigma> \<and> fc_sent \<sigma> = [[7]] \<and>
       fc_delivered \<sigma> = take (length (fc_delivered \<sigma>)) [[7]]"
proof -
  let ?a = "ffq_conc_init (\<lambda>_. 0) 4096 1"
  have "smlt_ffq_queue_can_send (fc_mem ?a) (fc_tx ?a)"
    by (simp add: ffq_conc_init_def smlt_ffq_queue_can_send_def smlt_ffq_queue_init_tx_def)
  then have s1: "ffq_sender_step 1 ?a (?a\<lparr>fc_spc := SCopy [7] 1\<rparr>)"
    by (intro send_check) (simp_all add: ffq_conc_init_def)
  obtain \<sigma> where s2: "ffq_sender_step 1 (?a\<lparr>fc_spc := SCopy [7] 1\<rparr>) \<sigma>" "fc_sent \<sigma> = [[7]]"
    using send_publish[of "?a\<lparr>fc_spc := SCopy [7] 1\<rparr>" "[7]" 1 1]
    by (fastforce simp: ffq_conc_init_def)
  have "ffq_step 1 ?a (?a\<lparr>fc_spc := SCopy [7] 1\<rparr>)" "ffq_step 1 (?a\<lparr>fc_spc := SCopy [7] 1\<rparr>) \<sigma>"
    using s1 s2(1) by (simp_all add: ffq_step_def)
  then have reach: "(ffq_step 1)\<^sup>*\<^sup>* ?a \<sigma>" by (meson converse_rtranclp_into_rtranclp r_into_rtranclp)
  then show ?thesis using ffq_concurrent_fifo[OF _ _ _ reach] s2(2) by auto
qed

end
