(* ===== verification/Ump_Queue.thy ===== *)
theory Ump_Queue
  imports Smelt_Error Smelt_Message Fifo_Channel
begin

text \<open>
  The UMP backend (\<open>inc/backends/ump/smlt_ump_queue.h\<close>, \<open>smlt_ump_queuepair.h\<close> and
  \<open>src/backends/ump/\<close>): one-directional rings of cache-line messages in shared memory. A slot
  holds a 32-bit control word (16-bit epoch, 16-bit sequence number) and seven payload words;
  the receiver recognises a new message by the epoch bit and acknowledges sequence numbers
  twice per round in the line in front of the ring.
\<close>

section \<open>Queues\<close>

abbreviation (input) SMLT_UMP_MSG_BYTES :: u64 where "SMLT_UMP_MSG_BYTES \<equiv> 64"
abbreviation (input) SMLT_UMP_PAYLOAD_WORDS :: nat where "SMLT_UMP_PAYLOAD_WORDS \<equiv> 7"
abbreviation (input) SMLT_UMP_DEFAULT_SLOTS :: u16 where "SMLT_UMP_DEFAULT_SLOTS \<equiv> 64"
abbreviation (input) BASE_PAGE_SIZE :: u64 where "BASE_PAGE_SIZE \<equiv> 4096"

record smlt_ump_ctrl =
  ctrl_epoch :: u16
  ctrl_last_ack :: u16

text \<open>The \<open>raw\<close> member of the control union, and back.\<close>

definition ctrl_raw :: "smlt_ump_ctrl \<Rightarrow> u32" where
  "ctrl_raw c = ucast (ctrl_epoch c) OR push_bit 16 (ucast (ctrl_last_ack c))"

definition ctrl_of_raw :: "u32 \<Rightarrow> smlt_ump_ctrl" where
  "ctrl_of_raw r = \<lparr>ctrl_epoch = ucast r, ctrl_last_ack = ucast (drop_bit 16 r)\<rparr>"

datatype smlt_ump_direction_t = SMLT_UMP_DIRECTION_RECV | SMLT_UMP_DIRECTION_SEND

record smlt_ump_queue =
  uq_buf :: addr
  uq_last_ack :: addr
  uq_pos :: u16
  uq_num_msg :: u16
  uq_epoch :: bool
  uq_direction :: smlt_ump_direction_t

text \<open>A \<open>bool\<close> converted to the \<open>uint16_t\<close> epoch field.\<close>

definition epoch16 :: "bool \<Rightarrow> u16" where
  "epoch16 b = (if b then 1 else 0)"

definition check_alignment :: "addr \<Rightarrow> nat \<Rightarrow> errval_t" where
  "check_alignment buf sz =
     (if sz = 0 \<or> sz > 65535 then errval SMLT_ERR_BAD_ALIGNMENT
      else if buf = 0 \<or> buf mod SMLT_UMP_MSG_BYTES \<noteq> 0 then errval SMLT_ERR_BAD_ALIGNMENT
      else errval SMLT_SUCCESS)"

definition smlt_ump_queue_init_common ::
  "smlt_ump_queue \<Rightarrow> addr \<Rightarrow> u16 \<Rightarrow> errval_t \<times> smlt_ump_queue"
where
  "smlt_ump_queue_init_common q buf slots =
     (let err = check_alignment buf (unat slots) in
      if smlt_err_is_fail err then (err, q)
      else (errval SMLT_SUCCESS,
            q\<lparr>uq_pos := 0, uq_last_ack := buf, uq_buf := buf + SMLT_UMP_MSG_BYTES,
              uq_num_msg := slots - 1, uq_epoch := True\<rparr>))"

definition smlt_ump_queue_init_tx ::
  "mem \<Rightarrow> smlt_ump_queue \<Rightarrow> addr \<Rightarrow> u16 \<Rightarrow> errval_t \<times> mem \<times> smlt_ump_queue"
where
  "smlt_ump_queue_init_tx m q buf slots =
     (let (err, q1) = smlt_ump_queue_init_common q buf slots in
      if smlt_err_is_fail err then (err, m, q1)
      else (errval SMLT_SUCCESS, mem_clear m buf (unat slots * 64),
            q1\<lparr>uq_direction := SMLT_UMP_DIRECTION_SEND\<rparr>))"

definition smlt_ump_queue_init_rx ::
  "smlt_ump_queue \<Rightarrow> addr \<Rightarrow> u16 \<Rightarrow> errval_t \<times> smlt_ump_queue"
where
  "smlt_ump_queue_init_rx q buf slots =
     (let (err, q1) = smlt_ump_queue_init_common q buf slots in
      if smlt_err_is_fail err then (err, q1)
      else (errval SMLT_SUCCESS, q1\<lparr>uq_direction := SMLT_UMP_DIRECTION_RECV\<rparr>))"

definition smlt_ump_queue_last_ack :: "mem \<Rightarrow> smlt_ump_queue \<Rightarrow> u16" where
  "smlt_ump_queue_last_ack m q = ld16 m (uq_last_ack q)"

definition smlt_ump_queue_get_next :: "smlt_ump_queue \<Rightarrow> addr" where
  "smlt_ump_queue_get_next c = uq_buf c + 64 * ucast (uq_pos c)"

text \<open>\<open>if (++c->pos == c->num_msg) { c->pos = 0; c->epoch = !c->epoch; }\<close>\<close>

definition ump_advance :: "smlt_ump_queue \<Rightarrow> smlt_ump_queue" where
  "ump_advance c =
     (if uq_pos c + 1 = uq_num_msg c then c\<lparr>uq_pos := 0, uq_epoch := \<not> uq_epoch c\<rparr>
      else c\<lparr>uq_pos := uq_pos c + 1\<rparr>)"

definition smlt_ump_queue_send ::
  "mem \<Rightarrow> smlt_ump_queue \<Rightarrow> addr \<Rightarrow> smlt_ump_ctrl \<Rightarrow> mem \<times> smlt_ump_queue"
where
  "smlt_ump_queue_send m c msg ctrl =
     (st32 m msg (ctrl_raw (ctrl\<lparr>ctrl_epoch := epoch16 (uq_epoch c)\<rparr>)), ump_advance c)"

definition smlt_ump_queue_notify ::
  "mem \<Rightarrow> smlt_ump_queue \<Rightarrow> smlt_ump_ctrl \<Rightarrow> mem \<times> smlt_ump_queue"
where
  "smlt_ump_queue_notify m c ctrl =
     (st32 m (uq_buf c + 64 * ucast (uq_pos c))
        (ctrl_raw (ctrl\<lparr>ctrl_epoch := epoch16 (uq_epoch c)\<rparr>)), ump_advance c)"

definition smlt_ump_queue_can_recv :: "mem \<Rightarrow> smlt_ump_queue \<Rightarrow> bool" where
  "smlt_ump_queue_can_recv m c =
     (let msg = uq_buf c + 64 * ucast (uq_pos c)
      in ctrl_epoch (ctrl_of_raw (ld32 m msg)) = epoch16 (uq_epoch c))"

text \<open>
  \<open>smlt_ump_queue_recv_raw\<close>: the error value, the pointer stored through \<open>msg\<close> (meaningful on
  success), and the new memory and queue. The acknowledgement in the middle of the ring is
  decided on the position before the increment, the one at the end after it.
\<close>

definition smlt_ump_queue_recv_raw ::
  "mem \<Rightarrow> smlt_ump_queue \<Rightarrow> errval_t \<times> addr \<times> mem \<times> smlt_ump_queue"
where
  "smlt_ump_queue_recv_raw m q =
     (let msg = uq_buf q + 64 * ucast (uq_pos q);
          ctrl = ctrl_of_raw (ld32 m msg) in
      if ctrl_epoch ctrl \<noteq> epoch16 (uq_epoch q) then (errval SMLT_ERR_QUEUE_EMPTY, msg, m, q)
      else
        let m1 = (if uq_pos q = drop_bit 1 (uq_num_msg q)
                  then st16 m (uq_last_ack q) (ctrl_last_ack ctrl) else m);
            m2 = (if uq_pos q + 1 = uq_num_msg q
                  then st16 m1 (uq_last_ack q) (ctrl_last_ack ctrl) else m1)
        in (errval SMLT_SUCCESS, msg, m2, ump_advance q))"

section \<open>Queue pairs\<close>

record smlt_ump_queuepair =
  uqp_tx :: smlt_ump_queue
  uqp_rx :: smlt_ump_queue
  uqp_other :: addr
  uqp_seq_id :: u16
  uqp_last_ack :: u16

text \<open>The all-zero structure that \<open>memset\<close> leaves.\<close>

definition ump_queue_zero :: smlt_ump_queue where
  "ump_queue_zero = \<lparr>uq_buf = 0, uq_last_ack = 0, uq_pos = 0, uq_num_msg = 0, uq_epoch = False,
                     uq_direction = SMLT_UMP_DIRECTION_RECV\<rparr>"

definition ump_queuepair_zero :: smlt_ump_queuepair where
  "ump_queuepair_zero = \<lparr>uqp_tx = ump_queue_zero, uqp_rx = ump_queue_zero, uqp_other = 0,
                         uqp_seq_id = 0, uqp_last_ack = 0\<rparr>"

text \<open>
  \<open>smlt_ump_queuepair_init\<close>. \<open>alloc\<close> and \<open>free\<close> are \<open>smlt_platform_alloc_on_node\<close> and
  \<open>smlt_platform_free\<close> over the world of allocator state and memory; \<open>src_p\<close> and \<open>dst_p\<close> are the
  addresses of the two structures, \<open>src0\<close> and \<open>dst0\<close> their contents before the call.
\<close>

definition smlt_ump_queuepair_init ::
  "(u64 \<Rightarrow> u64 \<Rightarrow> u8 \<Rightarrow> bool \<Rightarrow> 'h \<times> mem \<Rightarrow> addr \<times> 'h \<times> mem) \<Rightarrow> (addr \<Rightarrow> 'h \<times> mem \<Rightarrow> 'h \<times> mem) \<Rightarrow>
   u16 \<Rightarrow> u8 \<Rightarrow> u8 \<Rightarrow> addr \<Rightarrow> addr \<Rightarrow> smlt_ump_queuepair \<Rightarrow> smlt_ump_queuepair \<Rightarrow> 'h \<times> mem \<Rightarrow>
   errval_t \<times> smlt_ump_queuepair \<times> smlt_ump_queuepair \<times> 'h \<times> mem"
where
  "smlt_ump_queuepair_init alloc free num_slots node_src node_dst src_p dst_p src0 dst0 w =
     (if num_slots < 2 then (errval SMLT_ERR_INVAL, src0, dst0, w)
      else
        let src = ump_queuepair_zero; dst = ump_queuepair_zero;
            chan_size = (ucast num_slots + 1) * SMLT_UMP_MSG_BYTES;
            (shm_src, h1, m1) = alloc chan_size BASE_PAGE_SIZE node_dst True w in
        if shm_src = 0 then (errval SMLT_ERR_MALLOC_FAIL, src, dst, h1, m1)
        else
          let (err, m2, tx) = smlt_ump_queue_init_tx m1 (uqp_tx src) shm_src num_slots;
              src = src\<lparr>uqp_tx := tx\<rparr> in
          if smlt_err_is_fail err
          then (smlt_err_push err SMLT_ERR_QUEUE_INIT, src, dst, free shm_src (h1, m2))
          else
            let (err, rx) = smlt_ump_queue_init_rx (uqp_rx dst) shm_src num_slots;
                dst = dst\<lparr>uqp_rx := rx\<rparr> in
            if smlt_err_is_fail err
            then (smlt_err_push err SMLT_ERR_QUEUE_INIT, src, dst, free shm_src (h1, m2))
            else
              let (shm_dst, h3, m3) = alloc chan_size BASE_PAGE_SIZE node_src True (h1, m2) in
              if shm_dst = 0
              then (errval SMLT_ERR_MALLOC_FAIL, src, dst, free shm_src (h3, m3))
              else
                let (err, rx) = smlt_ump_queue_init_rx (uqp_rx src) shm_dst num_slots;
                    src = src\<lparr>uqp_rx := rx\<rparr> in
                if smlt_err_is_fail err
                then (smlt_err_push err SMLT_ERR_QUEUE_INIT, src, dst,
                      free shm_dst (free shm_src (h3, m3)))
                else
                  let (err, m4, tx) = smlt_ump_queue_init_tx m3 (uqp_tx dst) shm_dst num_slots;
                      dst = dst\<lparr>uqp_tx := tx\<rparr> in
                  if smlt_err_is_fail err
                  then (smlt_err_push err SMLT_ERR_QUEUE_INIT, src, dst,
                        free shm_dst (free shm_src (h3, m4)))
                  else (errval SMLT_SUCCESS, src\<lparr>uqp_seq_id := 1, uqp_other := dst_p\<rparr>,
                        dst\<lparr>uqp_seq_id := 1, uqp_other := src_p\<rparr>, h3, m4))"

definition smlt_ump_queuepair_destroy :: "smlt_ump_queuepair \<Rightarrow> errval_t" where
  "smlt_ump_queuepair_destroy qp = errval SMLT_SUCCESS"

text \<open>
  \<open>smlt_ump_queuepair_can_send_raw\<close>: the distance is computed in 16 bits; the cached
  acknowledgement is refreshed only when it leaves no room.
\<close>

definition smlt_ump_queuepair_can_send_raw ::
  "mem \<Rightarrow> smlt_ump_queuepair \<Rightarrow> bool \<times> smlt_ump_queuepair"
where
  "smlt_ump_queuepair_can_send_raw m qp =
     (if uqp_seq_id qp - uqp_last_ack qp \<le> uq_num_msg (uqp_tx qp) then (True, qp)
      else
        let qp' = qp\<lparr>uqp_last_ack := smlt_ump_queue_last_ack m (uqp_tx qp)\<rparr>
        in (uqp_seq_id qp' - uqp_last_ack qp' \<le> uq_num_msg (uqp_tx qp'), qp'))"

definition smlt_ump_queuepair_prepare_send ::
  "mem \<Rightarrow> smlt_ump_queuepair \<Rightarrow> errval_t \<times> addr \<times> smlt_ump_queuepair"
where
  "smlt_ump_queuepair_prepare_send m qp =
     (let (ok, qp') = smlt_ump_queuepair_can_send_raw m qp in
      if \<not> ok then (errval SMLT_ERR_CHAN_WOULD_BLOCK, 0, qp')
      else (errval SMLT_SUCCESS, smlt_ump_queue_get_next (uqp_tx qp'), qp'))"

definition smlt_ump_queuepair_notify_raw ::
  "mem \<Rightarrow> smlt_ump_queuepair \<Rightarrow> errval_t \<times> mem \<times> smlt_ump_queuepair"
where
  "smlt_ump_queuepair_notify_raw m qp =
     (let ctrl = \<lparr>ctrl_epoch = 0, ctrl_last_ack = uqp_seq_id qp\<rparr>;
          (m', tx) = smlt_ump_queue_notify m (uqp_tx qp) ctrl
      in (errval SMLT_SUCCESS, m', qp\<lparr>uqp_seq_id := uqp_seq_id qp + 1, uqp_tx := tx\<rparr>))"

definition smlt_ump_queuepair_send_raw ::
  "mem \<Rightarrow> smlt_ump_queuepair \<Rightarrow> addr \<Rightarrow> errval_t \<times> mem \<times> smlt_ump_queuepair"
where
  "smlt_ump_queuepair_send_raw m qp msg =
     (let ctrl = \<lparr>ctrl_epoch = 0, ctrl_last_ack = uqp_seq_id qp\<rparr>;
          (m', tx) = smlt_ump_queue_send m (uqp_tx qp) msg ctrl
      in (errval SMLT_SUCCESS, m', qp\<lparr>uqp_seq_id := uqp_seq_id qp + 1, uqp_tx := tx\<rparr>))"

definition smlt_ump_queuepair_try_send ::
  "mem \<Rightarrow> smlt_ump_queuepair \<Rightarrow> smlt_msg \<Rightarrow> errval_t \<times> mem \<times> smlt_ump_queuepair"
where
  "smlt_ump_queuepair_try_send m ump msg =
     (let (err, slot, ump1) = smlt_ump_queuepair_prepare_send m ump in
      if smlt_err_is_fail err then (errval SMLT_ERR_QUEUE_FULL, m, ump1)
      else
        let m1 = copy_to_mem m (slot + 8) (msg_data msg) 0 (unat (msg_words msg))
        in smlt_ump_queuepair_send_raw m1 ump1 slot)"

definition smlt_ump_queuepair_can_send ::
  "mem \<Rightarrow> smlt_ump_queuepair \<Rightarrow> bool \<times> smlt_ump_queuepair"
where
  "smlt_ump_queuepair_can_send m qp = smlt_ump_queuepair_can_send_raw m qp"

definition smlt_ump_queuepair_can_recv_raw :: "mem \<Rightarrow> smlt_ump_queuepair \<Rightarrow> bool" where
  "smlt_ump_queuepair_can_recv_raw m qp = smlt_ump_queue_can_recv m (uqp_rx qp)"

definition smlt_ump_queuepair_recv_raw ::
  "mem \<Rightarrow> smlt_ump_queuepair \<Rightarrow> errval_t \<times> addr \<times> mem \<times> smlt_ump_queuepair"
where
  "smlt_ump_queuepair_recv_raw m qp =
     (if \<not> smlt_ump_queuepair_can_recv_raw m qp then (errval SMLT_ERR_QUEUE_EMPTY, 0, m, qp)
      else
        let (err, msg, m', rx) = smlt_ump_queue_recv_raw m (uqp_rx qp)
        in (err, msg, m', qp\<lparr>uqp_rx := rx\<rparr>))"

definition smlt_ump_queuepair_try_recv ::
  "mem \<Rightarrow> smlt_ump_queuepair \<Rightarrow> smlt_msg \<Rightarrow> errval_t \<times> mem \<times> smlt_ump_queuepair \<times> smlt_msg"
where
  "smlt_ump_queuepair_try_recv m ump msg =
     (let (err, slot, m', ump') = smlt_ump_queuepair_recv_raw m ump in
      if smlt_err_is_fail err then (err, m', ump', msg)
      else (errval SMLT_SUCCESS, m', ump',
            msg\<lparr>msg_data := copy_from_mem m' (slot + 8) (msg_data msg) (unat (msg_words msg))\<rparr>))"

definition smlt_ump_queuepair_can_recv :: "mem \<Rightarrow> smlt_ump_queuepair \<Rightarrow> bool" where
  "smlt_ump_queuepair_can_recv m qp = smlt_ump_queuepair_can_recv_raw m qp"

section \<open>Blocking operations\<close>

text \<open>
  The polling loops. The world is the private state \<open>e\<close> of the other threads, the shared memory
  and the queue pair; \<open>env k\<close> is what the others do to their state and to the memory before the
  \<open>k\<close>-th poll. The loops are unbounded in the code: \<open>fuel\<close> counts the polls that are looked at and
  \<open>None\<close> means that none of them succeeded.
\<close>

definition lift_env ::
  "(nat \<Rightarrow> 'e \<times> mem \<Rightarrow> 'e \<times> mem) \<Rightarrow> nat \<Rightarrow> 'e \<times> mem \<times> 'q \<Rightarrow> 'e \<times> mem \<times> 'q"
where
  "lift_env env k = (\<lambda>(e, m, qp). let (e', m') = env k (e, m) in (e', m', qp))"

definition smlt_ump_queuepair_send ::
  "(nat \<Rightarrow> 'e \<times> mem \<Rightarrow> 'e \<times> mem) \<Rightarrow> nat \<Rightarrow> smlt_msg \<Rightarrow> 'e \<times> mem \<times> smlt_ump_queuepair \<Rightarrow>
   (errval_t \<times> 'e \<times> mem \<times> smlt_ump_queuepair) option"
where
  "smlt_ump_queuepair_send env fuel msg =
     spin (lift_env env)
       (\<lambda>(e, m, qp). let (err, m', qp') = smlt_ump_queuepair_try_send m qp msg
                     in (if err = errval SMLT_ERR_QUEUE_FULL then None else Some err, e, m', qp'))
       0 fuel"

definition smlt_ump_queuepair_notify ::
  "(nat \<Rightarrow> 'e \<times> mem \<Rightarrow> 'e \<times> mem) \<Rightarrow> nat \<Rightarrow> 'e \<times> mem \<times> smlt_ump_queuepair \<Rightarrow>
   (errval_t \<times> 'e \<times> mem \<times> smlt_ump_queuepair) option"
where
  "smlt_ump_queuepair_notify env fuel =
     spin (lift_env env)
       (\<lambda>(e, m, qp). let (ok, qp1) = smlt_ump_queuepair_can_send_raw m qp in
          if \<not> ok then (None, e, m, qp1)
          else let (err, m', qp') = smlt_ump_queuepair_notify_raw m qp1 in (Some err, e, m', qp'))
       0 fuel"

definition smlt_ump_queuepair_recv ::
  "(nat \<Rightarrow> 'e \<times> mem \<Rightarrow> 'e \<times> mem) \<Rightarrow> nat \<Rightarrow> smlt_msg \<Rightarrow> 'e \<times> mem \<times> smlt_ump_queuepair \<Rightarrow>
   ((errval_t \<times> smlt_msg) \<times> 'e \<times> mem \<times> smlt_ump_queuepair) option"
where
  "smlt_ump_queuepair_recv env fuel msg =
     spin (lift_env env)
       (\<lambda>(e, m, qp). let (err, m', qp', msg') = smlt_ump_queuepair_try_recv m qp msg
                     in (if err = errval SMLT_ERR_QUEUE_EMPTY then None else Some (err, msg'),
                         e, m', qp'))
       0 fuel"

definition smlt_ump_queuepair_recv_notify ::
  "(nat \<Rightarrow> 'e \<times> mem \<Rightarrow> 'e \<times> mem) \<Rightarrow> nat \<Rightarrow> 'e \<times> mem \<times> smlt_ump_queuepair \<Rightarrow>
   (errval_t \<times> 'e \<times> mem \<times> smlt_ump_queuepair) option"
where
  "smlt_ump_queuepair_recv_notify env fuel =
     spin (lift_env env)
       (\<lambda>(e, m, qp). if \<not> smlt_ump_queuepair_can_recv_raw m qp then (None, e, m, qp)
          else let (err, slot, m', qp') = smlt_ump_queuepair_recv_raw m qp in (Some err, e, m', qp'))
       0 fuel"

end
