(* ===== verification/Queuepair.thy ===== *)
theory Queuepair
  imports Ump_Queue Ffq_Queue Shm_Queue
begin

text \<open>
  The queue pair (\<open>inc/smlt_queuepair.h\<close>, \<open>src/queuepair.c\<close>, \<open>src/qp_func_wrapper.c\<close>): one
  interface over the three point-to-point backends. A queue pair carries the state of its backend
  and six function pointers, which its creation sets; the operations call through them.
\<close>

section \<open>Types\<close>

datatype smlt_qp_type_t =
  SMLT_QP_TYPE_INVALID | SMLT_QP_TYPE_UMP | SMLT_QP_TYPE_FFQ | SMLT_QP_TYPE_SHM

text \<open>
  What a call comes to: it returns, it is still polling when the fuel is used up, or it jumps
  through a null pointer or fails an assertion.
\<close>

datatype 'a call_result = Returns 'a | Polling | Crash

fun of_polls :: "'a option \<Rightarrow> 'a call_result" where
  "of_polls None = Polling"
| "of_polls (Some x) = Returns x"

fun bind_call :: "'a call_result \<Rightarrow> ('a \<Rightarrow> 'b call_result) \<Rightarrow> 'b call_result" where
  "bind_call (Returns x) f = f x"
| "bind_call Polling f = Polling"
| "bind_call Crash f = Crash"

text \<open>
  A function pointer of a queue pair is null or one of three functions, one per backend; the field
  it is stored in says which of the operations of that backend it is.
\<close>

datatype qp_fn = Fn_null | Fn_ump | Fn_ffq | Fn_shm

record smlt_qp_f =
  f_send_try_send :: qp_fn
  f_send_notify :: qp_fn
  f_send_can_send :: qp_fn
  f_recv_try_recv :: qp_fn
  f_recv_notify :: qp_fn
  f_recv_can_recv :: qp_fn

text \<open>The members of the union \<open>q\<close> are fields of their own: only the one of the type is accessed.\<close>

record smlt_qp =
  qp_error :: errval_t
  qp_type :: smlt_qp_type_t
  qp_ump :: smlt_ump_queuepair
  qp_ffq :: smlt_ffq_queuepair
  qp_queue_tx :: shm_qp
  qp_queue_rx :: shm_qp
  qp_f :: smlt_qp_f

text \<open>The structure as the clearing allocator leaves it.\<close>

definition ffq_queuepair_zero :: smlt_ffq_queuepair where
  "ffq_queuepair_zero =
     (let q = \<lparr>fq_slots = 0, fq_size = 0, fq_pos = 0, fq_direction = SMLT_FFQ_DIRECTION_SEND\<rparr>
      in \<lparr>fqp_tx = q, fqp_rx = q\<rparr>)"

definition shm_qp_zero :: shm_qp where
  "shm_qp_zero =
     (let c = \<lparr>sc_num_slots = 0, sc_l_pos = 0, sc_next_sync = 0, sc_next_seq = 0, sc_shm = 0, sc_data = 0,
               sc_reader_pos = 0\<rparr>
      in \<lparr>sqp_src = c, sqp_dst = c\<rparr>)"

definition qp_fns :: "qp_fn \<Rightarrow> smlt_qp_f" where
  "qp_fns g = \<lparr>f_send_try_send = g, f_send_notify = g, f_send_can_send = g, f_recv_try_recv = g,
               f_recv_notify = g, f_recv_can_recv = g\<rparr>"

definition smlt_qp_zero :: smlt_qp where
  "smlt_qp_zero = \<lparr>qp_error = 0, qp_type = SMLT_QP_TYPE_INVALID, qp_ump = ump_queuepair_zero,
     qp_ffq = ffq_queuepair_zero, qp_queue_tx = shm_qp_zero, qp_queue_rx = shm_qp_zero, qp_f = qp_fns Fn_null\<rparr>"

section \<open>Wrappers of the shared-memory backend\<close>

text \<open>A message of more than seven words is dropped and reported as sent.\<close>

definition smlt_shm_send ::
  "(nat \<Rightarrow> 'e \<times> mem \<Rightarrow> 'e \<times> mem) \<Rightarrow> nat \<Rightarrow> smlt_msg \<Rightarrow> 'e \<times> mem \<times> smlt_qp \<Rightarrow>
   (errval_t \<times> 'e \<times> mem \<times> smlt_qp) option"
where
  "smlt_shm_send env fuel msg = (\<lambda>(e, m, qp).
     if msg_words msg \<le> 7 then
       (case shm_q_send env fuel (msg_data msg) (e, m, sqp_src (qp_queue_tx qp)) of
          None \<Rightarrow> None
        | Some (e', m', c) \<Rightarrow>
            Some (errval SMLT_SUCCESS, e', m', qp\<lparr>qp_queue_tx := (qp_queue_tx qp)\<lparr>sqp_src := c\<rparr>\<rparr>))
     else Some (errval SMLT_SUCCESS, e, m, qp))"

definition smlt_shm_recv ::
  "(nat \<Rightarrow> 'e \<times> mem \<Rightarrow> 'e \<times> mem) \<Rightarrow> nat \<Rightarrow> smlt_msg \<Rightarrow> 'e \<times> mem \<times> smlt_qp \<Rightarrow>
   ((errval_t \<times> smlt_msg) \<times> 'e \<times> mem \<times> smlt_qp) option"
where
  "smlt_shm_recv env fuel msg = (\<lambda>(e, m, qp).
     case shm_q_recv env fuel (msg_data msg) (e, m, sqp_dst (qp_queue_rx qp)) of
       None \<Rightarrow> None
     | Some (p, e', m', c) \<Rightarrow>
         Some ((errval SMLT_SUCCESS, msg\<lparr>msg_data := p\<rparr>), e', m',
               qp\<lparr>qp_queue_rx := (qp_queue_rx qp)\<lparr>sqp_dst := c\<rparr>\<rparr>))"

definition smlt_shm_recv0 ::
  "(nat \<Rightarrow> 'e \<times> mem \<Rightarrow> 'e \<times> mem) \<Rightarrow> nat \<Rightarrow> 'e \<times> mem \<times> smlt_qp \<Rightarrow> (errval_t \<times> 'e \<times> mem \<times> smlt_qp) option"
where
  "smlt_shm_recv0 env fuel = (\<lambda>(e, m, qp).
     case shm_q_recv0 env fuel (e, m, sqp_dst (qp_queue_rx qp)) of
       None \<Rightarrow> None
     | Some (_, e', m', c) \<Rightarrow>
         Some (errval SMLT_SUCCESS, e', m', qp\<lparr>qp_queue_rx := (qp_queue_rx qp)\<lparr>sqp_dst := c\<rparr>\<rparr>))"

definition smlt_shm_send0 ::
  "(nat \<Rightarrow> 'e \<times> mem \<Rightarrow> 'e \<times> mem) \<Rightarrow> nat \<Rightarrow> 'e \<times> mem \<times> smlt_qp \<Rightarrow> (errval_t \<times> 'e \<times> mem \<times> smlt_qp) option"
where
  "smlt_shm_send0 env fuel = (\<lambda>(e, m, qp).
     case shm_q_send0 env fuel (e, m, sqp_src (qp_queue_tx qp)) of
       None \<Rightarrow> None
     | Some (e', m', c) \<Rightarrow>
         Some (errval SMLT_SUCCESS, e', m', qp\<lparr>qp_queue_tx := (qp_queue_tx qp)\<lparr>sqp_src := c\<rparr>\<rparr>))"

definition smlt_shm_can_recv :: "mem \<Rightarrow> smlt_qp \<Rightarrow> bool" where
  "smlt_shm_can_recv m qp = shm_q_can_recv m (sqp_dst (qp_queue_rx qp))"

definition smlt_shm_can_send :: "mem \<Rightarrow> smlt_qp \<Rightarrow> bool" where
  "smlt_shm_can_send m qp = shm_q_can_send (sqp_src (qp_queue_tx qp))"

section \<open>Creation and destruction\<close>

text \<open>\<open>sizeof(struct smlt_qp)\<close>: the FFQ member aligns the union, and with it the structure, to a line.\<close>

abbreviation (input) SIZEOF_SMLT_QP :: u64 where "SIZEOF_SMLT_QP \<equiv> 512"
abbreviation (input) SMLT_ARCH_CACHELINE_SIZE :: u64 where "SMLT_ARCH_CACHELINE_SIZE \<equiv> 64"
abbreviation (input) SMLT_FFQ_DEFAULT_SLOTS :: u16 where "SMLT_FFQ_DEFAULT_SLOTS \<equiv> 64"

text \<open>
  \<open>smlt_queuepair_create\<close>. libnuma's \<open>numa_alloc_onnode\<close>, \<open>numa_free\<close>, \<open>numa_max_node\<close> and
  \<open>numa_node_of_cpu\<close> are parameters. The result is the error value and, when the out-parameters are
  set, the two structures; a failure leaves the blocks allocated. The structures' addresses become
  the \<open>other\<close> pointers of the UMP backend. An unknown type is not an error.
\<close>

definition smlt_queuepair_create ::
  "(u64 \<Rightarrow> u8 \<Rightarrow> 'h \<Rightarrow> addr \<times> 'h) \<Rightarrow> (addr \<Rightarrow> u64 \<Rightarrow> 'h \<Rightarrow> 'h) \<Rightarrow> int \<Rightarrow> (u32 \<Rightarrow> u8) \<Rightarrow>
   smlt_qp_type_t \<Rightarrow> u32 \<Rightarrow> u32 \<Rightarrow> 'h \<times> mem \<Rightarrow>
   (errval_t \<times> (smlt_qp \<times> smlt_qp) option \<times> 'h \<times> mem) call_result"
where
  "smlt_queuepair_create na nf mx node_of_cpu type core_src core_dst w =
     (let alloc = smlt_platform_alloc_on_node na mx;
          src_affinity = node_of_cpu core_src; dst_affinity = node_of_cpu core_dst;
          (p_src, w1) = alloc SIZEOF_SMLT_QP SMLT_ARCH_CACHELINE_SIZE src_affinity True w in
      if p_src = 0 then Returns (errval SMLT_ERR_MALLOC_FAIL, None, w1)
      else
        let (p_dst, w2) = alloc SIZEOF_SMLT_QP SMLT_ARCH_CACHELINE_SIZE dst_affinity True w1 in
        if p_dst = 0 then Returns (errval SMLT_ERR_MALLOC_FAIL, None, w2)
        else
          let qp_src = smlt_qp_zero\<lparr>qp_type := type\<rparr>; qp_dst = smlt_qp_zero\<lparr>qp_type := type\<rparr> in
          case type of
            SMLT_QP_TYPE_UMP \<Rightarrow>
              (let (err, us, ud, w3) = smlt_ump_queuepair_init alloc (smlt_platform_free nf)
                     SMLT_UMP_DEFAULT_SLOTS src_affinity dst_affinity (p_src + 64) (p_dst + 64)
                     (qp_ump qp_src) (qp_ump qp_dst) w2 in
               if smlt_err_is_fail err then Returns (err, None, w3)
               else Returns (errval SMLT_SUCCESS, Some (qp_src\<lparr>qp_ump := us, qp_f := qp_fns Fn_ump\<rparr>,
                              qp_dst\<lparr>qp_ump := ud, qp_f := qp_fns Fn_ump\<rparr>), w3))
          | SMLT_QP_TYPE_FFQ \<Rightarrow>
              (let (err, fs, fd, w3) = smlt_ffq_queuepair_init alloc (smlt_platform_free nf)
                     SMLT_FFQ_DEFAULT_SLOTS src_affinity dst_affinity (qp_ffq qp_src) (qp_ffq qp_dst) w2 in
               if smlt_err_is_fail err then Returns (err, None, w3)
               else Returns (errval SMLT_SUCCESS, Some (qp_src\<lparr>qp_ffq := fs, qp_f := qp_fns Fn_ffq\<rparr>,
                              qp_dst\<lparr>qp_ffq := fd, qp_f := qp_fns Fn_ffq\<rparr>), w3))
          | SMLT_QP_TYPE_SHM \<Rightarrow>
              (case shm_queuepair_create na node_of_cpu core_src core_dst (fst w2) of
                 None \<Rightarrow> Crash
               | Some (tx, h3) \<Rightarrow>
                   (case shm_queuepair_create na node_of_cpu core_dst core_src h3 of
                      None \<Rightarrow> Crash
                    | Some (rx, h4) \<Rightarrow>
                        Returns (errval SMLT_SUCCESS,
                          Some (qp_src\<lparr>qp_queue_tx := tx, qp_queue_rx := rx, qp_f := qp_fns Fn_shm\<rparr>,
                                qp_dst\<lparr>qp_queue_rx := tx, qp_queue_tx := rx, qp_f := qp_fns Fn_shm\<rparr>),
                          h4, snd w2)))
          | SMLT_QP_TYPE_INVALID \<Rightarrow> Returns (errval SMLT_SUCCESS, Some (qp_src, qp_dst), w2))"

definition smlt_queuepair_destroy :: "smlt_qp \<Rightarrow> errval_t" where
  "smlt_queuepair_destroy qp =
     (case qp_type qp of
        SMLT_QP_TYPE_UMP \<Rightarrow> errval SMLT_ERR_DESTROY_UMP
      | _ \<Rightarrow> errval SMLT_SUCCESS)"

section \<open>Sending\<close>

text \<open>
  The world of a call is the private state of the other threads, the memory and the queue pair.
\<close>

definition smlt_queuepair_try_send ::
  "(nat \<Rightarrow> 'e \<times> mem \<Rightarrow> 'e \<times> mem) \<Rightarrow> nat \<Rightarrow> smlt_msg \<Rightarrow> 'e \<times> mem \<times> smlt_qp \<Rightarrow>
   (errval_t \<times> 'e \<times> mem \<times> smlt_qp) call_result"
where
  "smlt_queuepair_try_send env fuel msg = (\<lambda>(e, m, qp).
     case f_send_try_send (qp_f qp) of
       Fn_null \<Rightarrow> Crash
     | Fn_ump \<Rightarrow> (let (err, m', q) = smlt_ump_queuepair_try_send m (qp_ump qp) msg
                  in Returns (err, e, m', qp\<lparr>qp_ump := q\<rparr>))
     | Fn_ffq \<Rightarrow> (let (err, m', q) = smlt_ffq_queuepair_send m (qp_ffq qp) msg
                  in Returns (err, e, m', qp\<lparr>qp_ffq := q\<rparr>))
     | Fn_shm \<Rightarrow> of_polls (smlt_shm_send env fuel msg (e, m, qp)))"

text \<open>A loop that repeats a call until its error value is another one.\<close>

fun retry ::
  "('r \<Rightarrow> bool) \<Rightarrow> (nat \<Rightarrow> 's \<Rightarrow> 's) \<Rightarrow> (nat \<Rightarrow> 's \<Rightarrow> ('r \<times> 's) call_result) \<Rightarrow> nat \<Rightarrow> nat \<Rightarrow> 's \<Rightarrow>
   ('r \<times> 's) call_result"
where
  "retry again env call k 0 s = Polling"
| "retry again env call k (Suc fuel) s =
     bind_call (call k (env k s)) (\<lambda>(r, s'). if again r then retry again env call (Suc k) fuel s' else Returns (r, s'))"

definition smlt_queuepair_send ::
  "(nat \<Rightarrow> 'e \<times> mem \<Rightarrow> 'e \<times> mem) \<Rightarrow> nat \<Rightarrow> smlt_msg \<Rightarrow> 'e \<times> mem \<times> smlt_qp \<Rightarrow>
   (errval_t \<times> 'e \<times> mem \<times> smlt_qp) call_result"
where
  "smlt_queuepair_send env fuel msg =
     retry (\<lambda>err. err = errval SMLT_ERR_QUEUE_FULL) (lift_env env)
       (\<lambda>k. smlt_queuepair_try_send (\<lambda>j. env (k + j)) fuel msg) 0 fuel"

definition smlt_queuepair_notify ::
  "(nat \<Rightarrow> 'e \<times> mem \<Rightarrow> 'e \<times> mem) \<Rightarrow> nat \<Rightarrow> 'e \<times> mem \<times> smlt_qp \<Rightarrow>
   (errval_t \<times> 'e \<times> mem \<times> smlt_qp) call_result"
where
  "smlt_queuepair_notify env fuel = (\<lambda>(e, m, qp).
     case f_send_notify (qp_f qp) of
       Fn_null \<Rightarrow> Crash
     | Fn_ump \<Rightarrow> bind_call (of_polls (smlt_ump_queuepair_notify env fuel (e, m, qp_ump qp)))
                   (\<lambda>(err, e', m', q). Returns (err, e', m', qp\<lparr>qp_ump := q\<rparr>))
     | Fn_ffq \<Rightarrow> (let (err, m', q) = smlt_ffq_queuepair_notify m (qp_ffq qp)
                  in Returns (err, e, m', qp\<lparr>qp_ffq := q\<rparr>))
     | Fn_shm \<Rightarrow> of_polls (smlt_shm_send0 env fuel (e, m, qp)))"

text \<open>The UMP check refreshes the cached acknowledgement, so that a check may change the queue pair.\<close>

definition smlt_queuepair_can_send :: "mem \<Rightarrow> smlt_qp \<Rightarrow> (bool \<times> smlt_qp) call_result" where
  "smlt_queuepair_can_send m qp =
     (case f_send_can_send (qp_f qp) of
        Fn_null \<Rightarrow> Crash
      | Fn_ump \<Rightarrow> (let (ok, q) = smlt_ump_queuepair_can_send m (qp_ump qp) in Returns (ok, qp\<lparr>qp_ump := q\<rparr>))
      | Fn_ffq \<Rightarrow> Returns (smlt_ffq_queuepair_can_send m (qp_ffq qp), qp)
      | Fn_shm \<Rightarrow> Returns (smlt_shm_can_send m qp, qp))"

section \<open>Receiving\<close>

definition smlt_queuepair_try_recv ::
  "(nat \<Rightarrow> 'e \<times> mem \<Rightarrow> 'e \<times> mem) \<Rightarrow> nat \<Rightarrow> smlt_msg \<Rightarrow> 'e \<times> mem \<times> smlt_qp \<Rightarrow>
   ((errval_t \<times> smlt_msg) \<times> 'e \<times> mem \<times> smlt_qp) call_result"
where
  "smlt_queuepair_try_recv env fuel msg = (\<lambda>(e, m, qp).
     case f_recv_try_recv (qp_f qp) of
       Fn_null \<Rightarrow> Crash
     | Fn_ump \<Rightarrow> (let (err, m', q, msg') = smlt_ump_queuepair_try_recv m (qp_ump qp) msg
                  in Returns ((err, msg'), e, m', qp\<lparr>qp_ump := q\<rparr>))
     | Fn_ffq \<Rightarrow> (let (err, m', q, msg') = smlt_ffq_queuepair_recv m (qp_ffq qp) msg
                  in Returns ((err, msg'), e, m', qp\<lparr>qp_ffq := q\<rparr>))
     | Fn_shm \<Rightarrow> of_polls (smlt_shm_recv env fuel msg (e, m, qp)))"

text \<open>The message of a failed attempt is the one of the next.\<close>

definition smlt_queuepair_recv ::
  "(nat \<Rightarrow> 'e \<times> mem \<Rightarrow> 'e \<times> mem) \<Rightarrow> nat \<Rightarrow> smlt_msg \<Rightarrow> 'e \<times> mem \<times> smlt_qp \<Rightarrow>
   ((errval_t \<times> smlt_msg) \<times> 'e \<times> mem \<times> smlt_qp) call_result"
where
  "smlt_queuepair_recv env fuel msg s =
     bind_call
       (retry (\<lambda>err. err = errval SMLT_ERR_QUEUE_EMPTY)
          (\<lambda>k (msg, s). (msg, lift_env env k s))
          (\<lambda>k (msg, s). bind_call (smlt_queuepair_try_recv (\<lambda>j. env (k + j)) fuel msg s)
                          (\<lambda>((err, msg'), s'). Returns (err, msg', s'))) 0 fuel (msg, s))
       (\<lambda>(err, msg', s'). Returns ((err, msg'), s'))"

definition smlt_queuepair_recv0 ::
  "(nat \<Rightarrow> 'e \<times> mem \<Rightarrow> 'e \<times> mem) \<Rightarrow> nat \<Rightarrow> 'e \<times> mem \<times> smlt_qp \<Rightarrow>
   (errval_t \<times> 'e \<times> mem \<times> smlt_qp) call_result"
where
  "smlt_queuepair_recv0 env fuel = (\<lambda>(e, m, qp).
     case f_recv_notify (qp_f qp) of
       Fn_null \<Rightarrow> Crash
     | Fn_ump \<Rightarrow> bind_call (of_polls (smlt_ump_queuepair_recv_notify env fuel (e, m, qp_ump qp)))
                   (\<lambda>(err, e', m', q). Returns (err, e', m', qp\<lparr>qp_ump := q\<rparr>))
     | Fn_ffq \<Rightarrow> (let (err, m', q) = smlt_ffq_queuepair_recv_notify m (qp_ffq qp)
                  in Returns (err, e, m', qp\<lparr>qp_ffq := q\<rparr>))
     | Fn_shm \<Rightarrow> of_polls (smlt_shm_recv0 env fuel (e, m, qp)))"

definition smlt_queuepair_can_recv :: "mem \<Rightarrow> smlt_qp \<Rightarrow> bool call_result" where
  "smlt_queuepair_can_recv m qp =
     (case f_recv_can_recv (qp_f qp) of
        Fn_null \<Rightarrow> Crash
      | Fn_ump \<Rightarrow> Returns (smlt_ump_queuepair_can_recv m (qp_ump qp))
      | Fn_ffq \<Rightarrow> Returns (smlt_ffq_queuepair_can_recv m (qp_ffq qp))
      | Fn_shm \<Rightarrow> Returns (smlt_shm_can_recv m qp))"

end
