(* ===== verification/Swmr_Queue.thy ===== *)
theory Swmr_Queue
  imports Smelt_Error Smelt_Message Fifo_Channel
begin

text \<open>
  The single-writer multiple-reader queue (\<open>inc/backends/shm/swmr.h\<close>,
  \<open>src/backends/shm/swmr_queue.c\<close>). One line per reader holds the position it has published, then
  come the slots; with a separate header the sequence numbers live in a second array of lines.
  A reader publishes its position only while bit 5 of its next sequence number is clear.
\<close>

section \<open>Contexts and queues\<close>

record swmr_context =
  wc_shm :: addr
  wc_data :: addr
  wc_header :: addr
  wc_write_pos :: addr
  wc_readers_pos :: addr
  wc_num_readers :: u8
  wc_id :: u8
  wc_num_slots :: u64
  wc_l_pos :: u16
  wc_next_sync :: u64
  wc_next_seq :: u64

record swmr_queue =
  wq_src :: swmr_context
  wq_dst :: "swmr_context list"

text \<open>
  \<open>swmr_init_context\<close>. The number of slots is computed in 32 bits, \<open>queue_size - (num_readers+1)\<close>,
  and then widened.
\<close>

definition swmr_init_context ::
  "addr \<Rightarrow> swmr_context \<Rightarrow> u8 \<Rightarrow> u8 \<Rightarrow> bool \<Rightarrow> u32 \<Rightarrow> swmr_context"
where
  "swmr_init_context shm queue num_readers i sep_header queue_size =
     (let num_slots = ucast (queue_size - (ucast num_readers + 1) :: u32) :: u64;
          data = shm + (ucast num_readers + 1) * 64
      in queue\<lparr>wc_shm := shm, wc_num_readers := num_readers, wc_id := i, wc_num_slots := num_slots,
               wc_readers_pos := shm, wc_l_pos := 0, wc_data := data,
               wc_next_sync := num_slots - 1, wc_next_seq := 1,
               wc_header := (if sep_header then data + ucast (queue_size * 64) else data)\<rparr>)"

text \<open>
  The loop that adds pages, \<open>while ((queue_size - (count+1)) < 48) queue_size += SWMRQ_SIZE;\<close> with
  the subtraction in 32 bits. A difference below 48 is at least 64 after one addition, so that the
  loop runs at most once.
\<close>

lemma swmr_loop_exits:
  fixes qs c :: u32
  assumes "qs - c < 48"
  shows "\<not> qs + 64 - c < 48"
proof -
  have "unat (qs - c) < 48" using assms by (simp add: word_less_nat_alt)
  moreover from this have "unat (qs - c + 64) = unat (qs - c) + 64"
    by (subst unat_add_lem[THEN iffD1]) simp_all
  moreover have "qs + 64 - c = qs - c + 64" by simp
  ultimately have "unat (qs + 64 - c) = unat (qs - c) + 64" by argo
  then show ?thesis by (simp add: word_less_nat_alt)
qed

function swmr_queue_size :: "u32 \<Rightarrow> u32 \<Rightarrow> u32" where
  "swmr_queue_size c qs = (if qs - c < 48 then swmr_queue_size c (qs + 64) else qs)"
  by pat_completeness auto

termination
  by (relation "measure (\<lambda>(c, qs). if qs - c < 48 then 1 else 0)") (auto dest: swmr_loop_exits)

definition swmr_context_zero :: swmr_context where
  "swmr_context_zero = \<lparr>wc_shm = 0, wc_data = 0, wc_header = 0, wc_write_pos = 0, wc_readers_pos = 0,
     wc_num_readers = 0, wc_id = 0, wc_num_slots = 0, wc_l_pos = 0, wc_next_sync = 0, wc_next_seq = 0\<rparr>"

text \<open>
  \<open>swmr_queue_create\<close>: fills in the queue the caller allocated. \<open>None\<close> is a failed assertion. The
  reader count is a \<open>uint16_t\<close> that \<open>swmr_init_context\<close> receives as a \<open>uint8_t\<close>.
\<close>

definition swmr_queue_create ::
  "(u64 \<Rightarrow> u64 \<Rightarrow> u8 \<Rightarrow> bool \<Rightarrow> 'h \<times> mem \<Rightarrow> addr \<times> 'h \<times> mem) \<Rightarrow> (u32 \<Rightarrow> u8) \<Rightarrow>
   swmr_queue \<Rightarrow> u32 \<Rightarrow> u32 list \<Rightarrow> u16 \<Rightarrow> bool \<Rightarrow> 'h \<times> mem \<Rightarrow> (swmr_queue \<times> 'h \<times> mem) option"
where
  "swmr_queue_create alloc numa_node_of_cpu queue src dst count sep_header w =
     (let queue_size = swmr_queue_size (ucast count + 1) 64;
          node = numa_node_of_cpu (dst ! 0);
          (shm, h1, m1) = alloc (if sep_header then ucast (queue_size * 64 * 2) else ucast (queue_size * 64))
                            64 node True w in
      if shm = 0 then None
      else
        let s = swmr_init_context shm (wq_src queue) (ucast count) 0 sep_header queue_size;
            (arr, h2, m2) = alloc (80 * ucast count) 64 node True (h1, m1) in
        if arr = 0 then None
        else Some (\<lparr>wq_src = s,
                    wq_dst = map (\<lambda>i. swmr_init_context shm swmr_context_zero (ucast count)
                                         (of_nat i) sep_header queue_size) [0..<unat count]\<rparr>, h2, m2))"

section \<open>Writer\<close>

text \<open>The loop over the readers' published positions; the minimum starts at \<open>0xFFFFFFFF\<close>.\<close>

fun swmr_min_pos :: "mem \<Rightarrow> addr \<Rightarrow> nat \<Rightarrow> u64" where
  "swmr_min_pos m rp 0 = 0xFFFFFFFF"
| "swmr_min_pos m rp (Suc i) =
     (let mn = swmr_min_pos m rp i; p = m (rp + 64 * of_nat i) in if mn > p then p else mn)"

definition swmr_get_next_sync :: "mem \<Rightarrow> swmr_context \<Rightarrow> u64" where
  "swmr_get_next_sync m c =
     swmr_min_pos m (wc_readers_pos c) (unat (wc_num_readers c)) + (wc_num_slots c - 1)"

definition swmr_can_send :: "mem \<Rightarrow> swmr_context \<Rightarrow> bool" where
  "swmr_can_send m c =
     (if wc_next_seq c = wc_next_sync c then wc_next_sync c < swmr_get_next_sync m c else True)"

definition swmr_rewind :: "swmr_context \<Rightarrow> swmr_context" where
  "swmr_rewind c = (if ucast (wc_l_pos c) = wc_num_slots c then c\<lparr>wc_l_pos := 0\<rparr> else c)"

text \<open>The synchronisation point, a polling loop as in the one-to-one queue.\<close>

definition swmr_sync ::
  "(nat \<Rightarrow> 'e \<times> mem \<Rightarrow> 'e \<times> mem) \<Rightarrow> nat \<Rightarrow> 'e \<times> mem \<times> swmr_context \<Rightarrow> ('e \<times> mem \<times> swmr_context) option"
where
  "swmr_sync env fuel = (\<lambda>(e, m, c).
     if wc_next_seq c = wc_next_sync c then
       (case spin (\<lambda>k (e, m). env k (e, m))
               (\<lambda>(e, m). let ns = swmr_get_next_sync m c
                          in (if wc_next_seq c = ns then None else Some ns, e, m)) 0 fuel (e, m) of
          None \<Rightarrow> None
        | Some (ns, e', m') \<Rightarrow> Some (e', m', c\<lparr>wc_next_sync := ns\<rparr>))
     else Some (e, m, c))"

definition swmr_write :: "mem \<Rightarrow> swmr_context \<Rightarrow> (nat \<Rightarrow> u64) \<Rightarrow> mem \<times> swmr_context" where
  "swmr_write m c p =
     (let data = wc_data c + 64 * ucast (wc_l_pos c);
          header = wc_header c + 64 * ucast (wc_l_pos c);
          m1 = copy_to_mem m (data + 8) p 0 7
      in (m1(header := wc_next_seq c), c\<lparr>wc_next_seq := wc_next_seq c + 1, wc_l_pos := wc_l_pos c + 1\<rparr>))"

definition swmr_send_raw ::
  "(nat \<Rightarrow> 'e \<times> mem \<Rightarrow> 'e \<times> mem) \<Rightarrow> nat \<Rightarrow> (nat \<Rightarrow> u64) \<Rightarrow> 'e \<times> mem \<times> swmr_context \<Rightarrow>
   ('e \<times> mem \<times> swmr_context) option"
where
  "swmr_send_raw env fuel p = (\<lambda>(e, m, c).
     case swmr_sync env fuel (e, m, swmr_rewind c) of
       None \<Rightarrow> None
     | Some (e', m', c') \<Rightarrow> let (m2, c2) = swmr_write m' c' p in Some (e', m2, c2))"

text \<open>The notification writes its sequence number into the data line, not into the header line.\<close>

definition swmr_send_raw0 ::
  "(nat \<Rightarrow> 'e \<times> mem \<Rightarrow> 'e \<times> mem) \<Rightarrow> nat \<Rightarrow> 'e \<times> mem \<times> swmr_context \<Rightarrow> ('e \<times> mem \<times> swmr_context) option"
where
  "swmr_send_raw0 env fuel = (\<lambda>(e, m, c).
     case swmr_sync env fuel (e, m, swmr_rewind c) of
       None \<Rightarrow> None
     | Some (e', m', c') \<Rightarrow>
         let slot_start = wc_data c' + 64 * ucast (wc_l_pos c')
         in Some (e', m'(slot_start := wc_next_seq c'),
                  c'\<lparr>wc_next_seq := wc_next_seq c' + 1, wc_l_pos := wc_l_pos c' + 1\<rparr>))"

section \<open>Readers\<close>

definition swmr_can_receive :: "mem \<Rightarrow> swmr_context \<Rightarrow> bool" where
  "swmr_can_receive m c = (wc_next_seq c = m (wc_data c + 64 * ucast (wc_l_pos c)))"

text \<open>The reader's step: position and sequence number, then the published position if bit 5 is clear.\<close>

definition swmr_advance :: "swmr_context \<Rightarrow> swmr_context" where
  "swmr_advance c =
     (let l = wc_l_pos c + 1
      in c\<lparr>wc_l_pos := (if ucast l = wc_num_slots c then 0 else l), wc_next_seq := wc_next_seq c + 1\<rparr>)"

definition swmr_publish :: "mem \<Rightarrow> swmr_context \<Rightarrow> mem" where
  "swmr_publish m c =
     (if wc_next_seq c AND 0x20 = 0
      then m(wc_readers_pos c + 64 * ucast (wc_id c) := wc_next_seq c - 1) else m)"

definition swmr_receive_non_blocking ::
  "mem \<Rightarrow> swmr_context \<Rightarrow> (nat \<Rightarrow> u64) \<Rightarrow> bool \<times> mem \<times> swmr_context \<times> (nat \<Rightarrow> u64)"
where
  "swmr_receive_non_blocking m c p =
     (let start = wc_data c + 64 * ucast (wc_l_pos c);
          header = wc_header c + 64 * ucast (wc_l_pos c) in
      if wc_next_seq c = m header then
        let p' = copy_from_mem m (start + 8) p 7; c' = swmr_advance c
        in (True, swmr_publish m c', c', p')
      else (False, m, c, p))"

definition swmr_receive_non_blocking0 :: "mem \<Rightarrow> swmr_context \<Rightarrow> bool \<times> mem \<times> swmr_context" where
  "swmr_receive_non_blocking0 m c =
     (if wc_next_seq c = m (wc_data c + 64 * ucast (wc_l_pos c)) then
        let c' = swmr_advance c in (True, swmr_publish m c', c')
      else (False, m, c))"

definition swmr_receive_raw ::
  "(nat \<Rightarrow> 'e \<times> mem \<Rightarrow> 'e \<times> mem) \<Rightarrow> nat \<Rightarrow> (nat \<Rightarrow> u64) \<Rightarrow> 'e \<times> mem \<times> swmr_context \<Rightarrow>
   ((nat \<Rightarrow> u64) \<times> 'e \<times> mem \<times> swmr_context) option"
where
  "swmr_receive_raw env fuel p =
     spin (\<lambda>k (e, m, c). let (e', m') = env k (e, m) in (e', m', c))
       (\<lambda>(e, m, c). let (ok, m', c', p') = swmr_receive_non_blocking m c p
                     in (if ok then Some p' else None, e, m', c')) 0 fuel"

definition swmr_receive_raw0 ::
  "(nat \<Rightarrow> 'e \<times> mem \<Rightarrow> 'e \<times> mem) \<Rightarrow> nat \<Rightarrow> 'e \<times> mem \<times> swmr_context \<Rightarrow>
   (unit \<times> 'e \<times> mem \<times> swmr_context) option"
where
  "swmr_receive_raw0 env fuel =
     spin (\<lambda>k (e, m, c). let (e', m') = env k (e, m) in (e', m', c))
       (\<lambda>(e, m, c). let (ok, m', c') = swmr_receive_non_blocking0 m c
                     in (if ok then Some () else None, e, m', c')) 0 fuel"

section \<open>Message-level operations\<close>

text \<open>A message of more than seven words is dropped and reported as sent.\<close>

definition smlt_swmr_send ::
  "(nat \<Rightarrow> 'e \<times> mem \<Rightarrow> 'e \<times> mem) \<Rightarrow> nat \<Rightarrow> smlt_msg \<Rightarrow> 'e \<times> mem \<times> swmr_queue \<Rightarrow>
   (errval_t \<times> 'e \<times> mem \<times> swmr_queue) option"
where
  "smlt_swmr_send env fuel msg = (\<lambda>(e, m, qp).
     if msg_words msg \<le> 7 then
       (case swmr_send_raw env fuel (msg_data msg) (e, m, wq_src qp) of
          None \<Rightarrow> None
        | Some (e', m', c) \<Rightarrow> Some (errval SMLT_SUCCESS, e', m', qp\<lparr>wq_src := c\<rparr>))
     else Some (errval SMLT_SUCCESS, e, m, qp))"

definition smlt_swmr_send0 ::
  "(nat \<Rightarrow> 'e \<times> mem \<Rightarrow> 'e \<times> mem) \<Rightarrow> nat \<Rightarrow> 'e \<times> mem \<times> swmr_queue \<Rightarrow>
   (errval_t \<times> 'e \<times> mem \<times> swmr_queue) option"
where
  "smlt_swmr_send0 env fuel = (\<lambda>(e, m, qp).
     case swmr_send_raw0 env fuel (e, m, wq_src qp) of
       None \<Rightarrow> None
     | Some (e', m', c) \<Rightarrow> Some (errval SMLT_SUCCESS, e', m', qp\<lparr>wq_src := c\<rparr>))"

definition smlt_swmr_recv ::
  "(nat \<Rightarrow> 'e \<times> mem \<Rightarrow> 'e \<times> mem) \<Rightarrow> nat \<Rightarrow> smlt_msg \<Rightarrow> 'e \<times> mem \<times> swmr_context \<Rightarrow>
   ((errval_t \<times> smlt_msg) \<times> 'e \<times> mem \<times> swmr_context) option"
where
  "smlt_swmr_recv env fuel msg = (\<lambda>(e, m, c).
     if msg_words msg \<le> 7 then
       (case swmr_receive_raw env fuel (msg_data msg) (e, m, c) of
          None \<Rightarrow> None
        | Some (p, s) \<Rightarrow> Some ((errval SMLT_SUCCESS, msg\<lparr>msg_data := p\<rparr>), s))
     else Some ((errval SMLT_SUCCESS, msg), e, m, c))"

definition smlt_swmr_recv0 ::
  "(nat \<Rightarrow> 'e \<times> mem \<Rightarrow> 'e \<times> mem) \<Rightarrow> nat \<Rightarrow> 'e \<times> mem \<times> swmr_context \<Rightarrow>
   (errval_t \<times> 'e \<times> mem \<times> swmr_context) option"
where
  "smlt_swmr_recv0 env fuel s =
     (case swmr_receive_raw0 env fuel s of
        None \<Rightarrow> None | Some (_, s') \<Rightarrow> Some (errval SMLT_SUCCESS, s'))"

end
