(* ===== verification/Channel.thy ===== *)
theory Channel
  imports Queuepair Swmr_Queue
begin

text \<open>
  Channels (\<open>inc/smlt_channel.h\<close>, \<open>src/channel.c\<close>): one-to-one channels over a UMP queue pair and
  one-to-many channels over a single-writer multiple-reader queue, with a UMP queue pair per
  receiver for the way back. An operation is called by a node, \<open>self\<close>, and acts on the part of the
  channel that this node uses.
\<close>

section \<open>The structure\<close>

text \<open>
  The members of the union \<open>c\<close> are fields of their own; a pointer to queue pairs is the list of the
  queue pairs behind it. An access outside of the list, as an access to the member of the union
  that is not in use, is undefined in C and comes to a \<open>Crash\<close> here.
\<close>

record smlt_channel =
  ch_owner :: u32
  ch_trg :: u32
  ch_m :: u32
  ch_n :: u32
  ch_use_shm :: bool
  ch_send :: "smlt_qp list"
  ch_recv :: "smlt_qp list"
  ch_send_owner :: swmr_queue
  ch_shm_recv_owner :: "smlt_qp list"
  ch_shm_recv :: "smlt_qp list"
  ch_shm_dst :: "u32 list"

definition num_chan :: "smlt_channel \<Rightarrow> nat" where
  "num_chan ch = (if ch_m ch > ch_n ch then unat (ch_m ch) else unat (ch_n ch))"

section \<open>Creation and destruction\<close>

text \<open>The loop that creates the queue pairs of the receivers; it stops at the first failure.\<close>

fun create_back_channels ::
  "(u32 \<Rightarrow> 'w \<Rightarrow> (errval_t \<times> (smlt_qp \<times> smlt_qp) option \<times> 'w) call_result) \<Rightarrow> u32 list \<Rightarrow>
   smlt_qp list \<times> smlt_qp list \<Rightarrow> 'w \<Rightarrow> (errval_t \<times> (smlt_qp list \<times> smlt_qp list) \<times> 'w) call_result"
where
  "create_back_channels create [] acc w = Returns (errval SMLT_SUCCESS, acc, w)"
| "create_back_channels create (d # ds) (rs, os) w =
     bind_call (create d w) (\<lambda>(err, qps, w').
       if smlt_err_is_fail err then Returns (smlt_err_push err SMLT_ERR_CHAN_CREATE, (rs, os), w')
       else case qps of
              None \<Rightarrow> Crash
            | Some (r, ow) \<Rightarrow> create_back_channels create ds (rs @ [r], os @ [ow]) w')"

text \<open>
  \<open>smlt_channel_create\<close> on the structure \<open>ch\<close> the caller allocated. The m:n case fails an assertion.
  \<open>src\<close> and \<open>dst\<close> are the arrays of core ids; the three plain allocations are made for their effect
  on the heap, the lists stand for their contents. \<open>nl\<close> is \<open>numa_alloc_local\<close>.
\<close>

definition smlt_channel_create ::
  "(u64 \<Rightarrow> u8 \<Rightarrow> 'h \<Rightarrow> addr \<times> 'h) \<Rightarrow> (u64 \<Rightarrow> 'h \<Rightarrow> addr \<times> 'h) \<Rightarrow> (addr \<Rightarrow> u64 \<Rightarrow> 'h \<Rightarrow> 'h) \<Rightarrow> int \<Rightarrow> (u32 \<Rightarrow> u8) \<Rightarrow>
   smlt_channel \<Rightarrow> u32 list \<Rightarrow> u32 list \<Rightarrow> u16 \<Rightarrow> u16 \<Rightarrow> 'h \<times> mem \<Rightarrow>
   (errval_t \<times> smlt_channel \<times> 'h \<times> mem) call_result"
where
  "smlt_channel_create na nl nf mx node_of_cpu ch src dst count_src count_dst w =
     (if count_src > 1 \<and> count_dst > 1 then Crash
      else
        let chan = (if count_src > count_dst then count_src else count_dst);
            ch1 = ch\<lparr>ch_m := ucast count_dst, ch_n := ucast count_src, ch_owner := src ! 0\<rparr>;
            qp_create = smlt_queuepair_create na nf mx node_of_cpu SMLT_QP_TYPE_UMP (src ! 0) in
        if count_dst = 1 then
          let ch2 = ch1\<lparr>ch_trg := dst ! 0, ch_use_shm := False\<rparr> in
          bind_call (qp_create (dst ! 0) w) (\<lambda>(err, qps, w').
            if smlt_err_is_fail err then Returns (smlt_err_push err SMLT_ERR_CHAN_CREATE, ch2, w')
            else case qps of
                   None \<Rightarrow> Crash
                 | Some (s, r) \<Rightarrow> Returns (errval SMLT_SUCCESS, ch2\<lparr>ch_send := [s], ch_recv := [r]\<rparr>, w'))
        else
          case swmr_queue_create (smlt_platform_alloc_on_node na mx) node_of_cpu (ch_send_owner ch1)
                 (src ! 0) dst chan False w of
            None \<Rightarrow> Crash
          | Some (q, w1) \<Rightarrow>
              (case smlt_platform_alloc nl (4 * ucast count_dst) SMLT_DEFAULT_ALIGNMENT True w1 of
                 None \<Rightarrow> Crash
               | Some (_, w2) \<Rightarrow>
              (case smlt_platform_alloc nl (SIZEOF_SMLT_QP * ucast chan) SMLT_DEFAULT_ALIGNMENT True w2 of
                 None \<Rightarrow> Crash
               | Some (_, w3) \<Rightarrow>
              (case smlt_platform_alloc nl (SIZEOF_SMLT_QP * ucast chan) SMLT_DEFAULT_ALIGNMENT True w3 of
                 None \<Rightarrow> Crash
               | Some (_, w4) \<Rightarrow>
                   bind_call (create_back_channels qp_create (take (unat chan) dst) ([], []) w4)
                     (\<lambda>(err, (rs, os), w5).
                        Returns (err, ch1\<lparr>ch_use_shm := True, ch_send_owner := q, ch_shm_dst := take (unat count_dst) dst,
                                         ch_shm_recv := rs, ch_shm_recv_owner := os\<rparr>, w5))))))"

text \<open>
  \<open>smlt_channel_destroy\<close>: the loop destroys a queue pair and then frees both arrays, in every round.
  \<open>sp\<close> and \<open>rp\<close> are the addresses of the arrays.
\<close>

fun destroy_loop ::
  "('w \<Rightarrow> 'w) \<Rightarrow> smlt_qp list \<Rightarrow> nat \<Rightarrow> nat \<Rightarrow> 'w \<Rightarrow> (errval_t \<times> 'w) call_result"
where
  "destroy_loop frees qs i 0 w = Returns (errval SMLT_SUCCESS, w)"
| "destroy_loop frees qs i (Suc k) w =
     (if i < length qs then
        let err = smlt_queuepair_destroy (qs ! i) in
        if smlt_err_is_fail err then Returns (smlt_err_push err SMLT_ERR_CHAN_DESTROY, w)
        else destroy_loop frees qs (Suc i) k (frees w)
      else Crash)"

definition smlt_channel_destroy ::
  "(addr \<Rightarrow> u64 \<Rightarrow> 'h \<Rightarrow> 'h) \<Rightarrow> addr \<Rightarrow> addr \<Rightarrow> smlt_channel \<Rightarrow> 'h \<times> mem \<Rightarrow> (errval_t \<times> 'h \<times> mem) call_result"
where
  "smlt_channel_destroy nf sp rp ch =
     destroy_loop (\<lambda>w. smlt_platform_free nf rp (smlt_platform_free nf sp w)) (ch_send ch) 0 (num_chan ch)"

section \<open>Calls on one of several queue pairs\<close>

definition call_at ::
  "('e \<times> mem \<times> 'q \<Rightarrow> ('r \<times> 'e \<times> mem \<times> 'q) call_result) \<Rightarrow> nat \<Rightarrow> 'e \<times> mem \<times> 'q list \<Rightarrow>
   ('r \<times> 'e \<times> mem \<times> 'q list) call_result"
where
  "call_at f i = (\<lambda>(e, m, qs).
     if i < length qs
     then bind_call (f (e, m, qs ! i)) (\<lambda>(r, e', m', q). Returns (r, e', m', qs[i := q]))
     else Crash)"

text \<open>A call on the queue pairs that a field of the channel holds.\<close>

definition on_field ::
  "(smlt_channel \<Rightarrow> 'q) \<Rightarrow> ('q \<Rightarrow> smlt_channel \<Rightarrow> smlt_channel) \<Rightarrow>
   ('e \<times> mem \<times> 'q \<Rightarrow> ('r \<times> 'e \<times> mem \<times> 'q) call_result) \<Rightarrow> 'e \<times> mem \<times> smlt_channel \<Rightarrow>
   ('r \<times> 'e \<times> mem \<times> smlt_channel) call_result"
where
  "on_field get put f = (\<lambda>(e, m, ch).
     bind_call (f (e, m, get ch)) (\<lambda>(r, e', m', q). Returns (r, e', m', put q ch)))"

abbreviation (input) on_send where "on_send \<equiv> on_field ch_send (\<lambda>q ch. ch\<lparr>ch_send := q\<rparr>)"
abbreviation (input) on_recv where "on_recv \<equiv> on_field ch_recv (\<lambda>q ch. ch\<lparr>ch_recv := q\<rparr>)"
abbreviation (input) on_shm_recv where "on_shm_recv \<equiv> on_field ch_shm_recv (\<lambda>q ch. ch\<lparr>ch_shm_recv := q\<rparr>)"
abbreviation (input) on_shm_recv_owner where
  "on_shm_recv_owner \<equiv> on_field ch_shm_recv_owner (\<lambda>q ch. ch\<lparr>ch_shm_recv_owner := q\<rparr>)"
abbreviation (input) on_readers where
  "on_readers \<equiv> on_field (\<lambda>ch. wq_dst (ch_send_owner ch))
                  (\<lambda>q ch. ch\<lparr>ch_send_owner := (ch_send_owner ch)\<lparr>wq_dst := q\<rparr>\<rparr>)"
abbreviation (input) on_writer where
  "on_writer \<equiv> on_field ch_send_owner (\<lambda>q ch. ch\<lparr>ch_send_owner := q\<rparr>)"

text \<open>The loop over the queue pairs of a message-passing channel: the first failure is returned.\<close>

fun each_chan ::
  "(nat \<Rightarrow> 's \<Rightarrow> (errval_t \<times> 's) call_result) \<Rightarrow> nat \<Rightarrow> nat \<Rightarrow> 's \<Rightarrow> (errval_t \<times> 's) call_result"
where
  "each_chan f i 0 s = Returns (errval SMLT_SUCCESS, s)"
| "each_chan f i (Suc k) s =
     bind_call (f i s) (\<lambda>(err, s').
       if smlt_err_is_fail err then Returns (smlt_err_push err SMLT_ERR_SEND, s') else each_chan f (Suc i) k s')"

text \<open>The loop over the receivers of a one-to-many channel that are this node; results are ignored.\<close>

fun each_self ::
  "u32 \<Rightarrow> u32 list \<Rightarrow> (nat \<Rightarrow> 's \<Rightarrow> ('r \<times> 's) call_result) \<Rightarrow> nat \<Rightarrow> nat \<Rightarrow> 's \<Rightarrow> 's call_result"
where
  "each_self self dst f i 0 s = Returns s"
| "each_self self dst f i (Suc k) s =
     (if i < length dst then
        if dst ! i = self then bind_call (f i s) (\<lambda>(_, s'). each_self self dst f (Suc i) k s')
        else each_self self dst f (Suc i) k s
      else Crash)"

section \<open>Sending\<close>

definition smlt_channel_send ::
  "(nat \<Rightarrow> 'e \<times> mem \<Rightarrow> 'e \<times> mem) \<Rightarrow> nat \<Rightarrow> u32 \<Rightarrow> smlt_msg \<Rightarrow> 'e \<times> mem \<times> smlt_channel \<Rightarrow>
   (errval_t \<times> 'e \<times> mem \<times> smlt_channel) call_result"
where
  "smlt_channel_send env fuel self msg = (\<lambda>(e, m, ch).
     if \<not> ch_use_shm ch then
       each_chan (\<lambda>i. if ch_owner ch = self then on_send (call_at (smlt_queuepair_send env fuel msg) i)
                      else on_recv (call_at (smlt_queuepair_send env fuel msg) i)) 0 (num_chan ch) (e, m, ch)
     else if ch_owner ch = self then
       bind_call (on_writer (\<lambda>s. of_polls (smlt_swmr_send env fuel msg s)) (e, m, ch))
         (\<lambda>(_, s). Returns (errval SMLT_SUCCESS, s))
     else
       bind_call (each_self self (ch_shm_dst ch) (\<lambda>i. on_shm_recv (call_at (smlt_queuepair_send env fuel msg) i))
                    0 (unat (ch_m ch)) (e, m, ch))
         (\<lambda>s. Returns (errval SMLT_SUCCESS, s)))"

definition smlt_channel_notify ::
  "(nat \<Rightarrow> 'e \<times> mem \<Rightarrow> 'e \<times> mem) \<Rightarrow> nat \<Rightarrow> u32 \<Rightarrow> 'e \<times> mem \<times> smlt_channel \<Rightarrow>
   (errval_t \<times> 'e \<times> mem \<times> smlt_channel) call_result"
where
  "smlt_channel_notify env fuel self = (\<lambda>(e, m, ch).
     if \<not> ch_use_shm ch then
       each_chan (\<lambda>i. if ch_owner ch = self then on_send (call_at (smlt_queuepair_notify env fuel) i)
                      else on_recv (call_at (smlt_queuepair_notify env fuel) i)) 0 (num_chan ch) (e, m, ch)
     else if ch_owner ch = self then
       bind_call (on_writer (\<lambda>s. of_polls (smlt_swmr_send0 env fuel s)) (e, m, ch))
         (\<lambda>(_, s). Returns (errval SMLT_SUCCESS, s))
     else
       bind_call (each_self self (ch_shm_dst ch) (\<lambda>i. on_shm_recv (call_at (smlt_queuepair_notify env fuel) i))
                    0 (unat (ch_m ch)) (e, m, ch))
         (\<lambda>s. Returns (errval SMLT_SUCCESS, s)))"

text \<open>The checks run over all queue pairs and remember whether one of them said no.\<close>

fun all_chans :: "(nat \<Rightarrow> 's \<Rightarrow> (bool \<times> 's) call_result) \<Rightarrow> bool \<Rightarrow> nat \<Rightarrow> nat \<Rightarrow> 's \<Rightarrow> (bool \<times> 's) call_result" where
  "all_chans f result i 0 s = Returns (result, s)"
| "all_chans f result i (Suc k) s =
     bind_call (f i s) (\<lambda>(ok, s'). all_chans f (if \<not> ok then False else result) (Suc i) k s')"

definition smlt_channel_can_send ::
  "u32 \<Rightarrow> mem \<Rightarrow> smlt_channel \<Rightarrow> (bool \<times> smlt_channel) call_result"
where
  "smlt_channel_can_send self m ch =
     all_chans (\<lambda>i ch.
       if ch_owner ch = self then
         (if i < length (ch_send ch)
          then bind_call (smlt_queuepair_can_send m (ch_send ch ! i)) (\<lambda>(ok, q). Returns (ok, ch\<lparr>ch_send := (ch_send ch)[i := q]\<rparr>))
          else Crash)
       else
         (if i < length (ch_recv ch)
          then bind_call (smlt_queuepair_can_send m (ch_recv ch ! i)) (\<lambda>(ok, q). Returns (ok, ch\<lparr>ch_recv := (ch_recv ch)[i := q]\<rparr>))
          else Crash)) True 0 (num_chan ch) ch"

section \<open>Receiving\<close>

text \<open>
  The owner of a one-to-many channel takes one notification from every receiver, in the order in which
  they come: it goes round the receivers until each has been heard once. \<open>seen\<close> is the array of the
  ones heard; \<open>fuel\<close> bounds the steps of the round that are looked at.
\<close>

fun collect_all ::
  "(nat \<Rightarrow> 's \<Rightarrow> 's) \<Rightarrow> (nat \<Rightarrow> 's \<Rightarrow> bool call_result) \<Rightarrow> (nat \<Rightarrow> 's \<Rightarrow> (errval_t \<times> 's) call_result) \<Rightarrow>
   nat \<Rightarrow> bool list \<Rightarrow> nat \<Rightarrow> nat \<Rightarrow> nat \<Rightarrow> nat \<Rightarrow> errval_t \<Rightarrow> 's \<Rightarrow> (errval_t \<times> 's) call_result"
where
  "collect_all env can rcv m seen num_recv i k 0 err s =
     (if num_recv < m then Polling else Returns (err, s))"
| "collect_all env can rcv m seen num_recv i k (Suc fuel) err s =
     (if num_recv < m then
        let s1 = env k s; i' = (if i + 1 = m then 0 else i + 1) in
        if seen ! i then collect_all env can rcv m seen num_recv i' (Suc k) fuel err s1
        else
          bind_call (can i s1) (\<lambda>ok.
            if ok then
              bind_call (rcv i s1) (\<lambda>(err', s2).
                if smlt_err_is_fail err' then Returns (err', s2)
                else collect_all env can rcv m (seen[i := True]) (num_recv + 1) i' (Suc k) fuel err' s2)
            else collect_all env can rcv m seen num_recv i' (Suc k) fuel err s1)
      else Returns (err, s))"

definition collect_owner ::
  "(nat \<Rightarrow> 'e \<times> mem \<Rightarrow> 'e \<times> mem) \<Rightarrow> nat \<Rightarrow> 'e \<times> mem \<times> smlt_channel \<Rightarrow>
   (errval_t \<times> 'e \<times> mem \<times> smlt_channel) call_result"
where
  "collect_owner env fuel = (\<lambda>(e, m, ch).
     collect_all (lift_env env)
       (\<lambda>i (e, m, ch). if i < length (ch_shm_recv_owner ch)
                        then smlt_queuepair_can_recv m (ch_shm_recv_owner ch ! i) else Crash)
       (\<lambda>i. on_shm_recv_owner (call_at (smlt_queuepair_recv0 env fuel) i))
       (unat (ch_m ch)) (replicate (unat (ch_m ch)) False) 0 0 0 fuel (errval SMLT_SUCCESS) (e, m, ch))"

text \<open>A receive that also gives back the message.\<close>

definition recv_at ::
  "(smlt_msg \<Rightarrow> 'e \<times> mem \<times> 'q \<Rightarrow> ((errval_t \<times> smlt_msg) \<times> 'e \<times> mem \<times> 'q) call_result) \<Rightarrow> nat \<Rightarrow> smlt_msg \<Rightarrow>
   'e \<times> mem \<times> 'q list \<Rightarrow> ((errval_t \<times> smlt_msg) \<times> 'e \<times> mem \<times> 'q list) call_result"
where
  "recv_at f i msg = call_at (f msg) i"

text \<open>The receive of every reader context that is this node's, into the same message.\<close>

fun each_self_recv ::
  "u32 \<Rightarrow> u32 list \<Rightarrow> (nat \<Rightarrow> smlt_msg \<Rightarrow> 's \<Rightarrow> ((errval_t \<times> smlt_msg) \<times> 's) call_result) \<Rightarrow> nat \<Rightarrow> nat \<Rightarrow> smlt_msg \<Rightarrow> 's \<Rightarrow>
   (smlt_msg \<times> 's) call_result"
where
  "each_self_recv self dst f i 0 msg s = Returns (msg, s)"
| "each_self_recv self dst f i (Suc k) msg s =
     (if i < length dst then
        if dst ! i = self then bind_call (f i msg s) (\<lambda>((_, msg'), s'). each_self_recv self dst f (Suc i) k msg' s')
        else each_self_recv self dst f (Suc i) k msg s
      else Crash)"

definition smlt_channel_recv ::
  "(nat \<Rightarrow> 'e \<times> mem \<Rightarrow> 'e \<times> mem) \<Rightarrow> nat \<Rightarrow> u32 \<Rightarrow> smlt_msg \<Rightarrow> 'e \<times> mem \<times> smlt_channel \<Rightarrow>
   ((errval_t \<times> smlt_msg) \<times> 'e \<times> mem \<times> smlt_channel) call_result"
where
  "smlt_channel_recv env fuel self msg = (\<lambda>(e, m, ch).
     if ch_n ch = ch_m ch then
       if ch_owner ch = self then on_send (recv_at (smlt_queuepair_recv env fuel) 0 msg) (e, m, ch)
       else on_recv (recv_at (smlt_queuepair_recv env fuel) 0 msg) (e, m, ch)
     else if ch_owner ch = self then
       bind_call (collect_owner env fuel (e, m, ch)) (\<lambda>(err, s). Returns ((err, msg), s))
     else
       bind_call (each_self_recv self (ch_shm_dst ch)
            (\<lambda>i msg. on_readers (recv_at (\<lambda>msg s. of_polls (smlt_swmr_recv env fuel msg s)) i msg))
            0 (unat (ch_m ch)) msg (e, m, ch))
         (\<lambda>(msg', s). Returns ((errval SMLT_SUCCESS, msg'), s)))"

text \<open>The loop that receives from every receiver in turn; the last error value is the result.\<close>

fun recv_every ::
  "(nat \<Rightarrow> smlt_msg \<Rightarrow> 's \<Rightarrow> ((errval_t \<times> smlt_msg) \<times> 's) call_result) \<Rightarrow> nat \<Rightarrow> nat \<Rightarrow> errval_t \<times> smlt_msg \<Rightarrow> 's \<Rightarrow>
   ((errval_t \<times> smlt_msg) \<times> 's) call_result"
where
  "recv_every f i 0 r s = Returns (r, s)"
| "recv_every f i (Suc k) r s = bind_call (f i (snd r) s) (\<lambda>(r', s'). recv_every f (Suc i) k r' s')"

definition smlt_channel_recv_index ::
  "(nat \<Rightarrow> 'e \<times> mem \<Rightarrow> 'e \<times> mem) \<Rightarrow> nat \<Rightarrow> u32 \<Rightarrow> smlt_msg \<Rightarrow> u32 \<Rightarrow> 'e \<times> mem \<times> smlt_channel \<Rightarrow>
   ((errval_t \<times> smlt_msg) \<times> 'e \<times> mem \<times> smlt_channel) call_result"
where
  "smlt_channel_recv_index env fuel self msg index = (\<lambda>(e, m, ch).
     if ch_n ch = ch_m ch then
       if ch_owner ch = self then on_send (recv_at (smlt_queuepair_recv env fuel) 0 msg) (e, m, ch)
       else on_recv (recv_at (smlt_queuepair_recv env fuel) 0 msg) (e, m, ch)
     else if ch_owner ch = self then
       recv_every (\<lambda>i msg. on_shm_recv_owner (recv_at (smlt_queuepair_recv env fuel) i msg)) 0 (unat (ch_m ch))
         (errval SMLT_SUCCESS, msg) (e, m, ch)
     else
       bind_call (on_readers (recv_at (\<lambda>msg s. of_polls (smlt_swmr_recv env fuel msg s)) (unat index) msg) (e, m, ch))
         (\<lambda>((_, msg'), s). Returns ((errval SMLT_SUCCESS, msg'), s)))"

text \<open>The check gives up and answers yes at the first step on a channel that uses shared memory.\<close>

definition smlt_channel_can_recv :: "u32 \<Rightarrow> mem \<Rightarrow> smlt_channel \<Rightarrow> bool call_result" where
  "smlt_channel_can_recv self m ch =
     (if ch_use_shm ch \<and> 0 < num_chan ch then Returns True
      else
        let qs = (if ch_owner ch = self then ch_send ch else ch_recv ch) in
        bind_call (all_chans (\<lambda>i s. if i < length qs
                                    then bind_call (smlt_queuepair_can_recv m (qs ! i)) (\<lambda>ok. Returns (ok, s))
                                    else Crash) True 0 (num_chan ch) ())
          (\<lambda>(ok, _). Returns ok))"

definition smlt_channel_recv_notification ::
  "(nat \<Rightarrow> 'e \<times> mem \<Rightarrow> 'e \<times> mem) \<Rightarrow> nat \<Rightarrow> u32 \<Rightarrow> 'e \<times> mem \<times> smlt_channel \<Rightarrow>
   (errval_t \<times> 'e \<times> mem \<times> smlt_channel) call_result"
where
  "smlt_channel_recv_notification env fuel self = (\<lambda>(e, m, ch).
     if ch_n ch = ch_m ch then
       if ch_owner ch = self then on_send (call_at (smlt_queuepair_recv0 env fuel) 0) (e, m, ch)
       else on_recv (call_at (smlt_queuepair_recv0 env fuel) 0) (e, m, ch)
     else if ch_owner ch = self then collect_owner env fuel (e, m, ch)
     else
       bind_call (each_self self (ch_shm_dst ch)
            (\<lambda>i. on_readers (call_at (\<lambda>s. of_polls (smlt_swmr_recv0 env fuel s)) i)) 0 (unat (ch_m ch)) (e, m, ch))
         (\<lambda>s. Returns (errval SMLT_SUCCESS, s)))"

end
