(* ===== verification/Ump_Refine.thy ===== *)
theory Ump_Refine
  imports Ump_Queue
begin

text \<open>
  The UMP backend implements a bounded first-in first-out channel. The invariant of one
  direction relates the two endpoints and the shared memory through three counters that no
  one stores: the messages sent, the messages received, and the acknowledgement the sender
  has cached. All of the code's 16-bit sequence numbers, positions and epochs are images of
  these counters, so that wrap-around is covered.
\<close>

section \<open>Control words and queue positions\<close>

lemma ctrl_of_raw_raw [simp]: "ctrl_of_raw (ctrl_raw c) = c"
proof -
  have "ucast (ctrl_raw c) = ctrl_epoch c" "ucast (drop_bit 16 (ctrl_raw c)) = ctrl_last_ack c"
    by (rule bit_word_eqI; auto simp: ctrl_raw_def bit_simps dest: bit_imp_le_length)+
  then show ?thesis by (simp add: ctrl_of_raw_def)
qed

lemma epoch16_eq_iff [simp]: "epoch16 a = epoch16 b \<longleftrightarrow> a = b"
  by (simp add: epoch16_def)

abbreviation ring_size :: "smlt_ump_queue \<Rightarrow> nat" where
  "ring_size q \<equiv> unat (uq_num_msg q)"

text \<open>The queue state after \<open>s\<close> messages.\<close>

definition ring_at :: "smlt_ump_queue \<Rightarrow> nat \<Rightarrow> bool" where
  "ring_at q s \<longleftrightarrow> 0 < ring_size q \<and> uq_pos q = of_nat (s mod ring_size q) \<and>
                  uq_epoch q = even (s div ring_size q)"

text \<open>Where message number \<open>s\<close> lives: word \<open>j\<close> of its slot, word 0 being the control word.\<close>

definition slot_word :: "smlt_ump_queue \<Rightarrow> nat \<Rightarrow> nat \<Rightarrow> addr" where
  "slot_word q s j = cell (uq_last_ack q) (8 + 8 * (s mod ring_size q) + j)"

definition same_ring :: "smlt_ump_queue \<Rightarrow> smlt_ump_queue \<Rightarrow> bool" where
  "same_ring q r \<longleftrightarrow> uq_buf q = uq_buf r \<and> uq_last_ack q = uq_last_ack r \<and> uq_num_msg q = uq_num_msg r"

definition well_placed :: "smlt_ump_queue \<Rightarrow> bool" where
  "well_placed q \<longleftrightarrow> uq_buf q = cell (uq_last_ack q) 8 \<and> 0 < ring_size q \<and> ring_size q < 65535"

lemma same_ring_advance [simp]: "same_ring (ump_advance q) r = same_ring q r"
  by (simp add: same_ring_def ump_advance_def)

lemma same_ring_refl [simp]: "same_ring q q"
  by (simp add: same_ring_def)

lemma well_placed_advance [simp]: "well_placed (ump_advance q) = well_placed q"
  by (simp add: well_placed_def ump_advance_def)

lemma ump_advance_fields [simp]:
  "uq_buf (ump_advance q) = uq_buf q" "uq_last_ack (ump_advance q) = uq_last_ack q"
  "uq_num_msg (ump_advance q) = uq_num_msg q" "uq_direction (ump_advance q) = uq_direction q"
  by (simp_all add: ump_advance_def)

lemma slot_word_advance [simp]: "slot_word (ump_advance q) = slot_word q"
  by (simp add: slot_word_def fun_eq_iff)

lemma unat_pos: "ring_at q s \<Longrightarrow> unat (uq_pos q) = s mod ring_size q"
  by (simp add: ring_at_def unat_ring_index)

lemma pos_wraps_iff:
  "ring_at q s \<Longrightarrow> uq_pos q + 1 = uq_num_msg q \<longleftrightarrow> Suc (s mod ring_size q) = ring_size q"
  by (simp add: ring_at_def ring_index_wraps)

lemma ring_at_advance:
  assumes "ring_at q s"
  shows "ring_at (ump_advance q) (Suc s)"
  using assms pos_wraps_iff[OF assms]
  by (auto simp: ring_at_def ump_advance_def Suc_mod_eq Suc_div_eq)

lemma slot_address:
  assumes "ring_at q s" "well_placed q"
  shows "uq_buf q + 64 * ucast (uq_pos q) = slot_word q s 0"
  using assms by (simp add: line_cell unat_pos slot_word_def well_placed_def)

lemma slot_word_Suc: "slot_word q s j + 8 = slot_word q s (Suc j)"
  using cell_cell[of "uq_last_ack q" "8 + 8 * (s mod ring_size q) + j" 1]
  by (simp add: slot_word_def cell_def)

lemma cell_slot_word: "cell (slot_word q s j) k = slot_word q s (j + k)"
  by (simp add: slot_word_def add.assoc)

lemma same_ring_slot_word: "same_ring q r \<Longrightarrow> slot_word q = slot_word r"
  by (simp add: same_ring_def slot_word_def fun_eq_iff)

lemma slot_word_eq_iff:
  assumes "well_placed q" "i < 8" "j < 8"
  shows "slot_word q s i = slot_word q t j \<longleftrightarrow> s mod ring_size q = t mod ring_size q \<and> i = j"
proof -
  have "s mod ring_size q < 65535" "t mod ring_size q < 65535"
    using assms(1) by (meson well_placed_def mod_less_divisor order_less_trans)+
  then have "slot_word q s i = slot_word q t j \<longleftrightarrow>
             8 + 8 * (s mod ring_size q) + i = 8 + 8 * (t mod ring_size q) + j"
    using assms(2,3) unfolding slot_word_def by (intro cell_eq_iff) simp_all
  also have "\<dots> \<longleftrightarrow> s mod ring_size q = t mod ring_size q \<and> i = j"
    using assms(2,3) by (simp add: line_word_eq_iff)
  finally show ?thesis .
qed

lemma slot_word_neq_ack:
  assumes "well_placed q" "j < 8"
  shows "slot_word q s j \<noteq> uq_last_ack q"
proof -
  have "s mod ring_size q < 65535"
    using assms(1) by (meson well_placed_def mod_less_divisor order_less_trans)
  then have "cell (uq_last_ack q) (8 + 8 * (s mod ring_size q) + j) = cell (uq_last_ack q) 0 \<longleftrightarrow>
             8 + 8 * (s mod ring_size q) + j = 0"
    using assms(2) by (intro cell_eq_iff) simp_all
  then show ?thesis by (simp add: slot_word_def)
qed

section \<open>The invariant of one direction\<close>

text \<open>What the receiver has acknowledged after \<open>r\<close> messages: half a round at a time.\<close>

definition ump_acked :: "nat \<Rightarrow> nat \<Rightarrow> nat" where
  "ump_acked n r = (if n div 2 < r mod n then r - r mod n + n div 2 + 1 else r - r mod n)"

definition slot_ctrl :: "mem \<Rightarrow> smlt_ump_queue \<Rightarrow> nat \<Rightarrow> smlt_ump_ctrl" where
  "slot_ctrl m q s = ctrl_of_raw (ld32 m (slot_word q s 0))"

text \<open>
  \<open>S\<close> messages were sent by \<open>a\<close> and \<open>R\<close> received by \<open>rx\<close>; the sender has cached the
  acknowledgement of the first \<open>L\<close>. The slots of the next round that are not sent yet still
  carry the epoch of the previous round, the pending slots carry their sequence numbers, and
  the acknowledgement word holds what \<open>ump_acked\<close> says.
\<close>

definition ump_dir ::
  "nat \<Rightarrow> nat \<Rightarrow> nat \<Rightarrow> mem \<Rightarrow> smlt_ump_queuepair \<Rightarrow> smlt_ump_queue \<Rightarrow> bool"
where
  "ump_dir S R L m a rx \<longleftrightarrow>
     (let tx = uqp_tx a; n = ring_size tx in
      well_placed tx \<and> same_ring rx tx \<and> ring_at tx S \<and> ring_at rx R \<and>
      uqp_seq_id a = of_nat (S + 1) \<and> uqp_last_ack a = of_nat L \<and>
      L \<le> ump_acked n R \<and> R \<le> S \<and> S - L \<le> n \<and>
      ld16 m (uq_last_ack tx) = of_nat (ump_acked n R) \<and>
      (\<forall>s. S \<le> s \<and> s < S + n \<longrightarrow> ctrl_epoch (slot_ctrl m tx s) = epoch16 (odd (s div n))) \<and>
      (\<forall>s. R \<le> s \<and> s < S \<longrightarrow> ctrl_last_ack (slot_ctrl m tx s) = of_nat (s + 1)))"

lemma ump_dirD:
  assumes "ump_dir S R L m a rx"
  shows "well_placed (uqp_tx a)" "same_ring rx (uqp_tx a)" "ring_at (uqp_tx a) S" "ring_at rx R"
    "uqp_seq_id a = of_nat (S + 1)" "uqp_last_ack a = of_nat L"
    "L \<le> ump_acked (ring_size (uqp_tx a)) R" "R \<le> S" "S - L \<le> ring_size (uqp_tx a)"
    "ld16 m (uq_last_ack (uqp_tx a)) = of_nat (ump_acked (ring_size (uqp_tx a)) R)"
    "\<And>s. S \<le> s \<Longrightarrow> s < S + ring_size (uqp_tx a) \<Longrightarrow>
       ctrl_epoch (slot_ctrl m (uqp_tx a) s) = epoch16 (odd (s div ring_size (uqp_tx a)))"
    "\<And>s. R \<le> s \<Longrightarrow> s < S \<Longrightarrow> ctrl_last_ack (slot_ctrl m (uqp_tx a) s) = of_nat (s + 1)"
  using assms unfolding ump_dir_def Let_def by blast+

lemma half_round_lag:
  fixes r p n :: nat
  assumes "p \<le> r" "p < n"
  shows "(if n div 2 < p then r - p + n div 2 + 1 else r - p) \<le> r"
    "r - (if n div 2 < p then r - p + n div 2 + 1 else r - p) \<le> n div 2"
  using assms by (cases "n div 2 < p"; simp)+

lemma ump_acked_le: "0 < n \<Longrightarrow> ump_acked n r \<le> r"
  unfolding ump_acked_def by (rule half_round_lag) simp_all

lemma ump_acked_lag: "0 < n \<Longrightarrow> r - ump_acked n r \<le> n div 2"
  unfolding ump_acked_def by (rule half_round_lag) simp_all

lemma ump_acked_Suc:
  assumes "0 < n"
  shows "ump_acked n (Suc r) =
           (if r mod n = n div 2 \<or> Suc (r mod n) = n then Suc r else ump_acked n r)"
  using assms mod_less_eq_dividend[of r n] mod_less_divisor[of n r]
  by (auto simp: ump_acked_def Suc_mod_eq)

lemma ump_dir_sizes:
  assumes "ump_dir S R L m a rx"
  shows "0 < ring_size (uqp_tx a)" "ring_size (uqp_tx a) < 65535" "L \<le> R" "L \<le> S"
    "S - R \<le> ring_size (uqp_tx a)" "ring_size rx = ring_size (uqp_tx a)" "well_placed rx"
    "slot_word rx = slot_word (uqp_tx a)" "uq_last_ack rx = uq_last_ack (uqp_tx a)"
  using ump_dirD(1,2,7,8,9)[OF assms] ump_acked_le[of "ring_size (uqp_tx a)" R]
    same_ring_slot_word[of rx "uqp_tx a"]
  by (simp_all add: well_placed_def same_ring_def)

text \<open>The epoch of a pending slot is the epoch the receiver expects there.\<close>

lemma ump_dir_pending_epoch:
  assumes "ump_dir S R L m a rx" "R \<le> s" "s < S"
  shows "ctrl_epoch (slot_ctrl m (uqp_tx a) s) = epoch16 (even (s div ring_size (uqp_tx a)))"
proof -
  let ?n = "ring_size (uqp_tx a)"
  have "S \<le> s + ?n" "s + ?n < S + ?n" using assms(2,3) ump_dir_sizes(5)[OF assms(1)] by auto
  then have "ctrl_epoch (slot_ctrl m (uqp_tx a) (s + ?n)) = epoch16 (odd ((s + ?n) div ?n))"
    by (rule ump_dirD(11)[OF assms(1)])
  moreover have "(s + ?n) div ?n = Suc (s div ?n)" using round_div[OF ump_dir_sizes(1)[OF assms(1)]] .
  ultimately show ?thesis by (simp add: slot_ctrl_def slot_word_def)
qed

lemma can_recv_slot:
  assumes "well_placed q" "ring_at q s"
  shows "smlt_ump_queue_can_recv m q \<longleftrightarrow>
         ctrl_epoch (slot_ctrl m q s) = epoch16 (even (s div ring_size q))"
proof -
  have "uq_epoch q = even (s div ring_size q)" using assms(2) by (simp add: ring_at_def)
  then show ?thesis
    using slot_address[OF assms(2,1)] by (simp add: smlt_ump_queue_can_recv_def slot_ctrl_def)
qed

lemma ump_dir_can_recv:
  assumes "ump_dir S R L m a rx"
  shows "smlt_ump_queue_can_recv m rx \<longleftrightarrow> R < S"
proof -
  let ?tx = "uqp_tx a" and ?n = "ring_size (uqp_tx a)"
  note sz = ump_dir_sizes[OF assms]
  have *: "smlt_ump_queue_can_recv m rx \<longleftrightarrow>
             ctrl_epoch (slot_ctrl m ?tx R) = epoch16 (even (R div ?n))"
    using can_recv_slot[OF sz(7) ump_dirD(4)[OF assms]] sz(6,8) by (simp add: slot_ctrl_def)
  show ?thesis
  proof (cases "R = S")
    case True
    then show ?thesis using * ump_dirD(11)[OF assms, of S] sz(1) by simp
  next
    case False
    then have "R < S" using ump_dirD(8)[OF assms] by simp
    then show ?thesis using * ump_dir_pending_epoch[OF assms, of R] by simp
  qed
qed

text \<open>The 16-bit distance between the next sequence number and an acknowledgement.\<close>

lemma ack_distance:
  assumes "ump_dir S R L m a rx" "l \<le> S" "S - l \<le> ring_size (uqp_tx a)"
  shows "uqp_seq_id a - of_nat l \<le> uq_num_msg (uqp_tx a) \<longleftrightarrow> S - l < ring_size (uqp_tx a)"
proof -
  have "S + 1 - l < 2 ^ LENGTH(16)" using ump_dir_sizes(2)[OF assms(1)] assms(3) by simp
  then have "unat (uqp_seq_id a - of_nat l) = S + 1 - l"
    using assms(2) unfolding ump_dirD(5)[OF assms(1)] by (intro unat_diff_of_nat) simp_all
  then show ?thesis using assms(2) by (auto simp: word_le_nat_alt)
qed

lemma ump_dir_refresh:
  assumes "ump_dir S R L m a rx"
  shows "ump_dir S R (ump_acked (ring_size (uqp_tx a)) R) m
           (a\<lparr>uqp_last_ack := smlt_ump_queue_last_ack m (uqp_tx a)\<rparr>) rx"
  using ump_dirD[OF assms] unfolding ump_dir_def Let_def smlt_ump_queue_last_ack_def by simp

lemma ump_dir_can_send:
  assumes "ump_dir S R L m a rx" "smlt_ump_queuepair_can_send_raw m a = (ok, a')"
  shows "\<exists>L'. ump_dir S R L' m a' rx \<and> (ok \<longleftrightarrow> S - L' < ring_size (uqp_tx a)) \<and>
              uqp_tx a' = uqp_tx a \<and> uqp_rx a' = uqp_rx a \<and>
              (\<not> ok \<longrightarrow> L' = ump_acked (ring_size (uqp_tx a)) R)"
proof (cases "S - L < ring_size (uqp_tx a)")
  case True
  then have "ok" "a' = a"
    using assms(2) ack_distance[OF assms(1) ump_dir_sizes(4)[OF assms(1)] ump_dirD(9)[OF assms(1)]]
      ump_dirD(6)[OF assms(1)]
    by (simp_all add: smlt_ump_queuepair_can_send_raw_def)
  then show ?thesis using assms(1) True by blast
next
  case False
  let ?K = "ump_acked (ring_size (uqp_tx a)) R"
  let ?b = "a\<lparr>uqp_last_ack := smlt_ump_queue_last_ack m (uqp_tx a)\<rparr>"
  have "?K \<le> S" "S - ?K \<le> ring_size (uqp_tx a)"
    using ump_dirD(7,8,9)[OF assms(1)] ump_acked_le[OF ump_dir_sizes(1)[OF assms(1)], of R] by linarith+
  then have "a' = ?b" "ok \<longleftrightarrow> S - ?K < ring_size (uqp_tx a)"
    using assms(2) False ack_distance[OF assms(1) ump_dir_sizes(4)[OF assms(1)] ump_dirD(9)[OF assms(1)]]
      ack_distance[OF assms(1), of ?K] ump_dirD(6,10)[OF assms(1)]
    by (simp_all add: smlt_ump_queuepair_can_send_raw_def smlt_ump_queue_last_ack_def)
  then show ?thesis using ump_dir_refresh[OF assms(1)] by auto
qed

section \<open>Publishing and consuming a slot\<close>

lemma slot_ctrl_other:
  assumes "well_placed q" "s mod ring_size q \<noteq> t mod ring_size q"
    "\<And>x. (\<And>j. j < 8 \<Longrightarrow> x \<noteq> slot_word q t j) \<Longrightarrow> m' x = m x"
  shows "slot_ctrl m' q s = slot_ctrl m q s"
proof -
  have "m' (slot_word q s 0) = m (slot_word q s 0)"
    using assms(2) by (intro assms(3)) (simp add: slot_word_eq_iff[OF assms(1)])
  then show ?thesis by (simp add: slot_ctrl_def ld32_def)
qed

lemma ump_dir_publish:
  assumes dir: "ump_dir S R L m a rx" and room: "S - L < ring_size (uqp_tx a)"
    and frame: "\<And>x. (\<And>j. j < 8 \<Longrightarrow> x \<noteq> slot_word (uqp_tx a) S j) \<Longrightarrow> m' x = m x"
    and ctrl: "slot_ctrl m' (uqp_tx a) S =
               \<lparr>ctrl_epoch = epoch16 (uq_epoch (uqp_tx a)), ctrl_last_ack = uqp_seq_id a\<rparr>"
  shows "ump_dir (Suc S) R L m'
           (a\<lparr>uqp_seq_id := uqp_seq_id a + 1, uqp_tx := ump_advance (uqp_tx a)\<rparr>) rx"
proof -
  let ?tx = "uqp_tx a" and ?n = "ring_size (uqp_tx a)"
  note D = ump_dirD[OF dir] and sz = ump_dir_sizes[OF dir]
  note other = slot_ctrl_other[OF D(1) _ frame]
  have ack: "m' (uq_last_ack ?tx) = m (uq_last_ack ?tx)"
    using slot_word_neq_ack[OF D(1)] by (intro frame) metis
  have epochs: "ctrl_epoch (slot_ctrl m' ?tx s) = epoch16 (odd (s div ?n))"
    if "Suc S \<le> s" "s < Suc S + ?n" for s
  proof (cases "s = S + ?n")
    case True
    then have "slot_ctrl m' ?tx s = slot_ctrl m' ?tx S" by (simp add: slot_ctrl_def slot_word_def)
    then show ?thesis using ctrl D(3) sz(1) True by (simp add: ring_at_def round_div)
  next
    case False
    then show ?thesis using that D(11)[of s] mod_neq[of S s ?n] other[of s] by force
  qed
  have seqs: "ctrl_last_ack (slot_ctrl m' ?tx s) = of_nat (s + 1)" if "R \<le> s" "s < Suc S" for s
  proof (cases "s = S")
    case True
    then show ?thesis using ctrl D(5) by simp
  next
    case False
    then show ?thesis using that D(12)[of s] mod_neq[of s S ?n] other[of s] room sz(3) by force
  qed
  show ?thesis
    unfolding ump_dir_def Let_def
    using D(1,2,4,5,6,7,8,10) ring_at_advance[OF D(3)] room epochs seqs ack sz(4)
    by (simp add: ld16_def slot_ctrl_def same_ring_def)
qed

text \<open>The two acknowledgement stores of the receiver, as one.\<close>

lemma recv_raw_ready:
  assumes "well_placed q" "ring_at q s" "smlt_ump_queue_can_recv m q"
  shows "smlt_ump_queue_recv_raw m q =
     (errval SMLT_SUCCESS, slot_word q s 0,
      (if s mod ring_size q = ring_size q div 2 \<or> Suc (s mod ring_size q) = ring_size q
       then st16 m (uq_last_ack q) (ctrl_last_ack (slot_ctrl m q s)) else m),
      ump_advance q)"
proof -
  have half: "uq_pos q = drop_bit 1 (uq_num_msg q) \<longleftrightarrow> s mod ring_size q = ring_size q div 2"
    using unat_pos[OF assms(2)] by (simp add: word_unat_eq_iff unsigned_drop_bit_eq drop_bit_eq_div unat_div)
  have "st16 (st16 m' x v) x v = st16 m' x v" for m' x v
    by (simp add: st16_def fun_eq_iff) (auto intro!: bit_word_eqI simp: bit_simps)
  then show ?thesis
    using assms(3) half pos_wraps_iff[OF assms(2)] slot_address[OF assms(2,1)]
    by (simp add: smlt_ump_queue_recv_raw_def smlt_ump_queue_can_recv_def slot_ctrl_def Let_def)
qed

lemma ump_dir_consume:
  assumes dir: "ump_dir S R L m a rx" and "R < S"
    and raw: "smlt_ump_queue_recv_raw m rx = (err, slot, m', rx')"
  shows "err = errval SMLT_SUCCESS" "slot = slot_word (uqp_tx a) R 0" "rx' = ump_advance rx"
    "ump_dir S (Suc R) L m' a rx'" "\<And>x. x \<noteq> uq_last_ack (uqp_tx a) \<Longrightarrow> m' x = m x"
proof -
  let ?tx = "uqp_tx a" and ?n = "ring_size (uqp_tx a)"
  note D = ump_dirD[OF dir] and sz = ump_dir_sizes[OF dir]
  have "smlt_ump_queue_can_recv m rx" using ump_dir_can_recv[OF dir] assms(2) by simp
  note eq = recv_raw_ready[OF sz(7) D(4) this, unfolded raw sz(6,8,9)]
  then show "err = errval SMLT_SUCCESS" "slot = slot_word ?tx R 0" "rx' = ump_advance rx"
    and frame: "\<And>x. x \<noteq> uq_last_ack ?tx \<Longrightarrow> m' x = m x"
    by (auto split: if_splits)
  have "ctrl_last_ack (slot_ctrl m rx R) = of_nat (Suc R)"
    using D(12)[of R] assms(2) sz(8) by (simp add: slot_ctrl_def)
  then have ack: "ld16 m' (uq_last_ack ?tx) = of_nat (ump_acked ?n (Suc R))"
    using eq D(10) sz(1) by (auto simp: ump_acked_Suc split: if_splits)
  have "m' (slot_word ?tx s 0) = m (slot_word ?tx s 0)" for s
    using slot_word_neq_ack[OF D(1), of 0 s] by (intro frame) simp
  then have ctrl: "slot_ctrl m' ?tx s = slot_ctrl m ?tx s" for s
    by (simp add: slot_ctrl_def ld32_def)
  have "L \<le> ump_acked ?n (Suc R)" using D(7) sz(1,3) by (auto simp: ump_acked_Suc)
  then show "ump_dir S (Suc R) L m' a rx'"
    unfolding ump_dir_def Let_def \<open>rx' = ump_advance rx\<close>
    using D(1,2,3,5,6,9,11,12) ring_at_advance[OF D(4)] assms(2) ack by (simp add: ctrl)
qed

section \<open>The pending messages\<close>

text \<open>
  What a receiver that keeps receiving from queue state \<open>q\<close> finds, reading \<open>w\<close> words of each
  message: it walks over the slots as long as they carry the expected epoch.
\<close>

fun ump_pending :: "nat \<Rightarrow> mem \<Rightarrow> nat \<Rightarrow> smlt_ump_queue \<Rightarrow> u64 list list" where
  "ump_pending w m 0 q = []"
| "ump_pending w m (Suc k) q =
     (if smlt_ump_queue_can_recv m q
      then map (\<lambda>j. m (uq_buf q + 64 * ucast (uq_pos q) + 8 + 8 * of_nat j)) [0..<w]
           # ump_pending w m k (ump_advance q)
      else [])"

definition slot_payload :: "nat \<Rightarrow> mem \<Rightarrow> smlt_ump_queue \<Rightarrow> nat \<Rightarrow> u64 list" where
  "slot_payload w m q s = map (\<lambda>j. m (slot_word q s (Suc j))) [0..<w]"

lemma slot_payload_cong:
  assumes "\<And>j. j < w \<Longrightarrow> m' (slot_word q s (Suc j)) = m (slot_word q s (Suc j))"
  shows "slot_payload w m' q s = slot_payload w m q s"
  using assms by (simp add: slot_payload_def)

lemma ump_pending_walk:
  assumes "well_placed q" "ring_at q r"
    "\<And>s. r \<le> s \<Longrightarrow> s < r + j \<Longrightarrow> ctrl_epoch (slot_ctrl m q s) = epoch16 (even (s div ring_size q))"
    "j \<le> k" "j < k \<Longrightarrow> ctrl_epoch (slot_ctrl m q (r + j)) \<noteq> epoch16 (even ((r + j) div ring_size q))"
  shows "ump_pending w m k q = map (slot_payload w m q) [r..<r + j]"
  using assms
proof (induction k arbitrary: q r j)
  case 0
  then show ?case by simp
next
  case (Suc k)
  note can = can_recv_slot[OF Suc.prems(1,2), of m]
  show ?case
  proof (cases j)
    case 0
    then show ?thesis using Suc.prems(5) can by simp
  next
    case (Suc i)
    let ?q = "ump_advance q"
    have same: "slot_ctrl m ?q = slot_ctrl m q" "ring_size ?q = ring_size q"
      "slot_payload w m ?q = slot_payload w m q"
      by (simp_all add: slot_ctrl_def slot_payload_def fun_eq_iff)
    have "ump_pending w m k ?q = map (slot_payload w m ?q) [Suc r..<Suc r + i]"
    proof (rule Suc.IH)
      show "ring_at ?q (Suc r)" using ring_at_advance[OF Suc.prems(2)] .
    qed (use Suc.prems \<open>j = Suc i\<close> same in auto)
    moreover have "smlt_ump_queue_can_recv m q" using can Suc.prems(3)[of r] \<open>j = Suc i\<close> by simp
    moreover have "map (\<lambda>j. m (uq_buf q + 64 * ucast (uq_pos q) + 8 + 8 * of_nat j)) [0..<w] =
                   slot_payload w m q r"
      by (simp add: slot_address[OF Suc.prems(2,1)] slot_payload_def slot_word_Suc word_cell
          cell_slot_word)
    moreover have "[r..<r + j] = r # [Suc r..<Suc r + i]"
      using upt_conv_Cons[of r "r + j"] \<open>j = Suc i\<close> by (simp del: upt_Suc)
    ultimately show ?thesis using same(3) by simp
  qed
qed

lemma ump_dir_pending:
  assumes "ump_dir S R L m a rx"
  shows "ump_pending w m (ring_size rx) rx = map (slot_payload w m (uqp_tx a)) [R..<S]"
proof -
  note D = ump_dirD[OF assms] and sz = ump_dir_sizes[OF assms]
  have same: "slot_ctrl m rx = slot_ctrl m (uqp_tx a)" "slot_payload w m rx = slot_payload w m (uqp_tx a)"
    using sz(8) by (simp_all add: slot_ctrl_def slot_payload_def fun_eq_iff)
  have "ump_pending w m (ring_size rx) rx = map (slot_payload w m rx) [R..<R + (S - R)]"
  proof (rule ump_pending_walk[OF sz(7) D(4)])
    fix s assume "R \<le> s" "s < R + (S - R)"
    then show "ctrl_epoch (slot_ctrl m rx s) = epoch16 (even (s div ring_size rx))"
      using ump_dir_pending_epoch[OF assms, of s] same(1) sz(6) by simp
  next
    show "S - R \<le> ring_size rx" using sz(5,6) by simp
  next
    have "ctrl_epoch (slot_ctrl m (uqp_tx a) S) = epoch16 (odd (S div ring_size rx))"
      using D(11)[of S] sz(1,6) by simp
    then show "ctrl_epoch (slot_ctrl m rx (R + (S - R))) \<noteq> epoch16 (even ((R + (S - R)) div ring_size rx))"
      using D(8) same(1) by simp
  qed
  then show ?thesis using D(8) same(2) by simp
qed

section \<open>Operations on a link\<close>

lemma try_send_eq:
  assumes "well_placed (uqp_tx a)" "ring_at (uqp_tx a) S"
    "smlt_ump_queuepair_can_send_raw m a = (ok, a')" "uqp_tx a' = uqp_tx a"
  shows "smlt_ump_queuepair_try_send m a msg =
    (if \<not> ok then (errval SMLT_ERR_QUEUE_FULL, m, a')
     else (errval SMLT_SUCCESS,
           st32 (copy_to_mem m (slot_word (uqp_tx a) S 1) (msg_data msg) 0 (unat (msg_words msg)))
             (slot_word (uqp_tx a) S 0)
             (ctrl_raw \<lparr>ctrl_epoch = epoch16 (uq_epoch (uqp_tx a)), ctrl_last_ack = uqp_seq_id a'\<rparr>),
           a'\<lparr>uqp_seq_id := uqp_seq_id a' + 1, uqp_tx := ump_advance (uqp_tx a)\<rparr>))"
  using assms slot_address[OF assms(2,1)] slot_word_Suc[of "uqp_tx a" S 0]
  by (simp add: smlt_ump_queuepair_try_send_def smlt_ump_queuepair_prepare_send_def
      smlt_ump_queue_get_next_def smlt_ump_queuepair_send_raw_def smlt_ump_queue_send_def)

text \<open>
  A link in one direction: the queue pair of the receiver, the memory, the queue pair of the
  sender. Messages have \<open>w\<close> words, at most the seven of a slot.
\<close>

type_synonym ump_link = "smlt_ump_queuepair \<times> mem \<times> smlt_ump_queuepair"

definition ump_link_send :: "u64 list \<Rightarrow> ump_link \<Rightarrow> bool \<times> ump_link" where
  "ump_link_send x = (\<lambda>(b, m, a).
     let (err, m', a') = smlt_ump_queuepair_try_send m a (msg_of x)
     in (smlt_err_is_ok err, b, m', a'))"

definition ump_link_recv :: "nat \<Rightarrow> ump_link \<Rightarrow> u64 list option \<times> ump_link" where
  "ump_link_recv w = (\<lambda>(b, m, a).
     let (err, m', b', msg) = smlt_ump_queuepair_try_recv m b (msg_of (replicate w 0))
     in (if smlt_err_is_ok err then Some (msg_payload msg) else None, b', m', a))"

definition ump_link_inv :: "nat \<Rightarrow> ump_link \<Rightarrow> bool" where
  "ump_link_inv w = (\<lambda>(b, m, a). w \<le> 7 \<and> (\<exists>S R L. ump_dir S R L m a (uqp_rx b)))"

definition ump_link_pending :: "nat \<Rightarrow> ump_link \<Rightarrow> u64 list list" where
  "ump_link_pending w = (\<lambda>(b, m, a). ump_pending w m (ring_size (uqp_rx b)) (uqp_rx b))"

definition ump_link_room :: "ump_link \<Rightarrow> nat" where
  "ump_link_room = (\<lambda>(b, m, a). ring_size (uqp_rx b))"

lemma try_send_cases:
  assumes dir: "ump_dir S R L m a rx"
  obtains a1 L' ok where "ump_dir S R L' m a1 rx" "ok \<longleftrightarrow> S - L' < ring_size (uqp_tx a)"
    "uqp_tx a1 = uqp_tx a" "uqp_rx a1 = uqp_rx a" "ok \<or> L' = ump_acked (ring_size (uqp_tx a)) R"
    "smlt_ump_queuepair_try_send m a msg =
      (if \<not> ok then (errval SMLT_ERR_QUEUE_FULL, m, a1)
       else (errval SMLT_SUCCESS,
             st32 (copy_to_mem m (slot_word (uqp_tx a) S 1) (msg_data msg) 0 (unat (msg_words msg)))
               (slot_word (uqp_tx a) S 0)
               (ctrl_raw \<lparr>ctrl_epoch = epoch16 (uq_epoch (uqp_tx a)), ctrl_last_ack = uqp_seq_id a1\<rparr>),
             a1\<lparr>uqp_seq_id := uqp_seq_id a1 + 1, uqp_tx := ump_advance (uqp_tx a)\<rparr>))"
proof -
  obtain ok a1 where can: "smlt_ump_queuepair_can_send_raw m a = (ok, a1)" by fastforce
  then obtain L' where "ump_dir S R L' m a1 rx" "ok \<longleftrightarrow> S - L' < ring_size (uqp_tx a)"
    "uqp_tx a1 = uqp_tx a" "uqp_rx a1 = uqp_rx a"
    "\<not> ok \<longrightarrow> L' = ump_acked (ring_size (uqp_tx a)) R"
    using ump_dir_can_send[OF dir can] by blast
  then show thesis
    using that[of L' a1 ok] try_send_eq[OF ump_dirD(1,3)[OF dir] can, of msg] by blast
qed

text \<open>A send writes nothing outside the slot of the next message.\<close>

lemma ump_send_frame:
  assumes dir: "ump_dir S R L m a rx" and words: "unat (msg_words msg) \<le> 7"
    and call: "smlt_ump_queuepair_try_send m a msg = (err, m', a')"
    and "\<And>j. j < 8 \<Longrightarrow> x \<noteq> slot_word (uqp_tx a) S j"
  shows "m' x = m x"
proof -
  have "copy_to_mem m (slot_word (uqp_tx a) S 1) (msg_data msg) 0 (unat (msg_words msg)) x = m x"
    using assms(4) words by (intro copy_to_mem_other) (simp add: cell_slot_word)
  with assms(4)[of 0] call show ?thesis
    by (cases rule: try_send_cases[OF dir, of msg]) (auto split: if_splits)
qed

lemma ump_send_accepted:
  assumes dir: "ump_dir S R L m a rx" and words: "unat (msg_words msg) \<le> 7"
    and call: "smlt_ump_queuepair_try_send m a msg = (errval SMLT_SUCCESS, m', a')"
  shows "S - R < ring_size rx" "\<exists>L'. ump_dir (Suc S) R L' m' a' rx"
    "slot_payload (unat (msg_words msg)) m' (uqp_tx a) S = msg_payload msg"
    "uqp_rx a' = uqp_rx a" "uqp_tx a' = ump_advance (uqp_tx a)"
proof -
  let ?tx = "uqp_tx a" and ?w = "unat (msg_words msg)"
  obtain a1 L' ok where A: "ump_dir S R L' m a1 rx" "ok \<longleftrightarrow> S - L' < ring_size ?tx"
    "uqp_tx a1 = ?tx" "uqp_rx a1 = uqp_rx a"
    and eq: "(errval SMLT_SUCCESS, m', a') = (if \<not> ok then (errval SMLT_ERR_QUEUE_FULL, m, a1)
       else (errval SMLT_SUCCESS,
             st32 (copy_to_mem m (slot_word ?tx S 1) (msg_data msg) 0 ?w) (slot_word ?tx S 0)
               (ctrl_raw \<lparr>ctrl_epoch = epoch16 (uq_epoch ?tx), ctrl_last_ack = uqp_seq_id a1\<rparr>),
             a1\<lparr>uqp_seq_id := uqp_seq_id a1 + 1, uqp_tx := ump_advance ?tx\<rparr>))"
    using try_send_cases[OF dir, of msg] call by metis
  then have ok: "ok" "S - L' < ring_size ?tx" by (auto split: if_splits)
  have a': "a' = a1\<lparr>uqp_seq_id := uqp_seq_id a1 + 1, uqp_tx := ump_advance ?tx\<rparr>"
    and m': "m' = st32 (copy_to_mem m (slot_word ?tx S 1) (msg_data msg) 0 ?w) (slot_word ?tx S 0)
               (ctrl_raw \<lparr>ctrl_epoch = epoch16 (uq_epoch ?tx), ctrl_last_ack = uqp_seq_id a1\<rparr>)"
    using eq ok(1) by simp_all
  show "S - R < ring_size rx" using ok(2) ump_dir_sizes(3,6)[OF A(1)] A(3) by simp
  show "uqp_rx a' = uqp_rx a" "uqp_tx a' = ump_advance (uqp_tx a)" using a' A(4) by simp_all
  have "ump_dir (Suc S) R L' m' a' rx" unfolding a' A(3)[symmetric]
    by (rule ump_dir_publish[OF A(1)])
      (use ok A(3) ump_send_frame[OF dir words call] in \<open>simp_all add: slot_ctrl_def m'\<close>)
  then show "\<exists>L'. ump_dir (Suc S) R L' m' a' rx" ..
  have "m' (slot_word ?tx S (Suc j)) = msg_data msg j" if "j < ?w" for j
  proof -
    have "slot_word ?tx S (Suc j) \<noteq> slot_word ?tx S 0"
      using that slot_word_eq_iff[OF ump_dirD(1)[OF dir], of "Suc j" 0 S S] words by simp
    then show ?thesis
      using that words copy_to_mem_cell[of ?w j m "slot_word ?tx S 1"] by (simp add: m' cell_slot_word)
  qed
  then show "slot_payload ?w m' ?tx S = msg_payload msg"
    by (simp add: slot_payload_def msg_payload_def)
qed

lemma ump_send_refused:
  assumes dir: "ump_dir S R L m a rx"
    and call: "smlt_ump_queuepair_try_send m a msg = (err, m', a')" "err \<noteq> errval SMLT_SUCCESS"
  shows "err = errval SMLT_ERR_QUEUE_FULL" "m' = m" "R < S" "\<exists>L'. ump_dir S R L' m a' rx"
    "uqp_rx a' = uqp_rx a" "uqp_tx a' = uqp_tx a" "ring_size rx \<le> S - ump_acked (ring_size rx) R"
proof -
  obtain a1 L' where A: "ump_dir S R L' m a1 rx" "\<not> S - L' < ring_size (uqp_tx a)"
    "uqp_tx a1 = uqp_tx a" "uqp_rx a1 = uqp_rx a" "L' = ump_acked (ring_size (uqp_tx a)) R"
    "(err, m', a') = (errval SMLT_ERR_QUEUE_FULL, m, a1)"
  proof (cases rule: try_send_cases[OF dir, of msg])
    case (1 a1 L' ok)
    then have "\<not> ok" using call by (cases ok) simp_all
    then show thesis using that[of L' a1] 1 call(1) by simp
  qed
  then show "err = errval SMLT_ERR_QUEUE_FULL" "m' = m" "\<exists>L'. ump_dir S R L' m a' rx"
    "uqp_rx a' = uqp_rx a" "uqp_tx a' = uqp_tx a" by auto
  note sz = ump_dir_sizes[OF dir]
  show "ring_size rx \<le> S - ump_acked (ring_size rx) R" using A(2,5) sz(6) by simp
  then have "R \<noteq> S" using ump_acked_lag[OF sz(1), of R] sz(1) by (auto simp: sz(6))
  then show "R < S" using ump_dirD(8)[OF dir] by simp
qed

lemma ump_recv_delivers:
  assumes dir: "ump_dir S R L m a (uqp_rx b)" and "R < S" "unat (msg_words buf) \<le> 7"
    and call: "smlt_ump_queuepair_try_recv m b buf = (err, m', b', msg)"
  shows "err = errval SMLT_SUCCESS" "ump_dir S (Suc R) L m' a (uqp_rx b')"
    "msg_payload msg = slot_payload (unat (msg_words buf)) m (uqp_tx a) R"
    "uqp_rx b' = ump_advance (uqp_rx b)" "uqp_tx b' = uqp_tx b"
    "uqp_seq_id b' = uqp_seq_id b" "uqp_last_ack b' = uqp_last_ack b"
    "\<And>x. x \<noteq> uq_last_ack (uqp_tx a) \<Longrightarrow> m' x = m x"
proof -
  obtain e slot m1 rx' where raw: "smlt_ump_queue_recv_raw m (uqp_rx b) = (e, slot, m1, rx')"
    using prod_cases4 by blast
  note c = ump_dir_consume[OF dir assms(2) raw]
  have "smlt_ump_queuepair_can_recv_raw m b"
    using ump_dir_can_recv[OF dir] assms(2) by (simp add: smlt_ump_queuepair_can_recv_raw_def)
  then have r: "err = errval SMLT_SUCCESS" "m' = m1" "b' = b\<lparr>uqp_rx := rx'\<rparr>"
    "msg = buf\<lparr>msg_data := copy_from_mem m1 (slot + 8) (msg_data buf) (unat (msg_words buf))\<rparr>"
    using call raw c(1) by (auto simp: smlt_ump_queuepair_try_recv_def smlt_ump_queuepair_recv_raw_def)
  then show "err = errval SMLT_SUCCESS" "ump_dir S (Suc R) L m' a (uqp_rx b')"
    "uqp_rx b' = ump_advance (uqp_rx b)" "uqp_tx b' = uqp_tx b"
    "uqp_seq_id b' = uqp_seq_id b" "uqp_last_ack b' = uqp_last_ack b"
    "\<And>x. x \<noteq> uq_last_ack (uqp_tx a) \<Longrightarrow> m' x = m x"
    using c by simp_all
  have "m1 (slot_word (uqp_tx a) R (Suc j)) = m (slot_word (uqp_tx a) R (Suc j))"
    if "j < unat (msg_words buf)" for j
    using that assms(3) slot_word_neq_ack[OF ump_dirD(1)[OF dir], of "Suc j" R] by (intro c(5)) simp
  then show "msg_payload msg = slot_payload (unat (msg_words buf)) m (uqp_tx a) R"
    using r(4) slot_word_Suc[of "uqp_tx a" R 0]
    by (simp add: c(2) msg_payload_def slot_payload_def copy_from_mem_eq cell_slot_word)
qed

lemma ump_recv_empty:
  assumes dir: "ump_dir S R L m a (uqp_rx b)" and "R = S"
    and call: "smlt_ump_queuepair_try_recv m b buf = (err, m', b', msg)"
  shows "err = errval SMLT_ERR_QUEUE_EMPTY" "m' = m" "b' = b" "msg = buf"
  using call ump_dir_can_recv[OF dir] assms(2)
  by (simp_all add: smlt_ump_queuepair_try_recv_def smlt_ump_queuepair_recv_raw_def
      smlt_ump_queuepair_can_recv_raw_def)

text \<open>A message of \<open>w\<close> words, \<open>w\<close> at most seven.\<close>

lemma unat_words_msg_of: "length xs \<le> 7 \<Longrightarrow> unat (msg_words (msg_of xs)) = length xs"
  by (simp add: msg_of_def unat_of_nat_small)

lemma slot_payload_after_send:
  assumes dir: "ump_dir S R L m a rx" and "unat (msg_words msg) \<le> 7"
    and "smlt_ump_queuepair_try_send m a msg = (errval SMLT_SUCCESS, m', a')"
    and "R \<le> s" "s < S" "w \<le> 7"
  shows "slot_payload w m' (uqp_tx a) s = slot_payload w m (uqp_tx a) s"
proof (rule slot_payload_cong)
  fix j assume j: "j < w"
  have "S - R < ring_size (uqp_tx a)"
    using ump_send_accepted(1)[OF assms(1-3)] ump_dir_sizes(6)[OF dir] by simp
  then have "s mod ring_size (uqp_tx a) \<noteq> S mod ring_size (uqp_tx a)"
    using assms(4,5) by (intro mod_neq) auto
  then show "m' (slot_word (uqp_tx a) s (Suc j)) = m (slot_word (uqp_tx a) s (Suc j))"
    using j assms(6) by (intro ump_send_frame[OF assms(1-3)])
      (simp add: slot_word_eq_iff[OF ump_dirD(1)[OF dir]])
qed

lemma link_pending_eq:
  assumes "ump_dir S R L m a (uqp_rx b)"
  shows "ump_link_pending w (b, m, a) = map (slot_payload w m (uqp_tx a)) [R..<S]"
  using ump_dir_pending[OF assms] by (simp add: ump_link_pending_def)

text \<open>The whole behaviour of a non-blocking send of a message of \<open>w\<close> words.\<close>

lemma ump_send_step:
  assumes inv: "ump_link_inv w (b, m, a)" and words: "unat (msg_words msg) = w"
    and call: "smlt_ump_queuepair_try_send m a msg = (err, m', a')"
  shows "ump_link_inv w (b, m', a')" "uqp_rx a' = uqp_rx a" "same_ring (uqp_tx a') (uqp_tx a)"
    "err = errval SMLT_SUCCESS \<and>
       ump_link_pending w (b, m', a') = ump_link_pending w (b, m, a) @ [msg_payload msg] \<or>
     err = errval SMLT_ERR_QUEUE_FULL \<and> m' = m \<and>
       ump_link_pending w (b, m', a') = ump_link_pending w (b, m, a) \<and>
       ump_link_pending w (b, m, a) \<noteq> []"
proof -
  from inv obtain S R L where w: "w \<le> 7" and dir: "ump_dir S R L m a (uqp_rx b)"
    by (auto simp: ump_link_inv_def)
  have words7: "unat (msg_words msg) \<le> 7" using words w by simp
  have "ump_link_inv w (b, m', a') \<and> uqp_rx a' = uqp_rx a \<and> same_ring (uqp_tx a') (uqp_tx a) \<and>
     (err = errval SMLT_SUCCESS \<and>
       ump_link_pending w (b, m', a') = ump_link_pending w (b, m, a) @ [msg_payload msg] \<or>
     err = errval SMLT_ERR_QUEUE_FULL \<and> m' = m \<and>
       ump_link_pending w (b, m', a') = ump_link_pending w (b, m, a) \<and>
       ump_link_pending w (b, m, a) \<noteq> [])"
  proof (cases "err = errval SMLT_SUCCESS")
    case True
    note c = call[unfolded True]
    note acc = ump_send_accepted[OF dir words7 c]
    obtain L' where dir': "ump_dir (Suc S) R L' m' a' (uqp_rx b)" using acc(2) by blast
    have "map (slot_payload w m' (uqp_tx a')) [R..<Suc S] =
          map (slot_payload w m (uqp_tx a)) [R..<S] @ [msg_payload msg]"
      using slot_payload_after_send[OF dir words7 c _ _ w] ump_dirD(8)[OF dir] acc(3,5) words
      by (simp add: slot_payload_def)
    then show ?thesis using dir' w acc(4,5) True
      by (auto simp: link_pending_eq[OF dir] link_pending_eq[OF dir'] ump_link_inv_def)
  next
    case False
    note ref = ump_send_refused[OF dir call False]
    then show ?thesis using w link_pending_eq[OF dir, of w]
      by (auto simp: ump_link_inv_def ump_link_pending_def)
  qed
  then show "ump_link_inv w (b, m', a')" "uqp_rx a' = uqp_rx a" "same_ring (uqp_tx a') (uqp_tx a)"
    "err = errval SMLT_SUCCESS \<and>
       ump_link_pending w (b, m', a') = ump_link_pending w (b, m, a) @ [msg_payload msg] \<or>
     err = errval SMLT_ERR_QUEUE_FULL \<and> m' = m \<and>
       ump_link_pending w (b, m', a') = ump_link_pending w (b, m, a) \<and>
       ump_link_pending w (b, m, a) \<noteq> []"
    by blast+
qed

lemma link_send_cases:
  assumes inv: "ump_link_inv w s" and x: "length x = w" and call: "ump_link_send x s = (ok, s')"
  shows "ump_link_inv w s'" "ump_link_room s' = ump_link_room s"
    "ump_link_pending w s' = ump_link_pending w s @ (if ok then [x] else [])"
    "ok \<or> ump_link_pending w s \<noteq> []"
proof -
  obtain b m a where s: "s = (b, m, a)" by (cases s)
  obtain err m' a' where c: "smlt_ump_queuepair_try_send m a (msg_of x) = (err, m', a')"
    using prod_cases3 by blast
  have s': "s' = (b, m', a')" "ok \<longleftrightarrow> smlt_err_is_ok err" using call s c by (auto simp: ump_link_send_def)
  have w: "w \<le> 7" using inv s by (simp add: ump_link_inv_def)
  then have "unat (msg_words (msg_of x)) = w" "msg_payload (msg_of x) = x"
    using x by (simp_all add: unat_words_msg_of msg_payload_msg_of)
  note step = ump_send_step[OF inv[unfolded s] this(1) c, unfolded this(2)]
  show "ump_link_inv w s'" "ump_link_room s' = ump_link_room s"
    using step(1) by (simp_all add: s s' ump_link_room_def)
  show "ump_link_pending w s' = ump_link_pending w s @ (if ok then [x] else [])"
    "ok \<or> ump_link_pending w s \<noteq> []"
    using step(4) by (auto simp: s s')
qed

text \<open>The whole behaviour of a non-blocking receive into a message of \<open>w\<close> words.\<close>

lemma ump_recv_step:
  assumes inv: "ump_link_inv w (b, m, a)" and words: "unat (msg_words buf) = w"
    and call: "smlt_ump_queuepair_try_recv m b buf = (err, m', b', msg)"
  shows "ump_link_inv w (b', m', a)" "ring_size (uqp_rx b') = ring_size (uqp_rx b)"
    "uqp_tx b' = uqp_tx b" "uqp_seq_id b' = uqp_seq_id b" "uqp_last_ack b' = uqp_last_ack b"
    "\<And>x. x \<noteq> uq_last_ack (uqp_tx a) \<Longrightarrow> m' x = m x"
    "err = errval SMLT_SUCCESS \<and>
       ump_link_pending w (b, m, a) = msg_payload msg # ump_link_pending w (b', m', a) \<or>
     err = errval SMLT_ERR_QUEUE_EMPTY \<and> m' = m \<and> b' = b \<and> msg = buf \<and>
       ump_link_pending w (b, m, a) = []"
proof -
  from inv obtain S R L where w: "w \<le> 7" and dir: "ump_dir S R L m a (uqp_rx b)"
    by (auto simp: ump_link_inv_def)
  have "ump_link_inv w (b', m', a) \<and> ring_size (uqp_rx b') = ring_size (uqp_rx b) \<and>
    uqp_tx b' = uqp_tx b \<and> uqp_seq_id b' = uqp_seq_id b \<and> uqp_last_ack b' = uqp_last_ack b \<and>
    (\<forall>x. x \<noteq> uq_last_ack (uqp_tx a) \<longrightarrow> m' x = m x) \<and>
    (err = errval SMLT_SUCCESS \<and>
       ump_link_pending w (b, m, a) = msg_payload msg # ump_link_pending w (b', m', a) \<or>
     err = errval SMLT_ERR_QUEUE_EMPTY \<and> m' = m \<and> b' = b \<and> msg = buf \<and>
       ump_link_pending w (b, m, a) = [])"
  proof (cases "R < S")
    case True
    note d = ump_recv_delivers[OF dir True _ call, unfolded words, OF w]
    have "slot_payload w m' (uqp_tx a) t = slot_payload w m (uqp_tx a) t" for t
      using w slot_word_neq_ack[OF ump_dirD(1)[OF dir]] by (intro slot_payload_cong d(8)) simp
    then have "map (slot_payload w m (uqp_tx a)) [R..<S] =
               msg_payload msg # map (slot_payload w m' (uqp_tx a)) [Suc R..<S]"
      using True d(3) by (simp add: upt_conv_Cons)
    then show ?thesis
      using link_pending_eq[OF dir] link_pending_eq[OF d(2)] d w by (auto simp: ump_link_inv_def)
  next
    case False
    then have "R = S" using ump_dirD(8)[OF dir] by simp
    then show ?thesis
      using ump_recv_empty[OF dir _ call] link_pending_eq[OF dir] inv by simp
  qed
  then show "ump_link_inv w (b', m', a)" "ring_size (uqp_rx b') = ring_size (uqp_rx b)"
    "uqp_tx b' = uqp_tx b" "uqp_seq_id b' = uqp_seq_id b" "uqp_last_ack b' = uqp_last_ack b"
    "\<And>x. x \<noteq> uq_last_ack (uqp_tx a) \<Longrightarrow> m' x = m x"
    "err = errval SMLT_SUCCESS \<and>
       ump_link_pending w (b, m, a) = msg_payload msg # ump_link_pending w (b', m', a) \<or>
     err = errval SMLT_ERR_QUEUE_EMPTY \<and> m' = m \<and> b' = b \<and> msg = buf \<and>
       ump_link_pending w (b, m, a) = []"
    by blast+
qed

lemma link_recv_cases:
  assumes inv: "ump_link_inv w s" and call: "ump_link_recv w s = (r, s')"
  shows "ump_link_inv w s'" "ump_link_room s' = ump_link_room s"
    "ump_link_pending w s = (case r of None \<Rightarrow> [] | Some x \<Rightarrow> [x]) @ ump_link_pending w s'"
    "r = None \<Longrightarrow> ump_link_pending w s = []"
proof -
  obtain b m a where s: "s = (b, m, a)" by (cases s)
  let ?buf = "msg_of (replicate w 0)"
  obtain err m' b' msg where c: "smlt_ump_queuepair_try_recv m b ?buf = (err, m', b', msg)"
    using prod_cases4 by blast
  have s': "s' = (b', m', a)" "r = (if smlt_err_is_ok err then Some (msg_payload msg) else None)"
    using call s c by (auto simp: ump_link_recv_def)
  have "unat (msg_words ?buf) = w" using inv by (simp add: s unat_words_msg_of ump_link_inv_def)
  note step = ump_recv_step[OF inv[unfolded s] this c]
  show "ump_link_inv w s'" "ump_link_room s' = ump_link_room s"
    using step(1,2) by (simp_all add: s s' ump_link_room_def)
  show "ump_link_pending w s = (case r of None \<Rightarrow> [] | Some x \<Rightarrow> [x]) @ ump_link_pending w s'"
    "r = None \<Longrightarrow> ump_link_pending w s = []"
    using step(7) by (auto simp: s s')
qed

lemma link_pending_bounded:
  assumes "ump_link_inv w s"
  shows "length (ump_link_pending w s) \<le> ump_link_room s"
proof -
  obtain b m a where s: "s = (b, m, a)" by (cases s)
  from assms s obtain S R L where dir: "ump_dir S R L m a (uqp_rx b)"
    by (auto simp: ump_link_inv_def)
  then show ?thesis
    using link_pending_eq[OF dir] ump_dir_sizes(5,6)[OF dir] by (simp add: s ump_link_room_def)
qed

interpretation ump: fifo_channel
  "ump_link_inv w" "ump_link_pending w" "\<lambda>x. length x = w" ump_link_send "ump_link_recv w" ump_link_room
  for w
proof unfold_locales
  fix s s' x
  assume "ump_link_inv w s" "ump_link_recv w s = (Some x, s')"
  from link_recv_cases[OF this]
  show "ump_link_inv w s' \<and> ump_link_pending w s = x # ump_link_pending w s' \<and>
        ump_link_room s' = ump_link_room s" by simp
next
  fix s s'
  assume "ump_link_inv w s" "ump_link_recv w s = (None, s')"
  from link_recv_cases[OF this]
  show "ump_link_inv w s' \<and> ump_link_pending w s = [] \<and> ump_link_pending w s' = [] \<and>
        ump_link_room s' = ump_link_room s" by simp
next
  fix s s' x
  assume a: "ump_link_inv w s" "length x = w" "ump_link_send x s = (True, s')"
  from link_send_cases[OF a]
  show "ump_link_inv w s' \<and> ump_link_pending w s' = ump_link_pending w s @ [x] \<and>
        ump_link_room s' = ump_link_room s" by simp
next
  fix s s' x
  assume a: "ump_link_inv w s" "length x = w" "ump_link_send x s = (False, s')"
  from link_send_cases[OF a]
  show "ump_link_inv w s' \<and> ump_link_pending w s' = ump_link_pending w s \<and>
        ump_link_pending w s \<noteq> [] \<and> ump_link_room s' = ump_link_room s" by simp
qed (rule link_pending_bounded)

section \<open>Separation of rings\<close>

text \<open>The cells of a ring: the line of the acknowledgement and the slots.\<close>

definition ring_region :: "smlt_ump_queue \<Rightarrow> addr set" where
  "ring_region q = cell (uq_last_ack q) ` {..<8 * (ring_size q + 1)}"

lemma ring_region_advance [simp]: "ring_region (ump_advance q) = ring_region q"
  by (simp add: ring_region_def)

lemma ack_in_region: "uq_last_ack q \<in> ring_region q"
  by (auto simp: ring_region_def intro!: image_eqI[of _ _ 0])

lemma slot_word_in_region:
  assumes "0 < ring_size q" "j < 8"
  shows "slot_word q s j \<in> ring_region q"
proof -
  have "s mod ring_size q < ring_size q" using assms(1) by simp
  then show ?thesis using assms(2) unfolding ring_region_def slot_word_def by (intro imageI) simp
qed

lemma ump_dir_frame:
  assumes dir: "ump_dir S R L m a rx"
    and same: "\<And>x. x \<in> ring_region (uqp_tx a) \<Longrightarrow> m' x = m x"
  shows "ump_dir S R L m' a rx" "w \<le> 7 \<Longrightarrow> slot_payload w m' (uqp_tx a) s = slot_payload w m (uqp_tx a) s"
proof -
  note sz = ump_dir_sizes[OF dir] and D = ump_dirD[OF dir]
  have word: "m' (slot_word (uqp_tx a) s j) = m (slot_word (uqp_tx a) s j)" if "j < 8" for s j
    using same slot_word_in_region[OF sz(1) that] by simp
  then have "slot_ctrl m' (uqp_tx a) s = slot_ctrl m (uqp_tx a) s" for s
    by (simp add: slot_ctrl_def ld32_def)
  moreover have "ld16 m' (uq_last_ack (uqp_tx a)) = ld16 m (uq_last_ack (uqp_tx a))"
    using same[OF ack_in_region] by (simp add: ld16_def)
  ultimately show "ump_dir S R L m' a rx" using dir by (simp add: ump_dir_def)
  show "w \<le> 7 \<Longrightarrow> slot_payload w m' (uqp_tx a) s = slot_payload w m (uqp_tx a) s"
    using word by (intro slot_payload_cong) simp
qed

lemma link_frame:
  assumes "ump_link_inv w (b, m, a)" "\<And>x. x \<in> ring_region (uqp_tx a) \<Longrightarrow> m' x = m x"
    "uqp_tx a' = uqp_tx a" "uqp_seq_id a' = uqp_seq_id a" "uqp_last_ack a' = uqp_last_ack a"
    "uqp_rx b' = uqp_rx b"
  shows "ump_link_inv w (b', m', a')" "ump_link_pending w (b', m', a') = ump_link_pending w (b, m, a)"
proof -
  obtain S R L where w: "w \<le> 7" and dir: "ump_dir S R L m a (uqp_rx b)"
    using assms(1) by (auto simp: ump_link_inv_def)
  have "ump_dir S R L m' a (uqp_rx b)" using ump_dir_frame(1)[OF dir assms(2)] .
  then have dir': "ump_dir S R L m' a' (uqp_rx b')"
    using assms(3-6) by (simp add: ump_dir_def)
  then show "ump_link_inv w (b', m', a')" using w by (auto simp: ump_link_inv_def)
  show "ump_link_pending w (b', m', a') = ump_link_pending w (b, m, a)"
    using ump_dir_frame(2)[OF dir assms(2) w]
    by (simp add: link_pending_eq[OF dir] link_pending_eq[OF dir'] assms(3))
qed

text \<open>Both directions of a connected pair.\<close>

definition ump_duplex :: "nat \<Rightarrow> smlt_ump_queuepair \<Rightarrow> mem \<Rightarrow> smlt_ump_queuepair \<Rightarrow> bool" where
  "ump_duplex w a m b \<longleftrightarrow> ump_link_inv w (b, m, a) \<and> ump_link_inv w (a, m, b) \<and>
     ring_region (uqp_tx a) \<inter> ring_region (uqp_tx b) = {}"

lemma ump_duplex_sym: "ump_duplex w a m b \<Longrightarrow> ump_duplex w b m a"
  by (auto simp: ump_duplex_def)

lemma duplex_send:
  assumes dup: "ump_duplex w a m b" and words: "unat (msg_words msg) = w"
    and call: "smlt_ump_queuepair_try_send m a msg = (err, m', a')"
  shows "ump_duplex w a' m' b" "ump_link_pending w (a', m', b) = ump_link_pending w (a, m, b)"
    "err = errval SMLT_SUCCESS \<and>
       ump_link_pending w (b, m', a') = ump_link_pending w (b, m, a) @ [msg_payload msg] \<or>
     err = errval SMLT_ERR_QUEUE_FULL \<and> m' = m \<and>
       ump_link_pending w (b, m', a') = ump_link_pending w (b, m, a) \<and>
       ump_link_pending w (b, m, a) \<noteq> []"
proof -
  from dup obtain S R L where w: "w \<le> 7" and dir: "ump_dir S R L m a (uqp_rx b)"
    by (auto simp: ump_duplex_def ump_link_inv_def)
  have words7: "unat (msg_words msg) \<le> 7" using words w by simp
  have frame: "m' x = m x" if "x \<in> ring_region (uqp_tx b)" for x
  proof (rule ump_send_frame[OF dir words7 call])
    fix j :: nat assume "j < 8"
    then have "slot_word (uqp_tx a) S j \<in> ring_region (uqp_tx a)"
      using slot_word_in_region ump_dir_sizes(1)[OF dir] by blast
    then show "x \<noteq> slot_word (uqp_tx a) S j" using that dup by (auto simp: ump_duplex_def)
  qed
  have inv: "ump_link_inv w (b, m, a)" "ump_link_inv w (a, m, b)"
    using dup by (simp_all add: ump_duplex_def)
  note step = ump_send_step[OF inv(1) words call]
  then have "ring_region (uqp_tx a') = ring_region (uqp_tx a)"
    by (simp add: same_ring_def ring_region_def)
  note other = link_frame[OF inv(2) frame refl refl refl step(2)] 
  show "ump_link_pending w (a', m', b) = ump_link_pending w (a, m, b)" using other by simp
  show "ump_duplex w a' m' b"
    using other step(1) dup \<open>ring_region (uqp_tx a') = ring_region (uqp_tx a)\<close>
    by (simp add: ump_duplex_def)
  show "err = errval SMLT_SUCCESS \<and>
       ump_link_pending w (b, m', a') = ump_link_pending w (b, m, a) @ [msg_payload msg] \<or>
     err = errval SMLT_ERR_QUEUE_FULL \<and> m' = m \<and>
       ump_link_pending w (b, m', a') = ump_link_pending w (b, m, a) \<and>
       ump_link_pending w (b, m, a) \<noteq> []"
    using step(4) by blast
qed

lemma duplex_recv:
  assumes dup: "ump_duplex w a m b" and words: "unat (msg_words buf) = w"
    and call: "smlt_ump_queuepair_try_recv m b buf = (err, m', b', msg)"
  shows "ump_duplex w a m' b'" "ump_link_pending w (a, m', b') = ump_link_pending w (a, m, b)"
proof -
  have inv: "ump_link_inv w (b, m, a)" "ump_link_inv w (a, m, b)"
    using dup by (simp_all add: ump_duplex_def)
  note step = ump_recv_step[OF inv(1) words call]
  have frame: "m' x = m x" if "x \<in> ring_region (uqp_tx b)" for x
    using that dup ack_in_region[of "uqp_tx a"] by (intro step(6)) (auto simp: ump_duplex_def)
  note other = link_frame[OF inv(2) frame step(3-5) refl]
  show "ump_duplex w a m' b'" "ump_link_pending w (a, m', b') = ump_link_pending w (a, m, b)"
    using other step(1,3) dup by (simp_all add: ump_duplex_def)
qed

section \<open>Initialisation\<close>

lemma ump_dir_init:
  assumes "well_placed (uqp_tx a)" "same_ring rx (uqp_tx a)"
    "uq_pos (uqp_tx a) = 0" "uq_epoch (uqp_tx a)" "uq_pos rx = 0" "uq_epoch rx"
    "uqp_seq_id a = 1" "uqp_last_ack a = 0"
    and zero: "\<And>x. x \<in> ring_region (uqp_tx a) \<Longrightarrow> m x = 0"
  shows "ump_dir 0 0 0 m a rx"
proof -
  have n: "0 < ring_size (uqp_tx a)" using assms(1) by (simp add: well_placed_def)
  then have "slot_ctrl m (uqp_tx a) s = \<lparr>ctrl_epoch = 0, ctrl_last_ack = 0\<rparr>" for s
    using zero slot_word_in_region[OF n, of 0 s] by (simp add: slot_ctrl_def ld32_def ctrl_of_raw_def)
  moreover have "ld16 m (uq_last_ack (uqp_tx a)) = 0"
    using zero[OF ack_in_region] by (simp add: ld16_def)
  ultimately show ?thesis
    using assms(1-8) n
    by (auto simp: ump_dir_def ring_at_def same_ring_def epoch16_def ump_acked_def)
qed

text \<open>The queue that initialisation leaves on a buffer.\<close>

definition ump_fresh :: "addr \<Rightarrow> u16 \<Rightarrow> smlt_ump_direction_t \<Rightarrow> smlt_ump_queue" where
  "ump_fresh buf slots d =
     \<lparr>uq_buf = buf + 64, uq_last_ack = buf, uq_pos = 0, uq_num_msg = slots - 1, uq_epoch = True,
      uq_direction = d\<rparr>"

lemma init_common_eq:
  "smlt_ump_queue_init_common q buf slots =
     (if slots = 0 \<or> buf = 0 \<or> buf mod 64 \<noteq> 0 then (errval SMLT_ERR_BAD_ALIGNMENT, q)
      else (errval SMLT_SUCCESS, q\<lparr>uq_pos := 0, uq_last_ack := buf, uq_buf := buf + 64,
              uq_num_msg := slots - 1, uq_epoch := True\<rparr>))"
proof -
  have "unat slots < 2 ^ 16" using unsigned_less[of slots] by simp
  then show ?thesis
    by (auto simp: smlt_ump_queue_init_common_def check_alignment_def unat_eq_0)
qed

lemma init_tx_eq:
  "smlt_ump_queue_init_tx m ump_queue_zero buf slots =
     (if slots = 0 \<or> buf = 0 \<or> buf mod 64 \<noteq> 0 then (errval SMLT_ERR_BAD_ALIGNMENT, m, ump_queue_zero)
      else (errval SMLT_SUCCESS, mem_clear m buf (unat slots * 64),
            ump_fresh buf slots SMLT_UMP_DIRECTION_SEND))"
  by (simp add: smlt_ump_queue_init_tx_def init_common_eq ump_fresh_def ump_queue_zero_def)

lemma init_rx_eq:
  "smlt_ump_queue_init_rx ump_queue_zero buf slots =
     (if slots = 0 \<or> buf = 0 \<or> buf mod 64 \<noteq> 0 then (errval SMLT_ERR_BAD_ALIGNMENT, ump_queue_zero)
      else (errval SMLT_SUCCESS, ump_fresh buf slots SMLT_UMP_DIRECTION_RECV))"
  by (simp add: smlt_ump_queue_init_rx_def init_common_eq ump_fresh_def ump_queue_zero_def)

lemma ump_init_success:
  assumes "smlt_ump_queuepair_init alloc free num_slots ns nd sp dp s0 d0 w =
           (errval SMLT_SUCCESS, src, dst, h', m')"
  obtains r1 h1 m1 r2 m3 where "2 \<le> num_slots"
    "alloc ((ucast num_slots + 1) * 64) 4096 nd True w = (r1, h1, m1)" "r1 \<noteq> 0"
    "alloc ((ucast num_slots + 1) * 64) 4096 ns True (h1, mem_clear m1 r1 (unat num_slots * 64))
       = (r2, h', m3)" "r2 \<noteq> 0"
    "m' = mem_clear m3 r2 (unat num_slots * 64)"
    "src = \<lparr>uqp_tx = ump_fresh r1 num_slots SMLT_UMP_DIRECTION_SEND,
            uqp_rx = ump_fresh r2 num_slots SMLT_UMP_DIRECTION_RECV,
            uqp_other = dp, uqp_seq_id = 1, uqp_last_ack = 0\<rparr>"
    "dst = \<lparr>uqp_tx = ump_fresh r2 num_slots SMLT_UMP_DIRECTION_SEND,
            uqp_rx = ump_fresh r1 num_slots SMLT_UMP_DIRECTION_RECV,
            uqp_other = sp, uqp_seq_id = 1, uqp_last_ack = 0\<rparr>"
proof -
  let ?sz = "(ucast num_slots + 1) * 64 :: u64"
  note unfold = smlt_ump_queuepair_init_def ump_queuepair_zero_def init_tx_eq init_rx_eq Let_def
  have two: "\<not> num_slots < 2"
    using assms by (cases "num_slots < 2") (simp_all add: smlt_ump_queuepair_init_def)
  then have nz: "num_slots \<noteq> 0" by auto
  obtain r1 h1 m1 where A1: "alloc ?sz 4096 nd True w = (r1, h1, m1)" using prod_cases3 by blast
  have r1: "r1 \<noteq> 0" using assms two A1 by (cases "r1 = 0") (simp_all add: unfold)
  have al1: "r1 mod 64 = 0"
    using assms two A1 r1 nz by (cases "r1 mod 64 = 0") (simp_all add: unfold)
  let ?m2 = "mem_clear m1 r1 (unat num_slots * 64)"
  obtain r2 h3 m3 where A2: "alloc ?sz 4096 ns True (h1, ?m2) = (r2, h3, m3)"
    using prod_cases3 by blast
  have r2: "r2 \<noteq> 0"
    using assms two A1 r1 al1 nz A2 by (cases "r2 = 0") (simp_all add: unfold)
  have al2: "r2 mod 64 = 0"
    using assms two A1 r1 al1 nz A2 r2 by (cases "r2 mod 64 = 0") (simp_all add: unfold)
  show thesis
    using assms two A1 r1 al1 nz A2 r2 al2 by (intro that[of r1 h1 m1 r2 m3]) (simp_all add: unfold not_less)
qed

lemma ring_size_fresh:
  fixes slots :: u16
  assumes "2 \<le> slots"
  shows "unat (slots - 1) = unat slots - 1" "0 < unat slots - 1" "unat slots - 1 < 65535"
    "unat slots \<le> 65535"
proof -
  have s: "2 \<le> unat slots" using assms by (simp add: word_le_nat_alt)
  then show "unat (slots - 1) = unat slots - 1" by (metis not_numeral_le_zero unat_0 unat_minus_one)
  have "unat slots < 2 ^ LENGTH(16)" by (rule unsigned_less)
  then show "0 < unat slots - 1" "unat slots - 1 < 65535" "unat slots \<le> 65535" using s by simp_all
qed

lemma well_placed_fresh:
  assumes "2 \<le> slots"
  shows "well_placed (ump_fresh r slots d)"
  using ring_size_fresh[OF assms] by (simp add: well_placed_def ump_fresh_def cell_def)

lemma unat_chan_size: "unat ((ucast (slots :: u16) + 1) * 64 :: u64) = (unat slots + 1) * 64"
proof -
  have "unat slots < 2 ^ LENGTH(16)" by (rule unsigned_less)
  then have "(unat slots + 1) * 64 < 2 ^ LENGTH(64)" by simp
  moreover have "(ucast slots + 1) * 64 = (of_nat ((unat slots + 1) * 64) :: u64)" by simp
  ultimately show ?thesis by (simp only: unat_of_nat_small)
qed

lemma region_fresh_bounds:
  assumes "2 \<le> slots" "unat r + 64 * unat slots < 2 ^ 64"
    and "x \<in> ring_region (ump_fresh r slots d)"
  shows "unat r \<le> unat x" "unat x < unat r + 64 * unat slots"
proof -
  obtain j where j: "x = cell r j" "j < 8 * unat slots"
    using assms(3) ring_size_fresh[OF assms(1)] by (auto simp: ring_region_def ump_fresh_def)
  then have "unat x = unat r + 8 * j" using assms(2) unat_cell[of r j] by simp
  then show "unat r \<le> unat x" "unat x < unat r + 64 * unat slots" using j(2) by simp_all
qed

lemma region_fresh_cleared:
  assumes "2 \<le> slots" "x \<in> ring_region (ump_fresh r slots d)"
  shows "mem_clear m r (unat slots * 64) x = 0"
proof -
  obtain j where j: "x = cell r j" "j < 8 * unat slots"
    using assms(2) ring_size_fresh[OF assms(1)] by (auto simp: ring_region_def ump_fresh_def)
  then show ?thesis using ring_size_fresh(4)[OF assms(1)] by (simp add: mem_clear_cell)
qed

lemma ump_init_establishes:
  assumes two: "2 \<le> slots"
    and b1: "unat r1 + 64 * unat slots < 2 ^ 64" and b2: "unat r2 + 64 * unat slots < 2 ^ 64"
    and apart: "unat r1 + 64 * unat slots \<le> unat r2 \<or> unat r2 + 64 * unat slots \<le> unat r1"
    and m1: "\<And>x. unat r1 \<le> unat x \<Longrightarrow> unat x < unat r1 + 64 * unat slots \<Longrightarrow> m3 x = m2 x"
    and m2: "m2 = mem_clear m1 r1 (unat slots * 64)"
    and src: "src = \<lparr>uqp_tx = ump_fresh r1 slots SMLT_UMP_DIRECTION_SEND,
            uqp_rx = ump_fresh r2 slots SMLT_UMP_DIRECTION_RECV,
            uqp_other = dp, uqp_seq_id = 1, uqp_last_ack = 0\<rparr>"
    and dst: "dst = \<lparr>uqp_tx = ump_fresh r2 slots SMLT_UMP_DIRECTION_SEND,
            uqp_rx = ump_fresh r1 slots SMLT_UMP_DIRECTION_RECV,
            uqp_other = sp, uqp_seq_id = 1, uqp_last_ack = 0\<rparr>"
    and m': "m' = mem_clear m3 r2 (unat slots * 64)" and w: "w \<le> 7"
  shows "ump_duplex w src m' dst" "ump_link_pending w (dst, m', src) = []"
    "ump_link_pending w (src, m', dst) = []"
proof -
  have reg1: "m' x = 0" if "x \<in> ring_region (uqp_tx src)" for x
  proof -
    note b = region_fresh_bounds[OF two b1, of x SMLT_UMP_DIRECTION_SEND] 
    have "m' x = m3 x" using b that apart b2 unfolding m' src by (intro mem_clear_apart) auto
    also have "\<dots> = m2 x" using b that m1 by (simp add: src)
    finally show ?thesis using region_fresh_cleared[OF two] that by (simp add: m2 src)
  qed
  have reg2: "m' x = 0" if "x \<in> ring_region (uqp_tx dst)" for x
    using region_fresh_cleared[OF two] that by (simp add: m' dst)
  have d1: "ump_dir 0 0 0 m' src (uqp_rx dst)"
    using reg1 well_placed_fresh[OF two]
    by (intro ump_dir_init) (simp_all add: src dst same_ring_def, simp_all add: ump_fresh_def)
  have d2: "ump_dir 0 0 0 m' dst (uqp_rx src)"
    using reg2 well_placed_fresh[OF two]
    by (intro ump_dir_init) (simp_all add: src dst same_ring_def, simp_all add: ump_fresh_def)
  have "x \<notin> ring_region (uqp_tx dst)" if "x \<in> ring_region (uqp_tx src)" for x
    using that region_fresh_bounds[OF two b1, of x] region_fresh_bounds[OF two b2, of x] apart
    by (fastforce simp: src dst)
  then show "ump_duplex w src m' dst" using d1 d2 w by (auto simp: ump_duplex_def ump_link_inv_def)
  show "ump_link_pending w (dst, m', src) = []" "ump_link_pending w (src, m', dst) = []"
    using link_pending_eq[OF d1] link_pending_eq[OF d2] by simp_all
qed

section \<open>Blocking operations\<close>

text \<open>The peer as an environment: it receives, or it sends message \<open>x\<close> at poll \<open>j\<close>.\<close>

definition ump_receiver :: "nat \<Rightarrow> nat \<Rightarrow> smlt_ump_queuepair \<times> mem \<Rightarrow> smlt_ump_queuepair \<times> mem" where
  "ump_receiver w k = (\<lambda>(b, m).
     let (err, m', b', msg) = smlt_ump_queuepair_try_recv m b (msg_of (replicate w 0)) in (b', m'))"

definition ump_sender ::
  "u64 list \<Rightarrow> nat \<Rightarrow> nat \<Rightarrow> smlt_ump_queuepair \<times> mem \<Rightarrow> smlt_ump_queuepair \<times> mem" where
  "ump_sender x j k = (\<lambda>(a, m).
     if k = j then let (err, m', a') = smlt_ump_queuepair_try_send m a (msg_of x) in (a', m')
     else (a, m))"

lemma try_send_two_results:
  "fst (smlt_ump_queuepair_try_send m a msg) \<in> {errval SMLT_SUCCESS, errval SMLT_ERR_QUEUE_FULL}"
  by (simp add: smlt_ump_queuepair_try_send_def smlt_ump_queuepair_send_raw_def split: prod.split)

lemma try_recv_two_results:
  "fst (smlt_ump_queuepair_try_recv m b buf) \<in> {errval SMLT_SUCCESS, errval SMLT_ERR_QUEUE_EMPTY}"
  by (auto simp: smlt_ump_queuepair_try_recv_def smlt_ump_queuepair_recv_raw_def
      smlt_ump_queue_recv_raw_def Let_def split: prod.split)

lemma try_recv_words:
  "smlt_ump_queuepair_try_recv m b buf = (err, m', b', msg) \<Longrightarrow> msg_words msg = msg_words buf"
  by (auto simp: smlt_ump_queuepair_try_recv_def split: prod.splits if_splits)

lemma ump_send_as_spin:
  "spin (\<lambda>_ s. snd (ump_link_recv w s)) (try_op (ump_link_send x)) 0 fuel s =
     map_option (map_prod (\<lambda>_. ()) (\<lambda>s. s)) (smlt_ump_queuepair_send (ump_receiver w) fuel (msg_of x) s)"
  unfolding smlt_ump_queuepair_send_def
proof (rule spin_map[where g = "\<lambda>s. s"])
  fix s :: ump_link
  obtain b m a where s: "s = (b, m, a)" by (cases s)
  obtain err m' a' where c: "smlt_ump_queuepair_try_send m a (msg_of x) = (err, m', a')"
    using prod_cases3 by blast
  have "err = errval SMLT_SUCCESS \<or> err = errval SMLT_ERR_QUEUE_FULL"
    using try_send_two_results[of m a "msg_of x"] c by simp
  then show "try_op (ump_link_send x) s = map_prod (map_option (\<lambda>_. ())) (\<lambda>s. s)
     (case s of (e, m, qp) \<Rightarrow> let (err, m', qp') = smlt_ump_queuepair_try_send m qp (msg_of x)
        in (if err = errval SMLT_ERR_QUEUE_FULL then None else Some err, e, m', qp'))"
    using c by (auto simp: s try_op_def ump_link_send_def)
next
  fix k :: nat and s :: ump_link
  show "snd (ump_link_recv w s) = lift_env (ump_receiver w) k s"
    by (simp add: lift_env_def ump_receiver_def ump_link_recv_def split: prod.split)
qed

lemma ump_send_result:
  assumes "smlt_ump_queuepair_send env fuel msg s = Some (err, s')"
  shows "err = errval SMLT_SUCCESS"
proof -
  from spin_result[OF assms[unfolded smlt_ump_queuepair_send_def]] obtain e m a where
    "(let (err, m', qp') = smlt_ump_queuepair_try_send m a msg
      in (if err = errval SMLT_ERR_QUEUE_FULL then None else Some err, e, m', qp')) = (Some err, s')"
    by (auto split: prod.splits)
  then show ?thesis using try_send_two_results[of m a msg] by (auto split: prod.splits if_splits)
qed

lemma ump_recv_result:
  assumes "smlt_ump_queuepair_recv env fuel buf s = Some ((err, msg), s')"
  shows "err = errval SMLT_SUCCESS"
proof -
  from spin_result[OF assms[unfolded smlt_ump_queuepair_recv_def]] obtain e m b where
    "(let (err, m', qp', msg') = smlt_ump_queuepair_try_recv m b buf
      in (if err = errval SMLT_ERR_QUEUE_EMPTY then None else Some (err, msg'), e, m', qp')) =
     (Some (err, msg), s')"
    by (auto split: prod.splits)
  then show ?thesis using try_recv_two_results[of m b buf] by (auto split: prod.splits if_splits)
qed

lemma ump_recv_as_spin:
  "spin (\<lambda>i s. if i = j then snd (ump_link_send x s) else s) (ump_link_recv w) 0 fuel (b, m, a) =
     map_option (map_prod (\<lambda>(err, msg). msg_payload msg) (\<lambda>(a, m, b). (b, m, a)))
       (smlt_ump_queuepair_recv (ump_sender x j) fuel (msg_of (replicate w 0)) (a, m, b))"
proof -
  let ?g = "\<lambda>(a, m, b). (b, m, a) :: ump_link"
  have "spin (\<lambda>i s. if i = j then snd (ump_link_send x s) else s) (ump_link_recv w) 0 fuel (?g (a, m, b)) =
     map_option (map_prod (\<lambda>(err, msg). msg_payload msg) ?g)
       (smlt_ump_queuepair_recv (ump_sender x j) fuel (msg_of (replicate w 0)) (a, m, b))"
    unfolding smlt_ump_queuepair_recv_def
  proof (rule spin_map[where g = ?g])
    fix s :: ump_link
    obtain a m b where s: "s = (a, m, b)" by (cases s)
    obtain err m' b' msg where c:
      "smlt_ump_queuepair_try_recv m b (msg_of (replicate w 0)) = (err, m', b', msg)"
      using prod_cases4 by blast
    have "err = errval SMLT_SUCCESS \<or> err = errval SMLT_ERR_QUEUE_EMPTY"
      using try_recv_two_results[of m b "msg_of (replicate w 0)"] c by simp
    then show "ump_link_recv w (?g s) = map_prod (map_option (\<lambda>(err, msg). msg_payload msg)) ?g
       (case s of (e, m, qp) \<Rightarrow>
          let (err, m', qp', msg') = smlt_ump_queuepair_try_recv m qp (msg_of (replicate w 0))
          in (if err = errval SMLT_ERR_QUEUE_EMPTY then None else Some (err, msg'), e, m', qp'))"
      using c by (auto simp: s ump_link_recv_def)
  next
    fix k :: nat and s :: ump_link
    show "(if k = j then snd (ump_link_send x (?g s)) else ?g s) = ?g (lift_env (ump_sender x j) k s)"
      by (simp add: lift_env_def ump_sender_def ump_link_send_def split: prod.split)
  qed
  then show ?thesis by simp
qed

section \<open>The acknowledgement precedes the copy\<close>

text \<open>As long as fewer than a ring of messages are unacknowledged, a send is accepted.\<close>

lemma ump_sends_accepted:
  assumes "ump_dir S R L m a (uqp_rx b)" "w \<le> 7" "\<forall>y \<in> set ys. length y = w"
    "S + length ys \<le> ump_acked (ring_size (uqp_tx a)) R + ring_size (uqp_tx a)"
  shows "\<exists>m' a' L'. chan_run ump_link_send (ump_link_recv w) (map Send ys) (b, m, a) = (ys, [], b, m', a') \<and>
           ump_dir (S + length ys) R L' m' a' (uqp_rx b) \<and> same_ring (uqp_tx a') (uqp_tx a) \<and>
           (ys \<noteq> [] \<longrightarrow> slot_payload w m' (uqp_tx a) (S + length ys - 1) = last ys)"
  using assms
proof (induction ys arbitrary: S L m a)
  case Nil
  then show ?case by auto
next
  case (Cons y ys)
  obtain err m1 a1 where c: "smlt_ump_queuepair_try_send m a (msg_of y) = (err, m1, a1)"
    using prod_cases3 by blast
  have words: "unat (msg_words (msg_of y)) = w" "unat (msg_words (msg_of y)) \<le> 7"
    using Cons.prems(2,3) by (simp_all add: unat_words_msg_of)
  note sz = ump_dir_sizes[OF Cons.prems(1)]
  have "err = errval SMLT_SUCCESS"
    using ump_send_refused(7)[OF Cons.prems(1) c] Cons.prems(4) sz(1,6) by fastforce
  note c = c[unfolded this]
  note acc = ump_send_accepted[OF Cons.prems(1) words(2) c]
  obtain L1 where dir1: "ump_dir (Suc S) R L1 m1 a1 (uqp_rx b)" using acc(2) by blast
  have tx1: "ring_size (uqp_tx a1) = ring_size (uqp_tx a)" "same_ring (uqp_tx a1) (uqp_tx a)"
    by (simp_all add: acc(5))
  have "\<exists>m' a' L'. chan_run ump_link_send (ump_link_recv w) (map Send ys) (b, m1, a1) = (ys, [], b, m', a') \<and>
           ump_dir (Suc S + length ys) R L' m' a' (uqp_rx b) \<and> same_ring (uqp_tx a') (uqp_tx a1) \<and>
           (ys \<noteq> [] \<longrightarrow> slot_payload w m' (uqp_tx a1) (Suc S + length ys - 1) = last ys)"
    using Cons.prems by (intro Cons.IH[OF dir1]) (simp_all add: tx1)
  then obtain m' a' L' where ih:
    "chan_run ump_link_send (ump_link_recv w) (map Send ys) (b, m1, a1) = (ys, [], b, m', a')"
    "ump_dir (Suc S + length ys) R L' m' a' (uqp_rx b)" "same_ring (uqp_tx a') (uqp_tx a1)"
    "ys \<noteq> [] \<longrightarrow> slot_payload w m' (uqp_tx a1) (Suc S + length ys - 1) = last ys" by blast
  have "slot_payload w m1 (uqp_tx a) S = y"
    using acc(3) words msg_payload_msg_of[of y] Cons.prems(2,3) by simp
  moreover have "slot_payload w m' (uqp_tx a1) = slot_payload w m' (uqp_tx a)"
    by (simp add: acc(5) slot_payload_def fun_eq_iff)
  moreover have "ump_link_send y (b, m, a) = (True, b, m1, a1)" using c by (simp add: ump_link_send_def)
  moreover have "ys = [] \<Longrightarrow> m' = m1" using ih(1) by simp
  moreover have "same_ring (uqp_tx a') (uqp_tx a)" using ih(3) tx1(2) by (simp add: same_ring_def)
  ultimately show ?case using ih by auto
qed

lemma ack_position:
  assumes "ring_at q R" "uq_pos q = drop_bit 1 (uq_num_msg q) \<or> uq_pos q + 1 = uq_num_msg q"
  shows "R mod ring_size q = ring_size q div 2 \<or> Suc (R mod ring_size q) = ring_size q"
  using assms pos_wraps_iff[OF assms(1)] unat_pos[OF assms(1)]
  by (auto simp: word_unat_eq_iff unsigned_drop_bit_eq drop_bit_eq_div unat_div)

lemma ump_overtaken_slot:
  assumes inv: "ump_link_inv w (b, m, a)" and pend: "ump_link_pending w (b, m, a) \<noteq> []"
    and pos: "uq_pos (uqp_rx b) = drop_bit 1 (uq_num_msg (uqp_rx b)) \<or>
              uq_pos (uqp_rx b) + 1 = uq_num_msg (uqp_rx b)"
    and raw: "smlt_ump_queuepair_recv_raw m b = (err, slot, m1, b1)"
    and ys: "\<forall>y \<in> set ys. length y = w"
      "length ys + length (ump_link_pending w (b, m, a)) = ring_size (uqp_rx b) + 1"
  shows "\<exists>m2 a2. chan_run ump_link_send (ump_link_recv w) (map Send ys) (b1, m1, a) = (ys, [], b1, m2, a2) \<and>
           map (copy_from_mem m2 (slot + 8) f w) [0..<w] = last ys"
proof -
  from inv obtain S R L where w: "w \<le> 7" and dir: "ump_dir S R L m a (uqp_rx b)"
    by (auto simp: ump_link_inv_def)
  note D = ump_dirD[OF dir] and sz = ump_dir_sizes[OF dir]
  have len: "length (ump_link_pending w (b, m, a)) = S - R" using link_pending_eq[OF dir] by simp
  then have "R < S" using pend link_pending_eq[OF dir, of w] by auto
  obtain e sl m' rx' where q: "smlt_ump_queue_recv_raw m (uqp_rx b) = (e, sl, m', rx')"
    using prod_cases4 by blast
  note c = ump_dir_consume[OF dir \<open>R < S\<close> q]
  have "smlt_ump_queuepair_can_recv_raw m b"
    using ump_dir_can_recv[OF dir] \<open>R < S\<close> by (simp add: smlt_ump_queuepair_can_recv_raw_def)
  then have r: "slot = slot_word (uqp_tx a) R 0" "m1 = m'" "b1 = b\<lparr>uqp_rx := rx'\<rparr>"
    using raw q c(2) by (auto simp: smlt_ump_queuepair_recv_raw_def)
  have dir1: "ump_dir S (Suc R) L m1 a (uqp_rx b1)" using c(4) r by simp
  have "ump_acked (ring_size (uqp_tx a)) (Suc R) = Suc R"
    using ack_position[OF D(4) pos] sz(1,6) by (simp add: ump_acked_Suc)
  moreover have lys: "S + length ys = Suc R + ring_size (uqp_tx a)"
    using ys(2) len sz(5,6) \<open>R < S\<close> by simp
  ultimately obtain m2 a2 where run:
    "chan_run ump_link_send (ump_link_recv w) (map Send ys) (b1, m1, a) = (ys, [], b1, m2, a2)"
    "ys \<noteq> [] \<longrightarrow> slot_payload w m2 (uqp_tx a) (S + length ys - 1) = last ys"
    using ump_sends_accepted[OF dir1 w ys(1)] by auto
  have "ys \<noteq> []" using lys sz(5) by auto
  moreover have "slot_payload w m2 (uqp_tx a) (S + length ys - 1) = slot_payload w m2 (uqp_tx a) R"
    by (simp add: lys slot_payload_def slot_word_def)
  moreover have "map (copy_from_mem m2 (slot + 8) f w) [0..<w] = slot_payload w m2 (uqp_tx a) R"
    using slot_word_Suc[of "uqp_tx a" R 0]
    by (simp add: r(1) slot_payload_def copy_from_mem_eq cell_slot_word)
  ultimately show ?thesis using run by auto
qed

section \<open>A concrete pair\<close>

text \<open>Two freshly initialised queue pairs of a few slots, for evaluation.\<close>

definition demo_a :: "u16 \<Rightarrow> smlt_ump_queuepair" where
  "demo_a slots = \<lparr>uqp_tx = ump_fresh 4096 slots SMLT_UMP_DIRECTION_SEND,
             uqp_rx = ump_fresh 8192 slots SMLT_UMP_DIRECTION_RECV,
             uqp_other = 0, uqp_seq_id = 1, uqp_last_ack = 0\<rparr>"

definition demo_b :: "u16 \<Rightarrow> smlt_ump_queuepair" where
  "demo_b slots = \<lparr>uqp_tx = ump_fresh 8192 slots SMLT_UMP_DIRECTION_SEND,
             uqp_rx = ump_fresh 4096 slots SMLT_UMP_DIRECTION_RECV,
             uqp_other = 0, uqp_seq_id = 1, uqp_last_ack = 0\<rparr>"

lemma demo_duplex:
  assumes "w \<le> 7" "slots = 2 \<or> slots = 3"
  shows "ump_duplex w (demo_a slots) (\<lambda>_. 0) (demo_b slots)"
    "ump_link_pending w (demo_b slots, \<lambda>_. 0, demo_a slots) = []"
    "ump_link_pending w (demo_a slots, \<lambda>_. 0, demo_b slots) = []"
proof -
  have "mem_clear (\<lambda>_. 0) x n = (\<lambda>_. 0)" for x n by (simp add: mem_clear_def)
  then show "ump_duplex w (demo_a slots) (\<lambda>_. 0) (demo_b slots)"
    "ump_link_pending w (demo_b slots, \<lambda>_. 0, demo_a slots) = []"
    "ump_link_pending w (demo_a slots, \<lambda>_. 0, demo_b slots) = []"
    using ump_init_establishes[of slots 4096 8192 "\<lambda>_. 0" "\<lambda>_. 0" "\<lambda>_. 0" "demo_a slots" 0
        "demo_b slots" 0 "\<lambda>_. 0" w] assms
    by (auto simp: demo_a_def demo_b_def)
qed

lemma demo_link:
  assumes "w \<le> 7"
  shows "ump_link_inv w (demo_b 3, \<lambda>_. 0, demo_a 3)" "ump_link_room (demo_b 3, \<lambda>_. 0, demo_a 3) = 2"
  using demo_duplex[OF assms, of 3]
  by (simp_all add: ump_duplex_def ump_link_room_def demo_b_def ump_fresh_def)

section \<open>Properties\<close>

lemma ump_init_connects:
  assumes call: "smlt_ump_queuepair_init (smlt_platform_alloc_on_node na mx) (smlt_platform_free nf)
                   num_slots ns nd sp dp s0 d0 (h, m) = (errval SMLT_SUCCESS, src, dst, h', m')"
    and numa: "numa_blocks_ok na ((ucast num_slots + 1) * 64 + 4096 + 16) nd ns h"
    and w: "w \<le> 7"
  shows "ump_duplex w src m' dst \<and>
         ump_link_pending w (dst, m', src) = [] \<and> ump_link_pending w (src, m', dst) = [] \<and>
         ump_link_room (dst, m', src) = unat num_slots - 1 \<and>
         ump_link_room (src, m', dst) = unat num_slots - 1"
proof -
  let ?bytes = "(ucast num_slots + 1) * 64 :: u64"
  obtain r1 h1 m1 r2 m3 where two: "2 \<le> num_slots"
    and A: "smlt_platform_alloc_on_node na mx ?bytes 4096 nd True (h, m) = (r1, h1, m1)" "r1 \<noteq> 0"
    and B: "smlt_platform_alloc_on_node na mx ?bytes 4096 ns True
             (h1, mem_clear m1 r1 (unat num_slots * 64)) = (r2, h', m3)" "r2 \<noteq> 0"
    and m': "m' = mem_clear m3 r2 (unat num_slots * 64)"
    and src: "src = \<lparr>uqp_tx = ump_fresh r1 num_slots SMLT_UMP_DIRECTION_SEND,
            uqp_rx = ump_fresh r2 num_slots SMLT_UMP_DIRECTION_RECV,
            uqp_other = dp, uqp_seq_id = 1, uqp_last_ack = 0\<rparr>"
    and dst: "dst = \<lparr>uqp_tx = ump_fresh r2 num_slots SMLT_UMP_DIRECTION_SEND,
            uqp_rx = ump_fresh r1 num_slots SMLT_UMP_DIRECTION_RECV,
            uqp_other = sp, uqp_seq_id = 1, uqp_last_ack = 0\<rparr>"
    using ump_init_success[OF call] by metis
  have "unat num_slots \<le> 65535" using ring_size_fresh(4)[OF two] .
  then have bytes: "unat ?bytes < 2 ^ 63" "64 * unat num_slots \<le> unat ?bytes"
    unfolding unat_chan_size by simp_all
  note blocks = two_page_blocks[OF A B bytes(1) numa]
  have "ump_duplex w src m' dst \<and> ump_link_pending w (dst, m', src) = [] \<and>
        ump_link_pending w (src, m', dst) = []"
  proof -
    have "unat r1 + 64 * unat num_slots \<le> unat r2 \<or> unat r2 + 64 * unat num_slots \<le> unat r1"
      "unat r1 + 64 * unat num_slots < 2 ^ 64" "unat r2 + 64 * unat num_slots < 2 ^ 64"
      using blocks(1-3) bytes(2) by linarith+
    moreover have "m3 x = mem_clear m1 r1 (unat num_slots * 64) x"
      if "unat r1 \<le> unat x" "unat x < unat r1 + 64 * unat num_slots" for x
      using that bytes(2) by (intro blocks(4)) linarith+
    ultimately show ?thesis
      using ump_init_establishes[OF two _ _ _ _ refl src dst m' w] by blast
  qed
  then show ?thesis
    using ring_size_fresh(1)[OF two] by (simp add: ump_link_room_def src dst ump_fresh_def)
qed

text \<open>
  Claim C22: initialising a UMP queue pair with at least two slots connects the two endpoints in
  both directions: each direction satisfies the channel invariant for messages of up to seven
  words, holds no message, can hold one message less than there are slots, and the two rings
  share no memory. The hypothesis is that libnuma's two blocks do not overlap.
\<close>

theorem ump_init_duplex:
  assumes call: "smlt_ump_queuepair_init (smlt_platform_alloc_on_node na mx) (smlt_platform_free nf)
                   num_slots ns nd sp dp s0 d0 (h, m) = (errval SMLT_SUCCESS, src, dst, h', m')"
    and numa: "numa_blocks_ok na ((ucast num_slots + 1) * 64 + 4096 + 16) nd ns h"
    and w: "w \<le> 7"
  shows "ump_duplex w src m' dst \<and>
         ump_link_pending w (dst, m', src) = [] \<and> ump_link_pending w (src, m', dst) = [] \<and>
         ump_link_room (dst, m', src) = unat num_slots - 1 \<and>
         ump_link_room (src, m', dst) = unat num_slots - 1"
  by (rule ump_init_connects[OF assms])

theorem ump_init_duplex_witness:
  "\<exists>src dst h' m'.
     smlt_ump_queuepair_init (smlt_platform_alloc_on_node (\<lambda>sz n h. (h, h + 65536)) 3)
       (smlt_platform_free (\<lambda>b sz h. h)) 64 0 1 16 32 ump_queuepair_zero ump_queuepair_zero
       (65536, \<lambda>_. 5) = (errval SMLT_SUCCESS, src, dst, h', m') \<and>
     ump_duplex 7 src m' dst \<and> ump_link_pending 7 (dst, m', src) = []"
proof -
  let ?na = "\<lambda>(sz :: u64) (n :: u8) (h :: u64). (h, h + 65536)"
  have "SMLT_MEM_IS_POWER_OF_TWO 4096" by (simp add: SMLT_MEM_IS_POWER_OF_TWO_def)
  then obtain src dst h' m' where call:
    "smlt_ump_queuepair_init (smlt_platform_alloc_on_node ?na 3)
       (smlt_platform_free (\<lambda>b sz h. h)) 64 0 1 16 32 ump_queuepair_zero ump_queuepair_zero
       (65536, \<lambda>_. 5) = (errval SMLT_SUCCESS, src, dst, h', m')"
    by (simp add: smlt_ump_queuepair_init_def ump_queuepair_zero_def init_tx_eq init_rx_eq Let_def
        smlt_platform_alloc_on_node_def SMLT_MEM_ALIGN_def)
  have "numa_blocks_ok ?na ((ucast (64 :: u16) + 1) * 64 + 4096 + 16) 1 0 65536"
    by (simp add: numa_blocks_ok_def)
  from ump_init_duplex[OF call this, of 7] call show ?thesis by blast
qed

text \<open>
  Claim C1: over any interleaving of non-blocking sends and receives on a UMP link that starts
  empty, the receiver gets exactly a prefix of the accepted messages, unaltered and in order;
  what is missing is what is still pending in the ring, and that is never more than the ring
  holds. Sequence numbers, positions and epochs may wrap around any number of times.
\<close>

theorem ump_fifo:
  assumes "ump_link_inv w s" "ump_link_pending w s = []"
    and "\<forall>x. Send x \<in> set ops \<longrightarrow> length x = w"
    and "chan_run ump_link_send (ump_link_recv w) ops s = (acc, del, s')"
  shows "ump_link_inv w s' \<and> acc = del @ ump_link_pending w s' \<and>
         length acc \<le> length del + ump_link_room s"
proof -
  have ok: "list_all (op_ok (\<lambda>x. length x = w)) ops" using assms(3) by (intro ops_okI) blast
  show ?thesis
    using ump.run_fifo[OF assms(1) ok assms(4)] ump.run_prefix[OF assms(1,2) ok assms(4)] by simp
qed

theorem ump_fifo_witness:
  "\<exists>acc del s'. chan_run ump_link_send (ump_link_recv 1) [Send [5], Send [6], Recv] (demo_b 3, \<lambda>_. 0, demo_a 3)
     = (acc, del, s') \<and> acc = del @ ump_link_pending 1 s' \<and> length acc \<le> length del + 2"
proof -
  obtain acc del s' where
    "chan_run ump_link_send (ump_link_recv 1) [Send [5], Send [6], Recv] (demo_b 3, \<lambda>_. 0, demo_a 3)
       = (acc, del, s')" using prod_cases3 by blast
  with ump_fifo[OF demo_link(1)[of 1] demo_duplex(2)[of 1 3], of "[Send [5], Send [6], Recv]" acc del s']
  show ?thesis using demo_link(2)[of 1] by auto
qed

text \<open>
  Claim C23: the two directions of a connected queue pair do not disturb each other. A send of
  one endpoint appends its message to its own direction or is refused because messages are
  pending there, a receive takes the oldest message of its direction or reports that it is
  empty, and in either case the other direction's pending messages and invariant are unchanged.
\<close>

theorem ump_duplex_independent:
  assumes "ump_duplex w a m b" "unat (msg_words msg) = w"
  shows "(\<exists>err m' a'. smlt_ump_queuepair_try_send m a msg = (err, m', a') \<and> ump_duplex w a' m' b \<and>
           ump_link_pending w (a', m', b) = ump_link_pending w (a, m, b) \<and>
           (err = errval SMLT_SUCCESS \<and>
              ump_link_pending w (b, m', a') = ump_link_pending w (b, m, a) @ [msg_payload msg] \<or>
            err = errval SMLT_ERR_QUEUE_FULL \<and> m' = m \<and> ump_link_pending w (b, m, a) \<noteq> [] \<and>
              ump_link_pending w (b, m', a') = ump_link_pending w (b, m, a))) \<and>
         (\<exists>err m' b' r. smlt_ump_queuepair_try_recv m b msg = (err, m', b', r) \<and> ump_duplex w a m' b' \<and>
           ump_link_pending w (a, m', b') = ump_link_pending w (a, m, b) \<and>
           (err = errval SMLT_SUCCESS \<and>
              ump_link_pending w (b, m, a) = msg_payload r # ump_link_pending w (b', m', a) \<or>
            err = errval SMLT_ERR_QUEUE_EMPTY \<and> r = msg \<and> ump_link_pending w (b, m, a) = []))"
    (is "?send \<and> ?recv")
proof
  obtain err m' a' where c: "smlt_ump_queuepair_try_send m a msg = (err, m', a')"
    using prod_cases3 by blast
  then show ?send using duplex_send[OF assms c] by blast
next
  obtain err m' b' r where c: "smlt_ump_queuepair_try_recv m b msg = (err, m', b', r)"
    using prod_cases4 by blast
  have "ump_link_inv w (b, m, a)" using assms(1) by (simp add: ump_duplex_def)
  from ump_recv_step(7)[OF this assms(2) c] duplex_recv[OF assms c] c
  show ?recv by blast
qed

theorem ump_duplex_independent_witness:
  "\<exists>err m' a'. smlt_ump_queuepair_try_send (\<lambda>_. 0) (demo_a 3) (msg_of [9]) = (err, m', a') \<and>
     err = errval SMLT_SUCCESS \<and> ump_link_pending 1 (demo_b 3, m', a') = [[9]] \<and>
     ump_link_pending 1 (a', m', demo_b 3) = []"
proof -
  have words: "unat (msg_words (msg_of [9 :: u64])) = 1" "msg_payload (msg_of [9 :: u64]) = [9]"
    by (simp_all add: unat_words_msg_of msg_payload_msg_of)
  from ump_duplex_independent[OF demo_duplex(1)[of 1 3] words(1), THEN conjunct1] demo_duplex(2,3)[of 1 3]
  show ?thesis by (auto simp: words(2))
qed

text \<open>
  Claim C24: the blocking UMP send returns. Against a receiver that takes one message between two
  polls it succeeds after at most one poll per pending message and one more, and its message is
  then the last one pending.
\<close>

theorem ump_send_returns:
  assumes "ump_link_inv w (b, m, a)" "length x = w" "length (ump_link_pending w (b, m, a)) < fuel"
  shows "\<exists>s'. smlt_ump_queuepair_send (ump_receiver w) fuel (msg_of x) (b, m, a) =
                Some (errval SMLT_SUCCESS, s') \<and>
              ump_link_inv w s' \<and> (\<exists>ys zs. ump_link_pending w (b, m, a) = zs @ ys \<and>
                                           ump_link_pending w s' = ys @ [x])"
proof -
  obtain s' where s': "spin (\<lambda>_ s. snd (ump_link_recv w s)) (try_op (ump_link_send x)) 0 fuel (b, m, a)
      = Some ((), s')" "ump_link_inv w s'"
    "\<exists>ys zs. ump_link_pending w (b, m, a) = zs @ ys \<and> ump_link_pending w s' = ys @ [x]"
    using ump.send_spin_terminates[OF assms, of 0] by blast
  then obtain err where call: "smlt_ump_queuepair_send (ump_receiver w) fuel (msg_of x) (b, m, a) = Some (err, s')"
    by (auto simp: ump_send_as_spin)
  show ?thesis using call s' ump_send_result[OF call] by auto
qed

theorem ump_send_returns_witness:
  "\<exists>s'. smlt_ump_queuepair_send (ump_receiver 1) 1 (msg_of [4]) (demo_b 3, \<lambda>_. 0, demo_a 3) =
          Some (errval SMLT_SUCCESS, s') \<and> ump_link_pending 1 s' = [[4]]"
  using ump_send_returns[OF demo_link(1), of 1 "[4]" 1] demo_duplex(2)[of 1 3] by auto

text \<open>
  Claim C25: the blocking UMP receive returns the message. A receiver that polls an empty link
  returns with exactly the message the sender puts in at some later poll \<open>j\<close>, and leaves the
  link empty.
\<close>

theorem ump_recv_returns:
  assumes "ump_link_inv w (b, m, a)" "length x = w" "ump_link_pending w (b, m, a) = []" "j < fuel"
  shows "\<exists>msg a' m' b'.
     smlt_ump_queuepair_recv (ump_sender x j) fuel (msg_of (replicate w 0)) (a, m, b) =
       Some ((errval SMLT_SUCCESS, msg), a', m', b') \<and>
     msg_payload msg = x \<and> ump_link_inv w (b', m', a') \<and> ump_link_pending w (b', m', a') = []"
proof -
  obtain s' where s': "spin (\<lambda>i s. if i = j then snd (ump_link_send x s) else s) (ump_link_recv w) 0 fuel (b, m, a)
      = Some (x, s')" "ump_link_inv w s'" "ump_link_pending w s' = []"
    using ump.recv_spin_returns[OF assms(1,2,3), of 0 j fuel] assms(4) by auto
  then obtain err msg a' m' b' where call:
    "smlt_ump_queuepair_recv (ump_sender x j) fuel (msg_of (replicate w 0)) (a, m, b) =
       Some ((err, msg), a', m', b')" "msg_payload msg = x" "s' = (b', m', a')"
    by (auto simp: ump_recv_as_spin)
  then show ?thesis using s'(2,3) ump_recv_result[OF call(1)] by auto
qed

theorem ump_recv_returns_witness:
  "\<exists>msg a' m' b'.
     smlt_ump_queuepair_recv (ump_sender [8] 2) 3 (msg_of (replicate 1 0)) (demo_a 3, \<lambda>_. 0, demo_b 3) =
       Some ((errval SMLT_SUCCESS, msg), a', m', b') \<and> msg_payload msg = [8]"
  using ump_recv_returns[OF demo_link(1), of 1 "[8]" 2 3] demo_duplex(2)[of 1 3] by auto

text \<open>
  Claim C26: \<open>smlt_ump_queue_recv_raw\<close> acknowledges a message before its payload is copied, so the
  slot it returns can be overtaken. At an acknowledging position of the ring, if the sender runs
  between \<open>recv_raw\<close> and the copy, it is able to fill the ring once more (it accepts one message
  more than there are free slots) and the copy then yields the sender's last message instead of
  the one received. The single-step theorems above treat the receive as one step.
\<close>

theorem ump_recv_overtaken:
  assumes "ump_link_inv w (b, m, a)" "ump_link_pending w (b, m, a) \<noteq> []"
    and "uq_pos (uqp_rx b) = drop_bit 1 (uq_num_msg (uqp_rx b)) \<or>
         uq_pos (uqp_rx b) + 1 = uq_num_msg (uqp_rx b)"
    and "smlt_ump_queuepair_recv_raw m b = (err, slot, m1, b1)"
    and "\<forall>y \<in> set ys. length y = w"
    and "length ys + length (ump_link_pending w (b, m, a)) = unat (uq_num_msg (uqp_rx b)) + 1"
  shows "\<exists>m2 a2. chan_run ump_link_send (ump_link_recv w) (map Send ys) (b1, m1, a) = (ys, [], b1, m2, a2) \<and>
           map (copy_from_mem m2 (slot + 8) f w) [0..<w] = last ys"
  using ump_overtaken_slot[OF assms] .

theorem ump_recv_overtaken_witness:
  "\<exists>err m a slot m1 b1 m2 a2.
     smlt_ump_queuepair_try_send (\<lambda>_. 0) (demo_a 2) (msg_of [5]) = (errval SMLT_SUCCESS, m, a) \<and>
     ump_link_pending 1 (demo_b 2, m, a) = [[5]] \<and>
     smlt_ump_queuepair_recv_raw m (demo_b 2) = (err, slot, m1, b1) \<and>
     chan_run ump_link_send (ump_link_recv 1) (map Send [[6]]) (b1, m1, a) = ([[6]], [], b1, m2, a2) \<and>
     map (copy_from_mem m2 (slot + 8) (\<lambda>_. 0) 1) [0..<1] = [6]"
proof -
  obtain e m a where c: "smlt_ump_queuepair_try_send (\<lambda>_. 0) (demo_a 2) (msg_of [5]) = (e, m, a)"
    using prod_cases3 by blast
  have words: "unat (msg_words (msg_of [5 :: u64])) = 1" "msg_payload (msg_of [5 :: u64]) = [5]"
    by (simp_all add: unat_words_msg_of msg_payload_msg_of)
  have "ump_duplex 1 (demo_a 2) (\<lambda>_. 0) (demo_b 2)" by (rule demo_duplex) simp_all
  note d = duplex_send[OF this words(1) c]
  have "e = errval SMLT_SUCCESS" and pend: "ump_link_pending 1 (demo_b 2, m, a) = [[5]]"
    using d(3) demo_duplex(2)[of 1 2] words(2) by auto
  obtain err slot m1 b1 where raw: "smlt_ump_queuepair_recv_raw m (demo_b 2) = (err, slot, m1, b1)"
    using prod_cases4 by blast
  have "\<exists>m2 a2. chan_run ump_link_send (ump_link_recv 1) (map Send [[6]]) (b1, m1, a) = ([[6]], [], b1, m2, a2) \<and>
          map (copy_from_mem m2 (slot + 8) (\<lambda>_. 0) 1) [0..<1] = last [[6]]"
    by (rule ump_recv_overtaken[OF _ _ _ raw])
      (use d(1) pend in \<open>simp_all add: ump_duplex_def demo_b_def ump_fresh_def\<close>)
  then show ?thesis using c raw pend \<open>e = errval SMLT_SUCCESS\<close> by auto
qed

end
