(* ===== verification/Shm_Refine.thy ===== *)
theory Shm_Refine
  imports Shm_Queue
begin

text \<open>
  The shared-memory queue implements a bounded first-in first-out channel of seven-word messages.
  The invariant relates writer, reader and memory through the number of messages sent and
  received and the writer's next synchronisation point; of a ring of \<open>n\<close> slots at most \<open>n - 2\<close>
  are ever in use.
\<close>

section \<open>Positions and slots\<close>

abbreviation ssize :: "shm_context \<Rightarrow> nat" where
  "ssize q \<equiv> unat (sc_num_slots q)"

definition hslot :: "shm_context \<Rightarrow> nat \<Rightarrow> nat \<Rightarrow> addr" where
  "hslot q s j = cell (sc_reader_pos q) (8 + 8 * (s mod ssize q) + j)"

definition shm_placed :: "shm_context \<Rightarrow> bool" where
  "shm_placed q \<longleftrightarrow> sc_data q = cell (sc_reader_pos q) 8 \<and> 3 \<le> ssize q \<and> ssize q < 65536"

definition shm_same :: "shm_context \<Rightarrow> shm_context \<Rightarrow> bool" where
  "shm_same q r \<longleftrightarrow> sc_data q = sc_data r \<and> sc_reader_pos q = sc_reader_pos r \<and>
                   sc_num_slots q = sc_num_slots r"

text \<open>The position of the reader after \<open>s\<close> messages, and of the writer, which wraps lazily.\<close>

definition reader_at :: "shm_context \<Rightarrow> nat \<Rightarrow> bool" where
  "reader_at q s \<longleftrightarrow> sc_l_pos q = of_nat (s mod ssize q) \<and> sc_next_seq q = of_nat (s + 1)"

definition writer_at :: "shm_context \<Rightarrow> nat \<Rightarrow> bool" where
  "writer_at q s \<longleftrightarrow> sc_l_pos q = of_nat (lazy_pos (ssize q) s) \<and> sc_next_seq q = of_nat (s + 1)"

lemma hslot_same: "shm_same q r \<Longrightarrow> hslot q = hslot r"
  by (simp add: shm_same_def hslot_def fun_eq_iff)

lemma cell_hslot: "cell (hslot q s j) k = hslot q s (j + k)"
  by (simp add: hslot_def add.assoc)

lemma hslot_Suc: "hslot q s j + 8 = hslot q s (Suc j)"
  using cell_hslot[of q s j 1] by (simp add: cell_def)

lemma shm_index_bound:
  assumes "shm_placed q"
  shows "0 < ssize q" "s mod ssize q < ssize q" "s mod ssize q < 65536" "ssize q < 65536"
proof -
  show n: "0 < ssize q" "ssize q < 65536" using assms unfolding shm_placed_def by linarith+
  show "s mod ssize q < ssize q" using n(1) by (rule mod_less_divisor)
  then show "s mod ssize q < 65536" using n(2) by linarith
qed

lemma hslot_eq_iff:
  assumes "shm_placed q" "i < 8" "j < 8"
  shows "hslot q s i = hslot q t j \<longleftrightarrow> s mod ssize q = t mod ssize q \<and> i = j"
proof -
  from shm_index_bound(3)[OF assms(1), of s] shm_index_bound(3)[OF assms(1), of t]
  have "hslot q s i = hslot q t j \<longleftrightarrow> 8 + 8 * (s mod ssize q) + i = 8 + 8 * (t mod ssize q) + j"
    using assms unfolding hslot_def by (intro cell_eq_iff) simp_all
  then show ?thesis using assms by (simp add: line_word_eq_iff)
qed

lemma hslot_neq_pos:
  assumes "shm_placed q" "j < 8"
  shows "hslot q s j \<noteq> sc_reader_pos q"
proof -
  have "s mod ssize q < 65536" using shm_index_bound(3)[OF assms(1)] .
  then have "cell (sc_reader_pos q) (8 + 8 * (s mod ssize q) + j) = cell (sc_reader_pos q) 0 \<longleftrightarrow>
             8 + 8 * (s mod ssize q) + j = 0"
    using assms(2) by (intro cell_eq_iff) simp_all
  then show ?thesis by (simp add: hslot_def)
qed

lemma shm_slot_address:
  assumes "shm_placed q" "sc_l_pos q = of_nat (s mod ssize q)"
  shows "sc_data q + 64 * ucast (sc_l_pos q) = hslot q s 0"
proof -
  have "s mod ssize q < 65536" using shm_index_bound(3)[OF assms(1)] .
  then have "unat (sc_l_pos q) = s mod ssize q" by (simp add: assms(2) unat_index del: unsigned_of_nat)
  then show ?thesis using assms(1) by (simp add: line_cell hslot_def shm_placed_def)
qed

lemma shm_rewind_at:
  assumes "shm_placed q" "writer_at q s"
  shows "shm_rewind q = q\<lparr>sc_l_pos := of_nat (s mod ssize q)\<rparr>"
proof -
  have "(if ucast (sc_l_pos q) = sc_num_slots q then 0 else sc_l_pos q) = of_nat (s mod ssize q)"
    using shm_index_bound(1,4)[OF assms(1)] assms(2)
    by (intro lazy_pos_rewind) (simp_all add: writer_at_def)
  then show ?thesis by (auto simp: shm_rewind_def split: if_splits)
qed

lemma writer_at_write:
  assumes "shm_placed q" "sc_l_pos q = of_nat (s mod ssize q)" "sc_next_seq q = of_nat (s + 1)"
  shows "writer_at (q\<lparr>sc_next_seq := sc_next_seq q + 1, sc_l_pos := sc_l_pos q + 1\<rparr>) (Suc s)"
  using assms(2,3) shm_index_bound(1)[OF assms(1)] by (simp add: writer_at_def lazy_pos_Suc)

lemma reader_at_advance:
  assumes "shm_placed q" "reader_at q s"
  shows "reader_at (shm_advance q) (Suc s)"
  using assms(2) index_step[OF shm_index_bound(1)[OF assms(1)] shm_index_bound(4)[OF assms(1)], of s]
  by (simp add: reader_at_def shm_advance_def Let_def)

lemma shm_advance_fields [simp]:
  "sc_data (shm_advance q) = sc_data q" "sc_reader_pos (shm_advance q) = sc_reader_pos q"
  "sc_num_slots (shm_advance q) = sc_num_slots q" "sc_next_seq (shm_advance q) = sc_next_seq q + 1"
  "shm_placed (shm_advance q) = shm_placed q" "hslot (shm_advance q) = hslot q"
  "shm_same (shm_advance q) r = shm_same q r"
  by (simp_all add: shm_advance_def Let_def shm_placed_def hslot_def shm_same_def fun_eq_iff)

section \<open>The invariant\<close>

text \<open>
  \<open>S\<close> messages sent, \<open>R\<close> received, \<open>T\<close> the next synchronisation point. Pending slots carry their
  sequence number, the others a number the reader does not expect there.
\<close>

definition shm_dir :: "nat \<Rightarrow> nat \<Rightarrow> nat \<Rightarrow> mem \<Rightarrow> shm_context \<Rightarrow> shm_context \<Rightarrow> bool" where
  "shm_dir S R T m a b \<longleftrightarrow>
     shm_placed a \<and> shm_same b a \<and> writer_at a S \<and> reader_at b R \<and> sc_next_sync a = of_nat T \<and>
     S + 1 \<le> T \<and> T \<le> R + ssize a - 1 \<and> R \<le> S \<and>
     m (sc_reader_pos a) = of_nat R \<and>
     (\<forall>s. R \<le> s \<and> s < S \<longrightarrow> m (hslot a s 0) = of_nat (s + 1)) \<and>
     (\<forall>s. S \<le> s \<and> s < S + ssize a \<longrightarrow> m (hslot a s 0) \<noteq> of_nat (s + 1))"

lemma shm_dirD:
  assumes "shm_dir S R T m a b"
  shows "shm_placed a" "shm_same b a" "writer_at a S" "reader_at b R" "sc_next_sync a = of_nat T"
    "S + 1 \<le> T" "T \<le> R + ssize a - 1" "R \<le> S" "m (sc_reader_pos a) = of_nat R"
    "\<And>s. R \<le> s \<Longrightarrow> s < S \<Longrightarrow> m (hslot a s 0) = of_nat (s + 1)"
    "\<And>s. S \<le> s \<Longrightarrow> s < S + ssize a \<Longrightarrow> m (hslot a s 0) \<noteq> of_nat (s + 1)"
    "hslot b = hslot a" "ssize b = ssize a" "shm_placed b" "3 \<le> ssize a" "ssize a < 65536"
    "S - R \<le> ssize a - 2" "sc_reader_pos b = sc_reader_pos a"
  using assms hslot_same[of b a] unfolding shm_dir_def
  by (simp_all add: shm_placed_def shm_same_def, linarith)

lemma shm_dir_can_recv:
  assumes "shm_dir S R T m a b"
  shows "sc_data b + 64 * ucast (sc_l_pos b) = hslot a R 0"
    "sc_next_seq b = m (hslot a R 0) \<longleftrightarrow> R < S"
proof -
  note D = shm_dirD[OF assms]
  show "sc_data b + 64 * ucast (sc_l_pos b) = hslot a R 0"
    using shm_slot_address[OF D(14), of R] D(4,12) by (simp add: reader_at_def)
  have "sc_next_seq b = of_nat (R + 1)" using D(4) by (simp add: reader_at_def)
  then show "sc_next_seq b = m (hslot a R 0) \<longleftrightarrow> R < S"
    using D(10)[of R] D(11)[of R] D(8,15) by (cases "R = S") auto
qed

lemma shm_dir_consume:
  assumes dir: "shm_dir S R T m a b" and "R < S"
  shows "shm_dir S (Suc R) T (m(sc_reader_pos a := of_nat (Suc R))) a (shm_advance b)"
proof -
  note D = shm_dirD[OF dir]
  have "hslot a s 0 \<noteq> sc_reader_pos a" for s using hslot_neq_pos[OF D(1)] by simp
  then show ?thesis
    using D(1,2,3,5,6,7,8,10,11) reader_at_advance[OF D(14,4)] assms(2) by (simp add: shm_dir_def)
qed

lemma shm_dir_publish:
  assumes dir: "shm_dir S R T m a b" and room: "S + 1 < T'" "T' \<le> R + ssize a - 1"
    and a1: "a1 = a\<lparr>sc_l_pos := of_nat (S mod ssize a), sc_next_sync := of_nat T'\<rparr>"
    and head: "m' (hslot a S 0) = of_nat (S + 1)"
    and frame: "\<And>x. (\<And>j. j < 8 \<Longrightarrow> x \<noteq> hslot a S j) \<Longrightarrow> m' x = m x"
  shows "shm_dir (Suc S) R T' m' (a1\<lparr>sc_next_seq := sc_next_seq a1 + 1, sc_l_pos := sc_l_pos a1 + 1\<rparr>) b"
proof -
  note D = shm_dirD[OF dir]
  let ?a = "a1\<lparr>sc_next_seq := sc_next_seq a1 + 1, sc_l_pos := sc_l_pos a1 + 1\<rparr>"
  have fields: "ssize ?a = ssize a" "hslot ?a = hslot a" "shm_placed ?a = shm_placed a"
    "shm_same b ?a = shm_same b a" "sc_reader_pos ?a = sc_reader_pos a" "sc_next_sync ?a = of_nat T'"
    by (simp_all add: a1 hslot_def shm_placed_def shm_same_def fun_eq_iff)
  have "shm_placed a1" using D(1) by (simp add: a1 shm_placed_def)
  then have at: "writer_at ?a (Suc S)"
    using writer_at_write[of a1 S] D(3) by (simp add: a1 writer_at_def)
  have pos: "m' (sc_reader_pos a) = of_nat R"
    using D(9) hslot_neq_pos[OF D(1)] frame[of "sc_reader_pos a"] by metis
  have other: "m' (hslot a s 0) = m (hslot a s 0)" if "s mod ssize a \<noteq> S mod ssize a" for s
    using that by (intro frame) (simp add: hslot_eq_iff[OF D(1)])
  have pend: "m' (hslot a s 0) = of_nat (s + 1)" if "R \<le> s" "s < Suc S" for s
  proof (cases "s = S")
    case False
    then show ?thesis using that D(10)[of s] other[of s] mod_neq[of s S "ssize a"] room by auto
  qed (use head in simp)
  have free: "m' (hslot a s 0) \<noteq> of_nat (s + 1)" if "Suc S \<le> s" "s < Suc S + ssize a" for s
  proof (cases "s = S + ssize a")
    case True
    then have "hslot a s 0 = hslot a S 0" by (simp add: hslot_def)
    moreover have "(of_nat (S + 1) :: u64) \<noteq> of_nat (s + 1)"
    proof -
      have "S + 1 \<le> s + 1" "s + 1 < S + 1 + 2 ^ LENGTH(64)" using True D(16) by simp_all
      then show ?thesis using of_nat_eq_window True D(15) by fastforce
    qed
    ultimately show ?thesis using head by simp
  next
    case False
    then show ?thesis using that D(11)[of s] other[of s] mod_neq[of S s "ssize a"] by force
  qed
  show ?thesis
    unfolding shm_dir_def fields using D(1,2,4,8) at room pos pend free by simp
qed

section \<open>Operations on a link\<close>

type_synonym shm_link = "shm_context \<times> mem \<times> shm_context"

text \<open>
  The reader's context, the memory, the writer's context. A send attempt is one poll of the
  synchronisation point with nobody else acting; when it has to wait the attempt is refused.
\<close>

definition shm_link_send :: "u64 list \<Rightarrow> shm_link \<Rightarrow> bool \<times> shm_link" where
  "shm_link_send x s =
     (case shm_q_send (\<lambda>_ w. w) 1 (\<lambda>i. x ! i) s of None \<Rightarrow> (False, s) | Some s' \<Rightarrow> (True, s'))"

definition shm_link_recv :: "shm_link \<Rightarrow> u64 list option \<times> shm_link" where
  "shm_link_recv = (\<lambda>(b, m, a).
     let (ok, m', b', p) = shm_receive_non_blocking m b (\<lambda>_. 0)
     in (if ok then Some (map p [0..<7]) else None, b', m', a))"

definition shm_link_inv :: "shm_link \<Rightarrow> bool" where
  "shm_link_inv = (\<lambda>(b, m, a). \<exists>S R T. shm_dir S R T m a b)"

text \<open>What a reader that keeps receiving finds.\<close>

fun shm_pending :: "mem \<Rightarrow> nat \<Rightarrow> shm_context \<Rightarrow> u64 list list" where
  "shm_pending m 0 q = []"
| "shm_pending m (Suc k) q =
     (if shm_q_can_recv m q
      then map (\<lambda>j. m (sc_data q + 64 * ucast (sc_l_pos q) + 8 + 8 * of_nat j)) [0..<7]
           # shm_pending m k (shm_advance q)
      else [])"

definition shm_link_pending :: "shm_link \<Rightarrow> u64 list list" where
  "shm_link_pending = (\<lambda>(b, m, a). shm_pending m (ssize b) b)"

definition shm_link_room :: "shm_link \<Rightarrow> nat" where
  "shm_link_room = (\<lambda>(b, m, a). ssize b - 2)"

definition hpayload :: "mem \<Rightarrow> shm_context \<Rightarrow> nat \<Rightarrow> u64 list" where
  "hpayload m q s = map (\<lambda>j. m (hslot q s (Suc j))) [0..<7]"

lemma shm_pending_walk:
  assumes "shm_placed q" "reader_at q r" "\<And>s. r \<le> s \<Longrightarrow> s < r + j \<Longrightarrow> m (hslot q s 0) = of_nat (s + 1)"
    "j \<le> k" "j < k \<Longrightarrow> m (hslot q (r + j) 0) \<noteq> of_nat (r + j + 1)"
  shows "shm_pending m k q = map (hpayload m q) [r..<r + j]"
  using assms
proof (induction k arbitrary: q r j)
  case 0
  then show ?case by simp
next
  case (Suc k)
  have addr: "sc_data q + 64 * ucast (sc_l_pos q) = hslot q r 0"
    using shm_slot_address[OF Suc.prems(1), of r] Suc.prems(2) by (simp add: reader_at_def)
  have "sc_next_seq q = of_nat (r + 1)" using Suc.prems(2) by (simp add: reader_at_def)
  then have can: "shm_q_can_recv m q \<longleftrightarrow> m (hslot q r 0) = of_nat (r + 1)"
    by (auto simp: shm_q_can_recv_def addr)
  show ?case
  proof (cases j)
    case 0
    then show ?thesis using Suc.prems(5) can by simp
  next
    case (Suc i)
    have same: "hpayload m (shm_advance q) = hpayload m q" by (simp add: hpayload_def fun_eq_iff)
    have "shm_pending m k (shm_advance q) = map (hpayload m (shm_advance q)) [Suc r..<Suc r + i]"
    proof (rule Suc.IH)
      show "reader_at (shm_advance q) (Suc r)" using reader_at_advance[OF Suc.prems(1,2)] .
    qed (use Suc.prems \<open>j = Suc i\<close> in auto)
    moreover have "shm_q_can_recv m q" using can Suc.prems(3)[of r] \<open>j = Suc i\<close> by simp
    moreover have "[r..<r + j] = r # [Suc r..<Suc r + i]"
      using upt_conv_Cons[of r "r + j"] \<open>j = Suc i\<close> by (simp del: upt_Suc)
    moreover have "hslot q r 0 + 8 + 8 * of_nat x = hslot q r (Suc x)" for x
      by (simp only: hslot_Suc word_cell cell_hslot) simp
    ultimately show ?thesis
      using same addr by (simp only: shm_pending.simps if_True hpayload_def[of m q r] list.map)
  qed
qed

lemma shm_link_pending_eq:
  assumes "shm_dir S R T m a b"
  shows "shm_link_pending (b, m, a) = map (hpayload m a) [R..<S]"
proof -
  note D = shm_dirD[OF assms]
  have "shm_pending m (ssize b) b = map (hpayload m b) [R..<R + (S - R)]"
    by (rule shm_pending_walk[OF D(14,4)])
      (use D(8) D(10) D(11)[of S] D(12,13,15,17) in auto)
  moreover have "hpayload m b = hpayload m a" using D(12) by (simp add: hpayload_def fun_eq_iff)
  ultimately show ?thesis using D(8) by (simp add: shm_link_pending_def)
qed

lemma shm_sync_once:
  "shm_sync (\<lambda>_ w. w) 1 (e, m, q) =
     (if sc_next_seq q = sc_next_sync q
      then if sc_next_seq q = get_next_sync m q then None
           else Some (e, m, q\<lparr>sc_next_sync := get_next_sync m q\<rparr>)
      else Some (e, m, q))"
  by (simp add: shm_sync_def)

text \<open>The writer's decision at its synchronisation point, in terms of the counters.\<close>

lemma shm_dir_sync:
  assumes dir: "shm_dir S R T m a b"
  shows "shm_sync (\<lambda>_ w. w) 1 (e, m, shm_rewind a) =
    (let T' = (if S + 1 = T then R + ssize a - 1 else T) in
     if S + 1 = T' then None
     else Some (e, m, a\<lparr>sc_l_pos := of_nat (S mod ssize a), sc_next_sync := of_nat T'\<rparr>))"
proof -
  note D = shm_dirD[OF dir]
  have seq: "sc_next_seq (shm_rewind a) = of_nat (S + 1)" "sc_next_sync (shm_rewind a) = of_nat T"
    "get_next_sync m (shm_rewind a) = of_nat (R + ssize a - 1)"
  proof -
    have "R + ssize a - 1 = R + (ssize a - 1)" using D(15) by simp
    moreover have "sc_num_slots a - 1 = of_nat (ssize a - 1)" using D(15) by simp
    ultimately show "get_next_sync m (shm_rewind a) = of_nat (R + ssize a - 1)"
      using D(9) by (simp add: shm_rewind_at[OF D(1,3)] get_next_sync_def)
  qed (use D(3,5) in \<open>simp_all add: shm_rewind_at[OF D(1,3)] writer_at_def\<close>)
  have "(of_nat (S + 1) :: u64) = of_nat T \<longleftrightarrow> S + 1 = T"
    by (rule of_nat_eq_window) (use D(6,7,8,16) in simp_all)
  moreover have "(of_nat (S + 1) :: u64) = of_nat (R + ssize a - 1) \<longleftrightarrow> S + 1 = R + ssize a - 1"
    by (rule of_nat_eq_window) (use D(6,7,8,16) in simp_all)
  ultimately show ?thesis
    unfolding shm_sync_once seq Let_def
    by (simp only: shm_rewind_at[OF D(1,3)]) (simp add: D(5))
qed

lemma shm_write_mem:
  assumes q: "shm_placed q" and n: "n \<le> 7"
    and m': "m' = (copy_to_mem m (hslot q S 1) p 0 n)(hslot q S 0 := v)"
  shows "(\<And>j. j < 8 \<Longrightarrow> x \<noteq> hslot q S j) \<Longrightarrow> m' x = m x"
    and "s mod ssize q \<noteq> S mod ssize q \<Longrightarrow> hpayload m' q s = hpayload m q s"
    and "n = 7 \<Longrightarrow> hpayload m' q S = map p [0..<7]"
proof -
  have frame: "m' x = m x" if *: "\<And>j. j < 8 \<Longrightarrow> x \<noteq> hslot q S j" for x
  proof -
    have "copy_to_mem m (hslot q S 1) p 0 n x = m x"
      using * n by (intro copy_to_mem_other) (simp add: cell_hslot)
    then show ?thesis using *[of 0] m' by simp
  qed
  then show "(\<And>j. j < 8 \<Longrightarrow> x \<noteq> hslot q S j) \<Longrightarrow> m' x = m x" .
  show "hpayload m' q s = hpayload m q s" if "s mod ssize q \<noteq> S mod ssize q"
    unfolding hpayload_def
  proof (rule map_cong[OF refl], rule frame)
    fix k j assume "k \<in> set [0..<7]" "j < (8 :: nat)"
    then show "hslot q s (Suc k) \<noteq> hslot q S j" using that by (simp add: hslot_eq_iff[OF q])
  qed
  have "m' (hslot q S (Suc j)) = p j" if "n = 7" "j < 7" for j
  proof -
    have "hslot q S (Suc j) \<noteq> hslot q S 0" using that by (simp add: hslot_eq_iff[OF q])
    then show ?thesis
      using that copy_to_mem_cell[of n j m "hslot q S 1" p 0] by (simp add: m' cell_hslot)
  qed
  then show "n = 7 \<Longrightarrow> hpayload m' q S = map p [0..<7]" by (simp add: hpayload_def)
qed

lemma shm_send_cases:
  assumes dir: "shm_dir S R T m a b" and call: "shm_q_send (\<lambda>_ w. w) 1 p (b, m, a) = r"
  shows "(if S - R = ssize a - 2 then r = None
          else \<exists>m' a' T'. r = Some (b, m', a') \<and> shm_dir (Suc S) R T' m' a' b \<and>
                 hslot a' = hslot a \<and> hpayload m' a S = map p [0..<7] \<and>
                 (\<forall>s. R \<le> s \<and> s < S \<longrightarrow> hpayload m' a s = hpayload m a s))"
proof -
  note D = shm_dirD[OF dir]
  define T' where "T' = (if S + 1 = T then R + ssize a - 1 else T)"
  note sync = shm_dir_sync[OF dir, of b, folded T'_def, unfolded Let_def]
  have T': "S + 1 \<le> T'" "T' \<le> R + ssize a - 1" "S + 1 = T' \<longleftrightarrow> S - R = ssize a - 2"
    using D(6,7,8,15,17) by (auto simp: T'_def)
  show ?thesis
  proof (cases "S + 1 = T'")
    case True
    then show ?thesis using sync call T'(3) by (simp add: shm_q_send_def T'_def)
  next
    case False
    define a1 where "a1 = a\<lparr>sc_l_pos := of_nat (S mod ssize a), sc_next_sync := of_nat T'\<rparr>"
    have p1: "shm_placed a1" "hslot a1 = hslot a" "ssize a1 = ssize a" "sc_next_seq a1 = of_nat (S + 1)"
      using D(1,3) by (simp_all add: a1_def shm_placed_def hslot_def fun_eq_iff writer_at_def)
    have addr: "sc_data a1 + 64 * ucast (sc_l_pos a1) = hslot a S 0"
      using shm_slot_address[OF p1(1), of S] p1(2) by (simp add: a1_def)
    define m' where "m' = (copy_to_mem m (hslot a S 1) p 0 7)(hslot a S 0 := of_nat (S + 1))"
    define a2 where "a2 = a1\<lparr>sc_next_seq := sc_next_seq a1 + 1, sc_l_pos := sc_l_pos a1 + 1\<rparr>"
    have "shm_write m a1 p 7 = (m', a2)"
      using addr hslot_Suc[of a S 0] p1(4) by (simp add: shm_write_def m'_def a2_def)
    then have r: "r = Some (b, m', a2)"
      using sync call False by (simp add: shm_q_send_def T'_def a1_def)
    note mem = shm_write_mem[OF D(1) order_refl m'_def]
    have "shm_dir (Suc S) R T' m' a2 b"
      unfolding a2_def
      by (rule shm_dir_publish[OF dir _ _ a1_def _ mem(1)]) (use False T' in \<open>simp_all add: m'_def\<close>)
    moreover have "hslot a2 = hslot a" using p1(2) by (simp add: a2_def hslot_def fun_eq_iff a1_def)
    moreover have "hpayload m' a s = hpayload m a s" if "R \<le> s" "s < S" for s
      using that T'(2) False T'(1) by (intro mem(2) mod_neq) auto
    ultimately show ?thesis using r False T'(3) mem(3) by auto
  qed
qed

lemma shm_recv_cases:
  assumes dir: "shm_dir S R T m a b" and call: "shm_receive_non_blocking m b p = (ok, m', b', p')"
  shows "(if R < S then ok \<and> b' = shm_advance b \<and> shm_dir S (Suc R) T m' a b' \<and> map p' [0..<7] = hpayload m a R \<and>
            (\<forall>s. hpayload m' a s = hpayload m a s)
          else \<not> ok \<and> m' = m \<and> b' = b \<and> p' = p)"
proof (cases "R < S")
  case False
  then show ?thesis using call shm_dir_can_recv[OF dir] by (simp add: shm_receive_non_blocking_def)
next
  case True
  note D = shm_dirD[OF dir] and can = shm_dir_can_recv[OF dir]
  have "sc_next_seq b = of_nat (R + 1)" using D(4) by (simp add: reader_at_def)
  then have r: "ok" "b' = shm_advance b" "m' = m(sc_reader_pos a := of_nat (Suc R))"
    "p' = copy_from_mem m (hslot a R 1) p 7"
    using call can True D(18) hslot_Suc[of a R 0]
    by (auto simp: shm_receive_non_blocking_def)
  have "hpayload m' a s = hpayload m a s" for s
    using hslot_neq_pos[OF D(1)] by (simp add: hpayload_def r(3))
  moreover have "map p' [0..<7] = hpayload m a R"
    by (simp add: r(4) hpayload_def copy_from_mem_eq cell_hslot)
  ultimately show ?thesis using True r shm_dir_consume[OF dir True] by simp
qed

lemma shm_link_room_eq: "shm_dir S R T m a b \<Longrightarrow> shm_link_room (b, m, a) = ssize a - 2"
  using shm_dirD(13) by (simp add: shm_link_room_def)

lemma shm_link_send_cases:
  assumes inv: "shm_link_inv s" and x: "length x = 7" and call: "shm_link_send x s = (ok, s')"
  shows "shm_link_inv s'" "shm_link_room s' = shm_link_room s"
    "shm_link_pending s' = shm_link_pending s @ (if ok then [x] else [])"
    "ok \<longleftrightarrow> length (shm_link_pending s) < shm_link_room s" "0 < shm_link_room s"
proof -
  obtain b m a where s: "s = (b, m, a)" by (cases s)
  from inv s obtain S R T where dir: "shm_dir S R T m a b" by (auto simp: shm_link_inv_def)
  note D = shm_dirD[OF dir]
  note cases = shm_send_cases[OF dir refl, of "\<lambda>i. x ! i"]
  have x': "map (\<lambda>i. x ! i) [0..<7] = x" using x by (metis map_nth)
  have len: "length (shm_link_pending s) = S - R" by (simp add: s shm_link_pending_eq[OF dir])
  show "0 < shm_link_room s" using D(13,15) by (simp add: s shm_link_room_def)
  have "shm_link_inv s' \<and> shm_link_room s' = shm_link_room s \<and>
    shm_link_pending s' = shm_link_pending s @ (if ok then [x] else []) \<and>
    (ok \<longleftrightarrow> length (shm_link_pending s) < shm_link_room s)"
  proof (cases "S - R = ssize a - 2")
    case True
    then have "ok = False" "s' = s" using cases call by (auto simp: s shm_link_send_def)
    then show ?thesis using inv len True D(13) by (simp add: s shm_link_room_def)
  next
    case False
    then obtain m' a' T' where c: "shm_q_send (\<lambda>_ w. w) 1 (\<lambda>i. x ! i) (b, m, a) = Some (b, m', a')"
      "shm_dir (Suc S) R T' m' a' b" "hslot a' = hslot a" "hpayload m' a S = x"
      "\<forall>s. R \<le> s \<and> s < S \<longrightarrow> hpayload m' a s = hpayload m a s"
      using cases x' by auto
    have ok: "ok" "s' = (b, m', a')" using c(1) call by (auto simp: s shm_link_send_def)
    have "hpayload m' a' = hpayload m' a" using c(3) by (simp add: hpayload_def fun_eq_iff)
    then have "shm_link_pending s' = shm_link_pending s @ [x]"
      using c(4,5) D(8) by (simp add: ok(2) s shm_link_pending_eq[OF dir] shm_link_pending_eq[OF c(2)])
    moreover have "S - R < ssize b - 2" using False D(13,17) by simp
    ultimately show ?thesis
      using ok c(2) len by (auto simp: s shm_link_inv_def shm_link_room_def)
  qed
  then show "shm_link_inv s'" "shm_link_room s' = shm_link_room s"
    "shm_link_pending s' = shm_link_pending s @ (if ok then [x] else [])"
    "ok \<longleftrightarrow> length (shm_link_pending s) < shm_link_room s" by blast+
qed

lemma shm_link_recv_cases:
  assumes inv: "shm_link_inv s" and call: "shm_link_recv s = (r, s')"
  shows "shm_link_inv s'" "shm_link_room s' = shm_link_room s"
    "shm_link_pending s = (case r of None \<Rightarrow> [] | Some x \<Rightarrow> [x]) @ shm_link_pending s'"
    "r = None \<Longrightarrow> shm_link_pending s = []"
proof -
  obtain b m a where s: "s = (b, m, a)" by (cases s)
  from inv s obtain S R T where dir: "shm_dir S R T m a b" by (auto simp: shm_link_inv_def)
  note D = shm_dirD[OF dir]
  obtain ok m' b' p where c: "shm_receive_non_blocking m b (\<lambda>_. 0) = (ok, m', b', p)"
    using prod_cases4 by blast
  have s': "s' = (b', m', a)" "r = (if ok then Some (map p [0..<7]) else None)"
    using call c by (auto simp: s shm_link_recv_def)
  note cases = shm_recv_cases[OF dir c]
  have "shm_link_inv s' \<and> shm_link_room s' = shm_link_room s \<and>
    shm_link_pending s = (case r of None \<Rightarrow> [] | Some x \<Rightarrow> [x]) @ shm_link_pending s' \<and>
    (r = None \<longrightarrow> shm_link_pending s = [])"
  proof (cases "R < S")
    case False
    then show ?thesis using cases inv D(8) by (simp add: s s' shm_link_pending_eq[OF dir])
  next
    case True
    then have c': "ok" "b' = shm_advance b" "shm_dir S (Suc R) T m' a b'" "map p [0..<7] = hpayload m a R"
      "\<forall>s. hpayload m' a s = hpayload m a s" using cases by auto
    have "shm_link_pending s = hpayload m a R # shm_link_pending s'"
      using True c'(5) by (simp add: s s'(1) shm_link_pending_eq[OF dir] shm_link_pending_eq[OF c'(3)] upt_conv_Cons)
    moreover have "shm_link_room s' = shm_link_room s" by (simp add: s s'(1) shm_link_room_def c'(2))
    ultimately show ?thesis using c'(1,3,4) s' by (auto simp: shm_link_inv_def)
  qed
  then show "shm_link_inv s'" "shm_link_room s' = shm_link_room s"
    "shm_link_pending s = (case r of None \<Rightarrow> [] | Some x \<Rightarrow> [x]) @ shm_link_pending s'"
    "r = None \<Longrightarrow> shm_link_pending s = []" by blast+
qed

interpretation shm: fifo_channel
  shm_link_inv shm_link_pending "\<lambda>x. length x = 7" shm_link_send shm_link_recv shm_link_room
proof unfold_locales
  fix s s' x
  assume a: "shm_link_inv s" "length x = 7" "shm_link_send x s = (True, s')"
  from shm_link_send_cases[OF a]
  show "shm_link_inv s' \<and> shm_link_pending s' = shm_link_pending s @ [x] \<and>
        shm_link_room s' = shm_link_room s" by simp
next
  fix s s' x
  assume a: "shm_link_inv s" "length x = 7" "shm_link_send x s = (False, s')"
  from shm_link_send_cases[OF a]
  show "shm_link_inv s' \<and> shm_link_pending s' = shm_link_pending s \<and>
        shm_link_pending s \<noteq> [] \<and> shm_link_room s' = shm_link_room s" by auto
next
  fix s s' x
  assume a: "shm_link_inv s" "shm_link_recv s = (Some x, s')"
  from shm_link_recv_cases[OF a]
  show "shm_link_inv s' \<and> shm_link_pending s = x # shm_link_pending s' \<and>
        shm_link_room s' = shm_link_room s" by simp
next
  fix s s'
  assume a: "shm_link_inv s" "shm_link_recv s = (None, s')"
  from shm_link_recv_cases[OF a]
  show "shm_link_inv s' \<and> shm_link_pending s = [] \<and> shm_link_pending s' = [] \<and>
        shm_link_room s' = shm_link_room s" by simp
next
  fix s
  assume inv: "shm_link_inv s"
  obtain b m a where s: "s = (b, m, a)" by (cases s)
  from inv s obtain S R T where dir: "shm_dir S R T m a b" by (auto simp: shm_link_inv_def)
  show "length (shm_link_pending s) \<le> shm_link_room s"
    using shm_dirD(17)[OF dir] by (simp add: s shm_link_pending_eq[OF dir] shm_link_room_eq[OF dir])
qed

section \<open>Creation and blocking send\<close>

text \<open>The two contexts on the block at \<open>shm\<close>.\<close>

definition shm_fresh :: "addr \<Rightarrow> shm_context" where
  "shm_fresh shm = \<lparr>sc_num_slots = 63, sc_l_pos = 0, sc_next_sync = 62, sc_next_seq = 1,
                    sc_shm = shm, sc_data = shm + 64, sc_reader_pos = shm\<rparr>"

lemma shm_create_fresh:
  assumes "shm_queuepair_create na node src dst h = Some (qp, h')"
  shows "\<exists>h1. \<exists>shm. na 4 (node dst) h = (shm, h1) \<and> qp = \<lparr>sqp_src = shm_fresh shm, sqp_dst = shm_fresh shm\<rparr>"
  using assms
  by (auto simp: shm_queuepair_create_def shm_init_context_def shm_fresh_def Let_def
      split: prod.splits option.splits if_splits)

lemma shm_fresh_link:
  assumes "\<And>j. j < 512 \<Longrightarrow> m (cell shm j) = 0"
  shows "shm_link_inv (shm_fresh shm, m, shm_fresh shm)" "shm_link_pending (shm_fresh shm, m, shm_fresh shm) = []"
    "shm_link_room (shm_fresh shm, m, shm_fresh shm) = 61"
proof -
  let ?q = "shm_fresh shm"
  have n: "ssize ?q = 63" by (simp add: shm_fresh_def)
  have "m (hslot ?q s 0) = 0" for s
  proof -
    have "s mod 63 < 63" by simp
    then have "8 + 8 * (s mod 63) < 512" by linarith
    then show ?thesis using assms[of "8 + 8 * (s mod 63)"] by (simp add: hslot_def shm_fresh_def)
  qed
  moreover have "(of_nat (s + 1) :: u64) \<noteq> 0" if "s < 63" for s
  proof -
    have "unat (of_nat (s + 1) :: u64) = s + 1" using that by (intro unat_of_nat_small) simp
    then show ?thesis by (metis add_is_0 one_neq_zero unat_0)
  qed
  moreover have "m shm = 0" using assms[of 0] by simp
  ultimately have dir: "shm_dir 0 0 62 m ?q ?q"
    unfolding shm_dir_def n
    by (auto simp: shm_placed_def shm_same_def writer_at_def reader_at_def lazy_pos_def shm_fresh_def cell_def)
  show "shm_link_inv (?q, m, ?q)" using dir by (auto simp: shm_link_inv_def)
  show "shm_link_pending (?q, m, ?q) = []" using shm_link_pending_eq[OF dir] by simp
  show "shm_link_room (?q, m, ?q) = 61" by (simp add: shm_link_room_def n)
qed

text \<open>The other side as an environment that receives once before every poll.\<close>

definition shm_reader :: "nat \<Rightarrow> shm_context \<times> mem \<Rightarrow> shm_context \<times> mem" where
  "shm_reader k = (\<lambda>(b, m). let (ok, m', b', p) = shm_receive_non_blocking m b (\<lambda>_. 0) in (b', m'))"

lemma shm_q_send_polls:
  assumes "sc_next_seq (shm_rewind a) = sc_next_sync (shm_rewind a)" "env 0 (b, m) = (b1, m1)"
    and "shm_q_send (\<lambda>_ w. w) 1 p (b1, m1, a) = Some r"
  shows "shm_q_send env (Suc f) p (b, m, a) = Some r"
  using assms by (auto simp: shm_q_send_def shm_sync_def Let_def split: if_splits option.splits)

lemma shm_q_send_no_poll:
  assumes "sc_next_seq (shm_rewind a) \<noteq> sc_next_sync (shm_rewind a)"
  shows "shm_q_send env f p (b, m, a) = shm_q_send (\<lambda>_ w. w) 1 p (b, m, a)"
  using assms by (simp add: shm_q_send_def shm_sync_def)

lemma shm_send_with_reader:
  assumes inv: "shm_link_inv (b, m, a)" and x: "length x = 7"
  shows "\<exists>s'. shm_q_send shm_reader (Suc f) (\<lambda>i. x ! i) (b, m, a) = Some s' \<and> shm_link_inv s' \<and>
           (\<exists>ys zs. shm_link_pending (b, m, a) = zs @ ys \<and> length zs \<le> 1 \<and> shm_link_pending s' = ys @ [x])"
proof -
  from inv obtain S R T where dir: "shm_dir S R T m a b" by (auto simp: shm_link_inv_def)
  note D = shm_dirD[OF dir]
  have accepted: "\<exists>s'. shm_q_send (\<lambda>_ w. w) 1 (\<lambda>i. x ! i) s = Some s' \<and> shm_link_inv s' \<and>
                     shm_link_pending s' = shm_link_pending s @ [x]"
    if "shm_link_inv s" "length (shm_link_pending s) < shm_link_room s" for s
  proof -
    obtain ok s' where c: "shm_link_send x s = (ok, s')" by (meson surj_pair)
    then show ?thesis
      using shm_link_send_cases[OF that(1) x c] that(2)
      by (auto simp: shm_link_send_def split: option.splits)
  qed
  show ?thesis
  proof (cases "sc_next_seq (shm_rewind a) = sc_next_sync (shm_rewind a)")
    case False
    then have "S + 1 \<noteq> T" using D(3,5) by (auto simp: shm_rewind_at[OF D(1,3)] writer_at_def)
    then have "length (shm_link_pending (b, m, a)) < shm_link_room (b, m, a)"
      using D(6,7,8,15) by (simp add: shm_link_pending_eq[OF dir] shm_link_room_eq[OF dir])
    from accepted[OF inv this] show ?thesis
      using shm_q_send_no_poll[OF False] by (metis append_Nil le0 list.size(3))
  next
    case True
    obtain r b1 m1 a1 where rcv: "shm_link_recv (b, m, a) = (r, b1, m1, a1)" by (metis prod_cases4)
    then have env: "shm_reader 0 (b, m) = (b1, m1)" and "a1 = a"
      by (auto simp: shm_reader_def shm_link_recv_def split: prod.splits)
    note rc = shm_link_recv_cases[OF inv rcv[unfolded \<open>a1 = a\<close>]]
    have "length (shm_link_pending (b1, m1, a)) < shm_link_room (b1, m1, a)"
      using rc(2,3,4) shm.pending_bounded[OF inv] shm_link_room_eq[OF dir] D(15) by (cases r) simp_all
    from accepted[OF rc(1) this] obtain s' where
      s': "shm_q_send (\<lambda>_ w. w) 1 (\<lambda>i. x ! i) (b1, m1, a) = Some s'" "shm_link_inv s'"
      "shm_link_pending s' = shm_link_pending (b1, m1, a) @ [x]" by blast
    have "shm_q_send shm_reader (Suc f) (\<lambda>i. x ! i) (b, m, a) = Some s'"
      using True env s'(1) by (rule shm_q_send_polls)
    moreover have "length (case r of None \<Rightarrow> [] | Some x \<Rightarrow> [x]) \<le> 1" by (cases r) simp_all
    ultimately show ?thesis using s'(2,3) rc(3) by blast
  qed
qed

section \<open>Properties\<close>

text \<open>
  Claim C20: a shared-memory queue pair created on a zeroed block is a first-in first-out channel
  of seven-word messages. Over any interleaving of send attempts and non-blocking receives, the
  delivered messages followed by the pending ones are exactly the accepted ones, in order, and a
  send goes through without waiting exactly when fewer than 61 messages are pending.
\<close>

theorem shm_fifo:
  assumes "shm_queuepair_create na node src dst h = Some (qp, h')"
    and "\<forall>j < 512. m (cell (sc_shm (sqp_src qp)) j) = 0"
    and "\<forall>x. Send x \<in> set ops \<longrightarrow> length x = 7"
    and "chan_run shm_link_send shm_link_recv ops (sqp_dst qp, m, sqp_src qp) = (acc, del, s')"
  shows "shm_link_inv s' \<and> acc = del @ shm_link_pending s' \<and>
         (\<forall>x. length x = 7 \<longrightarrow> fst (shm_link_send x s') = (length (shm_link_pending s') < 61))"
proof -
  obtain shm where qp: "qp = \<lparr>sqp_src = shm_fresh shm, sqp_dst = shm_fresh shm\<rparr>"
    using shm_create_fresh[OF assms(1)] by blast
  have "\<And>j. j < 512 \<Longrightarrow> m (cell shm j) = 0" using assms(2) by (simp add: qp shm_fresh_def)
  note fresh = shm_fresh_link[of m shm, OF this]
  have ok: "list_all (op_ok (\<lambda>x. length x = 7)) ops" using assms(3) by (intro ops_okI) blast
  note run = shm.run_fifo[OF fresh(1) ok] assms(4)[unfolded qp shm_qp.simps]
  then have r: "shm_link_inv s'" "acc = del @ shm_link_pending s'" "shm_link_room s' = 61"
    using fresh(2,3) by auto
  have "fst (shm_link_send x s') = (length (shm_link_pending s') < 61)" if "length x = 7" for x
    using shm_link_send_cases(4)[OF r(1) that, of "fst (shm_link_send x s')" "snd (shm_link_send x s')"] r(3)
    by simp
  then show ?thesis using r by blast
qed

theorem shm_fifo_witness:
  "\<exists>qp h' acc del s'.
     shm_queuepair_create (\<lambda>sz n h. (h, h + 4096)) (\<lambda>_. 0) 0 1 4096 = Some (qp, h') \<and>
     chan_run shm_link_send shm_link_recv [Send [1, 2, 3, 4, 5, 6, 7], Recv]
       (sqp_dst qp, \<lambda>_. 0, sqp_src qp) = (acc, del, s') \<and> acc = del @ shm_link_pending s'"
proof -
  obtain qp h' where c: "shm_queuepair_create (\<lambda>sz n h. (h :: u64, h + 4096)) (\<lambda>_. 0) 0 1 4096 = Some (qp, h')"
    by (simp add: shm_queuepair_create_def shm_init_context_def)
  obtain acc del s' where run: "chan_run shm_link_send shm_link_recv [Send [1, 2, 3, 4, 5, 6, 7], Recv]
       (sqp_dst qp, \<lambda>_. 0, sqp_src qp) = (acc, del, s')" using prod_cases3 by blast
  have "acc = del @ shm_link_pending s'" using shm_fifo[OF c _ _ run] by auto
  then show ?thesis using c run by blast
qed

text \<open>
  The blocking shared-memory send terminates against an active reader. If the reader
  takes one message before each poll, one poll of the reader position is enough: the send
  returns, at most one pending message was consumed meanwhile, and the new message is the last
  one pending.
\<close>

theorem shm_send_returns:
  assumes "shm_link_inv (b, m, a)" "length x = 7" "0 < fuel"
  shows "\<exists>s'. shm_q_send shm_reader fuel (\<lambda>i. x ! i) (b, m, a) = Some s' \<and> shm_link_inv s' \<and>
           (\<exists>ys zs. shm_link_pending (b, m, a) = zs @ ys \<and> length zs \<le> 1 \<and> shm_link_pending s' = ys @ [x])"
  using shm_send_with_reader[OF assms(1,2), of "fuel - 1"] assms(3) by simp

theorem shm_send_returns_witness:
  "\<exists>s'. shm_q_send shm_reader 1 (\<lambda>i. [1, 2, 3, 4, 5, 6, 7] ! i) (shm_fresh 4096, \<lambda>_. 0, shm_fresh 4096) = Some s' \<and>
        shm_link_pending s' = [[1, 2, 3, 4, 5, 6, 7]]"
  using shm_send_returns[OF shm_fresh_link(1), of "\<lambda>_. 0" 4096 "[1, 2, 3, 4, 5, 6, 7]" 1]
    shm_fresh_link(2)[of "\<lambda>_. 0" 4096] by auto

end
