(* ===== verification/Queuepair_Refine.thy ===== *)
theory Queuepair_Refine
  imports Queuepair Ump_Refine Ffq_Refine Shm_Refine
begin

text \<open>
  Whatever the backend, a queue pair is a bounded first-in first-out channel. The theory carries
  the three refinements over to the operations that go through the function pointers and
  interprets the channel contract once for all backends.
\<close>

section \<open>The backend's view of a link\<close>

text \<open>\<open>b\<close> is the receiving endpoint, \<open>a\<close> the sending one.\<close>

type_synonym qp_link = "smlt_qp \<times> mem \<times> smlt_qp"

definition ump_view :: "qp_link \<Rightarrow> ump_link" where
  "ump_view = (\<lambda>(b, m, a). (qp_ump b, m, qp_ump a))"

definition ffq_view :: "qp_link \<Rightarrow> ffq_link" where
  "ffq_view = (\<lambda>(b, m, a). (qp_ffq b, m, qp_ffq a))"

definition shm_view :: "qp_link \<Rightarrow> shm_link" where
  "shm_view = (\<lambda>(b, m, a). (sqp_dst (qp_queue_rx b), m, sqp_src (qp_queue_tx a)))"

lemmas qp_views = ump_view_def ffq_view_def shm_view_def

definition qp_link_send :: "u64 list \<Rightarrow> qp_link \<Rightarrow> bool \<times> qp_link" where
  "qp_link_send x s =
     (case smlt_queuepair_try_send (\<lambda>_ w. w) 1 (msg_of x) s of
        Returns (err, s') \<Rightarrow> (smlt_err_is_ok err, s') | _ \<Rightarrow> (False, s))"

definition qp_link_recv :: "nat \<Rightarrow> qp_link \<Rightarrow> u64 list option \<times> qp_link" where
  "qp_link_recv w = (\<lambda>(b, m, a).
     case smlt_queuepair_try_recv (\<lambda>_ w. w) 1 (msg_of (replicate w 0)) (a, m, b) of
       Returns ((err, msg), a', m', b') \<Rightarrow>
         (if smlt_err_is_ok err then Some (msg_payload msg) else None, b', m', a')
     | _ \<Rightarrow> (None, b, m, a))"

text \<open>The invariant, the pending messages, the capacity and the messages a backend carries.\<close>

fun qp_link_inv :: "qp_fn \<Rightarrow> nat \<Rightarrow> qp_link \<Rightarrow> bool" where
  "qp_link_inv g w (b, m, a) \<longleftrightarrow> qp_f a = qp_fns g \<and> qp_f b = qp_fns g \<and>
     (case g of
        Fn_null \<Rightarrow> False
      | Fn_ump \<Rightarrow> ump_link_inv w (ump_view (b, m, a))
      | Fn_ffq \<Rightarrow> ffq_link_inv w (ffq_view (b, m, a))
      | Fn_shm \<Rightarrow> w = 7 \<and> shm_link_inv (shm_view (b, m, a)))"

definition qp_link_pending :: "qp_fn \<Rightarrow> nat \<Rightarrow> qp_link \<Rightarrow> u64 list list" where
  "qp_link_pending g w s =
     (case g of
        Fn_null \<Rightarrow> []
      | Fn_ump \<Rightarrow> ump_link_pending w (ump_view s)
      | Fn_ffq \<Rightarrow> ffq_link_pending w (ffq_view s)
      | Fn_shm \<Rightarrow> shm_link_pending (shm_view s))"

definition qp_link_room :: "qp_fn \<Rightarrow> qp_link \<Rightarrow> nat" where
  "qp_link_room g s =
     (case g of
        Fn_null \<Rightarrow> 0
      | Fn_ump \<Rightarrow> ump_link_room (ump_view s)
      | Fn_ffq \<Rightarrow> ffq_link_room (ffq_view s)
      | Fn_shm \<Rightarrow> shm_link_room (shm_view s))"

definition qp_good :: "qp_fn \<Rightarrow> nat \<Rightarrow> u64 list \<Rightarrow> bool" where
  "qp_good g w x \<longleftrightarrow> (if g = Fn_ffq then ffq_good w x else length x = w)"

section \<open>Dispatch\<close>

lemma qp_send_ump:
  assumes "qp_f a = qp_fns Fn_ump" "qp_link_send x (b, m, a) = (ok, s')"
  shows "ump_link_send x (ump_view (b, m, a)) = (ok, ump_view s') \<and> (\<exists>m' a'. s' = (b, m', a') \<and> qp_f a' = qp_f a)"
  using assms
  by (auto simp: qp_link_send_def smlt_queuepair_try_send_def qp_fns_def ump_link_send_def ump_view_def
      split: prod.splits)

lemma qp_send_ffq:
  assumes "qp_f a = qp_fns Fn_ffq" "qp_link_send x (b, m, a) = (ok, s')"
  shows "ffq_link_send x (ffq_view (b, m, a)) = (ok, ffq_view s') \<and> (\<exists>m' a'. s' = (b, m', a') \<and> qp_f a' = qp_f a)"
  using assms
  by (auto simp: qp_link_send_def smlt_queuepair_try_send_def qp_fns_def ffq_link_send_def ffq_view_def
      split: prod.splits)

lemma qp_recv_ump:
  assumes "qp_f b = qp_fns Fn_ump" "qp_link_recv w (b, m, a) = (r, s')"
  shows "ump_link_recv w (ump_view (b, m, a)) = (r, ump_view s') \<and> (\<exists>m' b'. s' = (b', m', a) \<and> qp_f b' = qp_f b)"
  using assms
  by (auto simp: qp_link_recv_def smlt_queuepair_try_recv_def qp_fns_def ump_link_recv_def ump_view_def
      split: prod.splits)

lemma qp_recv_ffq:
  assumes "qp_f b = qp_fns Fn_ffq" "qp_link_recv w (b, m, a) = (r, s')"
  shows "ffq_link_recv w (ffq_view (b, m, a)) = (r, ffq_view s') \<and> (\<exists>m' b'. s' = (b', m', a) \<and> qp_f b' = qp_f b)"
  using assms
  by (auto simp: qp_link_recv_def smlt_queuepair_try_recv_def qp_fns_def ffq_link_recv_def ffq_view_def
      split: prod.splits)

lemma copy_to_mem_cong:
  "(\<And>j. from \<le> j \<Longrightarrow> j < n \<Longrightarrow> f j = g j) \<Longrightarrow> copy_to_mem m a f from n = copy_to_mem m a g from n"
  by (induction n) auto

lemma shm_q_send_cong:
  assumes "\<And>j. j < 7 \<Longrightarrow> p j = p' j"
  shows "shm_q_send env fuel p = shm_q_send env fuel p'"
proof -
  have "shm_write m q p 7 = shm_write m q p' 7" for m q
    using assms copy_to_mem_cong[of 0 7 p p'] by (simp add: shm_write_def)
  then show ?thesis by (simp add: shm_q_send_def fun_eq_iff split: option.split)
qed

text \<open>With nobody else acting, the state of the others is carried along.\<close>

lemma shm_q_send_frame:
  "shm_q_send (\<lambda>_ w. w) 1 p (e, m, q) =
     map_option (\<lambda>(_, m', q'). (e, m', q')) (shm_q_send (\<lambda>_ w. w) 1 p ((), m, q))"
  unfolding shm_q_send_def prod.case shm_sync_once by (simp split: prod.split)

lemma qp_send_shm:
  assumes "qp_f a = qp_fns Fn_shm" "length x = 7" "qp_link_send x (b, m, a) = (ok, s')"
  shows "shm_link_send x (shm_view (b, m, a)) = (ok, shm_view s') \<and> (\<exists>m' a'. s' = (b, m', a') \<and> qp_f a' = qp_f a)"
proof -
  let ?p = "msg_data (msg_of x)" and ?q = "sqp_src (qp_queue_tx a)"
  have p: "shm_q_send (\<lambda>_ w. w) 1 (\<lambda>i. x ! i) (e, m, ?q) =
           map_option (\<lambda>(_, m', q'). (e, m', q')) (shm_q_send (\<lambda>_ w. w) 1 ?p ((), m, ?q))" for e :: 'e
  proof -
    have "shm_q_send (\<lambda>_ w. w) 1 (\<lambda>i. x ! i) = shm_q_send (\<lambda>_ (w :: unit \<times> mem). w) 1 ?p"
      using assms(2) by (intro shm_q_send_cong) (simp add: msg_of_def)
    then show ?thesis unfolding shm_q_send_frame[of _ e] by (simp only:)
  qed
  have w: "msg_words (msg_of x) \<le> 7" using assms(2) by (simp add: msg_of_def)
  note sends = p[of "sqp_dst (qp_queue_rx b)"] shm_q_send_frame[of ?p b m ?q]
  note unfold = qp_link_send_def smlt_queuepair_try_send_def qp_fns_def shm_link_send_def shm_view_def smlt_shm_send_def
  show ?thesis
  proof (cases "shm_q_send (\<lambda>_ (w :: unit \<times> mem). w) 1 ?p ((), m, ?q)")
    case None
    then show ?thesis using assms(1,3) sends w by (auto simp: unfold)
  next
    case (Some r)
    then show ?thesis using assms(1,3) sends w by (cases r) (auto simp: unfold)
  qed
qed

lemma qp_recv_shm:
  assumes "qp_f b = qp_fns Fn_shm" "qp_link_recv 7 (b, m, a) = (r, s')"
  shows "shm_link_recv (shm_view (b, m, a)) = (r, shm_view s') \<and> (\<exists>m' b'. s' = (b', m', a) \<and> qp_f b' = qp_f b)"
proof -
  let ?q = "sqp_dst (qp_queue_rx b)" and ?msg = "msg_of (replicate 7 0)"
  obtain ok m1 c1 p1 where 1: "shm_receive_non_blocking m ?q (msg_data ?msg) = (ok, m1, c1, p1)"
    using prod_cases4 by blast
  obtain p2 where 2: "shm_receive_non_blocking m ?q (\<lambda>_. 0) = (ok, m1, c1, p2)"
    and p: "ok \<Longrightarrow> map p1 [0..<7] = map p2 [0..<7]"
    using 1 by (auto simp: shm_receive_non_blocking_def Let_def copy_from_mem_eq split: if_splits)
  have idle: "\<not> ok \<Longrightarrow> m1 = m \<and> c1 = ?q"
    using 1 by (auto simp: shm_receive_non_blocking_def Let_def split: if_splits)
  have "unat (msg_words ?msg) = 7" by (simp add: msg_of_def)
  then show ?thesis
    using assms 1 2 p idle
    by (cases ok) (auto simp: qp_link_recv_def smlt_queuepair_try_recv_def qp_fns_def shm_link_recv_def shm_view_def
        smlt_shm_recv_def shm_q_recv_def msg_payload_def)
qed

section \<open>The channel contract\<close>

lemma qp_send_step:
  assumes inv: "qp_link_inv g w s" and x: "qp_good g w x" and call: "qp_link_send x s = (ok, s')"
  shows "qp_link_inv g w s' \<and> qp_link_room g s' = qp_link_room g s \<and>
         qp_link_pending g w s' = qp_link_pending g w s @ (if ok then [x] else []) \<and>
         (ok \<or> qp_link_pending g w s \<noteq> [])"
proof -
  obtain b m a where s: "s = (b, m, a)" by (cases s)
  note defs = qp_link_pending_def qp_link_room_def qp_good_def
  show ?thesis
  proof (cases g)
    case Fn_null
    then show ?thesis using inv s by simp
  next
    case Fn_ump
    then have f: "qp_f a = qp_fns Fn_ump" and i: "ump_link_inv w (ump_view s)" and l: "length x = w"
      using inv x s by (simp_all add: defs)
    note v = qp_send_ump[OF f call[unfolded s]]
    have "ump_link_send x (ump_view s) = (ok, ump_view s')" using v by (simp add: s)
    from ump.send_cases[OF i l this] v inv Fn_ump s show ?thesis by (auto simp: defs)
  next
    case Fn_ffq
    then have f: "qp_f a = qp_fns Fn_ffq" and i: "ffq_link_inv w (ffq_view s)" and l: "ffq_good w x"
      using inv x s by (simp_all add: defs)
    note v = qp_send_ffq[OF f call[unfolded s]]
    have "ffq_link_send x (ffq_view s) = (ok, ffq_view s')" using v by (simp add: s)
    from ffq.send_cases[OF i l this] v inv Fn_ffq s show ?thesis by (auto simp: defs)
  next
    case Fn_shm
    then have f: "qp_f a = qp_fns Fn_shm" and i: "shm_link_inv (shm_view s)" and l: "length x = 7"
      using inv x s by (simp_all add: defs)
    note v = qp_send_shm[OF f l call[unfolded s]]
    have "shm_link_send x (shm_view s) = (ok, shm_view s')" using v by (simp add: s)
    from shm.send_cases[OF i l this] v inv Fn_shm s show ?thesis by (auto simp: defs)
  qed
qed

lemma qp_recv_step:
  assumes inv: "qp_link_inv g w s" and call: "qp_link_recv w s = (r, s')"
  shows "qp_link_inv g w s' \<and> qp_link_room g s' = qp_link_room g s \<and>
         qp_link_pending g w s = (case r of None \<Rightarrow> [] | Some x \<Rightarrow> [x]) @ qp_link_pending g w s' \<and>
         (r = None \<longrightarrow> qp_link_pending g w s = [])"
proof -
  obtain b m a where s: "s = (b, m, a)" by (cases s)
  note defs = qp_link_pending_def qp_link_room_def
  show ?thesis
  proof (cases g)
    case Fn_null
    then show ?thesis using inv s by simp
  next
    case Fn_ump
    then have f: "qp_f b = qp_fns Fn_ump" and i: "ump_link_inv w (ump_view s)" using inv s by simp_all
    note v = qp_recv_ump[OF f call[unfolded s]]
    have "ump_link_recv w (ump_view s) = (r, ump_view s')" using v by (simp add: s)
    from ump.recv_cases[OF i this] v inv Fn_ump s show ?thesis by (auto simp: defs)
  next
    case Fn_ffq
    then have f: "qp_f b = qp_fns Fn_ffq" and i: "ffq_link_inv w (ffq_view s)" using inv s by simp_all
    note v = qp_recv_ffq[OF f call[unfolded s]]
    have "ffq_link_recv w (ffq_view s) = (r, ffq_view s')" using v by (simp add: s)
    from ffq.recv_cases[OF i this] v inv Fn_ffq s show ?thesis by (auto simp: defs)
  next
    case Fn_shm
    then have f: "qp_f b = qp_fns Fn_shm" and w: "w = 7" and i: "shm_link_inv (shm_view s)" using inv s by simp_all
    note v = qp_recv_shm[OF f call[unfolded s w]]
    have "shm_link_recv (shm_view s) = (r, shm_view s')" using v by (simp add: s)
    from shm.recv_cases[OF i this] v inv Fn_shm s show ?thesis by (auto simp: defs)
  qed
qed

interpretation qp: fifo_channel
  "qp_link_inv g w" "qp_link_pending g w" "qp_good g w" qp_link_send "qp_link_recv w" "qp_link_room g" for g w
proof unfold_locales
  fix s s' x
  assume a: "qp_link_inv g w s" "qp_good g w x" "qp_link_send x s = (True, s')"
  from qp_send_step[OF a] show "qp_link_inv g w s' \<and> qp_link_pending g w s' = qp_link_pending g w s @ [x] \<and>
    qp_link_room g s' = qp_link_room g s" by simp
next
  fix s s' x
  assume a: "qp_link_inv g w s" "qp_good g w x" "qp_link_send x s = (False, s')"
  from qp_send_step[OF a] show "qp_link_inv g w s' \<and> qp_link_pending g w s' = qp_link_pending g w s \<and>
    qp_link_pending g w s \<noteq> [] \<and> qp_link_room g s' = qp_link_room g s" by simp
next
  fix s s' x
  assume a: "qp_link_inv g w s" "qp_link_recv w s = (Some x, s')"
  from qp_recv_step[OF a] show "qp_link_inv g w s' \<and> qp_link_pending g w s = x # qp_link_pending g w s' \<and>
    qp_link_room g s' = qp_link_room g s" by simp
next
  fix s s'
  assume a: "qp_link_inv g w s" "qp_link_recv w s = (None, s')"
  from qp_recv_step[OF a] show "qp_link_inv g w s' \<and> qp_link_pending g w s = [] \<and> qp_link_pending g w s' = [] \<and>
    qp_link_room g s' = qp_link_room g s" by auto
next
  fix s
  assume inv: "qp_link_inv g w s"
  obtain b m a where s: "s = (b, m, a)" by (cases s)
  show "length (qp_link_pending g w s) \<le> qp_link_room g s"
    using inv ump.pending_bounded[of w "ump_view s"] ffq.pending_bounded[of w "ffq_view s"]
      shm.pending_bounded[of "shm_view s"]
    by (cases g) (simp_all add: s qp_link_pending_def qp_link_room_def)
qed

section \<open>Creation\<close>

fun qp_capacity :: "qp_fn \<Rightarrow> nat" where
  "qp_capacity Fn_ump = 63"
| "qp_capacity Fn_ffq = 64"
| "qp_capacity Fn_shm = 61"
| "qp_capacity Fn_null = 0"

text \<open>The backend a type selects, for messages of \<open>w\<close> words.\<close>

fun qp_selects :: "smlt_qp_type_t \<Rightarrow> qp_fn \<Rightarrow> nat \<Rightarrow> bool" where
  "qp_selects SMLT_QP_TYPE_UMP g w \<longleftrightarrow> g = Fn_ump \<and> w \<le> 7"
| "qp_selects SMLT_QP_TYPE_FFQ g w \<longleftrightarrow> g = Fn_ffq \<and> 0 < w \<and> w \<le> 8"
| "qp_selects SMLT_QP_TYPE_SHM g w \<longleftrightarrow> g = Fn_shm \<and> w = 7"
| "qp_selects SMLT_QP_TYPE_INVALID g w \<longleftrightarrow> False"

text \<open>
  What the backends need of libnuma: the two blocks of a UMP or FFQ queue pair, allocated behind the
  two structures, do not overlap, and the block of a shared-memory ring is fresh zero pages.
\<close>

definition qp_heap :: "(u64 \<Rightarrow> u8 \<Rightarrow> 'h \<Rightarrow> addr \<times> 'h) \<Rightarrow> int \<Rightarrow> u8 \<Rightarrow> u8 \<Rightarrow> 'h \<times> mem \<Rightarrow> 'h" where
  "qp_heap na mx ns nd w =
     fst (snd (smlt_platform_alloc_on_node na mx 512 64 nd True (snd (smlt_platform_alloc_on_node na mx 512 64 ns True w))))"

fun qp_numa_ok ::
  "(u64 \<Rightarrow> u8 \<Rightarrow> 'h \<Rightarrow> addr \<times> 'h) \<Rightarrow> u8 \<Rightarrow> u8 \<Rightarrow> 'h \<Rightarrow> smlt_qp_type_t \<Rightarrow> smlt_qp \<Rightarrow> mem \<Rightarrow> bool"
where
  "qp_numa_ok na ns nd h SMLT_QP_TYPE_UMP src m \<longleftrightarrow> numa_blocks_ok na (65 * 64 + 4096 + 16) nd ns h"
| "qp_numa_ok na ns nd h SMLT_QP_TYPE_FFQ src m \<longleftrightarrow> numa_blocks_ok na (64 * 64 + 4096 + 16) ns nd h"
| "qp_numa_ok na ns nd h SMLT_QP_TYPE_SHM src m \<longleftrightarrow>
     (\<forall>j < 512. m (cell (sc_shm (sqp_src (qp_queue_tx src))) j) = 0)"
| "qp_numa_ok na ns nd h SMLT_QP_TYPE_INVALID src m \<longleftrightarrow> True"

lemma ump_init_ok:
  assumes "smlt_ump_queuepair_init alloc free n ns nd ps pd s0 d0 w = (err, s, d, w')" "\<not> smlt_err_is_fail err"
  shows "err = errval SMLT_SUCCESS"
  using assms unfolding smlt_ump_queuepair_init_def Let_def
  by (auto simp: smlt_err_is_fail_errval smlt_err_is_fail_push split: prod.splits if_splits)

lemma ffq_init_ok:
  assumes "smlt_ffq_queuepair_init alloc free n ns nd s0 d0 w = (err, s, d, w')" "\<not> smlt_err_is_fail err"
  shows "err = errval SMLT_SUCCESS"
  using assms unfolding smlt_ffq_queuepair_init_def Let_def
  by (auto simp: smlt_err_is_fail_errval split: prod.splits if_splits)

lemma qp_create_ump:
  assumes "smlt_queuepair_create na nf mx node SMLT_QP_TYPE_UMP cs cd w = Returns (errval SMLT_SUCCESS, Some (src, dst), h', m')"
  shows "\<exists>m ps pd. smlt_ump_queuepair_init (smlt_platform_alloc_on_node na mx) (smlt_platform_free nf)
           64 (node cs) (node cd) ps pd ump_queuepair_zero ump_queuepair_zero (qp_heap na mx (node cs) (node cd) w, m) =
           (errval SMLT_SUCCESS, qp_ump src, qp_ump dst, h', m') \<and> qp_f src = qp_fns Fn_ump \<and> qp_f dst = qp_fns Fn_ump"
proof -
  let ?alloc = "smlt_platform_alloc_on_node na mx"
  obtain ps w1 where 1: "?alloc 512 64 (node cs) True w = (ps, w1)" by (meson surj_pair)
  obtain pd h2 m2 where 2: "?alloc 512 64 (node cd) True w1 = (pd, h2, m2)" using prod_cases3 by blast
  obtain err us ud w3 where 3: "smlt_ump_queuepair_init ?alloc (smlt_platform_free nf) 64 (node cs) (node cd)
     (ps + 64) (pd + 64) ump_queuepair_zero ump_queuepair_zero (h2, m2) = (err, us, ud, w3)" using prod_cases4 by blast
  have h: "qp_heap na mx (node cs) (node cd) w = h2" using 1 2 by (simp add: qp_heap_def)
  have r: "\<not> smlt_err_is_fail err" "src = smlt_qp_zero\<lparr>qp_type := SMLT_QP_TYPE_UMP, qp_ump := us, qp_f := qp_fns Fn_ump\<rparr>"
    "dst = smlt_qp_zero\<lparr>qp_type := SMLT_QP_TYPE_UMP, qp_ump := ud, qp_f := qp_fns Fn_ump\<rparr>" "w3 = (h', m')"
    using assms 1 2 3 by (auto simp: smlt_queuepair_create_def smlt_qp_zero_def Let_def split: if_splits)
  show ?thesis using 3 r(2-4) ump_init_ok[OF 3 r(1)] h by auto
qed

lemma qp_create_ffq:
  assumes "smlt_queuepair_create na nf mx node SMLT_QP_TYPE_FFQ cs cd w = Returns (errval SMLT_SUCCESS, Some (src, dst), h', m')"
  shows "\<exists>m. smlt_ffq_queuepair_init (smlt_platform_alloc_on_node na mx) (smlt_platform_free nf)
           64 (node cs) (node cd) ffq_queuepair_zero ffq_queuepair_zero (qp_heap na mx (node cs) (node cd) w, m) =
           (errval SMLT_SUCCESS, qp_ffq src, qp_ffq dst, h', m') \<and> qp_f src = qp_fns Fn_ffq \<and> qp_f dst = qp_fns Fn_ffq"
proof -
  let ?alloc = "smlt_platform_alloc_on_node na mx"
  obtain ps w1 where 1: "?alloc 512 64 (node cs) True w = (ps, w1)" by (meson surj_pair)
  obtain pd h2 m2 where 2: "?alloc 512 64 (node cd) True w1 = (pd, h2, m2)" using prod_cases3 by blast
  obtain err us ud w3 where 3: "smlt_ffq_queuepair_init ?alloc (smlt_platform_free nf) 64 (node cs) (node cd)
     ffq_queuepair_zero ffq_queuepair_zero (h2, m2) = (err, us, ud, w3)" using prod_cases4 by blast
  have h: "qp_heap na mx (node cs) (node cd) w = h2" using 1 2 by (simp add: qp_heap_def)
  have r: "\<not> smlt_err_is_fail err" "src = smlt_qp_zero\<lparr>qp_type := SMLT_QP_TYPE_FFQ, qp_ffq := us, qp_f := qp_fns Fn_ffq\<rparr>"
    "dst = smlt_qp_zero\<lparr>qp_type := SMLT_QP_TYPE_FFQ, qp_ffq := ud, qp_f := qp_fns Fn_ffq\<rparr>" "w3 = (h', m')"
    using assms 1 2 3 by (auto simp: smlt_queuepair_create_def smlt_qp_zero_def Let_def split: if_splits)
  show ?thesis using 3 r(2-4) ffq_init_ok[OF 3 r(1)] h by auto
qed

lemma qp_create_shm:
  assumes "smlt_queuepair_create na nf mx node SMLT_QP_TYPE_SHM cs cd w = Returns (errval SMLT_SUCCESS, Some (src, dst), h', m')"
  shows "\<exists>h1 h2. shm_queuepair_create na node cs cd h1 = Some (qp_queue_tx src, h2) \<and>
     qp_queue_rx dst = qp_queue_tx src \<and> qp_f src = qp_fns Fn_shm \<and> qp_f dst = qp_fns Fn_shm"
  using assms
  by (auto simp: smlt_queuepair_create_def smlt_qp_zero_def Let_def split: if_splits prod.splits option.splits) blast

lemma qp_create_link:
  assumes call: "smlt_queuepair_create na nf mx node type cs cd w = Returns (errval SMLT_SUCCESS, Some (src, dst), h', m')"
    and sel: "qp_selects type g wd"
    and numa: "qp_numa_ok na (node cs) (node cd) (qp_heap na mx (node cs) (node cd) w) type src m'"
  shows "qp_link_inv g wd (dst, m', src)" "qp_link_pending g wd (dst, m', src) = []"
    "qp_link_room g (dst, m', src) = qp_capacity g"
proof -
  note defs = qp_link_pending_def qp_link_room_def qp_views
  have "qp_link_inv g wd (dst, m', src) \<and> qp_link_pending g wd (dst, m', src) = [] \<and>
    qp_link_room g (dst, m', src) = qp_capacity g"
  proof (cases type)
    case SMLT_QP_TYPE_INVALID
    then show ?thesis using sel by simp
  next
    case SMLT_QP_TYPE_UMP
    obtain m ps pd where i: "smlt_ump_queuepair_init (smlt_platform_alloc_on_node na mx) (smlt_platform_free nf)
           64 (node cs) (node cd) ps pd ump_queuepair_zero ump_queuepair_zero (qp_heap na mx (node cs) (node cd) w, m) =
           (errval SMLT_SUCCESS, qp_ump src, qp_ump dst, h', m')" "qp_f src = qp_fns Fn_ump" "qp_f dst = qp_fns Fn_ump"
      using qp_create_ump[OF call[unfolded SMLT_QP_TYPE_UMP]] by blast
    have "numa_blocks_ok na ((ucast (64 :: u16) + 1) * 64 + 4096 + 16) (node cd) (node cs) (qp_heap na mx (node cs) (node cd) w)"
      using numa SMLT_QP_TYPE_UMP by simp
    from ump_init_connects[OF i(1) this, of wd] i(2,3) sel SMLT_QP_TYPE_UMP
    show ?thesis by (simp add: defs ump_duplex_def)
  next
    case SMLT_QP_TYPE_FFQ
    obtain m where i: "smlt_ffq_queuepair_init (smlt_platform_alloc_on_node na mx) (smlt_platform_free nf)
           64 (node cs) (node cd) ffq_queuepair_zero ffq_queuepair_zero (qp_heap na mx (node cs) (node cd) w, m) =
           (errval SMLT_SUCCESS, qp_ffq src, qp_ffq dst, h', m')" "qp_f src = qp_fns Fn_ffq" "qp_f dst = qp_fns Fn_ffq"
      using qp_create_ffq[OF call[unfolded SMLT_QP_TYPE_FFQ]] by blast
    have "numa_blocks_ok na (ucast (64 :: u16) * 64 + 4096 + 16) (node cs) (node cd) (qp_heap na mx (node cs) (node cd) w)"
      using numa SMLT_QP_TYPE_FFQ by simp
    from ffq_init_connects[OF i(1) this, of wd] i(2,3) sel SMLT_QP_TYPE_FFQ
    show ?thesis by (simp add: defs)
  next
    case SMLT_QP_TYPE_SHM
    obtain h1 h2 where i: "shm_queuepair_create na node cs cd h1 = Some (qp_queue_tx src, h2)"
      "qp_queue_rx dst = qp_queue_tx src" "qp_f src = qp_fns Fn_shm" "qp_f dst = qp_fns Fn_shm"
      using qp_create_shm[OF call[unfolded SMLT_QP_TYPE_SHM]] by blast
    obtain shm where q: "qp_queue_tx src = \<lparr>sqp_src = shm_fresh shm, sqp_dst = shm_fresh shm\<rparr>"
      using shm_create_fresh[OF i(1)] by blast
    have z: "m' (cell shm j) = 0" if "j < 512" for j
      using numa that q SMLT_QP_TYPE_SHM by (simp add: shm_fresh_def)
    show ?thesis using shm_fresh_link[of m' shm, OF z] i(2-4) q sel SMLT_QP_TYPE_SHM by (simp add: defs)
  qed
  then show "qp_link_inv g wd (dst, m', src)" "qp_link_pending g wd (dst, m', src) = []"
    "qp_link_room g (dst, m', src) = qp_capacity g" by blast+
qed

section \<open>The blocking send\<close>

text \<open>The other side as an environment that receives once before every attempt.\<close>

definition qp_receiver :: "nat \<Rightarrow> nat \<Rightarrow> smlt_qp \<times> mem \<Rightarrow> smlt_qp \<times> mem" where
  "qp_receiver w k = (\<lambda>(b, m). let (r, b', m', a) = qp_link_recv w (b, m, smlt_qp_zero) in (b', m'))"

lemma qp_recv_frame: "qp_link_recv w (b, m, a) = (r, b', m', a') \<Longrightarrow>
  g \<in> {Fn_ump, Fn_ffq} \<Longrightarrow> qp_f b = qp_fns g \<Longrightarrow> qp_receiver w k (b, m) = (b', m') \<and> a' = a"
  by (auto simp: qp_receiver_def qp_link_recv_def smlt_queuepair_try_recv_def qp_fns_def split: prod.splits)

text \<open>An attempt on the two polling backends returns, does not depend on the environment, and fails only on a full queue.\<close>

lemma ffq_send_two_results:
  "fst (smlt_ffq_queuepair_send m a msg) \<in> {errval SMLT_SUCCESS, errval SMLT_ERR_QUEUE_FULL}"
  by (simp add: smlt_ffq_queuepair_send_def smlt_ffq_queuepair_send_raw_def smlt_ffq_queue_send_raw_def Let_def)

lemma qp_try_send_polling:
  assumes "g \<in> {Fn_ump, Fn_ffq}" "qp_f a = qp_fns g" "qp_link_send x (b, m, a) = (ok, s')"
  shows "smlt_queuepair_try_send env fuel (msg_of x) (b, m, a) =
           Returns (if ok then errval SMLT_SUCCESS else errval SMLT_ERR_QUEUE_FULL, s')"
proof (cases "g = Fn_ump")
  case True
  then show ?thesis
    using assms(2,3) try_send_two_results[of m "qp_ump a" "msg_of x"]
    by (auto simp: qp_link_send_def smlt_queuepair_try_send_def qp_fns_def smlt_err_is_ok_errval split: prod.splits)
next
  case False
  then show ?thesis
    using assms ffq_send_two_results[of m "qp_ffq a" "msg_of x"]
    by (auto simp: qp_link_send_def smlt_queuepair_try_send_def qp_fns_def smlt_err_is_ok_errval split: prod.splits)
qed

lemma qp_send_retries:
  assumes "qp_link_inv g w (b, m, a)" "g \<in> {Fn_ump, Fn_ffq}" "qp_good g w x"
    "length (qp_link_pending g w (b, m, a)) < fuel"
  shows "\<exists>s'. retry (\<lambda>err. err = errval SMLT_ERR_QUEUE_FULL) (lift_env (qp_receiver w))
           (\<lambda>k. smlt_queuepair_try_send (\<lambda>j. qp_receiver w (k + j)) n (msg_of x)) k fuel (b, m, a) =
           Returns (errval SMLT_SUCCESS, s') \<and> qp_link_inv g w s' \<and>
           (\<exists>ys zs. qp_link_pending g w (b, m, a) = zs @ ys \<and> qp_link_pending g w s' = ys @ [x])"
  using assms
proof (induction fuel arbitrary: b m a k)
  case (Suc fuel)
  obtain r b1 m1 a1 where 1: "qp_link_recv w (b, m, a) = (r, b1, m1, a1)" using prod_cases4 by blast
  have fb: "qp_f b = qp_fns g" using Suc.prems(1) by simp
  note env = qp_recv_frame[OF 1 Suc.prems(2) fb, of k]
  then have a1: "a1 = a" by simp
  note r1 = qp_recv_step[OF Suc.prems(1) 1[unfolded a1]]
  obtain ok b2 m2 a2 where 2: "qp_link_send x (b1, m1, a) = (ok, b2, m2, a2)" using prod_cases4 by blast
  have fa: "qp_f a = qp_fns g" using Suc.prems(1) by simp
  note att = qp_try_send_polling[OF Suc.prems(2) fa 2]
  note r2 = qp_send_step[OF conjunct1[OF r1] Suc.prems(3) 2]
  let ?pre = "case r of None \<Rightarrow> [] | Some x \<Rightarrow> [x]"
  let ?loop = "retry (\<lambda>err. err = errval SMLT_ERR_QUEUE_FULL) (lift_env (qp_receiver w))
           (\<lambda>k. smlt_queuepair_try_send (\<lambda>j. qp_receiver w (k + j)) n (msg_of x))"
  have e: "lift_env (qp_receiver w) k (b, m, a) = (b1, m1, a)" using env by (simp add: lift_env_def)
  show ?case
  proof (cases ok)
    case True
    have "qp_link_pending g w (b, m, a) = ?pre @ qp_link_pending g w (b1, m1, a)"
      "qp_link_pending g w (b2, m2, a2) = qp_link_pending g w (b1, m1, a) @ [x]" using r1 r2 True by simp_all
    moreover have "?loop k (Suc fuel) (b, m, a) = Returns (errval SMLT_SUCCESS, b2, m2, a2)"
      using e att True by (simp add: errval_eq_iff)
    ultimately show ?thesis using conjunct1[OF r2] by blast
  next
    case False
    then have "length (qp_link_pending g w (b2, m2, a2)) < fuel"
      using Suc.prems(4) r1 r2 by (cases r) auto
    from Suc.IH[OF conjunct1[OF r2] Suc.prems(2,3) this, of "Suc k"] False obtain s' ys zs where
      ih: "?loop (Suc k) fuel (b2, m2, a2) = Returns (errval SMLT_SUCCESS, s')" "qp_link_inv g w s'"
      "qp_link_pending g w (b2, m2, a2) = zs @ ys" "qp_link_pending g w s' = ys @ [x]" by blast
    have "qp_link_pending g w (b, m, a) = (?pre @ zs) @ ys" using r1 r2 False ih(3) by simp
    moreover have "?loop k (Suc fuel) (b, m, a) = Returns (errval SMLT_SUCCESS, s')"
      using e att False ih(1) by simp
    ultimately show ?thesis using ih(2,4) by blast
  qed
qed simp

section \<open>Properties\<close>

text \<open>
  Claim C10: a queue pair is a first-in first-out channel for the messages its backend can carry: over UMP
  messages of a fixed number of at most seven words, over FFQ messages of a fixed number of one to eight
  words whose first word is not the mark of an empty slot, over shared memory messages of seven words.
  Over any interleaving of sends of such messages and of receives through the function pointers, what the
  receiver got followed by what is pending is exactly what the sender's calls reported as sent; at most
  63 (UMP), 64 (FFQ) or 61 (shared memory) messages are under way; and a send of such a message into an
  empty queue pair is never refused. Of libnuma it is assumed that the two rings do not overlap, and that
  a shared-memory ring is fresh zero pages.
\<close>

theorem queuepair_fifo:
  assumes "smlt_queuepair_create na nf mx node type cs cd w = Returns (errval SMLT_SUCCESS, Some (src, dst), h', m')"
    and "qp_selects type g wd"
    and "qp_numa_ok na (node cs) (node cd) (qp_heap na mx (node cs) (node cd) w) type src m'"
    and "\<forall>x. Send x \<in> set ops \<longrightarrow> qp_good g wd x"
    and "chan_run qp_link_send (qp_link_recv wd) ops (dst, m', src) = (acc, del, s')"
  shows "acc = del @ qp_link_pending g wd s' \<and> length acc \<le> length del + qp_capacity g \<and>
         (qp_link_pending g wd s' = [] \<longrightarrow> (\<forall>x. qp_good g wd x \<longrightarrow> fst (qp_link_send x s')))"
proof -
  note link = qp_create_link[OF assms(1-3)]
  have ok: "list_all (op_ok (qp_good g wd)) ops" using assms(4) by (intro ops_okI) blast
  have inv: "qp_link_inv g wd s'" using qp.run_fifo[OF link(1) ok assms(5)] by blast
  have "fst (qp_link_send x s')" if "qp_link_pending g wd s' = []" "qp_good g wd x" for x
    using qp_send_step[OF inv that(2) surjective_pairing] that(1) by simp
  then show ?thesis using qp.run_prefix[OF link(1,2) ok assms(5)] link(3) by simp
qed

theorem queuepair_fifo_witness:
  "\<exists>src dst h' m' acc del s'.
     smlt_queuepair_create (\<lambda>sz n h. (h, h + 65536)) (\<lambda>b sz h. h) 3 (\<lambda>c. ucast c) SMLT_QP_TYPE_UMP 0 1 (65536, \<lambda>_. 5) =
       Returns (errval SMLT_SUCCESS, Some (src, dst), h', m') \<and>
     chan_run qp_link_send (qp_link_recv 2) [Send [7, 8], Recv] (dst, m', src) = (acc, del, s') \<and>
     acc = del @ qp_link_pending Fn_ump 2 s'"
proof -
  let ?na = "\<lambda>(sz :: u64) (n :: u8) (h :: u64). (h, h + 65536)"
  have "SMLT_MEM_IS_POWER_OF_TWO 4096" "SMLT_MEM_IS_POWER_OF_TWO 64" by (simp_all add: SMLT_MEM_IS_POWER_OF_TWO_def)
  then obtain src dst h' m' where c: "smlt_queuepair_create ?na (\<lambda>b sz h. h) 3 (\<lambda>c. ucast c) SMLT_QP_TYPE_UMP 0 1 (65536, \<lambda>_. 5) =
       Returns (errval SMLT_SUCCESS, Some (src, dst), h', m')"
    by (simp add: smlt_queuepair_create_def smlt_ump_queuepair_init_def ump_queuepair_zero_def init_tx_eq init_rx_eq Let_def
        smlt_platform_alloc_on_node_def SMLT_MEM_ALIGN_def smlt_err_is_fail_errval)
  obtain acc del s' where r: "chan_run qp_link_send (qp_link_recv 2) [Send [7, 8], Recv] (dst, m', src) = (acc, del, s')"
    using prod_cases3 by blast
  have "qp_numa_ok ?na 0 1 (qp_heap ?na 3 0 1 (65536, \<lambda>_. 5)) SMLT_QP_TYPE_UMP src m'"
    by (simp add: numa_blocks_ok_def qp_heap_def smlt_platform_alloc_on_node_def Let_def SMLT_MEM_IS_POWER_OF_TWO_def
        SMLT_MEM_ALIGN_def)
  then have "acc = del @ qp_link_pending Fn_ump 2 s'"
    using queuepair_fifo[OF c _ _ _ r, of Fn_ump] by (simp add: qp_good_def)
  then show ?thesis using c r by blast
qed

text \<open>
  Claim C34: the blocking \<open>smlt_queuepair_send\<close> over UMP and FFQ terminates against an active receiver.
  If the receiver takes one message before each attempt, one attempt per pending message and one more
  are enough: the call returns success and the new message is the last one pending.
\<close>

theorem queuepair_send_returns:
  assumes "qp_link_inv g w (b, m, a)" "g \<in> {Fn_ump, Fn_ffq}" "qp_good g w x"
    and "length (qp_link_pending g w (b, m, a)) < fuel"
  shows "\<exists>s'. smlt_queuepair_send (qp_receiver w) fuel (msg_of x) (b, m, a) = Returns (errval SMLT_SUCCESS, s') \<and>
           qp_link_inv g w s' \<and>
           (\<exists>ys zs. qp_link_pending g w (b, m, a) = zs @ ys \<and> qp_link_pending g w s' = ys @ [x])"
  unfolding smlt_queuepair_send_def by (rule qp_send_retries[OF assms])

theorem queuepair_send_returns_witness:
  "\<exists>s'. smlt_queuepair_send (qp_receiver 1) 1 (msg_of [9])
     (smlt_qp_zero\<lparr>qp_ump := demo_b 3, qp_f := qp_fns Fn_ump\<rparr>, \<lambda>_. 0, smlt_qp_zero\<lparr>qp_ump := demo_a 3, qp_f := qp_fns Fn_ump\<rparr>) =
     Returns (errval SMLT_SUCCESS, s') \<and> qp_link_pending Fn_ump 1 s' = [[9]]"
proof -
  let ?b = "smlt_qp_zero\<lparr>qp_ump := demo_b 3, qp_f := qp_fns Fn_ump\<rparr>" and ?a = "smlt_qp_zero\<lparr>qp_ump := demo_a 3, qp_f := qp_fns Fn_ump\<rparr>"
  have "qp_link_inv Fn_ump 1 (?b, \<lambda>_. 0, ?a)" "qp_link_pending Fn_ump 1 (?b, \<lambda>_. 0, ?a) = []"
    using demo_link(1)[of 1] demo_duplex(2)[of 1 3] by (simp_all add: ump_view_def qp_link_pending_def)
  from queuepair_send_returns[OF this(1), of "[9]" 1] this(2) show ?thesis by (auto simp: qp_good_def)
qed

end
