(* ===== verification/Swmr_Refine.thy ===== *)
theory Swmr_Refine
  imports Swmr_Queue
begin

text \<open>
  The single-writer multiple-reader queue delivers every message to every reader, in order. The
  invariant relates the writer, all readers and the memory through the number of messages sent,
  the number each reader has received, and the writer's next synchronisation point.
\<close>

section \<open>Published positions\<close>

text \<open>The position a reader has published after \<open>r\<close> messages.\<close>

fun swmr_published :: "nat \<Rightarrow> nat" where
  "swmr_published 0 = 0"
| "swmr_published (Suc r) = (if (of_nat (r + 2) :: u64) AND 0x20 = 0 then Suc r else swmr_published r)"

lemma bit5_clear: "(of_nat k :: u64) AND 0x20 = 0 \<longleftrightarrow> k mod 64 < 32"
proof -
  have "(of_nat k :: u64) AND 0x20 = 0 \<longleftrightarrow> \<not> bit (of_nat k :: u64) 5"
    using and_exp_eq_0_iff_not_bit[of "of_nat k :: u64" 5] by simp
  also have "\<dots> \<longleftrightarrow> \<not> bit k 5" by (simp add: bit_simps)
  also have "\<dots> \<longleftrightarrow> even (k div 32)" by (simp add: bit_iff_odd)
  also have "\<dots> \<longleftrightarrow> k mod 64 < 32"
  proof -
    have "k mod 64 = 32 * (k div 32 mod 2) + k mod 32" using mod_mult2_eq[of k 32 2] by simp
    then show ?thesis by (cases "even (k div 32)") (simp_all add: even_iff_mod_2_eq_zero odd_iff_mod_2_eq_one)
  qed
  finally show ?thesis .
qed

lemma swmr_published_le: "swmr_published r \<le> r"
  by (induction r) auto

lemma swmr_published_lag:
  "r = swmr_published r + (if (r + 1) mod 64 < 32 then 0 else (r + 1) mod 64 - 31)"
proof (induction r)
  case 0
  then show ?case by simp
next
  case (Suc r)
  have "(Suc r + 1) mod 64 = (if Suc ((r + 1) mod 64) = 64 then 0 else Suc ((r + 1) mod 64))"
    using Suc_mod_eq[of 64 "r + 1"] by simp
  moreover have "(of_nat (r + 2) :: u64) AND 0x20 = 0 \<longleftrightarrow> (Suc r + 1) mod 64 < 32"
    using bit5_clear[of "r + 2"] by simp
  moreover have "(r + 1) mod 64 < 64" by simp
  ultimately show ?case using Suc.IH by (auto split: if_splits)
qed

lemma swmr_published_lag_le: "r - swmr_published r \<le> 32"
proof -
  have "(r + 1) mod 64 < 64" by simp
  then show ?thesis using swmr_published_lag[of r] by (auto split: if_splits)
qed

text \<open>The minimum the writer computes, on natural numbers.\<close>

fun min_published :: "(nat \<Rightarrow> nat) \<Rightarrow> nat \<Rightarrow> nat" where
  "min_published P 0 = 2 ^ 32 - 1"
| "min_published P (Suc i) = min (min_published P i) (P i)"

lemma min_published_le: "i < n \<Longrightarrow> min_published P n \<le> P i"
  by (induction n) (auto simp: less_Suc_eq min_def)

lemma min_published_cap: "min_published P n \<le> 2 ^ 32 - 1"
  by (induction n) auto

lemma min_published_ge: "(\<And>i. i < n \<Longrightarrow> b \<le> P i) \<Longrightarrow> b \<le> 2 ^ 32 - 1 \<Longrightarrow> b \<le> min_published P n"
  by (induction n) auto

lemma swmr_min_pos_eq:
  assumes "\<And>i. i < n \<Longrightarrow> m (rp + 64 * of_nat i) = of_nat (P i)" "\<And>i. i < n \<Longrightarrow> P i < 2 ^ 64"
  shows "swmr_min_pos m rp n = of_nat (min_published P n)"
  using assms
proof (induction n)
  case 0
  then show ?case by simp
next
  case (Suc n)
  have ih: "swmr_min_pos m rp n = of_nat (min_published P n)" using Suc by simp
  have "min_published P n < 2 ^ LENGTH(64)" using min_published_cap[of P n] by simp
  then have a: "unat (of_nat (min_published P n) :: u64) = min_published P n" by (rule unat_of_nat_small)
  have "P n < 2 ^ LENGTH(64)" using Suc.prems(2)[of n] by simp
  then have b: "unat (of_nat (P n) :: u64) = P n" by (rule unat_of_nat_small)
  have "(of_nat (P n) :: u64) < of_nat (min_published P n) \<longleftrightarrow> P n < min_published P n"
    using a b by (simp only: word_less_nat_alt)
  then show ?case using Suc.prems(1)[of n] by (simp add: ih Let_def min_def)
qed

section \<open>Geometry\<close>

abbreviation wsize :: "swmr_context \<Rightarrow> nat" where "wsize c \<equiv> unat (wc_num_slots c)"
abbreviation wreaders :: "swmr_context \<Rightarrow> nat" where "wreaders c \<equiv> unat (wc_num_readers c)"

text \<open>
  The lines of the block: one per reader, one unused, the slots, and the header lines, which start
  at line \<open>hb\<close> and are either the slots themselves or lie behind them.
\<close>

definition swmr_placed :: "nat \<Rightarrow> swmr_context \<Rightarrow> bool" where
  "swmr_placed hb c \<longleftrightarrow> wc_readers_pos c = wc_shm c \<and>
     wc_data c = cell (wc_shm c) (8 * (wreaders c + 1)) \<and> wc_header c = cell (wc_shm c) (8 * hb) \<and>
     (hb = wreaders c + 1 \<or> wreaders c + 1 + wsize c \<le> hb) \<and>
     3 \<le> wsize c \<and> wsize c < 65536 \<and> hb < 2 ^ 20"

definition swmr_same :: "swmr_context \<Rightarrow> swmr_context \<Rightarrow> bool" where
  "swmr_same c d \<longleftrightarrow> wc_shm c = wc_shm d \<and> wc_data c = wc_data d \<and> wc_header c = wc_header d \<and>
     wc_readers_pos c = wc_readers_pos d \<and> wc_num_readers c = wc_num_readers d \<and>
     wc_num_slots c = wc_num_slots d"

definition hword :: "nat \<Rightarrow> swmr_context \<Rightarrow> nat \<Rightarrow> addr" where
  "hword hb c s = cell (wc_shm c) (8 * (hb + s mod wsize c))"

definition dword :: "swmr_context \<Rightarrow> nat \<Rightarrow> nat \<Rightarrow> addr" where
  "dword c s j = cell (wc_shm c) (8 * (wreaders c + 1 + s mod wsize c) + Suc j)"

definition pword :: "swmr_context \<Rightarrow> nat \<Rightarrow> addr" where
  "pword c i = cell (wc_shm c) (8 * i)"

lemma swmr_bounds:
  assumes "swmr_placed hb c"
  shows "0 < wsize c" "s mod wsize c < wsize c" "s mod wsize c < 65536" "wsize c < 65536"
    "wreaders c < 256" "hb < 2 ^ 20"
proof -
  show n: "0 < wsize c" "wsize c < 65536" "hb < 2 ^ 20" using assms unfolding swmr_placed_def by linarith+
  show "s mod wsize c < wsize c" using n(1) by (rule mod_less_divisor)
  then show "s mod wsize c < 65536" using n(2) by linarith
  have "wreaders c < 2 ^ LENGTH(8)" by (rule unsigned_less)
  then show "wreaders c < 256" by simp
qed

lemma swmr_lines:
  assumes p: "swmr_placed hb c"
  shows "hword hb c s = hword hb c t \<longleftrightarrow> s mod wsize c = t mod wsize c"
    "k < 7 \<Longrightarrow> hword hb c s \<noteq> dword c t k"
    "i < wreaders c \<Longrightarrow> k < 7 \<Longrightarrow> pword c i \<noteq> dword c t k"
    "i < wreaders c \<Longrightarrow> pword c i \<noteq> hword hb c t"
    "i < wreaders c \<Longrightarrow> i' < wreaders c \<Longrightarrow> pword c i' = pword c i \<longleftrightarrow> i' = i"
    "j < 7 \<Longrightarrow> k < 7 \<Longrightarrow> dword c s j = dword c t k \<longleftrightarrow> s mod wsize c = t mod wsize c \<and> j = k"
proof -
  note b = swmr_bounds(2,3)[OF p, of s] swmr_bounds(2,3)[OF p, of t] swmr_bounds(5,6)[OF p]
  have lines: "hb = wreaders c + 1 \<or> wreaders c + 1 + wsize c \<le> hb"
    using p by (simp add: swmr_placed_def)
  have "hword hb c s = hword hb c t \<longleftrightarrow> 8 * (hb + s mod wsize c) = 8 * (hb + t mod wsize c)"
    unfolding hword_def by (rule cell_eq_iff) (use b in simp_all)
  then show "hword hb c s = hword hb c t \<longleftrightarrow> s mod wsize c = t mod wsize c" by simp
  show "hword hb c s \<noteq> dword c t k" if "k < 7"
  proof -
    have "hword hb c s = dword c t k \<longleftrightarrow> 8 * (hb + s mod wsize c) = 8 * (wreaders c + 1 + t mod wsize c) + Suc k"
      unfolding hword_def dword_def by (rule cell_eq_iff) (use b that in simp_all)
    then show ?thesis
      using line_word_eq_iff[of 0 "Suc k" "hb + s mod wsize c" "wreaders c + 1 + t mod wsize c"] that by simp
  qed
  show "pword c i \<noteq> dword c t k" if "i < wreaders c" "k < 7"
  proof -
    have "pword c i = dword c t k \<longleftrightarrow> 8 * i = 8 * (wreaders c + 1 + t mod wsize c) + Suc k"
      unfolding pword_def dword_def by (rule cell_eq_iff) (use b that in simp_all)
    then show ?thesis using that by simp
  qed
  show "pword c i \<noteq> hword hb c t" if "i < wreaders c"
  proof -
    have "pword c i = hword hb c t \<longleftrightarrow> 8 * i = 8 * (hb + t mod wsize c)"
      unfolding pword_def hword_def by (rule cell_eq_iff) (use b that in simp_all)
    then show ?thesis using that lines by auto
  qed
  show "pword c i' = pword c i \<longleftrightarrow> i' = i" if "i < wreaders c" "i' < wreaders c"
  proof -
    have "pword c i' = pword c i \<longleftrightarrow> 8 * i' = 8 * i"
      unfolding pword_def by (rule cell_eq_iff) (use b that in simp_all)
    then show ?thesis by simp
  qed
  show "dword c s j = dword c t k \<longleftrightarrow> s mod wsize c = t mod wsize c \<and> j = k" if "j < 7" "k < 7"
  proof -
    have "dword c s j = dword c t k \<longleftrightarrow>
        8 * (wreaders c + 1 + s mod wsize c) + Suc j = 8 * (wreaders c + 1 + t mod wsize c) + Suc k"
      unfolding dword_def by (rule cell_eq_iff) (use b that in simp_all)
    then show ?thesis using that line_word_eq_iff[of "Suc j" "Suc k"] by auto
  qed
qed

lemma swmr_addresses:
  assumes p: "swmr_placed hb c" and l: "wc_l_pos c = of_nat (s mod wsize c)"
  shows "wc_header c + 64 * ucast (wc_l_pos c) = hword hb c s"
    "cell (wc_data c + 64 * ucast (wc_l_pos c) + 8) j = dword c s j"
    "i < 256 \<Longrightarrow> wc_readers_pos c + 64 * of_nat i = pword c i"
proof -
  have u: "unat (wc_l_pos c) = s mod wsize c"
    using swmr_bounds(3)[OF p, of s] by (simp add: l unat_index del: unsigned_of_nat)
  show "wc_header c + 64 * ucast (wc_l_pos c) = hword hb c s"
    using p by (simp add: line_cell u hword_def swmr_placed_def distrib_left)
  have "wc_data c + 64 * ucast (wc_l_pos c) + 8 = cell (wc_shm c) (8 * (wreaders c + 1 + s mod wsize c) + 1)"
    using p by (simp add: line_cell u swmr_placed_def distrib_left) (simp add: cell_def)
  then show "cell (wc_data c + 64 * ucast (wc_l_pos c) + 8) j = dword c s j"
    by (simp add: dword_def add.assoc)
  show "wc_readers_pos c + 64 * of_nat i = pword c i" if "i < 256"
    using p by (simp add: pword_def cell_def swmr_placed_def)
qed

section \<open>The invariant\<close>

definition swmr_reader_ok ::
  "nat \<Rightarrow> nat \<Rightarrow> mem \<Rightarrow> swmr_context \<Rightarrow> nat \<Rightarrow> swmr_context \<Rightarrow> nat \<Rightarrow> bool"
where
  "swmr_reader_ok S T m c i r R \<longleftrightarrow>
     swmr_same r c \<and> wc_id r = of_nat i \<and> wc_l_pos r = of_nat (R mod wsize c) \<and>
     wc_next_seq r = of_nat (R + 1) \<and> R \<le> S \<and>
     m (pword c i) = of_nat (swmr_published R) \<and> T \<le> swmr_published R + wsize c - 1"

text \<open>
  \<open>S\<close> messages sent, \<open>Rs ! i\<close> received by reader \<open>i\<close>, \<open>T\<close> the next synchronisation point. The headers
  of the last round carry their sequence numbers, the next ones do not.
\<close>

definition swmr_dir ::
  "nat \<Rightarrow> nat \<Rightarrow> nat list \<Rightarrow> nat \<Rightarrow> mem \<Rightarrow> swmr_context \<Rightarrow> swmr_context list \<Rightarrow> bool"
where
  "swmr_dir hb S Rs T m c rs \<longleftrightarrow>
     swmr_placed hb c \<and> length rs = wreaders c \<and> length Rs = wreaders c \<and>
     wc_l_pos c = of_nat (lazy_pos (wsize c) S) \<and> wc_next_seq c = of_nat (S + 1) \<and>
     wc_next_sync c = of_nat T \<and> S + 1 \<le> T \<and> T \<le> 2 ^ 32 - 1 + (wsize c - 1) \<and>
     (\<forall>i < wreaders c. swmr_reader_ok S T m c i (rs ! i) (Rs ! i)) \<and>
     (\<forall>s. s < S \<and> S \<le> s + wsize c \<longrightarrow> m (hword hb c s) = of_nat (s + 1)) \<and>
     (\<forall>s. S \<le> s \<and> s < S + wsize c \<longrightarrow> m (hword hb c s) \<noteq> of_nat (s + 1))"

lemma swmr_dirD:
  assumes "swmr_dir hb S Rs T m c rs"
  shows "swmr_placed hb c" "length rs = wreaders c" "length Rs = wreaders c"
    "wc_l_pos c = of_nat (lazy_pos (wsize c) S)" "wc_next_seq c = of_nat (S + 1)"
    "wc_next_sync c = of_nat T" "S + 1 \<le> T" "T \<le> 2 ^ 32 - 1 + (wsize c - 1)"
    "\<And>i. i < wreaders c \<Longrightarrow> swmr_reader_ok S T m c i (rs ! i) (Rs ! i)"
    "\<And>s. s < S \<Longrightarrow> S \<le> s + wsize c \<Longrightarrow> m (hword hb c s) = of_nat (s + 1)"
    "\<And>s. S \<le> s \<Longrightarrow> s < S + wsize c \<Longrightarrow> m (hword hb c s) \<noteq> of_nat (s + 1)"
  using assms unfolding swmr_dir_def by blast+

lemma swmr_reader_window:
  assumes "swmr_dir hb S Rs T m c rs" "i < wreaders c"
  shows "Rs ! i \<le> S" "S < Rs ! i + wsize c - 1" "swmr_published (Rs ! i) \<le> Rs ! i"
    "S < swmr_published (Rs ! i) + wsize c - 1"
proof -
  have ok: "swmr_reader_ok S T m c i (rs ! i) (Rs ! i)" using swmr_dirD(9)[OF assms(1,2)] .
  show "Rs ! i \<le> S" using ok by (simp add: swmr_reader_ok_def)
  show "swmr_published (Rs ! i) \<le> Rs ! i" by (rule swmr_published_le)
  have "0 < wsize c" using swmr_bounds(1)[OF swmr_dirD(1)[OF assms(1)]] .
  moreover have "S + 1 \<le> swmr_published (Rs ! i) + wsize c - 1"
    using ok swmr_dirD(7)[OF assms(1)] by (simp add: swmr_reader_ok_def)
  ultimately show "S < Rs ! i + wsize c - 1" "S < swmr_published (Rs ! i) + wsize c - 1"
    using swmr_published_le[of "Rs ! i"] by linarith+
qed

lemma swmr_same_words:
  assumes "swmr_same r c"
  shows "hword hb r = hword hb c" "dword r = dword c" "pword r = pword c" "swmr_placed hb r = swmr_placed hb c"
    "wsize r = wsize c"
  using assms by (simp_all add: swmr_same_def hword_def dword_def pword_def swmr_placed_def fun_eq_iff)

lemma swmr_reader_view:
  assumes dir: "swmr_dir hb S Rs T m c rs" and i: "i < wreaders c"
  shows "wc_header (rs ! i) + 64 * ucast (wc_l_pos (rs ! i)) = hword hb c (Rs ! i)"
    "cell (wc_data (rs ! i) + 64 * ucast (wc_l_pos (rs ! i)) + 8) j = dword c (Rs ! i) j"
    "wc_next_seq (rs ! i) = m (hword hb c (Rs ! i)) \<longleftrightarrow> Rs ! i < S"
proof -
  note D = swmr_dirD[OF dir]
  have ok: "swmr_reader_ok S T m c i (rs ! i) (Rs ! i)" using D(9)[OF i] .
  then have same: "swmr_same (rs ! i) c" by (simp add: swmr_reader_ok_def)
  note w = swmr_same_words[OF same]
  have l: "wc_l_pos (rs ! i) = of_nat (Rs ! i mod wsize (rs ! i))" using ok w(5) by (simp add: swmr_reader_ok_def)
  have p: "swmr_placed hb (rs ! i)" using D(1) w(4) by simp
  from swmr_addresses(1,2)[OF p l] w(1,2)
  show "wc_header (rs ! i) + 64 * ucast (wc_l_pos (rs ! i)) = hword hb c (Rs ! i)"
    "cell (wc_data (rs ! i) + 64 * ucast (wc_l_pos (rs ! i)) + 8) j = dword c (Rs ! i) j" by simp_all
  have seq: "wc_next_seq (rs ! i) = of_nat (Rs ! i + 1)" using ok by (simp add: swmr_reader_ok_def)
  note win = swmr_reader_window[OF dir i]
  show "wc_next_seq (rs ! i) = m (hword hb c (Rs ! i)) \<longleftrightarrow> Rs ! i < S"
  proof (cases "Rs ! i < S")
    case True
    then show ?thesis using seq D(10)[of "Rs ! i"] win(2) by simp
  next
    case False
    then have "Rs ! i = S" using win(1) by simp
    moreover have "0 < wsize c" using swmr_bounds(1)[OF D(1)] .
    ultimately show ?thesis using seq D(11)[of S] by auto
  qed
qed

lemma swmr_published_mono: "swmr_published r \<le> swmr_published (Suc r)"
  using swmr_published_le[of r] by simp

lemma swmr_advance_ok:
  assumes "swmr_placed hb c" "swmr_reader_ok S T m c i r R" "R < S"
    "m' (pword c i) = of_nat (swmr_published (Suc R))"
  shows "swmr_reader_ok S T m' c i (swmr_advance r) (Suc R)"
proof -
  have same: "swmr_same r c" and l: "wc_l_pos r = of_nat (R mod wsize c)"
    using assms(2) by (simp_all add: swmr_reader_ok_def)
  have "wc_num_slots r = wc_num_slots c" using same by (simp add: swmr_same_def)
  then have "wc_l_pos (swmr_advance r) = of_nat (Suc R mod wsize c)"
    using index_step[OF swmr_bounds(1)[OF assms(1)] swmr_bounds(4)[OF assms(1)], of R] l
    by (simp add: swmr_advance_def Let_def)
  moreover have "swmr_same (swmr_advance r) c" "wc_id (swmr_advance r) = wc_id r"
    "wc_next_seq (swmr_advance r) = wc_next_seq r + 1"
    using same by (simp_all add: swmr_advance_def Let_def swmr_same_def)
  moreover have "T \<le> swmr_published (Suc R) + wsize c - 1"
    using assms(2) swmr_published_mono[of R] unfolding swmr_reader_ok_def by linarith
  ultimately show ?thesis using assms(2,3,4) by (simp add: swmr_reader_ok_def del: swmr_published.simps)
qed

lemma ucast_small_id: "i < 256 \<Longrightarrow> (ucast (of_nat i :: u8) :: u64) = of_nat i"
  by (simp add: word_unat_eq_iff unsigned_ucast_eq unat_of_nat take_bit_eq_mod)

lemma swmr_publish_eq:
  assumes "swmr_placed hb c" "swmr_reader_ok S T m c i r R" "i < wreaders c"
  shows "swmr_publish m (swmr_advance r) = m(pword c i := of_nat (swmr_published (Suc R)))"
proof -
  have same: "swmr_same r c" and i: "wc_id r = of_nat i" and seq: "wc_next_seq r = of_nat (R + 1)"
    and old: "m (pword c i) = of_nat (swmr_published R)"
    using assms(2) by (simp_all add: swmr_reader_ok_def)
  have "i < 256" using assms(3) swmr_bounds(5)[OF assms(1)] by simp
  then have id: "(ucast (wc_id r) :: u64) = of_nat i" using i by (simp add: ucast_small_id)
  have "wc_readers_pos r = wc_shm c" using same assms(1) by (simp add: swmr_same_def swmr_placed_def)
  then have addr: "wc_readers_pos r + 64 * ucast (wc_id r) = pword c i"
    by (simp add: id pword_def cell_def)
  have nxt: "wc_next_seq (swmr_advance r) = of_nat (R + 2)" "wc_id (swmr_advance r) = wc_id r"
    "wc_readers_pos (swmr_advance r) = wc_readers_pos r"
    using seq by (simp_all add: swmr_advance_def Let_def)
  show ?thesis
  proof (cases "(of_nat (R + 2) :: u64) AND 0x20 = 0")
    case True
    then show ?thesis using nxt addr by (simp add: swmr_publish_def)
  next
    case False
    then have "swmr_publish m (swmr_advance r) = m" "swmr_published (Suc R) = swmr_published R"
      using nxt by (simp_all add: swmr_publish_def)
    then show ?thesis using old by (simp add: fun_upd_idem)
  qed
qed

lemma swmr_dir_consume:
  assumes dir: "swmr_dir hb S Rs T m c rs" and i: "i < wreaders c" "Rs ! i < S"
  shows "swmr_dir hb S (Rs[i := Suc (Rs ! i)]) T (swmr_publish m (swmr_advance (rs ! i))) c
           (rs[i := swmr_advance (rs ! i)])"
proof -
  note D = swmr_dirD[OF dir]
  have ok: "swmr_reader_ok S T m c i (rs ! i) (Rs ! i)" using D(9)[OF i(1)] .
  let ?m = "m(pword c i := of_nat (swmr_published (Suc (Rs ! i))))"
  note pub = swmr_publish_eq[OF D(1) ok i(1)]
  have h: "hword hb c s \<noteq> pword c i" for s
    using swmr_lines(4)[OF D(1) i(1), of s] by simp
  have readers: "swmr_reader_ok S T ?m c k (rs[i := swmr_advance (rs ! i)] ! k) (Rs[i := Suc (Rs ! i)] ! k)"
    if k: "k < wreaders c" for k
  proof (cases "k = i")
    case True
    then show ?thesis using swmr_advance_ok[OF D(1) ok i(2), of ?m] D(2,3) i(1) by simp
  next
    case False
    have "pword c k \<noteq> pword c i" using swmr_lines(5)[OF D(1) i(1) k] False by simp
    then show ?thesis using D(9)[OF k] False by (simp add: swmr_reader_ok_def)
  qed
  show ?thesis
    unfolding pub swmr_dir_def using D(1-8,10,11) readers h by simp
qed

lemma swmr_dir_publish:
  assumes dir: "swmr_dir hb S Rs T m c rs"
    and room: "S + 1 < T'" "\<And>i. i < wreaders c \<Longrightarrow> T' \<le> swmr_published (Rs ! i) + wsize c - 1"
      "T' \<le> 2 ^ 32 - 1 + (wsize c - 1)"
    and c1: "c1 = c\<lparr>wc_l_pos := of_nat (S mod wsize c), wc_next_sync := of_nat T'\<rparr>"
    and head: "m' (hword hb c S) = of_nat (S + 1)"
    and frame: "\<And>x. x \<noteq> hword hb c S \<Longrightarrow> (\<And>j. j < 7 \<Longrightarrow> x \<noteq> dword c S j) \<Longrightarrow> m' x = m x"
  shows "swmr_dir hb (Suc S) Rs T' m' (c1\<lparr>wc_next_seq := wc_next_seq c1 + 1, wc_l_pos := wc_l_pos c1 + 1\<rparr>) rs"
proof -
  note D = swmr_dirD[OF dir] and n = swmr_bounds(1)[OF swmr_dirD(1)[OF dir]]
  let ?c = "c1\<lparr>wc_next_seq := wc_next_seq c1 + 1, wc_l_pos := wc_l_pos c1 + 1\<rparr>"
  have fields: "wsize ?c = wsize c" "hword hb ?c = hword hb c" "pword ?c = pword c"
    "swmr_placed hb ?c = swmr_placed hb c" "wreaders ?c = wreaders c" "swmr_same r ?c = swmr_same r c"
    "wc_next_seq ?c = of_nat (Suc S + 1)" "wc_next_sync ?c = of_nat T'"
    "wc_l_pos ?c = of_nat (lazy_pos (wsize c) (Suc S))" for r
    using D(5) n by (simp_all add: c1 hword_def pword_def swmr_placed_def swmr_same_def fun_eq_iff lazy_pos_Suc)
  have hother: "m' (hword hb c s) = m (hword hb c s)" if "s mod wsize c \<noteq> S mod wsize c" for s
    using that swmr_lines(1,2)[OF D(1)] by (intro frame) simp_all
  have pother: "m' (pword c i) = m (pword c i)" if "i < wreaders c" for i
    using swmr_lines(3,4)[OF D(1) that] by (intro frame) simp_all
  have readers: "swmr_reader_ok (Suc S) T' m' ?c i (rs ! i) (Rs ! i)" if i: "i < wreaders c" for i
    using D(9)[OF i] room(2)[OF i] pother[OF i] fields(1,3,6)
    unfolding swmr_reader_ok_def by (metis le_Suc_eq)
  have old: "m' (hword hb c s) = of_nat (s + 1)" if "s < Suc S" "Suc S \<le> s + wsize c" for s
  proof (cases "s = S")
    case False
    then have "s mod wsize c \<noteq> S mod wsize c" using that mod_neq[of s S "wsize c"] by simp
    then show ?thesis using hother[of s] D(10)[of s] that False by simp
  qed (simp add: head)
  have new: "m' (hword hb c s) \<noteq> of_nat (s + 1)" if "Suc S \<le> s" "s < Suc S + wsize c" for s
  proof (cases "s = S + wsize c")
    case True
    then have "hword hb c s = hword hb c S" by (simp add: hword_def)
    moreover have "(of_nat (S + 1) :: u64) \<noteq> of_nat (s + 1)"
    proof -
      have "S + 1 \<le> s + 1" "s + 1 < S + 1 + 2 ^ LENGTH(64)" using True swmr_bounds(4)[OF D(1)] by simp_all
      from of_nat_eq_window[OF this] True n show ?thesis by simp
    qed
    ultimately show ?thesis using head by simp
  next
    case False
    then have "s mod wsize c \<noteq> S mod wsize c" using that mod_neq[of S s "wsize c"] by simp
    then show ?thesis using hother[of s] D(11)[of s] that False by simp
  qed
  show ?thesis
    unfolding swmr_dir_def fields(1,2,4,5,7-9)
    using D(1-3) room(1,3) readers old new by simp
qed

section \<open>The multicast channel\<close>

text \<open>
  The state of a link: the readers' contexts, the memory and the writer's context. A send attempt
  looks at the readers' positions at most once, a receive attempt of reader \<open>i\<close> at its header once.
\<close>

type_synonym swmr_link = "swmr_context list \<times> mem \<times> swmr_context"

definition swmr_link_send :: "u64 list \<Rightarrow> swmr_link \<Rightarrow> bool \<times> swmr_link" where
  "swmr_link_send x s =
     (case swmr_send_raw (\<lambda>_ w. w) 1 (\<lambda>j. x ! j) s of None \<Rightarrow> (False, s) | Some s' \<Rightarrow> (True, s'))"

definition swmr_link_recv :: "nat \<Rightarrow> swmr_link \<Rightarrow> u64 list option \<times> swmr_link" where
  "swmr_link_recv i = (\<lambda>(rs, m, c).
     let (ok, m', r, p) = swmr_receive_non_blocking m (rs ! i) (\<lambda>_. 0)
     in (if ok then Some (map p [0..<7]) else None, rs[i := r], m', c))"

definition wpayload :: "mem \<Rightarrow> swmr_context \<Rightarrow> nat \<Rightarrow> u64 list" where
  "wpayload m c s = map (\<lambda>j. m (dword c s j)) [0..<7]"

text \<open>What reader \<open>i\<close> has still to receive: the payloads between its sequence number and the writer's.\<close>

definition swmr_link_pending :: "nat \<Rightarrow> swmr_link \<Rightarrow> u64 list list" where
  "swmr_link_pending i = (\<lambda>(rs, m, c).
     map (wpayload m c) [unat (wc_next_seq (rs ! i)) - 1..<unat (wc_next_seq c) - 1])"

definition swmr_link_inv :: "swmr_link \<Rightarrow> bool" where
  "swmr_link_inv = (\<lambda>(rs, m, c). \<exists>hb S Rs T. swmr_dir hb S Rs T m c rs)"

abbreviation swmr_link_readers :: "swmr_link \<Rightarrow> nat" where
  "swmr_link_readers \<equiv> \<lambda>(rs, m, c). length rs"

lemma swmr_sent_bound:
  assumes "swmr_dir hb S Rs T m c rs"
  shows "S + 1 < 2 ^ 33" "unat (wc_next_seq c) = S + 1"
    "i < wreaders c \<Longrightarrow> unat (wc_next_seq (rs ! i)) = Rs ! i + 1"
proof -
  note D = swmr_dirD[OF assms]
  show s: "S + 1 < 2 ^ 33" using D(7,8) swmr_bounds(4)[OF D(1)] by simp
  then have "S + 1 < 2 ^ LENGTH(64)" by simp
  then show "unat (wc_next_seq c) = S + 1" unfolding D(5) by (rule unat_of_nat_small)
  show "unat (wc_next_seq (rs ! i)) = Rs ! i + 1" if "i < wreaders c"
  proof -
    have "wc_next_seq (rs ! i) = of_nat (Rs ! i + 1)" "Rs ! i \<le> S"
      using D(9)[OF that] by (simp_all add: swmr_reader_ok_def)
    moreover from this have "Rs ! i + 1 < 2 ^ LENGTH(64)" using s by simp
    ultimately show ?thesis by (simp only: unat_of_nat_small)
  qed
qed

lemma swmr_link_pending_eq:
  assumes "swmr_dir hb S Rs T m c rs" "i < wreaders c"
  shows "swmr_link_pending i (rs, m, c) = map (wpayload m c) [Rs ! i..<S]"
  using swmr_sent_bound(2)[OF assms(1)] swmr_sent_bound(3)[OF assms]
  by (simp add: swmr_link_pending_def)

text \<open>The synchronisation point of one attempt.\<close>

lemma swmr_rewind_at:
  assumes "swmr_dir hb S Rs T m c rs"
  shows "swmr_rewind c = c\<lparr>wc_l_pos := of_nat (S mod wsize c)\<rparr>"
proof -
  note D = swmr_dirD[OF assms]
  have "(if ucast (wc_l_pos c) = wc_num_slots c then 0 else wc_l_pos c) = of_nat (S mod wsize c)"
    by (rule lazy_pos_rewind[OF swmr_bounds(1,4)[OF D(1)] D(4)])
  then show ?thesis by (auto simp: swmr_rewind_def split: if_splits)
qed

definition swmr_next_sync :: "nat list \<Rightarrow> nat \<Rightarrow> nat" where
  "swmr_next_sync Rs n = min_published (\<lambda>i. swmr_published (Rs ! i)) (length Rs) + (n - 1)"

lemma swmr_get_next_sync_eq:
  assumes dir: "swmr_dir hb S Rs T m c rs"
  shows "swmr_get_next_sync m c = of_nat (swmr_next_sync Rs (wsize c))"
    "S + 1 \<le> swmr_next_sync Rs (wsize c)" "T \<le> swmr_next_sync Rs (wsize c)"
    "swmr_next_sync Rs (wsize c) \<le> 2 ^ 32 - 1 + (wsize c - 1)"
    "i < wreaders c \<Longrightarrow> swmr_next_sync Rs (wsize c) \<le> swmr_published (Rs ! i) + wsize c - 1"
proof -
  note D = swmr_dirD[OF dir] and n = swmr_bounds(1)[OF swmr_dirD(1)[OF dir]]
  let ?P = "\<lambda>i. swmr_published (Rs ! i)"
  have ok: "m (pword c i) = of_nat (?P i)" "?P i \<le> S" "T \<le> ?P i + wsize c - 1" if "i < wreaders c" for i
    using D(9)[OF that] swmr_published_le[of "Rs ! i"] unfolding swmr_reader_ok_def by linarith+
  have "swmr_min_pos m (wc_readers_pos c) (wreaders c) = of_nat (min_published ?P (wreaders c))"
  proof (rule swmr_min_pos_eq)
    fix i assume i: "i < wreaders c"
    then have "i < 256" using swmr_bounds(5)[OF D(1)] by simp
    have "wc_readers_pos c + 64 * of_nat i = pword c i"
      using D(1) by (simp add: pword_def cell_def swmr_placed_def)
    then show "m (wc_readers_pos c + 64 * of_nat i) = of_nat (?P i)" using ok(1)[OF i] by simp
    show "?P i < 2 ^ 64" using ok(2)[OF i] swmr_sent_bound(1)[OF dir] by simp
  qed
  moreover have "wc_num_slots c - 1 = of_nat (wsize c - 1)" using n by simp
  ultimately show "swmr_get_next_sync m c = of_nat (swmr_next_sync Rs (wsize c))"
    by (simp add: swmr_get_next_sync_def swmr_next_sync_def D(3))
  show "swmr_next_sync Rs (wsize c) \<le> 2 ^ 32 - 1 + (wsize c - 1)"
    using min_published_cap[of ?P "length Rs"] by (simp add: swmr_next_sync_def)
  show "swmr_next_sync Rs (wsize c) \<le> swmr_published (Rs ! i) + wsize c - 1" if "i < wreaders c"
    using min_published_le[of i "length Rs" ?P] that D(3) n by (simp add: swmr_next_sync_def)
  have "T - (wsize c - 1) \<le> min_published ?P (length Rs)"
  proof (rule min_published_ge)
    fix i assume "i < length Rs"
    then show "T - (wsize c - 1) \<le> ?P i" using ok(3)[of i] D(3) n by simp
  next
    show "T - (wsize c - 1) \<le> 2 ^ 32 - 1" using D(8) by simp
  qed
  then show "T \<le> swmr_next_sync Rs (wsize c)" by (simp add: swmr_next_sync_def)
  then show "S + 1 \<le> swmr_next_sync Rs (wsize c)" using D(7) by simp
qed

lemma swmr_dir_sync:
  assumes dir: "swmr_dir hb S Rs T m c rs"
  shows "swmr_sync (\<lambda>_ w. w) 1 (e, m, swmr_rewind c) =
    (let T' = (if S + 1 = T then swmr_next_sync Rs (wsize c) else T) in
     if S + 1 = T' then None
     else Some (e, m, c\<lparr>wc_l_pos := of_nat (S mod wsize c), wc_next_sync := of_nat T'\<rparr>))"
proof -
  note D = swmr_dirD[OF dir] and ns = swmr_get_next_sync_eq[OF dir]
  have eqw: "(of_nat (S + 1) :: u64) = of_nat t \<longleftrightarrow> S + 1 = t" if "S + 1 \<le> t" "t \<le> 2 ^ 32 - 1 + (wsize c - 1)" for t
    by (rule of_nat_eq_window) (use that swmr_bounds(4)[OF D(1)] in simp_all)
  have "wc_next_seq (swmr_rewind c) = of_nat (S + 1)" "wc_next_sync (swmr_rewind c) = of_nat T"
    "swmr_get_next_sync m (swmr_rewind c) = of_nat (swmr_next_sync Rs (wsize c))"
    using D(5,6) ns(1) by (simp_all add: swmr_rewind_at[OF dir] swmr_get_next_sync_def)
  then show ?thesis
    using eqw[OF D(7,8)] eqw[OF ns(2,4)] D(6)
    by (simp add: swmr_sync_def Let_def) (simp add: swmr_rewind_at[OF dir])
qed

lemma swmr_write_mem:
  assumes p: "swmr_placed hb c" and m': "m' = (copy_to_mem m (dword c S 0) p 0 7)(hword hb c S := v)"
  shows "x \<noteq> hword hb c S \<Longrightarrow> (\<And>j. j < 7 \<Longrightarrow> x \<noteq> dword c S j) \<Longrightarrow> m' x = m x"
    and "s mod wsize c \<noteq> S mod wsize c \<Longrightarrow> wpayload m' c s = wpayload m c s"
    and "wpayload m' c S = map p [0..<7]"
proof -
  have cells: "cell (dword c S 0) j = dword c S j" for j by (simp add: dword_def add.assoc)
  show frame: "m' x = m x" if "x \<noteq> hword hb c S" "\<And>j. j < 7 \<Longrightarrow> x \<noteq> dword c S j" for x
  proof -
    have "copy_to_mem m (dword c S 0) p 0 7 x = m x"
      using that(2) by (intro copy_to_mem_other) (simp add: cells)
    then show ?thesis using that(1) m' by simp
  qed
  show "wpayload m' c s = wpayload m c s" if "s mod wsize c \<noteq> S mod wsize c"
    unfolding wpayload_def
  proof (rule map_cong[OF refl], rule frame)
    fix k assume k: "k \<in> set [0..<7]"
    then show "dword c s k \<noteq> hword hb c S" using swmr_lines(2)[OF p, of k S s] by auto
    fix j assume "j < (7 :: nat)"
    then show "dword c s k \<noteq> dword c S j" using that k swmr_lines(6)[OF p, of k j s S] by simp
  qed
  have "m' (dword c S j) = p j" if "j < 7" for j
    using that swmr_lines(2)[OF p that, of S S] copy_to_mem_cell[of 7 j m "dword c S 0" p 0]
    by (auto simp: m' cells)
  then show "wpayload m' c S = map p [0..<7]" by (simp add: wpayload_def)
qed

lemma swmr_send_cases:
  assumes dir: "swmr_dir hb S Rs T m c rs"
  shows "(let T' = (if S + 1 = T then swmr_next_sync Rs (wsize c) else T) in
          if S + 1 = T' then swmr_send_raw (\<lambda>_ w. w) 1 p (rs, m, c) = None
          else \<exists>m' c'. swmr_send_raw (\<lambda>_ w. w) 1 p (rs, m, c) = Some (rs, m', c') \<and>
                 swmr_dir hb (Suc S) Rs T' m' c' rs \<and> wpayload m' c' S = map p [0..<7] \<and> wsize c' = wsize c \<and>
                 wreaders c' = wreaders c \<and>
                 (\<forall>s. s < S \<and> S < s + wsize c \<longrightarrow> wpayload m' c' s = wpayload m c s))"
proof -
  note D = swmr_dirD[OF dir] and ns = swmr_get_next_sync_eq[OF dir]
  define T' where "T' = (if S + 1 = T then swmr_next_sync Rs (wsize c) else T)"
  note sync = swmr_dir_sync[OF dir, of rs, folded T'_def, unfolded Let_def]
  have T': "S + 1 \<le> T'" "T' \<le> 2 ^ 32 - 1 + (wsize c - 1)"
    "\<And>i. i < wreaders c \<Longrightarrow> T' \<le> swmr_published (Rs ! i) + wsize c - 1"
    using D(7,8) ns(2,4,5) D(9) by (auto simp: T'_def swmr_reader_ok_def)
  show ?thesis
  proof (cases "S + 1 = T'")
    case True
    then show ?thesis using sync by (simp add: swmr_send_raw_def Let_def T'_def)
  next
    case False
    define c1 where "c1 = c\<lparr>wc_l_pos := of_nat (S mod wsize c), wc_next_sync := of_nat T'\<rparr>"
    define c2 where "c2 = c1\<lparr>wc_next_seq := wc_next_seq c1 + 1, wc_l_pos := wc_l_pos c1 + 1\<rparr>"
    define m' where "m' = (copy_to_mem m (dword c S 0) p 0 7)(hword hb c S := of_nat (S + 1))"
    have p1: "swmr_placed hb c1" "hword hb c1 = hword hb c" "dword c1 = dword c" "wc_next_seq c1 = of_nat (S + 1)"
      "wc_l_pos c1 = of_nat (S mod wsize c1)"
      using D(1,5) by (simp_all add: c1_def swmr_placed_def hword_def dword_def fun_eq_iff)
    note addr = swmr_addresses(1,2)[OF p1(1,5)]
    have "swmr_write m c1 p = (m', c2)"
      using addr(1) addr(2)[of 0] p1 by (simp add: swmr_write_def Let_def m'_def c2_def)
    then have r: "swmr_send_raw (\<lambda>_ w. w) 1 p (rs, m, c) = Some (rs, m', c2)"
      using sync False by (simp add: swmr_send_raw_def Let_def c1_def)
    note mem = swmr_write_mem[OF D(1) m'_def]
    have pub: "swmr_dir hb (Suc S) Rs T' m' c2 rs"
      unfolding c2_def
      by (rule swmr_dir_publish[OF dir _ T'(3,2) c1_def _ mem(1)]) (use False T'(1) in \<open>simp_all add: m'_def\<close>)
    have same: "wpayload m' c2 = wpayload m' c" "wsize c2 = wsize c" "wreaders c2 = wreaders c"
      by (simp_all add: wpayload_def c2_def c1_def dword_def fun_eq_iff)
    have "wpayload m' c2 s = wpayload m c s" if "s < S" "S < s + wsize c" for s
      using that mem(2)[OF mod_neq[OF that]] same(1) by simp
    then show ?thesis using r pub mem(3) same False unfolding T'_def[symmetric] Let_def by auto
  qed
qed

lemma swmr_recv_cases:
  assumes dir: "swmr_dir hb S Rs T m c rs" and i: "i < wreaders c"
    and call: "swmr_receive_non_blocking m (rs ! i) p = (ok, m', r, p')"
  shows "(if Rs ! i < S then ok \<and> map p' [0..<7] = wpayload m c (Rs ! i) \<and>
            swmr_dir hb S (Rs[i := Suc (Rs ! i)]) T m' c (rs[i := r]) \<and> (\<forall>s. wpayload m' c s = wpayload m c s)
          else \<not> ok \<and> m' = m \<and> r = rs ! i)"
proof (cases "Rs ! i < S")
  case False
  then show ?thesis using call swmr_reader_view(1,3)[OF dir i] by (simp add: swmr_receive_non_blocking_def)
next
  case True
  note D = swmr_dirD[OF dir] and view = swmr_reader_view[OF dir i]
  have cells: "cell (wc_data (rs ! i) + 64 * ucast (wc_l_pos (rs ! i)) + 8) = dword c (Rs ! i)"
    using view(2) by blast
  have r: "ok" "r = swmr_advance (rs ! i)" "m' = swmr_publish m r"
    "p' = copy_from_mem m (wc_data (rs ! i) + 64 * ucast (wc_l_pos (rs ! i)) + 8) p 7"
    using call view(1,3) True by (auto simp: swmr_receive_non_blocking_def Let_def)
  have "map p' [0..<7] = wpayload m c (Rs ! i)"
    by (simp add: r(4) wpayload_def copy_from_mem_eq cells)
  moreover have "wpayload m' c s = wpayload m c s" for s
    using swmr_lines(3)[OF D(1) i] unfolding r(2,3) swmr_publish_eq[OF D(1) D(9)[OF i] i] wpayload_def
    by (intro map_cong[OF refl]) (metis atLeastLessThan_iff fun_upd_other set_upt)
  ultimately show ?thesis using True r swmr_dir_consume[OF dir i True] by simp
qed

lemma swmr_link_send_step:
  assumes inv: "swmr_link_inv s" and x: "length x = 7" and call: "swmr_link_send x s = (ok, s')"
  shows "swmr_link_inv s' \<and> swmr_link_readers s' = swmr_link_readers s \<and>
      (\<forall>i < swmr_link_readers s. swmr_link_pending i s' = swmr_link_pending i s @ (if ok then [x] else []))"
proof -
  obtain rs m c where s: "s = (rs, m, c)" by (cases s)
  from inv s obtain hb S Rs T where dir: "swmr_dir hb S Rs T m c rs" by (auto simp: swmr_link_inv_def)
  note D = swmr_dirD[OF dir] and cases = swmr_send_cases[OF dir, of "\<lambda>j. x ! j"]
  have x': "map (\<lambda>i. x ! i) [0..<7] = x" using x by (metis map_nth)
  show ?thesis
  proof (cases ok)
    case False
    then have "s' = s" using call by (auto simp: swmr_link_send_def split: option.splits)
    then show ?thesis using inv False by simp
  next
    case True
    then have "swmr_send_raw (\<lambda>_ w. w) 1 (\<lambda>j. x ! j) (rs, m, c) = Some s'"
      using call by (auto simp: swmr_link_send_def s split: option.splits)
    then obtain m' c' T' where r: "s' = (rs, m', c')" "swmr_dir hb (Suc S) Rs T' m' c' rs"
      "wpayload m' c' S = x" "wreaders c' = wreaders c"
      "\<And>s. s < S \<Longrightarrow> S < s + wsize c \<Longrightarrow> wpayload m' c' s = wpayload m c s"
      using cases x' by (auto simp: Let_def split: if_splits)
    have "swmr_link_pending i s' = swmr_link_pending i s @ [x]" if i: "i < wreaders c" for i
    proof -
      note win = swmr_reader_window[OF dir i]
      have "map (wpayload m' c') [Rs ! i..<Suc S] = map (wpayload m c) [Rs ! i..<S] @ [x]"
        using win(1,2) r(3) by (auto intro!: r(5))
      then show ?thesis
        using swmr_link_pending_eq[OF dir i] swmr_link_pending_eq[OF r(2), of i] r(1,4) i s by simp
    qed
    then show ?thesis using r(1,2) True D(2) by (auto simp: s swmr_link_inv_def)
  qed
qed

lemma swmr_link_recv_step:
  assumes inv: "swmr_link_inv s" and i: "i < swmr_link_readers s" and call: "swmr_link_recv i s = (r, s')"
  shows "swmr_link_inv s' \<and> swmr_link_readers s' = swmr_link_readers s \<and>
      swmr_link_pending i s = (case r of None \<Rightarrow> [] | Some x \<Rightarrow> [x]) @ swmr_link_pending i s' \<and>
      (r = None \<longrightarrow> swmr_link_pending i s = []) \<and>
      (\<forall>j < swmr_link_readers s. j \<noteq> i \<longrightarrow> swmr_link_pending j s' = swmr_link_pending j s)"
proof -
  obtain rs m c where s: "s = (rs, m, c)" by (cases s)
  from inv s obtain hb S Rs T where dir: "swmr_dir hb S Rs T m c rs" by (auto simp: swmr_link_inv_def)
  note D = swmr_dirD[OF dir]
  have i': "i < wreaders c" using i D(2) by (simp add: s)
  obtain ok m' r' p where c: "swmr_receive_non_blocking m (rs ! i) (\<lambda>_. 0) = (ok, m', r', p)"
    using prod_cases4 by blast
  have s': "s' = (rs[i := r'], m', c)" "r = (if ok then Some (map p [0..<7]) else None)"
    using call c by (auto simp: s swmr_link_recv_def)
  note cases = swmr_recv_cases[OF dir i' c]
  show ?thesis
  proof (cases "Rs ! i < S")
    case False
    then have "s' = s" "r = None" using cases s' s by simp_all
    moreover have "swmr_link_pending i s = []" using False swmr_link_pending_eq[OF dir i'] s by simp
    ultimately show ?thesis using inv by simp
  next
    case True
    then have c': "ok" "map p [0..<7] = wpayload m c (Rs ! i)"
      "swmr_dir hb S (Rs[i := Suc (Rs ! i)]) T m' c (rs[i := r'])" "wpayload m' c = wpayload m c"
      using cases by (auto simp: fun_eq_iff)
    have pend: "swmr_link_pending j s' = map (wpayload m c) [Rs[i := Suc (Rs ! i)] ! j..<S]" if "j < wreaders c" for j
      using swmr_link_pending_eq[OF c'(3) that] c'(4) s'(1) by simp
    have "swmr_link_pending i s = wpayload m c (Rs ! i) # swmr_link_pending i s'"
      using pend[OF i'] swmr_link_pending_eq[OF dir i'] True i' D(3) by (simp add: s upt_conv_Cons)
    moreover have "swmr_link_pending j s' = swmr_link_pending j s" if "j < wreaders c" "j \<noteq> i" for j
      using pend[OF that(1)] swmr_link_pending_eq[OF dir that(1)] that(2) s by simp
    ultimately show ?thesis using c'(1-3) s' D(2) by (auto simp: s swmr_link_inv_def)
  qed
qed

interpretation swmr: multicast_channel
  swmr_link_inv swmr_link_readers swmr_link_pending "\<lambda>x. length x = 7" swmr_link_send swmr_link_recv
  using swmr_link_send_step swmr_link_recv_step by unfold_locales

section \<open>Creation\<close>

lemma swmr_sizes_all:
  "\<forall>k\<in>set [0..<64]. swmr_queue_size (ucast (of_nat k :: u16) + 1) 64 = (if k < 16 then 64 else 128) \<and>
     (ucast ((if k < 16 then 64 else 128) - (ucast (of_nat k :: u8) + 1) :: u32) :: u64) =
       of_nat ((if k < 16 then 63 else 127) - k) \<and>
     (ucast (of_nat k :: u16) :: u8) = of_nat k \<and> (ucast (of_nat k :: u8) :: u64) = of_nat k \<and>
     unat (of_nat k :: u8) = k"
  by code_simp

definition swmr_lines_of :: "nat \<Rightarrow> nat" where
  "swmr_lines_of k = (if k < 16 then 64 else 128)"

lemma swmr_sizes:
  fixes count :: u16
  assumes "unat count < 64"
  shows "swmr_queue_size (ucast count + 1) 64 = of_nat (swmr_lines_of (unat count))"
    "(ucast (of_nat (swmr_lines_of (unat count)) - (ucast (ucast count :: u8) + 1) :: u32) :: u64) =
       of_nat (swmr_lines_of (unat count) - 1 - unat count)"
    "(ucast (ucast count :: u8) :: u64) = of_nat (unat count)" "unat (ucast count :: u8) = unat count"
proof -
  have c: "count = of_nat (unat count)" by simp
  have "unat count \<in> set [0..<64]" using assms by simp
  from bspec[OF swmr_sizes_all this] c
  show "swmr_queue_size (ucast count + 1) 64 = of_nat (swmr_lines_of (unat count))"
    "(ucast (of_nat (swmr_lines_of (unat count)) - (ucast (ucast count :: u8) + 1) :: u32) :: u64) =
       of_nat (swmr_lines_of (unat count) - 1 - unat count)"
    "(ucast (ucast count :: u8) :: u64) = of_nat (unat count)" "unat (ucast count :: u8) = unat count"
    unfolding swmr_lines_of_def by (auto split: if_splits)
qed

lemma swmr_init_fields:
  assumes k: "unat count < 64"
    and c: "c = swmr_init_context shm q (ucast (count :: u16)) i sep (of_nat (swmr_lines_of (unat count)))"
  shows "wc_shm c = shm" "wc_readers_pos c = shm" "wc_id c = i" "wc_l_pos c = 0" "wc_next_seq c = 1"
    "wc_num_slots c = of_nat (swmr_lines_of (unat count) - 1 - unat count)"
    "wc_next_sync c = of_nat (swmr_lines_of (unat count) - 2 - unat count)"
    "wc_data c = cell shm (8 * (unat count + 1))" "wc_num_readers c = ucast count"
    "wc_header c = cell shm (8 * (unat count + 1 + (if sep then swmr_lines_of (unat count) else 0)))"
proof -
  note sz = swmr_sizes[OF k]
  show "wc_shm c = shm" "wc_readers_pos c = shm" "wc_id c = i" "wc_l_pos c = 0" "wc_next_seq c = 1"
    "wc_num_readers c = ucast count" by (simp_all add: c swmr_init_context_def Let_def)
  show n: "wc_num_slots c = of_nat (swmr_lines_of (unat count) - 1 - unat count)"
    using sz(2) by (simp add: c swmr_init_context_def Let_def)
  have "wc_next_sync c = wc_num_slots c - 1" by (simp add: c swmr_init_context_def Let_def)
  moreover have "swmr_lines_of (unat count) - 2 - unat count = swmr_lines_of (unat count) - 1 - unat count - 1"
    "1 \<le> swmr_lines_of (unat count) - 1 - unat count" using k by (auto simp: swmr_lines_of_def)
  ultimately show "wc_next_sync c = of_nat (swmr_lines_of (unat count) - 2 - unat count)"
    unfolding n by (simp add: of_nat_diff)
  show d: "wc_data c = cell shm (8 * (unat count + 1))"
    using sz(3) by (simp add: c swmr_init_context_def Let_def cell_def algebra_simps)
  have "ucast (of_nat (swmr_lines_of (unat count)) * 64 :: u32) = (of_nat (64 * swmr_lines_of (unat count)) :: u64)"
    by (simp add: swmr_lines_of_def)
  then have "wc_header c = wc_data c + (if sep then of_nat (64 * swmr_lines_of (unat count)) else 0)"
    by (simp add: c swmr_init_context_def Let_def)
  then show "wc_header c = cell shm (8 * (unat count + 1 + (if sep then swmr_lines_of (unat count) else 0)))"
    unfolding d by (simp add: cell_def algebra_simps)
qed

lemma swmr_create_success:
  assumes "swmr_queue_create alloc node q src dst count sep w = Some (q', h', m')" "unat count < 64"
  shows "\<exists>shm. wq_src q' = swmr_init_context shm (wq_src q) (ucast count) 0 sep (of_nat (swmr_lines_of (unat count))) \<and>
     wq_dst q' = map (\<lambda>i. swmr_init_context shm swmr_context_zero (ucast count) (of_nat i) sep
                    (of_nat (swmr_lines_of (unat count)))) [0..<unat count]"
  using assms(1) unfolding swmr_queue_create_def Let_def swmr_sizes(1)[OF assms(2)]
  by (auto split: prod.splits if_splits)

lemma swmr_fresh_dir:
  assumes create: "swmr_queue_create alloc node q src dst count sep w = Some (q', h', m')"
    and k: "unat count < 64"
    and zero: "\<And>j. j < 16 * swmr_lines_of (unat count) \<Longrightarrow> m (cell (wc_shm (wq_src q')) j) = 0"
  shows "\<exists>hb. swmr_dir hb 0 (replicate (unat count) 0) (swmr_lines_of (unat count) - 2 - unat count) m
            (wq_src q') (wq_dst q')"
proof -
  let ?n = "swmr_lines_of (unat count)" and ?c = "wq_src q'"
  define hb where "hb = unat count + 1 + (if sep then ?n else 0)"
  obtain shm where src: "?c = swmr_init_context shm (wq_src q) (ucast count) 0 sep (of_nat ?n)"
    and dst: "wq_dst q' = map (\<lambda>i. swmr_init_context shm swmr_context_zero (ucast count) (of_nat i) sep
                    (of_nat ?n)) [0..<unat count]"
    using swmr_create_success[OF create k] by blast
  note f = swmr_init_fields[OF k src] and r = swmr_init_fields[OF k refl]
  have n: "?n = 64 \<or> ?n = 128" "unat count + 48 < ?n" using k by (auto simp: swmr_lines_of_def)
  have size: "wsize ?c = ?n - 1 - unat count"
  proof -
    have "?n - 1 - unat count < 2 ^ LENGTH(64)" using n by auto
    then show ?thesis unfolding f(6) by (rule unat_of_nat_small)
  qed
  have readers: "wreaders ?c = unat count" using swmr_sizes(4)[OF k] by (simp add: f(9))
  have placed: "swmr_placed hb ?c"
    unfolding swmr_placed_def size readers using f n by (auto simp: hb_def)
  have hdr: "m (hword hb ?c s) = 0" for s
  proof -
    obtain x where x: "s mod wsize ?c = x" by blast
    have "x < ?n - 1 - unat count" using swmr_bounds(2)[OF placed, of s] x size by simp
    then have "8 * (hb + s mod wsize ?c) < 16 * ?n" unfolding x hb_def by (cases sep) simp_all
    then show ?thesis using zero by (simp add: hword_def)
  qed
  have next0: "(of_nat (s + 1) :: u64) \<noteq> 0" if "s < wsize ?c" for s
  proof -
    have "unat (of_nat (s + 1) :: u64) = s + 1"
      using that size n by (intro unat_of_nat_small) auto
    then show ?thesis by (metis add_is_0 one_neq_zero unat_0)
  qed
  have ok: "swmr_reader_ok 0 (?n - 2 - unat count) m ?c i (wq_dst q' ! i) (replicate (unat count) 0 ! i)"
    if i: "i < unat count" for i
  proof -
    have "m (pword ?c i) = 0" using zero[of "8 * i"] i n by (auto simp: pword_def)
    moreover have "wq_dst q' ! i = swmr_init_context shm swmr_context_zero (ucast count) (of_nat i) sep (of_nat ?n)"
      using i by (simp add: dst)
    ultimately show ?thesis using i n f r size by (simp add: swmr_reader_ok_def swmr_same_def)
  qed
  have "length (wq_dst q') = unat count" by (simp add: dst)
  then have "swmr_dir hb 0 (replicate (unat count) 0) (?n - 2 - unat count) m ?c (wq_dst q')"
    unfolding swmr_dir_def readers
    using placed ok f n size hdr next0 by (auto simp: lazy_pos_def)
  then show ?thesis by blast
qed

lemma swmr_fresh_link:
  assumes create: "swmr_queue_create alloc node q src dst count sep w = Some (q', h', m')"
    and k: "unat count < 64"
    and zero: "\<And>j. j < 16 * swmr_lines_of (unat count) \<Longrightarrow> m (cell (wc_shm (wq_src q')) j) = 0"
  shows "swmr_link_inv (wq_dst q', m, wq_src q')" "length (wq_dst q') = unat count"
    "i < unat count \<Longrightarrow> swmr_link_pending i (wq_dst q', m, wq_src q') = []"
    "48 \<le> wsize (wq_src q')" "wc_next_seq (wq_src q') = 1"
proof -
  let ?n = "swmr_lines_of (unat count)" and ?c = "wq_src q'"
  obtain hb where dir: "swmr_dir hb 0 (replicate (unat count) 0) (?n - 2 - unat count) m ?c (wq_dst q')"
    using swmr_fresh_dir[OF create k, of m] zero by blast
  note D = swmr_dirD[OF dir]
  show "swmr_link_inv (wq_dst q', m, ?c)" using dir by (auto simp: swmr_link_inv_def)
  show "length (wq_dst q') = unat count" using D(2,3) by simp
  show "i < unat count \<Longrightarrow> swmr_link_pending i (wq_dst q', m, ?c) = []"
    using swmr_link_pending_eq[OF dir, of i] D(3) by simp
  show "wc_next_seq ?c = 1" using D(5) by simp
  have "wc_num_slots ?c = of_nat (?n - 1 - unat count)"
    using swmr_create_success[OF create k] swmr_init_fields(6)[OF k] by metis
  moreover have "?n - 1 - unat count < 2 ^ LENGTH(64)" by (auto simp: swmr_lines_of_def)
  ultimately have "wsize ?c = ?n - 1 - unat count" by (simp only: unat_of_nat_small)
  then show "48 \<le> wsize ?c" using k by (auto simp: swmr_lines_of_def)
qed

section \<open>Properties\<close>

text \<open>
  Claim C12: a single-writer multiple-reader queue created for fewer than 64 readers, with or without
  separate headers, delivers every message to every reader. Over any interleaving of send attempts and
  of receives by any of the readers, what reader \<open>i\<close> received followed by what it has still to receive
  is exactly the sequence of accepted messages. The block is zero, as the clearing allocator leaves it.
\<close>

theorem swmr_each_reader_fifo:
  assumes "swmr_queue_create alloc node q src dst count sep w = Some (q', h', m')"
    and "unat count < 64" "\<forall>j < 16 * swmr_lines_of (unat count). m (cell (wc_shm (wq_src q')) j) = 0"
    and "list_all (mcast_op_ok (\<lambda>x. length x = 7) (unat count)) ops"
    and "mcast_run swmr_link_send swmr_link_recv ops (wq_dst q', m, wq_src q') = (acc, del, s')"
  shows "\<forall>i < unat count. acc = delivered_to i del @ swmr_link_pending i s'"
proof -
  note fresh = swmr_fresh_link[OF assms(1,2), of m, OF assms(3)[rule_format]]
  show ?thesis using swmr.mcast_run_each[OF fresh(1) _ assms(5)] assms(4) fresh(2,3) by simp
qed

theorem swmr_each_reader_fifo_witness:
  "\<exists>q' h' m' acc del s'.
     swmr_queue_create (\<lambda>sz al n c (h, m). (h, h + 8192, m)) (\<lambda>_. 0) \<lparr>wq_src = swmr_context_zero, wq_dst = []\<rparr>
       0 [1, 2] 2 True (4096, \<lambda>_. 0) = Some (q', h', m') \<and>
     mcast_run swmr_link_send swmr_link_recv [MSend [1, 2, 3, 4, 5, 6, 7], MRecv 0, MRecv 1, MRecv 1]
       (wq_dst q', \<lambda>_. 0, wq_src q') = (acc, del, s') \<and>
     (\<forall>i < 2. acc = delivered_to i del @ swmr_link_pending i s')"
proof -
  obtain q' h' m' where c: "swmr_queue_create (\<lambda>sz al n c (h, m). (h, h + 8192, m)) (\<lambda>_. 0)
     \<lparr>wq_src = swmr_context_zero, wq_dst = []\<rparr> 0 [1, 2] 2 True (4096, \<lambda>_. 0) = Some (q', h', m')"
    by (simp add: swmr_queue_create_def Let_def)
  obtain acc del s' where run: "mcast_run swmr_link_send swmr_link_recv
     [MSend [1, 2, 3, 4, 5, 6, 7], MRecv 0, MRecv 1, MRecv 1] (wq_dst q', \<lambda>_. 0, wq_src q') = (acc, del, s')"
    using prod_cases3 by blast
  have "\<forall>i < unat (2 :: u16). acc = delivered_to i del @ swmr_link_pending i s'"
    using swmr_each_reader_fifo[OF c _ _ _ run] by simp
  then have "\<forall>i < 2. acc = delivered_to i del @ swmr_link_pending i s'" by simp
  then show ?thesis using c run by blast
qed

text \<open>
  Claim C30: for the first \<open>2^32\<close> messages the writer is not blocked by positions that its readers have not
  published: a reader publishes after each of 32 messages and then after none of the next 32. If the queue
  has at least 35 slots (a created one has at least 48), its next sequence number is at most \<open>2^32\<close> and every
  reader has received everything, then a send attempt succeeds. Later it need not, whatever the readers
  do: see the next claim.
\<close>

theorem swmr_no_stall:
  assumes "swmr_link_inv (rs, m, c)" "35 \<le> wsize c" "unat (wc_next_seq c) \<le> 2 ^ 32"
    and "\<forall>i < length rs. swmr_link_pending i (rs, m, c) = []" "length x = 7"
  shows "fst (swmr_link_send x (rs, m, c))"
proof -
  from assms(1) obtain hb S Rs T where dir: "swmr_dir hb S Rs T m c rs" by (auto simp: swmr_link_inv_def)
  note D = swmr_dirD[OF dir] and bound = swmr_sent_bound[OF dir]
  have "S \<le> Rs ! i" if "i < wreaders c" for i
    using assms(4) swmr_link_pending_eq[OF dir that] that D(2) by auto
  then have "S - 32 \<le> swmr_published (Rs ! i)" if "i < length Rs" for i
    using that D(3) swmr_published_lag_le[of "Rs ! i"] by (metis diff_le_mono le_diff_conv add.commute le_trans)
  then have "S - 32 \<le> min_published (\<lambda>i. swmr_published (Rs ! i)) (length Rs)"
    using assms(3) bound(2) by (intro min_published_ge) simp_all
  then have "S + 1 < swmr_next_sync Rs (wsize c)" using assms(2) by (simp add: swmr_next_sync_def)
  then have "swmr_send_raw (\<lambda>_ w. w) 1 (\<lambda>j. x ! j) (rs, m, c) \<noteq> None"
    using swmr_send_cases[OF dir, of "\<lambda>j. x ! j"] D(7) by (auto simp: Let_def split: if_splits)
  then show ?thesis by (auto simp: swmr_link_send_def)
qed

theorem swmr_no_stall_witness:
  "\<exists>q' h' m'.
     swmr_queue_create (\<lambda>sz al n c (h, m). (h, h + 8192, m)) (\<lambda>_. 0) \<lparr>wq_src = swmr_context_zero, wq_dst = []\<rparr>
       0 [1] 1 False (4096, \<lambda>_. 0) = Some (q', h', m') \<and>
     fst (swmr_link_send [1, 2, 3, 4, 5, 6, 7] (wq_dst q', \<lambda>_. 0, wq_src q'))"
proof -
  obtain q' h' m' where c: "swmr_queue_create (\<lambda>sz al n c (h, m). (h, h + 8192, m)) (\<lambda>_. 0)
     \<lparr>wq_src = swmr_context_zero, wq_dst = []\<rparr> 0 [1] 1 False (4096, \<lambda>_. 0) = Some (q', h', m')"
    by (simp add: swmr_queue_create_def Let_def)
  have "unat (1 :: u16) < 64" by simp
  note fresh = swmr_fresh_link[OF c this, of "\<lambda>_. 0"]
  have "35 \<le> wsize (wq_src q')" using fresh(4) by simp
  then have "fst (swmr_link_send [1, 2, 3, 4, 5, 6, 7] (wq_dst q', \<lambda>_. 0, wq_src q'))"
    using fresh(1,2,3,5) by (intro swmr_no_stall) simp_all
  then show ?thesis using c by blast
qed

text \<open>
  Claim C31: the writer's running minimum starts at \<open>0xFFFFFFFF\<close>, and that bounds the life of a queue.
  Once the sequence number has reached \<open>0xFFFFFFFF\<close> plus the slots less one, no send ever returns:
  whatever the readers do between two polls, and however often the writer polls.
\<close>

theorem swmr_blocks_forever:
  assumes "swmr_link_inv (rs, m, c)" "unat (wc_next_seq c) = 2 ^ 32 - 1 + (wsize c - 1)"
    and "\<forall>k rs m. swmr_link_inv (rs, m, c) \<longrightarrow> swmr_link_inv (fst (env k (rs, m)), snd (env k (rs, m)), c)"
  shows "swmr_send_raw env fuel p (rs, m, c) = None"
proof -
  have stuck: "wc_next_seq c = wc_next_sync c \<and> swmr_get_next_sync m (swmr_rewind c) = wc_next_seq c"
    if "swmr_link_inv (rs, m, c)" for rs m
  proof -
    from that obtain hb S Rs T where dir: "swmr_dir hb S Rs T m c rs" by (auto simp: swmr_link_inv_def)
    note D = swmr_dirD[OF dir] and ns = swmr_get_next_sync_eq[OF dir]
    have "S + 1 = 2 ^ 32 - 1 + (wsize c - 1)" using assms(2) swmr_sent_bound(2)[OF dir] by simp
    then have "T = S + 1" "swmr_next_sync Rs (wsize c) = S + 1" using D(7,8) ns(2,4) by simp_all
    moreover have "swmr_get_next_sync m (swmr_rewind c) = swmr_get_next_sync m c"
      by (simp add: swmr_rewind_at[OF dir] swmr_get_next_sync_def)
    ultimately show ?thesis using D(5,6) ns(1) by simp
  qed
  let ?poll = "\<lambda>(rs, m). let ns = swmr_get_next_sync m (swmr_rewind c)
                 in (if wc_next_seq (swmr_rewind c) = ns then None else Some ns, rs, m)"
  have seq: "wc_next_seq (swmr_rewind c) = wc_next_seq c" "wc_next_sync (swmr_rewind c) = wc_next_sync c"
    by (simp_all add: swmr_rewind_def)
  have "spin (\<lambda>k (e, m). env k (e, m)) ?poll k fuel (rs, m) = None" if "swmr_link_inv (rs, m, c)" for k rs m
    using that
  proof (induction fuel arbitrary: k rs m)
    case (Suc fuel)
    obtain rs1 m1 where e: "env k (rs, m) = (rs1, m1)" by (meson surj_pair)
    then have "swmr_link_inv (rs1, m1, c)" using assms(3) Suc.prems by (metis fst_conv snd_conv)
    then show ?case using Suc.IH stuck[of rs1 m1] e seq(1) by simp
  qed simp
  then show ?thesis using assms(1) stuck[OF assms(1)] seq by (simp add: swmr_send_raw_def swmr_sync_def)
qed

text \<open>The state in question is an ordinary one: 48 slots, one reader that has received everything.\<close>

definition swmr_late :: "nat \<Rightarrow> swmr_context" where
  "swmr_late s = \<lparr>wc_shm = 0, wc_data = 128, wc_header = 128, wc_write_pos = 0, wc_readers_pos = 0,
     wc_num_readers = 1, wc_id = 0, wc_num_slots = 48, wc_l_pos = of_nat s, wc_next_sync = 2 ^ 32 + 46,
     wc_next_seq = 2 ^ 32 + 46\<rparr>"

definition swmr_late_mem :: mem where
  "swmr_late_mem a = (if a = 0 then 2 ^ 32 + 30
     else of_nat (2 ^ 32 - 3 + (unat a div 64 - 2 + 35) mod 48 + 1))"

lemma swmr_late_inv: "swmr_link_inv ([swmr_late 13], swmr_late_mem, swmr_late 13)"
proof -
  let ?c = "swmr_late 13" and ?S = "2 ^ 32 + 45 :: nat"
  have n: "wsize ?c = 48" "wreaders ?c = 1" by (simp_all add: swmr_late_def)
  have pub: "swmr_published ?S = 2 ^ 32 + 30" using swmr_published_lag[of ?S] by simp
  have placed: "swmr_placed 2 ?c" by (simp add: swmr_placed_def swmr_late_def cell_def)
  have word: "swmr_late_mem (hword 2 ?c s) = of_nat (2 ^ 32 - 3 + (s mod 48 + 35) mod 48 + 1)" for s
  proof -
    have "s mod 48 < 48" by simp
    then have "64 * (2 + s mod 48) < 2 ^ LENGTH(64)" by simp
    then have u: "unat (of_nat (64 * (2 + s mod 48)) :: addr) = 64 * (2 + s mod 48)" by (rule unat_of_nat_small)
    have h: "hword 2 ?c s = of_nat (64 * (2 + s mod 48))"
      by (simp add: hword_def cell_def swmr_late_def)
    then have "hword 2 ?c s \<noteq> 0" using u by (metis unat_0 add_is_0 mult_is_0 zero_neq_numeral)
    then show ?thesis using u h by (simp add: swmr_late_mem_def)
  qed
  have old: "swmr_late_mem (hword 2 ?c s) = of_nat (s + 1)" if s: "s < ?S" "?S \<le> s + 48" for s
  proof -
    obtain d where d: "s = 2 ^ 32 - 3 + d" "d < 48" using s by (intro that[of "s - (2 ^ 32 - 3)"]) simp_all
    have "(s mod 48 + 35) mod 48 = (d + 48 * 89478486) mod 48" by (simp add: d mod_simps add.commute)
    also have "\<dots> = d" using d(2) by (simp only: mod_mult_self2 mod_less)
    finally have "2 ^ 32 - 3 + (s mod 48 + 35) mod 48 = s" using d(1) by simp
    then show ?thesis by (simp add: word)
  qed
  have new: "swmr_late_mem (hword 2 ?c s) \<noteq> of_nat (s + 1)" if s: "?S \<le> s" "s < ?S + 48" for s
  proof -
    obtain d where d: "s = 2 ^ 32 + 45 + d" "d < 48" using s by (intro that[of "s - (2 ^ 32 + 45)"]) simp_all
    have "(s mod 48 + 35) mod 48 = (d + 48 * 89478487) mod 48" by (simp add: d mod_simps add.commute)
    also have "\<dots> = d" using d(2) by (simp only: mod_mult_self2 mod_less)
    finally have "2 ^ 32 - 3 + (s mod 48 + 35) mod 48 + 48 = s" using d(1) by simp
    then have "2 ^ 32 - 3 + (s mod 48 + 35) mod 48 + 1 = s - 47" by simp
    then have "swmr_late_mem (hword 2 ?c s) = of_nat (s - 47)" by (simp only: word)
    moreover have "(of_nat (s - 47) :: u64) \<noteq> of_nat (s + 1)"
      using of_nat_eq_window[where 'a = 64, of "s - 47" "s + 1"] s by simp
    ultimately show ?thesis by simp
  qed
  have reader: "swmr_reader_ok ?S (?S + 1) swmr_late_mem ?c 0 ?c ?S"
    using pub n by (simp add: swmr_reader_ok_def swmr_same_def pword_def swmr_late_def swmr_late_mem_def)
  have "swmr_dir 2 ?S [?S] (?S + 1) swmr_late_mem ?c [?c]"
    unfolding swmr_dir_def n using placed reader old new
    by (simp add: swmr_late_def lazy_pos_def)
  then show ?thesis by (auto simp: swmr_link_inv_def)
qed

definition swmr_late_reader :: "nat \<Rightarrow> swmr_context list \<times> mem \<Rightarrow> swmr_context list \<times> mem" where
  "swmr_late_reader k = (\<lambda>(rs, m). let s = snd (swmr_link_recv 0 (rs, m, swmr_late 13)) in (fst s, fst (snd s)))"

lemma swmr_late_reader_inv:
  assumes "swmr_link_inv (rs, m, swmr_late 13)"
  shows "swmr_link_inv (fst (swmr_late_reader k (rs, m)), snd (swmr_late_reader k (rs, m)), swmr_late 13)"
proof -
  obtain r rs' m' c' where c: "swmr_link_recv 0 (rs, m, swmr_late 13) = (r, rs', m', c')" using prod_cases4 by blast
  have "length rs = 1"
    using assms swmr_dirD(2) by (fastforce simp: swmr_link_inv_def swmr_late_def)
  then have "swmr_link_inv (rs', m', c')" using swmr_link_recv_step[OF assms _ c] by simp
  moreover have "c' = swmr_late 13" using c by (auto simp: swmr_link_recv_def split: prod.splits)
  ultimately show ?thesis using c by (simp add: swmr_late_reader_def)
qed

theorem swmr_blocks_forever_witness:
  "swmr_send_raw swmr_late_reader 1000 (\<lambda>_. 7) ([swmr_late 13], swmr_late_mem, swmr_late 13) = None"
proof (rule swmr_blocks_forever[OF swmr_late_inv])
  show "unat (wc_next_seq (swmr_late 13)) = 2 ^ 32 - 1 + (wsize (swmr_late 13) - 1)"
    by (simp add: swmr_late_def)
qed (use swmr_late_reader_inv in blast)

lemma swmr_underflow_all:
  "\<forall>k\<in>set [64..<255]. swmr_queue_size (ucast (of_nat k :: u16) + 1) 64 = 64 \<and>
     (ucast (ucast (of_nat k :: u16) :: u8) :: u32) = of_nat k \<and>
     (ucast (ucast (of_nat k :: u16) :: u8) :: u64) = of_nat k"
  by code_simp

lemma swmr_underflow_slots:
  assumes "64 \<le> k" "k < 255"
  shows "unat (ucast (64 - (of_nat k + 1) :: u32) :: u64) = 2 ^ 32 + 63 - k"
proof -
  have "(64 - (of_nat k + 1) :: u32) = of_nat (2 ^ 32 + 63) - of_nat k" by simp
  also have "\<dots> = of_nat (2 ^ 32 + 63 - k)" using assms by (intro of_nat_diff[symmetric]) simp
  finally have "(64 - (of_nat k + 1) :: u32) = of_nat (2 ^ 32 + 63 - k)" .
  moreover have "2 ^ 32 + 63 - k < 2 ^ LENGTH(32)" using assms by simp
  ultimately have "unat (64 - (of_nat k + 1) :: u32) = 2 ^ 32 + 63 - k" by (simp only: unat_of_nat_small)
  then show ?thesis by (simp add: unsigned_ucast_eq take_bit_eq_mod)
qed

text \<open>
  With 64 or more readers the slot count underflows. The loop that adds pages computes
  \<open>queue_size - (count+1)\<close> in unsigned arithmetic and stops at once: the queue asks for 64 lines,
  places its first slot behind them and believes it has nearly \<open>2^32\<close> slots.
\<close>

theorem swmr_create_underflow:
  assumes "swmr_queue_create alloc node q src dst count False w = Some (q', h', m')"
    and "64 \<le> unat count" "unat count < 255"
  shows "wc_shm (wq_src q') = fst (alloc 4096 64 (node (dst ! 0)) True w) \<and>
         wc_data (wq_src q') = wc_shm (wq_src q') + 64 * (of_nat (unat count) + 1) \<and>
         unat (wc_num_slots (wq_src q')) = 2 ^ 32 + 63 - unat count"
proof -
  have c: "count = of_nat (unat count)" by simp
  have "unat count \<in> set [64..<255]" using assms(2,3) by (simp only: set_upt atLeastLessThan_iff)
  from bspec[OF swmr_underflow_all this] have sz: "swmr_queue_size (ucast count + 1) 64 = 64"
    "(ucast (ucast count :: u8) :: u32) = of_nat (unat count)"
    "(ucast (ucast count :: u8) :: u64) = of_nat (unat count)" unfolding c[symmetric] by simp_all
  note slots = swmr_underflow_slots[OF assms(2,3), folded sz(2)]
  obtain shm h1 m1 where a: "alloc 4096 64 (node (dst ! 0)) True w = (shm, h1, m1)" using prod_cases3 by blast
  have "wq_src q' = swmr_init_context shm (wq_src q) (ucast count) 0 False 64"
    using assms(1) a unfolding swmr_queue_create_def sz(1) by (auto simp: Let_def split: prod.splits if_splits)
  then show ?thesis
    using slots by (simp add: swmr_init_context_def Let_def a sz(3) mult.commute del: of_nat_unat)
qed

theorem swmr_create_underflow_witness:
  "\<exists>q' h' m'. swmr_queue_create (\<lambda>sz al n c (h, m). (h, h + sz, m)) (\<lambda>_. 0)
       \<lparr>wq_src = swmr_context_zero, wq_dst = []\<rparr> 0 [1] 64 False (4096, \<lambda>_. 0) = Some (q', h', m') \<and>
     wc_shm (wq_src q') = 4096 \<and> wc_data (wq_src q') = 4096 + 4160 \<and> unat (wc_num_slots (wq_src q')) = 2 ^ 32 - 1"
proof -
  obtain q' h' m' where c: "swmr_queue_create (\<lambda>sz al n c (h, m). (h, h + sz, m)) (\<lambda>_. 0)
     \<lparr>wq_src = swmr_context_zero, wq_dst = []\<rparr> 0 [1] 64 False (4096, \<lambda>_. 0) = Some (q', h', m')"
    by (simp add: swmr_queue_create_def Let_def)
  show ?thesis using swmr_create_underflow[OF c] c by simp
qed

end
