(* ===== verification/Channel_Refine.thy ===== *)
theory Channel_Refine
  imports Channel Queuepair_Refine Swmr_Refine
begin

text \<open>
  What channels promise. A one-to-one channel is a pair of independent first-in first-out
  directions; a one-to-many channel multicasts from its owner to all receivers; and the owner's
  receive on a one-to-many channel takes exactly one notification from every receiver.
\<close>

section \<open>One-to-one channels\<close>

type_synonym chan_state = "mem \<times> smlt_channel"

text \<open>The node that sends, and the one that receives, in a direction; \<open>True\<close> is away from the owner.\<close>

definition chan_sender :: "bool \<Rightarrow> smlt_channel \<Rightarrow> u32" where
  "chan_sender d ch = (if d then ch_owner ch else ch_trg ch)"

definition chan_try_send :: "bool \<Rightarrow> u64 list \<Rightarrow> chan_state \<Rightarrow> bool \<times> chan_state" where
  "chan_try_send d x = (\<lambda>(m, ch).
     case smlt_channel_send (\<lambda>_ w. w) 1 (chan_sender d ch) (msg_of x) ((), m, ch) of
       Returns (err, _, m', ch') \<Rightarrow> (smlt_err_is_ok err, m', ch')
     | _ \<Rightarrow> (False, m, ch))"

definition chan_try_recv :: "nat \<Rightarrow> bool \<Rightarrow> chan_state \<Rightarrow> u64 list option \<times> chan_state" where
  "chan_try_recv w d = (\<lambda>(m, ch).
     case smlt_channel_recv (\<lambda>_ w. w) 1 (chan_sender (\<not> d) ch) (msg_of (replicate w 0)) ((), m, ch) of
       Returns ((err, msg), _, m', ch') \<Rightarrow> (if smlt_err_is_ok err then Some (msg_payload msg) else None, m', ch')
     | _ \<Rightarrow> (None, m, ch))"

text \<open>The UMP queue pairs at the two ends.\<close>

definition own_end :: "smlt_channel \<Rightarrow> smlt_ump_queuepair" where
  "own_end ch = qp_ump (ch_send ch ! 0)"

definition trg_end :: "smlt_channel \<Rightarrow> smlt_ump_queuepair" where
  "trg_end ch = qp_ump (ch_recv ch ! 0)"

definition chan_pending :: "nat \<Rightarrow> bool \<Rightarrow> chan_state \<Rightarrow> u64 list list" where
  "chan_pending w d = (\<lambda>(m, ch).
     if d then ump_link_pending w (trg_end ch, m, own_end ch) else ump_link_pending w (own_end ch, m, trg_end ch))"

definition chan_inv :: "nat \<Rightarrow> chan_state \<Rightarrow> bool" where
  "chan_inv w = (\<lambda>(m, ch).
     \<not> ch_use_shm ch \<and> ch_m ch = 1 \<and> ch_n ch = 1 \<and> ch_owner ch \<noteq> ch_trg ch \<and>
     (\<exists>s r. ch_send ch = [s] \<and> ch_recv ch = [r] \<and> qp_f s = qp_fns Fn_ump \<and> qp_f r = qp_fns Fn_ump \<and>
            ump_duplex w (qp_ump s) m (qp_ump r)))"

text \<open>The blocking calls of a UMP queue pair, cut off after one attempt.\<close>

lemma qp_send_once:
  assumes "qp_f q = qp_fns Fn_ump" "smlt_ump_queuepair_try_send m (qp_ump q) msg = (err, m', u)"
  shows "smlt_queuepair_send (\<lambda>_ w. w) 1 msg (e, m, q) =
    (if err = errval SMLT_SUCCESS then Returns (err, e, m', q\<lparr>qp_ump := u\<rparr>) else Polling)"
  using assms try_send_two_results[of m "qp_ump q" msg]
  by (auto simp: smlt_queuepair_send_def smlt_queuepair_try_send_def qp_fns_def lift_env_def)

lemma qp_recv_once:
  assumes "qp_f q = qp_fns Fn_ump" "smlt_ump_queuepair_try_recv m (qp_ump q) buf = (err, m', u, msg)"
  shows "smlt_queuepair_recv (\<lambda>_ w. w) 1 buf (e, m, q) =
    (if err = errval SMLT_SUCCESS then Returns ((err, msg), e, m', q\<lparr>qp_ump := u\<rparr>) else Polling)"
  using assms try_recv_two_results[of m "qp_ump q" buf]
  by (auto simp: smlt_queuepair_recv_def smlt_queuepair_try_recv_def qp_fns_def lift_env_def)

lemma chan_try_send_eq:
  assumes inv: "chan_inv w (m, ch)"
    and "smlt_ump_queuepair_try_send m (if d then own_end ch else trg_end ch) (msg_of x) = (err, m', u)"
  shows "chan_try_send d x (m, ch) =
    (if err = errval SMLT_SUCCESS
     then (True, m', if d then ch\<lparr>ch_send := [(ch_send ch ! 0)\<lparr>qp_ump := u\<rparr>]\<rparr> else ch\<lparr>ch_recv := [(ch_recv ch ! 0)\<lparr>qp_ump := u\<rparr>]\<rparr>)
     else (False, m, ch))"
proof -
  obtain s r where q: "ch_send ch = [s]" "ch_recv ch = [r]" "qp_f s = qp_fns Fn_ump" "qp_f r = qp_fns Fn_ump"
    and c: "\<not> ch_use_shm ch" "ch_m ch = 1" "ch_n ch = 1" "ch_owner ch \<noteq> ch_trg ch"
    using inv by (auto simp: chan_inv_def)
  have n: "num_chan ch = Suc 0" using c by (simp add: num_chan_def)
  show ?thesis
  proof (cases d)
    case True
    then have "smlt_ump_queuepair_try_send m (qp_ump s) (msg_of x) = (err, m', u)" using assms(2) q by (simp add: own_end_def)
    from qp_send_once[OF q(3) this, of "()"] True q c n show ?thesis
      by (simp add: chan_try_send_def smlt_channel_send_def chan_sender_def on_field_def call_at_def smlt_err_is_ok_errval)
  next
    case False
    then have "smlt_ump_queuepair_try_send m (qp_ump r) (msg_of x) = (err, m', u)" using assms(2) q by (simp add: trg_end_def)
    from qp_send_once[OF q(4) this, of "()"] False q c n show ?thesis
      by (simp add: chan_try_send_def smlt_channel_send_def chan_sender_def on_field_def call_at_def smlt_err_is_ok_errval)
  qed
qed

lemma chan_try_recv_eq:
  assumes inv: "chan_inv v (m, ch)"
    and "smlt_ump_queuepair_try_recv m (if d then trg_end ch else own_end ch) (msg_of (replicate w 0)) = (err, m', u, msg)"
  shows "chan_try_recv w d (m, ch) =
    (if err = errval SMLT_SUCCESS
     then (Some (msg_payload msg), m',
           if d then ch\<lparr>ch_recv := [(ch_recv ch ! 0)\<lparr>qp_ump := u\<rparr>]\<rparr> else ch\<lparr>ch_send := [(ch_send ch ! 0)\<lparr>qp_ump := u\<rparr>]\<rparr>)
     else (None, m, ch))"
proof -
  obtain s r where q: "ch_send ch = [s]" "ch_recv ch = [r]" "qp_f s = qp_fns Fn_ump" "qp_f r = qp_fns Fn_ump"
    and c: "\<not> ch_use_shm ch" "ch_m ch = 1" "ch_n ch = 1" "ch_owner ch \<noteq> ch_trg ch"
    using inv by (auto simp: chan_inv_def)
  show ?thesis
  proof (cases d)
    case True
    then have "smlt_ump_queuepair_try_recv m (qp_ump r) (msg_of (replicate w 0)) = (err, m', u, msg)"
      using assms(2) q by (simp add: trg_end_def)
    from qp_recv_once[OF q(4) this, of "()"] True q c show ?thesis
      by (simp add: chan_try_recv_def smlt_channel_recv_def chan_sender_def on_field_def call_at_def recv_at_def smlt_err_is_ok_errval)
  next
    case False
    then have "smlt_ump_queuepair_try_recv m (qp_ump s) (msg_of (replicate w 0)) = (err, m', u, msg)"
      using assms(2) q by (simp add: own_end_def)
    from qp_recv_once[OF q(3) this, of "()"] False q c show ?thesis
      by (simp add: chan_try_recv_def smlt_channel_recv_def chan_sender_def on_field_def call_at_def recv_at_def smlt_err_is_ok_errval)
  qed
qed

lemma chan_dir:
  assumes "chan_inv w (m, ch)"
  shows "ump_duplex w (if d then own_end ch else trg_end ch) m (if d then trg_end ch else own_end ch)" "w \<le> 7"
  using assms ump_duplex_sym by (auto simp: chan_inv_def own_end_def trg_end_def ump_duplex_def ump_link_inv_def)

lemma chan_send_step:
  assumes inv: "chan_inv w s" and x: "length x = w" and call: "chan_try_send d x s = (ok, s')"
  shows "chan_inv w s' \<and> chan_pending w d s' = chan_pending w d s @ (if ok then [x] else []) \<and>
    chan_pending w (\<not> d) s' = chan_pending w (\<not> d) s \<and> (ok \<or> chan_pending w d s \<noteq> [])"
proof -
  obtain m ch where s: "s = (m, ch)" by (cases s)
  let ?a = "if d then own_end ch else trg_end ch" and ?b = "if d then trg_end ch else own_end ch"
  note dup = chan_dir(1)[OF inv[unfolded s], of d] chan_dir(2)[OF inv[unfolded s]]
  have words: "unat (msg_words (msg_of x)) = w" "msg_payload (msg_of x) = x"
    using x dup(2) by (simp_all add: unat_words_msg_of msg_payload_msg_of)
  obtain err m' u where c: "smlt_ump_queuepair_try_send m ?a (msg_of x) = (err, m', u)" using prod_cases3 by blast
  note step = duplex_send[OF dup(1) words(1) c] and eq = chan_try_send_eq[OF inv[unfolded s] c]
  show ?thesis
  proof (cases "err = errval SMLT_SUCCESS")
    case True
    then have p: "ump_link_pending w (?b, m', u) = ump_link_pending w (?b, m, ?a) @ [x]" using step(3) words(2) by auto
    show ?thesis
      using inv eq call True p step(1,2) ump_duplex_sym[OF step(1)]
      by (cases d) (auto simp: s chan_inv_def chan_pending_def own_end_def trg_end_def)
  next
    case False
    then have "ump_link_pending w (?b, m, ?a) \<noteq> []" using step(3) by auto
    then show ?thesis using inv eq call False by (cases d) (auto simp: s chan_pending_def)
  qed
qed

lemma chan_recv_step:
  assumes inv: "chan_inv w s" and call: "chan_try_recv w d s = (r, s')"
  shows "chan_inv w s' \<and> chan_pending w d s = (case r of None \<Rightarrow> [] | Some x \<Rightarrow> [x]) @ chan_pending w d s' \<and>
    chan_pending w (\<not> d) s' = chan_pending w (\<not> d) s \<and> (r = None \<longrightarrow> chan_pending w d s = [])"
proof -
  obtain m ch where s: "s = (m, ch)" by (cases s)
  let ?a = "if d then own_end ch else trg_end ch" and ?b = "if d then trg_end ch else own_end ch"
  note dup = chan_dir(1)[OF inv[unfolded s], of d] chan_dir(2)[OF inv[unfolded s]]
  have words: "unat (msg_words (msg_of (replicate w 0))) = w" using dup(2) by (simp add: unat_words_msg_of)
  obtain err m' u msg where c: "smlt_ump_queuepair_try_recv m ?b (msg_of (replicate w 0)) = (err, m', u, msg)"
    using prod_cases4 by blast
  note step = duplex_recv[OF dup(1) words c] and eq = chan_try_recv_eq[OF inv[unfolded s] c]
  have link: "ump_link_inv w (?b, m, ?a)" using dup(1) by (simp add: ump_duplex_def)
  note res = ump_recv_step(7)[OF link words c]
  show ?thesis
  proof (cases "err = errval SMLT_SUCCESS")
    case True
    then have "ump_link_pending w (?b, m, ?a) = msg_payload msg # ump_link_pending w (u, m', ?a)" using res by auto
    then show ?thesis
      using inv eq call True step ump_duplex_sym[OF step(1)]
      by (cases d) (auto simp: s chan_inv_def chan_pending_def own_end_def trg_end_def)
  next
    case False
    then have "ump_link_pending w (?b, m, ?a) = []" using res by auto
    then show ?thesis using inv eq call False by (cases d) (auto simp: s chan_pending_def)
  qed
qed

interpretation chan: duplex_channel
  "chan_inv w" "chan_pending w" "\<lambda>x. length x = w" chan_try_send "chan_try_recv w" for w
  using chan_send_step chan_recv_step by unfold_locales

lemma chan_create_link:
  assumes create: "smlt_channel_create na nl nf mx node ch0 src dst 1 1 w = Returns (errval SMLT_SUCCESS, ch, h', m')"
    and numa: "numa_blocks_ok na (65 * 64 + 4096 + 16) (node (dst ! 0)) (node (src ! 0))
                 (qp_heap na mx (node (src ! 0)) (node (dst ! 0)) w)"
    and diff: "src ! 0 \<noteq> dst ! 0" and wd: "wd \<le> 7"
  shows "chan_inv wd (m', ch)" "chan_pending wd d (m', ch) = []"
proof -
  obtain err qps w1 where q: "smlt_queuepair_create na nf mx node SMLT_QP_TYPE_UMP (src ! 0) (dst ! 0) w = Returns (err, qps, w1)"
    using create by (cases "smlt_queuepair_create na nf mx node SMLT_QP_TYPE_UMP (src ! 0) (dst ! 0) w")
      (auto simp: smlt_channel_create_def)
  have nf: "\<not> smlt_err_is_fail err"
    using create q smlt_err_is_fail_push[of err SMLT_ERR_CHAN_CREATE]
    by (auto simp: smlt_channel_create_def smlt_err_is_fail_errval split: if_splits)
  then have "err = errval SMLT_SUCCESS"
    using q by (auto simp: smlt_queuepair_create_def Let_def smlt_err_is_fail_errval split: prod.splits if_splits)
  moreover obtain s r where qps: "qps = Some (s, r)" "w1 = (h', m')"
    "ch = ch0\<lparr>ch_m := 1, ch_n := 1, ch_owner := src ! 0, ch_trg := dst ! 0, ch_use_shm := False, ch_send := [s], ch_recv := [r]\<rparr>"
    using create q nf by (auto simp: smlt_channel_create_def split: option.splits prod.splits)
  ultimately have q': "smlt_queuepair_create na nf mx node SMLT_QP_TYPE_UMP (src ! 0) (dst ! 0) w =
    Returns (errval SMLT_SUCCESS, Some (s, r), h', m')" using q by simp
  obtain m ps pd where i: "smlt_ump_queuepair_init (smlt_platform_alloc_on_node na mx) (smlt_platform_free nf)
       64 (node (src ! 0)) (node (dst ! 0)) ps pd ump_queuepair_zero ump_queuepair_zero
       (qp_heap na mx (node (src ! 0)) (node (dst ! 0)) w, m) = (errval SMLT_SUCCESS, qp_ump s, qp_ump r, h', m')"
    "qp_f s = qp_fns Fn_ump" "qp_f r = qp_fns Fn_ump" using qp_create_ump[OF q'] by blast
  have "numa_blocks_ok na ((ucast (64 :: u16) + 1) * 64 + 4096 + 16) (node (dst ! 0)) (node (src ! 0))
      (qp_heap na mx (node (src ! 0)) (node (dst ! 0)) w)" using numa by simp
  from ump_init_connects[OF i(1) this wd] i(2,3) qps(3) diff
  show "chan_inv wd (m', ch)" "chan_pending wd d (m', ch) = []"
    by (simp_all add: chan_inv_def chan_pending_def own_end_def trg_end_def)
qed

section \<open>One-to-many channels\<close>

definition mc_send :: "u64 list \<Rightarrow> chan_state \<Rightarrow> bool \<times> chan_state" where
  "mc_send x = (\<lambda>(m, ch).
     case smlt_channel_send (\<lambda>_ w. w) 1 (ch_owner ch) (msg_of x) ((), m, ch) of
       Returns (err, _, m', ch') \<Rightarrow> (smlt_err_is_ok err, m', ch')
     | _ \<Rightarrow> (False, m, ch))"

definition mc_recv :: "nat \<Rightarrow> chan_state \<Rightarrow> u64 list option \<times> chan_state" where
  "mc_recv i = (\<lambda>(m, ch).
     case smlt_channel_recv (\<lambda>_ w. w) 1 (ch_shm_dst ch ! i) (msg_of (replicate 7 0)) ((), m, ch) of
       Returns ((err, msg), _, m', ch') \<Rightarrow> (if smlt_err_is_ok err then Some (msg_payload msg) else None, m', ch')
     | _ \<Rightarrow> (None, m, ch))"

definition mc_link :: "chan_state \<Rightarrow> swmr_link" where
  "mc_link = (\<lambda>(m, ch). (wq_dst (ch_send_owner ch), m, wq_src (ch_send_owner ch)))"

definition mc_pending :: "nat \<Rightarrow> chan_state \<Rightarrow> u64 list list" where
  "mc_pending i s = swmr_link_pending i (mc_link s)"

definition mc_readers :: "chan_state \<Rightarrow> nat" where
  "mc_readers = (\<lambda>(m, ch). length (ch_shm_dst ch))"

definition mc_inv :: "chan_state \<Rightarrow> bool" where
  "mc_inv = (\<lambda>(m, ch). ch_use_shm ch \<and> ch_n ch \<noteq> ch_m ch \<and> unat (ch_m ch) = length (ch_shm_dst ch) \<and>
     length (wq_dst (ch_send_owner ch)) = length (ch_shm_dst ch) \<and> distinct (ch_shm_dst ch) \<and>
     ch_owner ch \<notin> set (ch_shm_dst ch) \<and> swmr_link_inv (mc_link (m, ch)))"

lemma swmr_send_raw_cong:
  assumes "\<And>j. j < 7 \<Longrightarrow> p j = p' j"
  shows "swmr_send_raw env fuel p = swmr_send_raw env fuel p'"
proof -
  have "swmr_write m c p = swmr_write m c p'" for m c
    using assms copy_to_mem_cong[of 0 7 p p'] by (simp add: swmr_write_def)
  then show ?thesis by (simp add: swmr_send_raw_def fun_eq_iff split: option.split)
qed

lemma swmr_send_raw_frame:
  "swmr_send_raw (\<lambda>_ w. w) 1 p (e, m, c) =
     map_option (\<lambda>(_, m', c'). (e, m', c')) (swmr_send_raw (\<lambda>_ w. w) 1 p ((), m, c))"
  by (simp add: swmr_send_raw_def swmr_sync_def Let_def split: prod.split)

lemma mc_send_eq:
  assumes inv: "mc_inv (m, ch)" and x: "length x = 7" and call: "mc_send x (m, ch) = (ok, s')"
  shows "swmr_link_send x (mc_link (m, ch)) = (ok, mc_link s') \<and>
    (\<exists>m' c. s' = (m', ch\<lparr>ch_send_owner := (ch_send_owner ch)\<lparr>wq_src := c\<rparr>\<rparr>))"
proof -
  let ?p = "msg_data (msg_of x)" and ?c = "wq_src (ch_send_owner ch)" and ?rs = "wq_dst (ch_send_owner ch)"
  have w: "msg_words (msg_of x) \<le> 7" using x by (simp add: msg_of_def)
  have "swmr_send_raw (\<lambda>_ (w :: unit \<times> mem). w) 1 (\<lambda>j. x ! j) = swmr_send_raw (\<lambda>_ w. w) 1 ?p"
    using x by (intro swmr_send_raw_cong) (simp add: msg_of_def)
  then have sends: "swmr_send_raw (\<lambda>_ w. w) 1 (\<lambda>j. x ! j) (?rs, m, ?c) =
      map_option (\<lambda>(_, m', c'). (?rs, m', c')) (swmr_send_raw (\<lambda>_ w. w) 1 ?p ((), m, ?c))"
    using swmr_send_raw_frame[of "\<lambda>j. x ! j" ?rs m ?c] by simp
  note unfold = mc_send_def smlt_channel_send_def on_field_def smlt_swmr_send_def swmr_link_send_def mc_link_def
  show ?thesis
  proof (cases "swmr_send_raw (\<lambda>_ (w :: unit \<times> mem). w) 1 ?p ((), m, ?c)")
    case None
    then have "s' = (m, ch)" "\<not> ok" using call inv w by (auto simp: unfold mc_inv_def)
    moreover have "ch = ch\<lparr>ch_send_owner := (ch_send_owner ch)\<lparr>wq_src := ?c\<rparr>\<rparr>" by simp
    ultimately show ?thesis using None sends by (auto simp: unfold intro!: exI[of _ ?c])
  next
    case (Some r)
    then show ?thesis using call inv w sends by (cases r) (auto simp: unfold mc_inv_def smlt_err_is_ok_errval)
  qed
qed

lemma each_self_recv_none:
  "(\<And>t. j \<le> t \<Longrightarrow> t < j + k \<Longrightarrow> dst ! t \<noteq> self) \<Longrightarrow> j + k \<le> length dst \<Longrightarrow>
   each_self_recv self dst f j k msg s = Returns (msg, s)"
  by (induction k arbitrary: j) auto

lemma each_self_recv_single:
  assumes "distinct dst" "j \<le> i" "i < j + k" "j + k = length dst"
  shows "each_self_recv (dst ! i) dst f j k msg s = bind_call (f i msg s) (\<lambda>((_, msg'), s'). Returns (msg', s'))"
  using assms
proof (induction k arbitrary: j)
  case (Suc k)
  show ?case
  proof (cases "j = i")
    case True
    have "each_self_recv (dst ! i) dst f (Suc i) k msg' s' = Returns (msg', s')" for msg' s'
      using Suc.prems True by (intro each_self_recv_none) (auto simp: nth_eq_iff_index_eq)
    then show ?thesis using True Suc.prems by (cases "f i msg s") auto
  next
    case False
    then have "dst ! j \<noteq> dst ! i" using Suc.prems by (simp add: nth_eq_iff_index_eq)
    then show ?thesis using Suc.IH[of "Suc j"] Suc.prems False by simp
  qed
qed simp

lemma mc_recv_eq:
  assumes inv: "mc_inv (m, ch)" and i: "i < length (ch_shm_dst ch)" and call: "mc_recv i (m, ch) = (r, s')"
  shows "swmr_link_recv i (mc_link (m, ch)) = (r, mc_link s') \<and>
    (\<exists>m' rs. s' = (m', ch\<lparr>ch_send_owner := (ch_send_owner ch)\<lparr>wq_dst := rs\<rparr>\<rparr>) \<and> length rs = length (ch_shm_dst ch))"
proof -
  let ?rs = "wq_dst (ch_send_owner ch)" and ?msg = "msg_of (replicate 7 0)"
  obtain ok m1 c1 p1 where 1: "swmr_receive_non_blocking m (?rs ! i) (msg_data ?msg) = (ok, m1, c1, p1)"
    using prod_cases4 by blast
  obtain p2 where 2: "swmr_receive_non_blocking m (?rs ! i) (\<lambda>_. 0) = (ok, m1, c1, p2)"
    and p: "ok \<Longrightarrow> map p1 [0..<7] = map p2 [0..<7]"
    using 1 by (auto simp: swmr_receive_non_blocking_def Let_def copy_from_mem_eq split: if_splits)
  have idle: "\<not> ok \<Longrightarrow> m1 = m \<and> c1 = ?rs ! i"
    using 1 by (auto simp: swmr_receive_non_blocking_def Let_def split: if_splits)
  have w: "msg_words ?msg \<le> 7" "unat (msg_words ?msg) = 7" by (simp_all add: msg_of_def)
  have c: "ch_n ch \<noteq> ch_m ch" "unat (ch_m ch) = length (ch_shm_dst ch)" "length ?rs = length (ch_shm_dst ch)"
    "distinct (ch_shm_dst ch)" "ch_owner ch \<noteq> ch_shm_dst ch ! i"
    using inv i nth_mem[OF i] by (auto simp: mc_inv_def)
  note single = each_self_recv_single[OF c(4), of 0 i "length (ch_shm_dst ch)"]
  have same: "ch = ch\<lparr>ch_send_owner := (ch_send_owner ch)\<lparr>wq_dst := ?rs\<rparr>\<rparr>" by simp
  note unfold = mc_recv_def smlt_channel_recv_def on_field_def recv_at_def call_at_def smlt_swmr_recv_def swmr_receive_raw_def
    swmr_link_recv_def mc_link_def
  show ?thesis
  proof (cases ok)
    case True
    then show ?thesis using call c i 1 2 p w 
      by (auto simp: unfold single msg_payload_def smlt_err_is_ok_errval intro!: exI[of _ "?rs[i := c1]"])
  next
    case False
    then have "s' = (m, ch)" "r = None" using call c i 1 w by (auto simp: unfold single)
    then show ?thesis using False 2 idle c(3) same by (auto simp: unfold intro!: exI[of _ ?rs])
  qed
qed

interpretation mc: multicast_channel mc_inv mc_readers mc_pending "\<lambda>x. length x = 7" mc_send mc_recv
proof unfold_locales
  fix s :: chan_state and x ok s'
  assume a: "mc_inv s" "length x = 7" "mc_send x s = (ok, s')"
  obtain m ch where s: "s = (m, ch)" by (cases s)
  note eq = mc_send_eq[OF a(1)[unfolded s] a(2) a(3)[unfolded s]]
  have l: "swmr_link_inv (mc_link s)" using a(1) by (simp add: s mc_inv_def)
  note step = swmr_link_send_step[OF l a(2) conjunct1[OF eq, folded s]]
  show "mc_inv s' \<and> mc_readers s' = mc_readers s \<and>
     (\<forall>i < mc_readers s. mc_pending i s' = mc_pending i s @ (if ok then [x] else []))"
    using a(1) eq step by (auto simp: s mc_inv_def mc_readers_def mc_pending_def mc_link_def)
next
  fix s :: chan_state and i r s'
  assume a: "mc_inv s" "i < mc_readers s" "mc_recv i s = (r, s')"
  obtain m ch where s: "s = (m, ch)" by (cases s)
  have i: "i < length (ch_shm_dst ch)" using a(2) by (simp add: s mc_readers_def)
  note eq = mc_recv_eq[OF a(1)[unfolded s] i a(3)[unfolded s]]
  have l: "swmr_link_inv (mc_link s)" "i < swmr_link_readers (mc_link s)"
    using a(1) i by (simp_all add: s mc_inv_def mc_link_def)
  note step = swmr_link_recv_step[OF l conjunct1[OF eq, folded s]]
  show "mc_inv s' \<and> mc_readers s' = mc_readers s \<and>
     mc_pending i s = (case r of None \<Rightarrow> [] | Some x \<Rightarrow> [x]) @ mc_pending i s' \<and>
     (r = None \<longrightarrow> mc_pending i s = []) \<and> (\<forall>j < mc_readers s. j \<noteq> i \<longrightarrow> mc_pending j s' = mc_pending j s)"
    using a(1) eq step by (auto simp: s mc_inv_def mc_readers_def mc_pending_def mc_link_def)
qed

section \<open>Collecting one notification from everybody\<close>

text \<open>
  The loop goes round the receivers against any behaviour of the others. \<open>Q k seen s\<close> is an invariant of
  the state before step \<open>k\<close>, given who has been heard.
\<close>

lemma all_seen: "length seen \<le> length (filter (\<lambda>a. a) seen) \<Longrightarrow> j < length seen \<Longrightarrow> seen ! j"
  using length_filter_less[of "seen ! j" seen "\<lambda>a. a"] by (meson nth_mem not_le)

lemma all_seen_replicate: "length seen \<le> length (filter (\<lambda>a. a) seen) \<Longrightarrow> seen = replicate (length seen) True"
  using all_seen by (auto intro: nth_equalityI)

lemma see_one: "i < length seen \<Longrightarrow> \<not> seen ! i \<Longrightarrow> length (filter (\<lambda>a. a) (seen[i := True])) = Suc (length (filter (\<lambda>a. a) seen))"
  by (induction seen arbitrary: i) (auto split: nat.splits)

text \<open>Safety: the loop goes on, or it ends in success with everybody heard.\<close>

lemma collect_all_outcome:
  assumes env: "\<And>k seen s. Q k seen s \<Longrightarrow> Q (Suc k) seen (env k s)"
    and can: "\<And>k seen i s. Q k seen s \<Longrightarrow> length seen = m \<Longrightarrow> i < m \<Longrightarrow> \<not> seen ! i \<Longrightarrow> \<exists>b. can i s = Returns b"
    and rcv: "\<And>k seen i s. Q k seen s \<Longrightarrow> length seen = m \<Longrightarrow> i < m \<Longrightarrow> \<not> seen ! i \<Longrightarrow> can i s = Returns True \<Longrightarrow>
        rcv i s = Polling \<or> (\<exists>s'. rcv i s = Returns (errval SMLT_SUCCESS, s') \<and> Q k (seen[i := True]) s')"
    and st: "Q k seen s" "length seen = m" "n = length (filter (\<lambda>a. a) seen)" "i < m \<or> m \<le> n"
  shows "collect_all env can rcv m seen n i k fuel (errval SMLT_SUCCESS) s = Polling \<or>
     (\<exists>k' s'. collect_all env can rcv m seen n i k fuel (errval SMLT_SUCCESS) s = Returns (errval SMLT_SUCCESS, s') \<and>
        Q k' (replicate m True) s')"
  using st
proof (induction fuel arbitrary: seen n i k s)
  case 0
  then show ?case using all_seen_replicate[of seen] by auto
next
  case (Suc fuel)
  let ?i = "if i + 1 = m then 0 else i + 1" and ?s = "env k s"
  show ?case
  proof (cases "n < m")
    case False
    then show ?thesis using Suc.prems all_seen_replicate[of seen] by auto
  next
    case True
    then have i: "i < m" "?i < m \<or> m \<le> n'" for n' using Suc.prems(4) by auto
    note Q = env[OF Suc.prems(1)]
    note skip = Suc.IH[OF Q Suc.prems(2,3) i(2)]
    show ?thesis
    proof (cases "seen ! i")
      case True
      then show ?thesis using skip \<open>n < m\<close> by (simp add: Let_def)
    next
      case unseen: False
      obtain ok where c: "can i ?s = Returns ok" using can[OF Q Suc.prems(2) i(1) unseen] by blast
      show ?thesis
      proof (cases ok)
        case False
        then show ?thesis using skip \<open>n < m\<close> unseen c by (simp add: Let_def)
      next
        case ok: True
        have count: "n + 1 = length (filter (\<lambda>a. a) (seen[i := True]))"
          using see_one[of i seen] i(1) unseen Suc.prems(2,3) by simp
        consider "rcv i ?s = Polling" | s2 where "rcv i ?s = Returns (errval SMLT_SUCCESS, s2)" "Q (Suc k) (seen[i := True]) s2"
          using rcv[OF Q Suc.prems(2) i(1) unseen] c ok by auto
        then show ?thesis
        proof cases
          case 1
          then show ?thesis using \<open>n < m\<close> unseen c ok by (simp add: Let_def)
        next
          case 2
          then show ?thesis
            using Suc.IH[OF 2(2) _ count i(2)] Suc.prems(2) \<open>n < m\<close> unseen c ok by (simp add: Let_def smlt_err_is_fail_errval)
        qed
      qed
    qed
  qed
qed

text \<open>
  Completion: from step \<open>T\<close> on everybody who has not been heard is receivable, and then one round is
  enough. \<open>ahead m i j\<close> is the number of steps of the round from \<open>i\<close> to \<open>j\<close>.
\<close>

definition ahead :: "nat \<Rightarrow> nat \<Rightarrow> nat \<Rightarrow> nat" where
  "ahead m i j = (if i \<le> j then j - i else j + m - i)"

lemma ahead_less: "i < m \<Longrightarrow> j < m \<Longrightarrow> ahead m i j < m"
  by (auto simp: ahead_def)

lemma ahead_next: "i < m \<Longrightarrow> j < m \<Longrightarrow> j \<noteq> i \<Longrightarrow> ahead m i j = Suc (ahead m (if i + 1 = m then 0 else i + 1) j)"
  by (auto simp: ahead_def)

lemma collect_all_done:
  assumes env: "\<And>k seen s. Q k seen s \<Longrightarrow> Q (Suc k) seen (env k s)"
    and can: "\<And>k seen i s. Q (Suc k) seen s \<Longrightarrow> length seen = m \<Longrightarrow> i < m \<Longrightarrow> \<not> seen ! i \<Longrightarrow>
        \<exists>b. can i s = Returns b \<and> (T \<le> k \<longrightarrow> b)"
    and rcv: "\<And>k seen i s. Q k seen s \<Longrightarrow> length seen = m \<Longrightarrow> i < m \<Longrightarrow> \<not> seen ! i \<Longrightarrow> can i s = Returns True \<Longrightarrow>
        \<exists>s'. rcv i s = Returns (errval SMLT_SUCCESS, s') \<and> Q k (seen[i := True]) s'"
    and st: "Q k seen s" "length seen = m" "n = length (filter (\<lambda>a. a) seen)" "i < m \<or> m \<le> n"
    and fuel: "if k < T then T - k + m \<le> fuel else \<forall>j < m. \<not> seen ! j \<longrightarrow> ahead m i j < fuel"
  shows "collect_all env can rcv m seen n i k fuel err s \<noteq> Polling"
  using st fuel
proof (induction fuel arbitrary: seen n i k s err)
  case 0
  then have "filter (\<lambda>a. a) seen = seen" by (auto simp: filter_id_conv in_set_conv_nth split: if_splits)
  then show ?case using 0 by simp
next
  case (Suc fuel)
  let ?i = "if i + 1 = m then 0 else i + 1" and ?s = "env k s"
  show ?case
  proof (cases "n < m")
    case False
    then show ?thesis by simp
  next
    case True
    then have i: "i < m" "?i < m \<or> m \<le> n'" for n' using Suc.prems(4) by auto
    note Q = env[OF Suc.prems(1)]
    have bound: "if Suc k < T then T - Suc k + m \<le> fuel else \<forall>j < m. \<not> seen' ! j \<longrightarrow> ahead m ?i j < fuel"
      if "\<And>j. j < m \<Longrightarrow> seen ! j \<Longrightarrow> seen' ! j" "T \<le> k \<Longrightarrow> seen' ! i" for seen'
    proof (cases "k < T")
      case True
      have "?i < m" using i(1) by auto
      then show ?thesis using True Suc.prems(5) by (auto intro: less_le_trans[OF ahead_less])
    next
      case False
      have "ahead m ?i j < fuel" if j: "j < m" "\<not> seen' ! j" for j
        using j \<open>T \<le> k \<Longrightarrow> seen' ! i\<close> \<open>\<And>j. j < m \<Longrightarrow> seen ! j \<Longrightarrow> seen' ! j\<close> Suc.prems(5) False ahead_next[OF i(1) j(1)]
        by (metis Suc_less_SucD not_le_imp_less)
      then show ?thesis using False by simp
    qed
    show ?thesis
    proof (cases "seen ! i")
      case True
      then show ?thesis
        using Suc.IH[OF Q Suc.prems(2,3) i(2) bound] \<open>n < m\<close> by (simp add: Let_def)
    next
      case unseen: False
      obtain ok where c: "can i ?s = Returns ok" "T \<le> k \<longrightarrow> ok" using can[OF Q Suc.prems(2) i(1) unseen] by blast
      show ?thesis
      proof (cases ok)
        case False
        then show ?thesis
          using Suc.IH[OF Q Suc.prems(2,3) i(2) bound] \<open>n < m\<close> unseen c by (simp add: Let_def)
      next
        case ok: True
        then obtain s2 where r: "rcv i ?s = Returns (errval SMLT_SUCCESS, s2)" "Q (Suc k) (seen[i := True]) s2"
          using rcv[OF Q Suc.prems(2) i(1) unseen] c by auto
        have count: "n + 1 = length (filter (\<lambda>a. a) (seen[i := True]))"
          using see_one[of i seen] i(1) unseen Suc.prems(2,3) by simp
        have "collect_all env can rcv m (seen[i := True]) (n + 1) ?i (Suc k) fuel (errval SMLT_SUCCESS) s2 \<noteq> Polling"
          using Suc.IH[OF r(2) _ count i(2) bound] Suc.prems(2) i(1) by (simp add: nth_list_update)
        then show ?thesis using \<open>n < m\<close> unseen c ok r(1) by (simp add: Let_def smlt_err_is_fail_errval)
      qed
    qed
  qed
qed

text \<open>
  The notification of a UMP queue pair takes one message, whatever the others do meanwhile; when one is
  there it returns at once, and it writes no word but the acknowledgement.
\<close>

lemma ump_recv_notify_returns:
  assumes "smlt_ump_queuepair_recv_notify env fuel (e, m, u) = Some (err, e', m', u')"
  shows "err = errval SMLT_SUCCESS \<and> u' = u\<lparr>uqp_rx := ump_advance (uqp_rx u)\<rparr>"
proof -
  let ?att = "\<lambda>(e, m, qp). if \<not> smlt_ump_queuepair_can_recv_raw m qp then (None, e, m, qp)
          else let (err, slot, m', qp') = smlt_ump_queuepair_recv_raw m qp in (Some err, e, m', qp')"
  have "spin (lift_env env) ?att k fuel (e, m, u) = Some (err, e', m', u') \<Longrightarrow>
    err = errval SMLT_SUCCESS \<and> u' = u\<lparr>uqp_rx := ump_advance (uqp_rx u)\<rparr>" for k
  proof (induction fuel arbitrary: k e m)
    case (Suc fuel)
    obtain e1 m1 where "lift_env env k (e, m, u) = (e1, m1, u)" by (cases "env k (e, m)") (simp add: lift_env_def)
    then show ?case using Suc
      by (auto simp: smlt_ump_queuepair_can_recv_raw_def smlt_ump_queuepair_recv_raw_def smlt_ump_queue_recv_raw_def
          smlt_ump_queue_can_recv_def Let_def split: if_splits)
  qed simp
  then show ?thesis using assms unfolding smlt_ump_queuepair_recv_notify_def by blast
qed

lemma ump_recv_notify_ready:
  assumes "smlt_ump_queue_can_recv (snd (env 0 (e, m))) (uqp_rx u)" "0 < fuel"
  shows "\<exists>e' m'. smlt_ump_queuepair_recv_notify env fuel (e, m, u) =
           Some (errval SMLT_SUCCESS, e', m', u\<lparr>uqp_rx := ump_advance (uqp_rx u)\<rparr>) \<and>
           (\<forall>x. x \<noteq> uq_last_ack (uqp_rx u) \<longrightarrow> m' x = snd (env 0 (e, m)) x)"
proof -
  obtain f where "fuel = Suc f" using assms(2) by (cases fuel) auto
  then show ?thesis using assms(1)
    by (cases "env 0 (e, m)") (auto simp: smlt_ump_queuepair_recv_notify_def lift_env_def smlt_ump_queuepair_can_recv_raw_def
        smlt_ump_queuepair_recv_raw_def smlt_ump_queue_recv_raw_def smlt_ump_queue_can_recv_def Let_def)
qed

lemma can_recv_frame:
  "m' (uq_buf q + 64 * ucast (uq_pos q)) = m (uq_buf q + 64 * ucast (uq_pos q)) \<Longrightarrow>
   smlt_ump_queue_can_recv m' q = smlt_ump_queue_can_recv m q"
  using ld32_cong[of m' _ m] by (simp add: smlt_ump_queue_can_recv_def)

text \<open>The queue pair after one notification, and the queue pairs after one from each that has been heard.\<close>

definition heard_once :: "smlt_qp \<Rightarrow> smlt_qp" where
  "heard_once q = q\<lparr>qp_ump := (qp_ump q)\<lparr>uqp_rx := ump_advance (uqp_rx (qp_ump q))\<rparr>\<rparr>"

definition heard_those :: "bool list \<Rightarrow> smlt_qp list \<Rightarrow> smlt_qp list" where
  "heard_those seen qs = map2 (\<lambda>h q. if h then heard_once q else q) seen qs"

lemma heard_those_simps [simp]:
  "length seen = length qs \<Longrightarrow> length (heard_those seen qs) = length qs"
  "length seen = length qs \<Longrightarrow> i < length qs \<Longrightarrow> heard_those seen qs ! i = (if seen ! i then heard_once (qs ! i) else qs ! i)"
  by (simp_all add: heard_those_def)

lemma heard_those_none: "heard_those (replicate (length qs) False) qs = qs"
  by (auto intro: nth_equalityI)

lemma heard_those_all: "heard_those (replicate (length qs) True) qs = map heard_once qs"
  by (auto intro: nth_equalityI)

lemma heard_those_next:
  "length seen = length qs \<Longrightarrow> i < length qs \<Longrightarrow> heard_those (seen[i := True]) qs = (heard_those seen qs)[i := heard_once (qs ! i)]"
  by (rule nth_equalityI) (auto simp: nth_list_update)

definition next_slot :: "smlt_qp \<Rightarrow> addr" where
  "next_slot q = (let r = uqp_rx (qp_ump q) in uq_buf r + 64 * ucast (uq_pos r))"

definition has_notified :: "mem \<Rightarrow> smlt_qp \<Rightarrow> bool" where
  "has_notified m q = smlt_ump_queue_can_recv m (uqp_rx (qp_ump q))"

text \<open>
  The environment notifies by step \<open>T\<close>: every receiver has done so before, or does so in one of the first
  \<open>T\<close> steps, and nobody takes a notification back.
\<close>

definition all_notify :: "nat \<Rightarrow> (nat \<Rightarrow> 'e \<times> mem \<Rightarrow> 'e \<times> mem) \<Rightarrow> mem \<Rightarrow> smlt_qp list \<Rightarrow> bool" where
  "all_notify T env m qs \<longleftrightarrow>
     (\<forall>q \<in> set qs. (has_notified m q \<or> (\<exists>k < T. \<forall>w. has_notified (snd (env k w)) q)) \<and>
        (\<forall>k w. has_notified (snd w) q \<longrightarrow> has_notified (snd (env k w)) q))"

text \<open>No receiver's acknowledgement word is in another one's slot.\<close>

definition acks_apart :: "smlt_qp list \<Rightarrow> bool" where
  "acks_apart qs \<longleftrightarrow> (\<forall>i < length qs. \<forall>j < length qs. i \<noteq> j \<longrightarrow> uq_last_ack (uqp_rx (qp_ump (qs ! i))) \<noteq> next_slot (qs ! j))"

text \<open>One step of the loop on a channel whose receivers are UMP queue pairs.\<close>

abbreviation (input) heard_chan where
  "heard_chan ch qs seen \<equiv> ch\<lparr>ch_shm_recv_owner := heard_those seen qs\<rparr>"

lemma collect_can:
  "qp_f q = qp_fns Fn_ump \<Longrightarrow> smlt_queuepair_can_recv m q = Returns (has_notified m q)"
  by (simp add: smlt_queuepair_can_recv_def qp_fns_def smlt_ump_queuepair_can_recv_def
      smlt_ump_queuepair_can_recv_raw_def has_notified_def)

lemma collect_rcv:
  assumes "length seen = length qs" "i < length qs" "\<not> seen ! i" "qp_f (qs ! i) = qp_fns Fn_ump"
  shows "on_shm_recv_owner (call_at (smlt_queuepair_recv0 env fuel) i) (e, m, heard_chan ch qs seen) =
    (case smlt_ump_queuepair_recv_notify env fuel (e, m, qp_ump (qs ! i)) of
       None \<Rightarrow> Polling
     | Some (_, e', m', _) \<Rightarrow> Returns (errval SMLT_SUCCESS, e', m', heard_chan ch qs (seen[i := True])))"
proof (cases "smlt_ump_queuepair_recv_notify env fuel (e, m, qp_ump (qs ! i))")
  case None
  then show ?thesis using assms by (simp add: on_field_def call_at_def smlt_queuepair_recv0_def qp_fns_def)
next
  case (Some r)
  obtain err e' m' u where r: "r = (err, e', m', u)" by (cases r)
  show ?thesis
    using assms Some ump_recv_notify_returns[OF Some[unfolded r]]
    by (simp add: r on_field_def call_at_def smlt_queuepair_recv0_def qp_fns_def heard_those_next heard_once_def)
qed

text \<open>A notification that has come stays there while another receiver is heard.\<close>

lemma heard_other_stays:
  assumes "all_notify T env m0 qs" "acks_apart qs" "i < length qs" "j < length qs" "j \<noteq> i"
    and "has_notified m (qs ! j)" "\<forall>x. x \<noteq> uq_last_ack (uqp_rx (qp_ump (qs ! i))) \<longrightarrow> m' x = snd (env 0 (e, m)) x"
  shows "has_notified m' (qs ! j)"
proof -
  have "has_notified (snd (env 0 (e, m))) (qs ! j)" using assms(1,4,6) by (auto simp: all_notify_def)
  moreover have "m' (next_slot (qs ! j)) = snd (env 0 (e, m)) (next_slot (qs ! j))"
    using assms(2-5) by (intro assms(7)[rule_format]) (metis acks_apart_def)
  ultimately show ?thesis
    using can_recv_frame[of m' "uqp_rx (qp_ump (qs ! j))" "snd (env 0 (e, m))"] by (simp add: has_notified_def next_slot_def Let_def)
qed

text \<open>What is known before step \<open>k\<close> of a receiver that has not been heard.\<close>

definition has_come :: "(nat \<Rightarrow> 'e \<times> mem \<Rightarrow> 'e \<times> mem) \<Rightarrow> mem \<Rightarrow> nat \<Rightarrow> smlt_qp \<Rightarrow> bool" where
  "has_come env m k q \<longleftrightarrow> has_notified m q \<or> (\<exists>k' < k. \<forall>w. has_notified (snd (env k' w)) q)"

lemma has_come_late: "all_notify T env m qs \<Longrightarrow> q \<in> set qs \<Longrightarrow> T \<le> k \<Longrightarrow> has_come env m k q"
  unfolding all_notify_def has_come_def by (meson less_le_trans)

lemma has_come_Suc:
  "all_notify T env m qs \<Longrightarrow> q \<in> set qs \<Longrightarrow> has_come env m k q \<longrightarrow> has_notified m1 q \<Longrightarrow>
   has_come env m (Suc k) q \<longrightarrow> has_notified (snd (env k (e, m1))) q"
  by (auto simp: all_notify_def has_come_def less_Suc_eq)

lemma collect_owner_outcome:
  assumes n: "unat (ch_m ch) = length qs" "ch_shm_recv_owner ch = qs" and f: "\<forall>q \<in> set qs. qp_f q = qp_fns Fn_ump"
  shows "collect_owner env fuel (e, m, ch) = Polling \<or>
    (\<exists>e' m'. collect_owner env fuel (e, m, ch) =
       Returns (errval SMLT_SUCCESS, e', m', ch\<lparr>ch_shm_recv_owner := map heard_once qs\<rparr>))"
proof -
  let ?can = "\<lambda>i (e :: 'a, m, ch). if i < length (ch_shm_recv_owner ch)
                        then smlt_queuepair_can_recv m (ch_shm_recv_owner ch ! i) else Crash"
  let ?rcv = "\<lambda>i. on_shm_recv_owner (call_at (smlt_queuepair_recv0 env fuel) i)"
  define Q :: "nat \<Rightarrow> bool list \<Rightarrow> 'a \<times> mem \<times> smlt_channel \<Rightarrow> bool"
    where "Q k seen s \<longleftrightarrow> snd (snd s) = heard_chan ch qs seen" for k seen s
  have "Q (Suc k) seen (lift_env env k s)" if "Q k seen s" for k seen s
    using that by (auto simp: Q_def lift_env_def split: prod.splits)
  moreover have "\<exists>b. ?can i s = Returns b" if "Q k seen s" "length seen = length qs" "i < length qs" "\<not> seen ! i" for k seen i s
    using that f by (cases s) (simp add: Q_def collect_can)
  moreover have "?rcv i s = Polling \<or> (\<exists>s'. ?rcv i s = Returns (errval SMLT_SUCCESS, s') \<and> Q k (seen[i := True]) s')"
    if "Q k seen s" "length seen = length qs" "i < length qs" "\<not> seen ! i" for k seen i s
    using that f by (cases s) (auto simp: Q_def collect_rcv split: option.splits)
  moreover have "Q 0 (replicate (length qs) False) (e, m, ch)" using n(2) by (auto simp: Q_def heard_those_none)
  ultimately show ?thesis
    using collect_all_outcome[of Q "lift_env env" "length qs" ?can ?rcv 0 "replicate (length qs) False" "(e, m, ch)" 0 0 fuel]
    by (auto simp: collect_owner_def n(1) Q_def heard_those_all)
qed

lemma collect_owner_done:
  assumes n: "unat (ch_m ch) = length qs" "ch_shm_recv_owner ch = qs" and f: "\<forall>q \<in> set qs. qp_f q = qp_fns Fn_ump"
    and env: "all_notify T env m qs" "acks_apart qs" "T + length qs \<le> fuel" "0 < fuel"
  shows "collect_owner env fuel (e, m, ch) \<noteq> Polling"
proof -
  let ?can = "\<lambda>i (e :: 'a, m, ch). if i < length (ch_shm_recv_owner ch)
                        then smlt_queuepair_can_recv m (ch_shm_recv_owner ch ! i) else Crash"
  let ?rcv = "\<lambda>i. on_shm_recv_owner (call_at (smlt_queuepair_recv0 env fuel) i)"
  define Q :: "nat \<Rightarrow> bool list \<Rightarrow> 'a \<times> mem \<times> smlt_channel \<Rightarrow> bool"
    where "Q k seen s \<longleftrightarrow> snd (snd s) = heard_chan ch qs seen \<and>
      (\<forall>j < length qs. \<not> seen ! j \<longrightarrow> has_come env m k (qs ! j) \<longrightarrow> has_notified (fst (snd s)) (qs ! j))" for k seen s
  have "Q (Suc k) seen (lift_env env k s)" if q: "Q k seen s" for k seen s
  proof -
    obtain e1 m1 c1 where s: "s = (e1, m1, c1)" by (cases s)
    show ?thesis using q has_come_Suc[OF env(1) nth_mem, of _ k m1 e1]
      by (auto simp: Q_def s lift_env_def split: prod.splits)
  qed
  moreover have "\<exists>b. ?can i s = Returns b \<and> (T \<le> k \<longrightarrow> b)"
    if "Q (Suc k) seen s" "length seen = length qs" "i < length qs" "\<not> seen ! i" for k seen i s
    using that f has_come_late[OF env(1) nth_mem[OF that(3)], of "Suc k"] by (cases s) (simp add: Q_def collect_can)
  moreover have "\<exists>s'. ?rcv i s = Returns (errval SMLT_SUCCESS, s') \<and> Q k (seen[i := True]) s'"
    if q: "Q k seen s" "length seen = length qs" "i < length qs" "\<not> seen ! i" "?can i s = Returns True" for k seen i s
  proof -
    obtain e1 m1 where s: "s = (e1, m1, heard_chan ch qs seen)" using q(1) by (cases s) (auto simp: Q_def)
    have "has_notified m1 (qs ! i)" using q(2-5) f by (simp add: s collect_can)
    then have "smlt_ump_queue_can_recv (snd (env 0 (e1, m1))) (uqp_rx (qp_ump (qs ! i)))"
      using env(1) q(3) by (auto simp: all_notify_def has_notified_def)
    from ump_recv_notify_ready[of env e1 m1, OF this env(4)] obtain e2 m2 u where
      "smlt_ump_queuepair_recv_notify env fuel (e1, m1, qp_ump (qs ! i)) = Some (errval SMLT_SUCCESS, e2, m2, u)"
      and m2: "\<forall>x. x \<noteq> uq_last_ack (uqp_rx (qp_ump (qs ! i))) \<longrightarrow> m2 x = snd (env 0 (e1, m1)) x" by auto
    then have "?rcv i s = Returns (errval SMLT_SUCCESS, e2, m2, heard_chan ch qs (seen[i := True]))"
      using q(2-4) f by (simp add: s collect_rcv)
    moreover have "has_notified m2 (qs ! j)" if "j < length qs" "\<not> seen[i := True] ! j" "has_come env m k (qs ! j)" for j
      using that q(1-3) heard_other_stays[OF env(1,2) q(3) that(1) _ _ m2] by (auto simp: Q_def s nth_list_update split: if_splits)
    ultimately show ?thesis by (auto simp: Q_def)
  qed
  moreover have "Q 0 (replicate (length qs) False) (e, m, ch)" using n(2) by (auto simp: Q_def heard_those_none has_come_def)
  moreover have "if 0 < T then T - 0 + length qs \<le> fuel else \<forall>j < length qs. \<not> replicate (length qs) False ! j \<longrightarrow> ahead (length qs) 0 j < fuel"
    using env(3) by (simp add: ahead_def)
  ultimately show ?thesis
    using collect_all_done[of Q "lift_env env" "length qs" ?can T ?rcv 0 "replicate (length qs) False" "(e, m, ch)" 0 0 fuel]
    by (simp add: collect_owner_def n(1))
qed

text \<open>A structure as a caller may have left it, and channels to evaluate the properties on.\<close>

definition demo_channel :: smlt_channel where
  "demo_channel = \<lparr>ch_owner = 0, ch_trg = 0, ch_m = 0, ch_n = 0, ch_use_shm = False, ch_send = [], ch_recv = [],
     ch_send_owner = \<lparr>wq_src = swmr_context_zero, wq_dst = []\<rparr>, ch_shm_recv_owner = [], ch_shm_recv = [], ch_shm_dst = []\<rparr>"

text \<open>A channel created on an allocator that hands out 64 KiB at a time.\<close>

lemma demo_create:
  "\<exists>ch h' m'. smlt_channel_create (\<lambda>sz n h. (h, h + 65536)) (\<lambda>sz h. (h, h + 65536)) (\<lambda>b sz h. h) 3 (\<lambda>c. ucast c)
     demo_channel [0] [1] 1 1 (65536, \<lambda>_. 5) = Returns (errval SMLT_SUCCESS, ch, h', m')"
proof -
  have "SMLT_MEM_IS_POWER_OF_TWO 4096" "SMLT_MEM_IS_POWER_OF_TWO 64" by (simp_all add: SMLT_MEM_IS_POWER_OF_TWO_def)
  then show ?thesis
    by (simp add: smlt_channel_create_def smlt_queuepair_create_def smlt_ump_queuepair_init_def ump_queuepair_zero_def init_tx_eq
        init_rx_eq Let_def smlt_platform_alloc_on_node_def SMLT_MEM_ALIGN_def smlt_err_is_fail_errval)
qed

lemma demo_blocks:
  "numa_blocks_ok (\<lambda>(sz :: u64) (n :: u8) (h :: u64). (h, h + 65536)) (65 * 64 + 4096 + 16) 1 0
     (qp_heap (\<lambda>(sz :: u64) (n :: u8) (h :: u64). (h, h + 65536)) 3 0 1 (65536, \<lambda>_. 5))"
  by (simp add: numa_blocks_ok_def qp_heap_def smlt_platform_alloc_on_node_def Let_def SMLT_MEM_IS_POWER_OF_TWO_def
      SMLT_MEM_ALIGN_def)

definition demo_child :: "addr \<Rightarrow> smlt_qp" where
  "demo_child a = smlt_qp_zero\<lparr>qp_ump := ump_queuepair_zero\<lparr>uqp_rx := ump_queue_zero\<lparr>uq_buf := a, uq_last_ack := a + 4096,
     uq_num_msg := 64, uq_epoch := True\<rparr>\<rparr>, qp_f := qp_fns Fn_ump\<rparr>"

section \<open>Properties\<close>

text \<open>
  Claim C5: a one-to-one channel is full duplex. Over any interleaving of sends and receives by the owner
  and by the target, each direction delivers exactly the messages its sender was told were sent, in
  order: what was delivered followed by what is pending is what was accepted. The hypothesis is that
  the two rings libnuma returned do not overlap.
\<close>

theorem channel_duplex_fifo:
  assumes "smlt_channel_create na nl nf mx node ch0 src dst 1 1 w = Returns (errval SMLT_SUCCESS, ch, h', m')"
    and "numa_blocks_ok na (65 * 64 + 4096 + 16) (node (dst ! 0)) (node (src ! 0))
           (qp_heap na mx (node (src ! 0)) (node (dst ! 0)) w)"
    and "src ! 0 \<noteq> dst ! 0" "wd \<le> 7" "list_all (duplex_op_ok (\<lambda>x. length x = wd)) ops"
    and "duplex_run chan_try_send (chan_try_recv wd) ops (m', ch) = (acc, del, s')"
  shows "in_direction d acc = in_direction d del @ chan_pending wd d s'"
proof -
  note link = chan_create_link[OF assms(1-4)]
  have "\<forall>d. chan_pending wd d (m', ch) @ in_direction d acc = in_direction d del @ chan_pending wd d s'"
    using chan.duplex_run_each[OF link(1) assms(5,6)] by blast
  then show ?thesis using link(2) by simp
qed

theorem channel_duplex_fifo_witness:
  "\<exists>ch h' m' acc del s'.
     smlt_channel_create (\<lambda>sz n h. (h, h + 65536)) (\<lambda>sz h. (h, h + 65536)) (\<lambda>b sz h. h) 3 (\<lambda>c. ucast c) demo_channel [0] [1] 1 1
       (65536, \<lambda>_. 5) = Returns (errval SMLT_SUCCESS, ch, h', m') \<and>
     duplex_run chan_try_send (chan_try_recv 2) [DSend True [7, 8], DSend False [1, 2], DRecv False] (m', ch) = (acc, del, s') \<and>
     in_direction False acc = in_direction False del @ chan_pending 2 False s'"
proof -
  obtain ch h' m' where c: "smlt_channel_create (\<lambda>sz n h. (h, h + 65536)) (\<lambda>sz h. (h, h + 65536)) (\<lambda>b sz h. h) 3 (\<lambda>c. ucast c)
      demo_channel [0] [1] 1 1 (65536, \<lambda>_. 5) = Returns (errval SMLT_SUCCESS, ch, h', m')"
    using demo_create by blast
  obtain acc del s' where r: "duplex_run chan_try_send (chan_try_recv 2) [DSend True [7, 8], DSend False [1, 2], DRecv False] (m', ch) =
    (acc, del, s')" using prod_cases3 by blast
  have "in_direction False acc = in_direction False del @ chan_pending 2 False s'"
    using channel_duplex_fifo[OF c _ _ _ _ r, of False] demo_blocks by simp
  then show ?thesis using c r by blast
qed

text \<open>
  Claim C21: a one-to-many channel multicasts. Over any interleaving of the owner's sends and the
  receivers' receives, each receiver gets exactly the accepted messages, in order.
\<close>

theorem channel_multicast:
  assumes "mc_inv s" "\<forall>i < mc_readers s. mc_pending i s = []"
    and "list_all (mcast_op_ok (\<lambda>x. length x = 7) (mc_readers s)) ops"
    and "mcast_run mc_send mc_recv ops s = (acc, del, s')"
  shows "\<forall>i < mc_readers s. acc = delivered_to i del @ mc_pending i s'"
  using mc.mcast_run_each[OF assms(1,3,4)] assms(2) by simp

theorem channel_multicast_witness:
  "\<exists>q h' m' acc del s'.
     swmr_queue_create (\<lambda>sz al n c (h, m). (h, h + 8192, m)) (\<lambda>_. 0) (ch_send_owner demo_channel)
       0 [1, 2] 2 False (4096, \<lambda>_. 0) = Some (q, h', m') \<and>
     mcast_run mc_send mc_recv [MSend [1, 2, 3, 4, 5, 6, 7], MRecv 1, MRecv 0]
       (\<lambda>_. 0, demo_channel\<lparr>ch_m := 2, ch_n := 1, ch_use_shm := True, ch_send_owner := q, ch_shm_dst := [1, 2]\<rparr>) = (acc, del, s') \<and>
     (\<forall>i < 2. acc = delivered_to i del @ mc_pending i s')"
proof -
  obtain q h' m' where c: "swmr_queue_create (\<lambda>sz al n c (h, m). (h, h + 8192, m)) (\<lambda>_. 0) (ch_send_owner demo_channel)
       0 [1, 2] 2 False (4096, \<lambda>_. 0) = Some (q, h', m')" by (simp add: swmr_queue_create_def Let_def)
  let ?s = "(\<lambda>_. 0, demo_channel\<lparr>ch_m := 2, ch_n := 1, ch_use_shm := True, ch_send_owner := q, ch_shm_dst := [1, 2]\<rparr>)"
  have "unat (2 :: u16) < 64" by simp
  note fresh = swmr_fresh_link[OF c this, of "\<lambda>_. 0"]
  have inv: "mc_inv ?s" using fresh(1,2) by (simp add: mc_inv_def mc_link_def demo_channel_def)
  have n: "mc_readers ?s = 2" by (simp add: mc_readers_def)
  have "\<forall>i < mc_readers ?s. mc_pending i ?s = []" using fresh(3) n by (simp add: mc_pending_def mc_link_def)
  moreover obtain acc del s' where r: "mcast_run mc_send mc_recv [MSend [1, 2, 3, 4, 5, 6, 7], MRecv 1, MRecv 0] ?s = (acc, del, s')"
    using prod_cases3 by blast
  ultimately have "\<forall>i < 2. acc = delivered_to i del @ mc_pending i s'"
    using channel_multicast[OF inv _ _ r] n by simp
  then show ?thesis using c r by blast
qed

text \<open>
  Claim C35: the owner's receive of a notification on a one-to-many channel takes exactly one
  notification from every receiver, in whatever order they come. Whatever the others do between its
  steps, however many notifications they send: it goes on polling, or it has returned success and
  every receiver's queue has moved on by exactly one message. If every receiver notifies before or
  within the first \<open>T\<close> steps and no notification is taken back, it has returned after \<open>T\<close> steps and one
  round, provided no receiver's acknowledgement word is another one's slot.
\<close>

theorem channel_collects_all:
  assumes "ch_n ch \<noteq> ch_m ch" "ch_shm_recv_owner ch = qs" "unat (ch_m ch) = length qs"
    and "\<forall>q \<in> set qs. qp_f q = qp_fns Fn_ump"
    and "res = smlt_channel_recv_notification env fuel (ch_owner ch) (e, m, ch)"
  shows "(res = Polling \<or>
          (\<exists>e' m'. res = Returns (errval SMLT_SUCCESS, e', m', ch\<lparr>ch_shm_recv_owner := map heard_once qs\<rparr>))) \<and>
         (all_notify T env m qs \<and> acks_apart qs \<and> T + length qs \<le> fuel \<and> 0 < fuel \<longrightarrow> res \<noteq> Polling)"
  using collect_owner_outcome[OF assms(3,2,4), of env fuel e m] collect_owner_done[OF assms(3,2,4), of T env m fuel e] assms(1,5)
  by (auto simp: smlt_channel_recv_notification_def)

text \<open>
  The first receiver sends two notifications before the second one sends its own.
\<close>

definition demo_senders :: "nat \<Rightarrow> unit \<times> mem \<Rightarrow> unit \<times> mem" where
  "demo_senders k = (\<lambda>(e, m). (e, if k = 0 then m(4096 := 1, 4160 := 1) else if k = 3 then m(16384 := 1) else m))"

theorem channel_collects_all_witness:
  "\<exists>m'. smlt_channel_recv_notification demo_senders 6 0
     ((), \<lambda>_. 0, demo_channel\<lparr>ch_m := 2, ch_n := 1, ch_shm_recv_owner := [demo_child 4096, demo_child 16384]\<rparr>) =
     Returns (errval SMLT_SUCCESS, (), m', demo_channel\<lparr>ch_m := 2, ch_n := 1,
       ch_shm_recv_owner := map heard_once [demo_child 4096, demo_child 16384]\<rparr>)"
proof -
  let ?qs = "[demo_child 4096, demo_child 16384]"
  let ?ch = "demo_channel\<lparr>ch_m := 2, ch_n := 1, ch_shm_recv_owner := ?qs\<rparr>"
  have child: "has_notified m (demo_child a) \<longleftrightarrow> ctrl_epoch (ctrl_of_raw (ucast (m a))) = 1" "next_slot (demo_child a) = a"
    "uq_last_ack (uqp_rx (qp_ump (demo_child a))) = a + 4096" "qp_f (demo_child a) = qp_fns Fn_ump" for m a
    by (simp_all add: demo_child_def smlt_qp_zero_def ump_queuepair_zero_def ump_queue_zero_def has_notified_def next_slot_def
        smlt_ump_queue_can_recv_def ld32_def epoch16_def)
  have one: "ctrl_epoch (ctrl_of_raw 1) = 1" by (simp add: ctrl_of_raw_def)
  have "\<forall>w. has_notified (snd (demo_senders 0 w)) (demo_child 4096)" "\<forall>w. has_notified (snd (demo_senders 3 w)) (demo_child 16384)"
    by (simp_all add: demo_senders_def child one)
  moreover have "has_notified (snd (demo_senders k w)) q" if "has_notified (snd w) q" "q \<in> set ?qs" for k w q
    using that by (auto simp: demo_senders_def child one split: prod.splits)
  moreover have "(0 :: nat) < 4" "(3 :: nat) < 4" by simp_all
  ultimately have "all_notify 4 demo_senders (\<lambda>_. 0) ?qs"
    unfolding all_notify_def by (metis empty_iff empty_set set_ConsD)
  moreover have "acks_apart ?qs" by (auto simp: acks_apart_def child less_Suc_eq)
  ultimately have "\<exists>e' m'. smlt_channel_recv_notification demo_senders 6 (ch_owner ?ch) ((), \<lambda>_. 0, ?ch) =
     Returns (errval SMLT_SUCCESS, e', m', ?ch\<lparr>ch_shm_recv_owner := map heard_once ?qs\<rparr>)"
    using channel_collects_all[of ?ch ?qs _ demo_senders 6 "()" "\<lambda>_. 0" 4] by (auto simp: child)
  then show ?thesis by (simp add: demo_channel_def)
qed

end
