(* ===== verification/Smelt_Run.thy ===== *)
theory Smelt_Run
  imports Smelt_Memory
begin

text \<open>
  Control flow of the set-up code. A piece of code that runs once, without waiting for another node,
  comes to a value or aborts: at a failed assertion, in \<open>panic\<close>, or at an access outside of its
  array, which is undefined in C. Counting loops are \<open>for_run\<close>; \<open>post E r Q\<close> is the triple of the
  proofs: \<open>r\<close> returns a value in \<open>Q\<close> or aborts in a way \<open>E\<close> allows.
\<close>

section \<open>Runs\<close>

datatype abort = Assertion | Panic | Wild | Hang

type_synonym 'a run = "abort + 'a"

fun bind_run :: "'a run \<Rightarrow> ('a \<Rightarrow> 'b run) \<Rightarrow> 'b run" where
  "bind_run (Inl a) f = Inl a"
| "bind_run (Inr x) f = f x"

lemma bind_run_Inr: "bind_run r f = Inr y \<longleftrightarrow> (\<exists>x. r = Inr x \<and> f x = Inr y)"
  by (cases r) simp_all

definition assert_run :: "bool \<Rightarrow> 's \<Rightarrow> 's run" where
  "assert_run b s = (if b then Inr s else Inl Assertion)"

text \<open>The element \<open>i\<close> of an array.\<close>

definition nth_run :: "'a list \<Rightarrow> nat \<Rightarrow> 'a run" where
  "nth_run xs i = (if i < length xs then Inr (xs ! i) else Inl Wild)"

text \<open>The object behind a pointer.\<close>

definition deref_run :: "'a option \<Rightarrow> 'a run" where
  "deref_run p = (case p of None \<Rightarrow> Inl Wild | Some x \<Rightarrow> Inr x)"

text \<open>\<open>for (j = i; j < i + k; j++) f\<close>\<close>

fun for_run :: "(nat \<Rightarrow> 's \<Rightarrow> 's run) \<Rightarrow> nat \<Rightarrow> nat \<Rightarrow> 's \<Rightarrow> 's run" where
  "for_run f i 0 s = Inr s"
| "for_run f i (Suc k) s = bind_run (f i s) (for_run f (Suc i) k)"

text \<open>
  \<open>smlt_platform_alloc\<close>, whose assertion is the only way it fails in, for one of the clearing
  allocations of the set-up code.
\<close>

definition alloc_run ::
  "(u64 \<Rightarrow> 'h \<Rightarrow> addr \<times> 'h) \<Rightarrow> u64 \<Rightarrow> u64 \<Rightarrow> 'h \<times> mem \<Rightarrow> (addr \<times> 'h \<times> mem) run"
where
  "alloc_run numa_alloc_local bytes align w =
     (case smlt_platform_alloc numa_alloc_local bytes align True w of
        None \<Rightarrow> Inl Assertion
      | Some r \<Rightarrow> Inr r)"

section \<open>Triples\<close>

definition post :: "(abort \<Rightarrow> bool) \<Rightarrow> 'a run \<Rightarrow> ('a \<Rightarrow> bool) \<Rightarrow> bool" where
  "post E r Q = (case r of Inl a \<Rightarrow> E a | Inr x \<Rightarrow> Q x)"

lemma post_Inl [simp]: "post E (Inl a) Q = E a"
  by (simp add: post_def)

lemma post_Inr [simp]: "post E (Inr x) Q = Q x"
  by (simp add: post_def)

lemma post_bind [simp]: "post E (bind_run r f) Q = post E r (\<lambda>x. post E (f x) Q)"
  by (cases r) simp_all

lemma post_assert [simp]: "post E (assert_run b s) Q = (if b then Q s else E Assertion)"
  by (simp add: assert_run_def)

lemma post_nth [simp]: "post E (nth_run xs i) Q = (if i < length xs then Q (xs ! i) else E Wild)"
  by (simp add: nth_run_def)

lemma post_deref [simp]: "post E (deref_run p) Q = (case p of None \<Rightarrow> E Wild | Some x \<Rightarrow> Q x)"
  by (simp add: deref_run_def split: option.split)

lemma post_mono:
  assumes "post E r Q" "\<And>x. Q x \<Longrightarrow> R x" "\<And>a. E a \<Longrightarrow> F a"
  shows "post F r R"
  using assms by (cases r) simp_all

lemma post_weaken:
  assumes "post E r Q" "\<And>x. Q x \<Longrightarrow> R x"
  shows "post E r R"
  using assms by (cases r) simp_all

lemma post_conj: "post E r (\<lambda>x. Q x \<and> R x) \<longleftrightarrow> post E r Q \<and> post E r R"
  by (cases r) auto

lemma post_total: "post (\<lambda>_. False) r Q \<longleftrightarrow> (\<exists>x. r = Inr x \<and> Q x)"
  by (cases r) auto

lemma post_InrD: "post E r Q \<Longrightarrow> r = Inr x \<Longrightarrow> Q x"
  by simp

lemma post_for:
  assumes "I i s"
    and "\<And>j t. i \<le> j \<Longrightarrow> j < i + k \<Longrightarrow> I j t \<Longrightarrow> post E (f j t) (I (Suc j))"
  shows "post E (for_run f i k s) (I (i + k))"
  using assms
proof (induction k arbitrary: i s)
  case 0
  then show ?case by simp
next
  case (Suc k)
  have "post E (f i s) (I (Suc i))" using Suc.prems by simp
  moreover have "post E (for_run f (Suc i) k t) (I (i + Suc k))" if "I (Suc i) t" for t
    using Suc.IH[of "Suc i" t] Suc.prems(2) that by simp
  ultimately show ?case by (auto elim!: post_mono)
qed

lemmas post_for0 = post_for[where i = 0, simplified]

text \<open>
  An allocator that always finds a block, in the half of the address space that is the user's: an
  allocation succeeds.
\<close>

definition alloc_succeeds :: "(u64 \<Rightarrow> 'h \<Rightarrow> addr \<times> 'h) \<Rightarrow> bool" where
  "alloc_succeeds nl \<longleftrightarrow> (\<forall>b h. fst (nl b h) \<noteq> 0 \<and> unat (fst (nl b h)) < 2 ^ 63)"

lemma eff_align_std:
  assumes "al = 0 \<or> al = 8 \<or> al = 64"
  shows "SMLT_MEM_IS_POWER_OF_TWO (eff_align al)" "unat (eff_align al) \<le> 64"
  using assms by (auto simp: eff_align_def SMLT_MEM_IS_POWER_OF_TWO_def)

lemma place_block_not_null:
  assumes "buf \<noteq> 0" "unat buf < 2 ^ 63" "al = 0 \<or> al = 8 \<or> al = 64"
  shows "fst (place_block m buf bytes (eff_align al) clr) \<noteq> 0"
proof -
  have "unat (buf + 16) = unat buf + 16"
    by (subst unat_plus_simple[THEN iffD1]) (use assms(2) in \<open>simp_all add: word_le_nat_alt unat_word_ariths\<close>)
  then have "unat buf + 16 \<le> unat (SMLT_MEM_ALIGN (buf + 16) (eff_align al))"
    using SMLT_MEM_ALIGN_bounds(2)[of "eff_align al" "buf + 16"] eff_align_std[OF assms(3)] assms(2) by simp
  then have "SMLT_MEM_ALIGN (buf + 16) (eff_align al) \<noteq> 0" by auto
  then show ?thesis by (simp add: place_block_def Let_def)
qed

lemma post_alloc:
  assumes "alloc_succeeds nl \<or> E Assertion" "al = 0 \<or> al = 8 \<or> al = 64"
    and "\<And>r w'. r \<noteq> 0 \<or> E Assertion \<Longrightarrow> Q (r, w')"
  shows "post E (alloc_run nl bytes al w) Q"
proof -
  obtain h m where w: "w = (h, m)" by fastforce
  obtain b h' where b: "nl (bytes + eff_align al + 16) h = (b, h')" by fastforce
  then have "b \<noteq> 0 \<and> unat b < 2 ^ 63 \<or> E Assertion"
    using assms(1) unfolding alloc_succeeds_def by (metis fst_conv)
  then show ?thesis
    using assms(3) place_block_not_null[OF _ _ assms(2), of b] eff_align_std(1)[OF assms(2)]
    by (auto simp: alloc_run_def w b alloc_place_block split: prod.split) (metis fst_conv)+
qed

text \<open>An allocator that hands out one page after the other, from a region of \<open>2\<^sup>4\<^sup>0\<close> pages.\<close>

definition page_alloc :: "u64 \<Rightarrow> nat \<Rightarrow> addr \<times> nat" where
  "page_alloc bytes h = (of_nat (4096 * (h mod 2 ^ 40 + 1)), h + 1)"

lemma alloc_succeeds_page_alloc: "alloc_succeeds page_alloc"
  unfolding alloc_succeeds_def
proof (intro allI)
  fix b :: u64 and h :: nat
  have "h mod 2 ^ 40 < 2 ^ 40" by simp
  then have "4096 * (h mod 2 ^ 40 + 1) \<le> 4096 * 2 ^ 40" by (intro mult_le_mono) linarith+
  moreover from this have "unat (of_nat (4096 * (h mod 2 ^ 40 + 1)) :: u64) = 4096 * (h mod 2 ^ 40 + 1)"
    by (intro unat_of_nat_small) simp
  ultimately show "fst (page_alloc b h) \<noteq> 0 \<and> unat (fst (page_alloc b h)) < 2 ^ 63"
    unfolding page_alloc_def fst_conv by (intro conjI) (force, simp)
qed

end
