(* ===== verification/Topology.thy ===== *)
theory Topology
  imports Smelt_Run Smelt_Error
begin

text \<open>
  Topologies (\<open>inc/smlt_topology.h\<close>, \<open>src/topology.c\<close>, and the model structure of
  \<open>inc/smlt_generator.h\<close>): the tree of the nodes, either the default binary tree or the one that a
  matrix of the generator encodes.
\<close>

section \<open>The structures\<close>

text \<open>
  A pointer to a topology node is the node's index in \<open>all_nodes\<close>, an array of such pointers is a
  list, \<open>NULL\<close> is \<open>None\<close>. The backpointer is either \<open>NULL\<close> or the one topology the node is in, so a
  flag stands for it.
\<close>

record smlt_topology_node =
  tn_topology :: bool
  tn_parent :: "nat option"
  tn_children :: "nat option list option"
  tn_node_id :: u32
  tn_array_index :: u32
  tn_num_children :: u32
  tn_is_leaf :: bool
  tn_use_shm :: bool
  tn_array_index_shm :: u32
  tn_num_children_shm :: u32
  tn_children_shm :: "nat option list option"

record smlt_topology =
  tp_name :: string
  tp_root :: "nat option"
  tp_num_nodes :: u32
  tp_all_nodes :: "smlt_topology_node list"

record smlt_generated_model =
  gm_ncores :: u32
  gm_len :: u32
  gm_root :: u32
  gm_model :: "u16 list"
  gm_num_leafs :: u32
  gm_leafs :: "u32 list"

abbreviation (input) SIZEOF_SMLT_TOPOLOGY :: u64 where "SIZEOF_SMLT_TOPOLOGY \<equiv> 24"
abbreviation (input) SIZEOF_SMLT_TOPOLOGY_NODE :: u64 where "SIZEOF_SMLT_TOPOLOGY_NODE \<equiv> 56"
abbreviation (input) TOPO_ALIGNMENT :: u64 where "TOPO_ALIGNMENT \<equiv> 0"

text \<open>The structures as the clearing allocator leaves them.\<close>

definition topology_node_zero :: smlt_topology_node where
  "topology_node_zero = \<lparr>tn_topology = False, tn_parent = None, tn_children = None, tn_node_id = 0,
     tn_array_index = 0, tn_num_children = 0, tn_is_leaf = False, tn_use_shm = False,
     tn_array_index_shm = 0, tn_num_children_shm = 0, tn_children_shm = None\<rparr>"

definition topology_zero :: "nat \<Rightarrow> smlt_topology" where
  "topology_zero n = \<lparr>tp_name = [], tp_root = None, tp_num_nodes = 0,
     tp_all_nodes = replicate n topology_node_zero\<rparr>"

section \<open>The numbers of the matrix\<close>

definition TOPO_MATRIX_PARENT :: int where "TOPO_MATRIX_PARENT = 99"
definition TOPO_MATRIX_MAX_MP :: int where "TOPO_MATRIX_MAX_MP = 98"
definition TOPO_MATRIX_SHM_MAX :: int where "TOPO_MATRIX_SHM_MAX = 20"
definition TOPO_MATRIX_SHM_SLAVE_START :: int where "TOPO_MATRIX_SHM_SLAVE_START = 150"
definition TOPO_MATRIX_SHM_SLAVE_MAX :: int where
  "TOPO_MATRIX_SHM_SLAVE_MAX = TOPO_MATRIX_SHM_SLAVE_START + TOPO_MATRIX_SHM_MAX - 1"
definition TOPO_MATRIX_SHM_MASTER_START :: int where
  "TOPO_MATRIX_SHM_MASTER_START = TOPO_MATRIX_SHM_SLAVE_START + TOPO_MATRIX_SHM_MAX"
definition TOPO_MATRIX_SHM_MASTER_MAX :: int where
  "TOPO_MATRIX_SHM_MASTER_MAX = TOPO_MATRIX_SHM_MASTER_START + TOPO_MATRIX_SHM_MAX - 1"

lemmas topo_matrix_defs = TOPO_MATRIX_PARENT_def TOPO_MATRIX_MAX_MP_def TOPO_MATRIX_SHM_MAX_def
  TOPO_MATRIX_SHM_SLAVE_START_def TOPO_MATRIX_SHM_SLAVE_MAX_def TOPO_MATRIX_SHM_MASTER_START_def
  TOPO_MATRIX_SHM_MASTER_MAX_def

section \<open>The binary tree\<close>

text \<open>
  One round of the loop of \<open>smlt_topology_create_binary_tree\<close>. The counter is an \<open>unsigned int\<close>: its
  double wraps around.
\<close>

definition binary_tree_node ::
  "(u64 \<Rightarrow> 'h \<Rightarrow> addr \<times> 'h) \<Rightarrow> u32 \<Rightarrow> nat \<Rightarrow> smlt_topology_node list \<times> 'h \<times> mem \<Rightarrow>
   (smlt_topology_node list \<times> 'h \<times> mem) run"
where
  "binary_tree_node nl num_threads j = (\<lambda>(nodes, w).
     let i = of_nat j :: u32 in
     bind_run (nth_run nodes j) (\<lambda>node0.
       let node1 = node0\<lparr>tn_topology := True, tn_use_shm := False\<rparr>;
           node2 = (if i = 0 then node1\<lparr>tn_parent := None, tn_node_id := 0\<rparr>
                    else if i mod 2 = 0
                         then node1\<lparr>tn_parent := Some (unat (i div 2 - 1)), tn_array_index := 1\<rparr>
                         else node1\<lparr>tn_parent := Some (unat (i div 2)), tn_array_index := 0\<rparr>) in
       if i * 2 + 1 < num_threads then
         bind_run (alloc_run nl (8 * 2) TOPO_ALIGNMENT w) (\<lambda>(_, w').
           let two = i * 2 + 2 < num_threads;
               node3 = node2\<lparr>tn_children :=
                         Some [Some (unat (i * 2 + 1)), if two then Some (unat (i * 2 + 2)) else None],
                       tn_node_id := i, tn_num_children := (if two then 2 else 1)\<rparr> in
           Inr (nodes[j := node3], w'))
       else
         Inr (nodes[j := node2\<lparr>tn_children := None, tn_num_children := 0, tn_node_id := i, tn_is_leaf := True\<rparr>], w)))"

definition smlt_topology_create_binary_tree ::
  "(u64 \<Rightarrow> 'h \<Rightarrow> addr \<times> 'h) \<Rightarrow> u32 \<Rightarrow> smlt_topology \<times> 'h \<times> mem \<Rightarrow> (smlt_topology \<times> 'h \<times> mem) run"
where
  "smlt_topology_create_binary_tree nl num_threads = (\<lambda>(topo, w).
     bind_run (for_run (binary_tree_node nl num_threads) 0 (unat num_threads) (tp_all_nodes topo, w))
       (\<lambda>(nodes, w'). Inr (topo\<lparr>tp_root := Some 0, tp_all_nodes := nodes\<rparr>, w')))"

section \<open>The tree of a model\<close>

text \<open>\<open>model->model[x*model->len+y]\<close>: the index is computed in 32 bits.\<close>

definition model_at :: "smlt_generated_model \<Rightarrow> nat \<Rightarrow> nat \<Rightarrow> int run" where
  "model_at model x y =
     bind_run (nth_run (gm_model model) (unat (of_nat x * gm_len model + of_nat y :: u32))) (\<lambda>v. Inr (uint v))"

text \<open>The two loops that count the children of a row.\<close>

definition max_child_step :: "smlt_generated_model \<Rightarrow> nat \<Rightarrow> nat \<Rightarrow> int \<Rightarrow> int run" where
  "max_child_step model x y max_child =
     bind_run (model_at model x y) (\<lambda>tmp.
       Inr (if tmp > max_child \<and> tmp \<le> TOPO_MATRIX_MAX_MP then tmp else max_child))"

definition shm_children_step :: "smlt_generated_model \<Rightarrow> nat \<Rightarrow> nat \<Rightarrow> int \<Rightarrow> int run" where
  "shm_children_step model x z shm_children =
     bind_run (model_at model x z) (\<lambda>val.
       Inr (if val \<le> TOPO_MATRIX_SHM_SLAVE_MAX \<and> val \<ge> TOPO_MATRIX_SHM_SLAVE_START
            then shm_children + 1 else shm_children))"

text \<open>One entry of the matrix: row \<open>x\<close>, column \<open>y\<close>.\<close>

definition set_model_step ::
  "smlt_generated_model \<Rightarrow> nat \<Rightarrow> nat \<Rightarrow> smlt_topology_node list \<Rightarrow> smlt_topology_node list run"
where
  "set_model_step model x y nodes =
     bind_run (model_at model x y) (\<lambda>val.
       if val > 0 then
         if val = TOPO_MATRIX_PARENT then
           bind_run (nth_run nodes x) (\<lambda>node.
           bind_run (model_at model y x) (\<lambda>val'.
             assert_run (val' > 0 \<and> val' < TOPO_MATRIX_MAX_MP) (nodes[x := node\<lparr>tn_parent := Some y\<rparr>])))
         else if val \<le> TOPO_MATRIX_MAX_MP then
           bind_run (nth_run nodes x) (\<lambda>node.
           bind_run (deref_run (tn_children node)) (\<lambda>children.
           bind_run (nth_run children (nat (val - 1))) (\<lambda>_.
             let nodes1 = nodes[x := node\<lparr>tn_topology := True, tn_children := Some (children[nat (val - 1) := Some y]),
                                          tn_node_id := of_nat x\<rparr>] in
             bind_run (nth_run nodes1 y) (\<lambda>node_y.
               Inr (nodes1[y := node_y\<lparr>tn_array_index := of_int (val - 1)\<rparr>])))))
         else if val \<ge> TOPO_MATRIX_SHM_MASTER_START \<and> val \<le> TOPO_MATRIX_SHM_MASTER_MAX then
           Inl Assertion
         else if val \<le> TOPO_MATRIX_SHM_SLAVE_MAX \<and> val \<ge> TOPO_MATRIX_SHM_SLAVE_START then
           bind_run (nth_run nodes x) (\<lambda>node. Inr (nodes[x := node\<lparr>tn_parent := Some y\<rparr>]))
         else Inl Panic
       else if val = 0 then Inr nodes
       else Inl Panic)"

text \<open>One row of the matrix.\<close>

definition parse_row ::
  "(u64 \<Rightarrow> 'h \<Rightarrow> addr \<times> 'h) \<Rightarrow> smlt_generated_model \<Rightarrow> nat \<Rightarrow> smlt_topology_node list \<times> 'h \<times> mem \<Rightarrow>
   (smlt_topology_node list \<times> 'h \<times> mem) run"
where
  "parse_row nl model x = (\<lambda>(nodes, w).
     let len = unat (gm_len model) in
     bind_run (for_run (max_child_step model x) 0 len 0) (\<lambda>max_child.
     bind_run (nth_run nodes x) (\<lambda>node.
     bind_run (alloc_run nl (8 * of_int max_child) TOPO_ALIGNMENT w) (\<lambda>(p, w1).
     bind_run (assert_run (p \<noteq> 0) (node\<lparr>tn_node_id := of_nat x,
                                      tn_children := Some (replicate (nat max_child) None),
                                      tn_num_children := of_int max_child\<rparr>)) (\<lambda>node1.
     bind_run (for_run (shm_children_step model x) 0 len 0) (\<lambda>shm_children.
     bind_run (alloc_run nl (8 * of_int shm_children) TOPO_ALIGNMENT w1) (\<lambda>(p', w2).
     bind_run (assert_run (p' \<noteq> 0) (nodes[x := node1\<lparr>
                                         tn_children_shm := Some (replicate (nat shm_children) None),
                                         tn_num_children_shm := of_int shm_children\<rparr>])) (\<lambda>nodes1.
     bind_run (for_run (set_model_step model x) 0 len nodes1) (\<lambda>nodes2.
     bind_run (nth_run nodes2 x) (\<lambda>node2.
       Inr (nodes2[x := node2\<lparr>tn_num_children := of_int max_child\<rparr>], w2)))))))))))"

text \<open>The marks of the leaves; the first node never gets one.\<close>

definition leaf_step ::
  "smlt_generated_model \<Rightarrow> nat \<Rightarrow> nat \<Rightarrow> smlt_topology_node list \<Rightarrow> smlt_topology_node list run"
where
  "leaf_step model i j nodes =
     bind_run (nth_run (gm_leafs model) j) (\<lambda>l.
       if l = of_nat i \<and> i \<noteq> 0
       then bind_run (nth_run nodes i) (\<lambda>node. Inr (nodes[i := node\<lparr>tn_is_leaf := True\<rparr>]))
       else Inr nodes)"

definition smlt_topology_parse_model ::
  "(u64 \<Rightarrow> 'h \<Rightarrow> addr \<times> 'h) \<Rightarrow> smlt_generated_model \<Rightarrow> smlt_topology \<times> 'h \<times> mem \<Rightarrow> (smlt_topology \<times> 'h \<times> mem) run"
where
  "smlt_topology_parse_model nl model = (\<lambda>(topo, w).
     let root = unat (gm_root model); len = unat (gm_len model) in
     bind_run (nth_run (tp_all_nodes topo) root) (\<lambda>r.
     bind_run (for_run (parse_row nl model) 0 len ((tp_all_nodes topo)[root := r\<lparr>tn_parent := None\<rparr>], w))
       (\<lambda>(nodes, w').
     bind_run (for_run (\<lambda>i. for_run (leaf_step model i) 0 (unat (gm_num_leafs model))) 0 len nodes) (\<lambda>nodes'.
       Inr (topo\<lparr>tp_root := Some root, tp_all_nodes := nodes'\<rparr>, w')))))"

section \<open>Creation and destruction\<close>

definition smlt_topology_init :: errval_t where
  "smlt_topology_init = errval SMLT_SUCCESS"

text \<open>\<open>num_proc\<close> is the number of processes that \<open>smlt_get_num_proc\<close> reports.\<close>

definition smlt_topology_create ::
  "(u64 \<Rightarrow> 'h \<Rightarrow> addr \<times> 'h) \<Rightarrow> u32 \<Rightarrow> smlt_generated_model option \<Rightarrow> string \<Rightarrow> 'h \<times> mem \<Rightarrow>
   (errval_t \<times> smlt_topology \<times> 'h \<times> mem) run"
where
  "smlt_topology_create nl num_proc model name w =
     (let n = (case model of None \<Rightarrow> num_proc | Some g \<Rightarrow> gm_len g) in
      bind_run (alloc_run nl (SIZEOF_SMLT_TOPOLOGY + SIZEOF_SMLT_TOPOLOGY_NODE * ucast n) TOPO_ALIGNMENT w) (\<lambda>(_, w1).
      bind_run (case model of
                  None \<Rightarrow> smlt_topology_create_binary_tree nl num_proc (topology_zero (unat n), w1)
                | Some g \<Rightarrow> smlt_topology_parse_model nl g (topology_zero (unat n), w1)) (\<lambda>(topo, w2).
        Inr (errval SMLT_SUCCESS, topo\<lparr>tp_num_nodes := n, tp_name := name\<rparr>, w2))))"

definition smlt_topology_destroy :: "smlt_topology \<Rightarrow> errval_t" where
  "smlt_topology_destroy topology = errval SMLT_SUCCESS"

section \<open>Nodes and queries\<close>

text \<open>
  The functions that take a pointer to a node get the topology and the node's index; following the
  pointer out of the array is an abort. \<open>smlt_topology_node_next\<close> only computes a pointer.
\<close>

abbreviation (input) node_run :: "smlt_topology \<Rightarrow> nat \<Rightarrow> (smlt_topology_node \<Rightarrow> 'a) \<Rightarrow> 'a run" where
  "node_run t i f \<equiv> bind_run (nth_run (tp_all_nodes t) i) (\<lambda>node. Inr (f node))"

definition smlt_topology_get_root_id :: "smlt_topology \<Rightarrow> u32 run" where
  "smlt_topology_get_root_id t = bind_run (deref_run (tp_root t)) (\<lambda>r. node_run t r tn_node_id)"

definition smlt_topology_get_first_node :: "smlt_topology \<Rightarrow> nat" where
  "smlt_topology_get_first_node t = 0"

definition smlt_topology_node_next :: "nat \<Rightarrow> nat" where
  "smlt_topology_node_next node = node + 1"

definition smlt_topology_node_by_id :: "smlt_topology \<Rightarrow> u32 \<Rightarrow> nat" where
  "smlt_topology_node_by_id t nid = unat nid"

definition smlt_topology_node_parent :: "smlt_topology \<Rightarrow> nat \<Rightarrow> nat option run" where
  "smlt_topology_node_parent t i = node_run t i tn_parent"

definition smlt_topology_node_children :: "smlt_topology \<Rightarrow> nat \<Rightarrow> (nat option list option \<times> u32) run" where
  "smlt_topology_node_children t i = node_run t i (\<lambda>node. (tn_children node, tn_num_children node))"

text \<open>The ids of the children, in an array of their own.\<close>

definition smlt_topology_node_children_ids ::
  "(u64 \<Rightarrow> 'h \<Rightarrow> addr \<times> 'h) \<Rightarrow> smlt_topology \<Rightarrow> nat \<Rightarrow> 'h \<times> mem \<Rightarrow> ((u32 list \<times> u32) \<times> 'h \<times> mem) run"
where
  "smlt_topology_node_children_ids nl t i w =
     bind_run (nth_run (tp_all_nodes t) i) (\<lambda>node.
     bind_run (alloc_run nl (4 * ucast (tn_num_children node)) TOPO_ALIGNMENT w) (\<lambda>(_, w').
     bind_run (for_run (\<lambda>j result.
         bind_run (deref_run (tn_children node)) (\<lambda>children.
         bind_run (nth_run children j) (\<lambda>p.
         bind_run (deref_run p) (\<lambda>c.
         bind_run (nth_run (tp_all_nodes t) c) (\<lambda>child. Inr (result @ [tn_node_id child]))))))
       0 (unat (tn_num_children node)) []) (\<lambda>result.
       Inr ((result, tn_num_children node), w'))))"

definition smlt_topology_node_children_shm :: "smlt_topology \<Rightarrow> nat \<Rightarrow> (nat option list option \<times> u32) run" where
  "smlt_topology_node_children_shm t i = node_run t i (\<lambda>node. (tn_children_shm node, tn_num_children_shm node))"

text \<open>\<open>num_nodes - 1\<close> is computed in 32 bits.\<close>

definition smlt_topology_node_is_last :: "smlt_topology \<Rightarrow> nat \<Rightarrow> bool run" where
  "smlt_topology_node_is_last t i =
     bind_run (nth_run (tp_all_nodes t) i) (\<lambda>node.
       if tn_topology node then Inr (i = unat (tp_num_nodes t - 1)) else Inl Wild)"

definition smlt_topology_node_is_root :: "smlt_topology \<Rightarrow> nat \<Rightarrow> bool run" where
  "smlt_topology_node_is_root t i = node_run t i (\<lambda>node. tn_parent node = None)"

definition smlt_topology_node_is_leaf :: "smlt_topology \<Rightarrow> nat \<Rightarrow> bool run" where
  "smlt_topology_node_is_leaf t i =
     node_run t i (\<lambda>node. tn_num_children node = 0 \<and> tn_num_children_shm node = 0)"

definition smlt_topology_node_get_child_idx :: "smlt_topology \<Rightarrow> nat \<Rightarrow> u32 run" where
  "smlt_topology_node_get_child_idx t i = node_run t i tn_array_index"

definition smlt_topology_node_get_child_idx_shm :: "smlt_topology \<Rightarrow> nat \<Rightarrow> u32 run" where
  "smlt_topology_node_get_child_idx_shm t i = node_run t i tn_array_index_shm"

definition smlt_topology_node_get_num_children :: "smlt_topology \<Rightarrow> nat \<Rightarrow> u32 run" where
  "smlt_topology_node_get_num_children t i = node_run t i tn_num_children"

definition smlt_topology_node_get_num_children_shm :: "smlt_topology \<Rightarrow> nat \<Rightarrow> u32 run" where
  "smlt_topology_node_get_num_children_shm t i = node_run t i tn_num_children_shm"

definition smlt_topology_node_get_id :: "smlt_topology \<Rightarrow> nat \<Rightarrow> u32 run" where
  "smlt_topology_node_get_id t i = node_run t i tn_node_id"

definition smlt_topology_node_use_shm :: "smlt_topology \<Rightarrow> nat \<Rightarrow> bool run" where
  "smlt_topology_node_use_shm t i = node_run t i tn_use_shm"

definition smlt_topo_is_model_leaf :: "smlt_topology \<Rightarrow> nat \<Rightarrow> bool run" where
  "smlt_topo_is_model_leaf t i = node_run t i tn_is_leaf"

definition smlt_topology_get_name :: "smlt_topology \<Rightarrow> string" where
  "smlt_topology_get_name t = tp_name t"

definition smlt_topology_get_num_nodes :: "smlt_topology \<Rightarrow> u32" where
  "smlt_topology_get_num_nodes t = tp_num_nodes t"

end
