(* ===== verification/Context.thy ===== *)
theory Context
  imports Topology Channel
begin

text \<open>
  Contexts (\<open>inc/smlt_context.h\<close>, \<open>src/context.c\<close>): the channels of a topology. Every node owns an
  array with the channels to its children; a node below the root points at its own channel in the
  array of its parent.
\<close>

section \<open>The structures\<close>

text \<open>
  A pointer to a channel is the position of its node in \<open>all_nodes\<close> and its index in the array of that
  node. \<open>topology\<close> and \<open>name\<close> of the context are never set.
\<close>

type_synonym chan_ptr = "nat \<times> nat"

record smlt_context_node =
  cn_node_id :: u32
  cn_parent :: "chan_ptr option"
  cn_children :: "smlt_channel list option"
  cn_num_children :: u32
  cn_index :: u32

record smlt_context =
  cx_num_nodes :: u32
  cx_max_nid :: u32
  cx_nid_to_node :: "nat option list"
  cx_all_nodes :: "smlt_context_node list"

abbreviation (input) SIZEOF_SMLT_CONTEXT :: u64 where "SIZEOF_SMLT_CONTEXT \<equiv> 40"
abbreviation (input) SIZEOF_SMLT_CONTEXT_NODE :: u64 where "SIZEOF_SMLT_CONTEXT_NODE \<equiv> 32"
abbreviation (input) SIZEOF_SMLT_CHANNEL :: u64 where "SIZEOF_SMLT_CHANNEL \<equiv> 136"

definition channel_zero :: smlt_channel where
  "channel_zero = \<lparr>ch_owner = 0, ch_trg = 0, ch_m = 0, ch_n = 0, ch_use_shm = False, ch_send = [], ch_recv = [],
     ch_send_owner = \<lparr>wq_src = swmr_context_zero, wq_dst = []\<rparr>, ch_shm_recv_owner = [], ch_shm_recv = [], ch_shm_dst = []\<rparr>"

definition context_node_zero :: smlt_context_node where
  "context_node_zero = \<lparr>cn_node_id = 0, cn_parent = None, cn_children = None, cn_num_children = 0, cn_index = 0\<rparr>"

text \<open>The creation of a channel is the one call of the set-up code that is a \<open>call_result\<close>.\<close>

fun run_call :: "'a call_result \<Rightarrow> 'a run" where
  "run_call (Returns x) = Inr x"
| "run_call Polling = Inl Hang"
| "run_call Crash = Inl Assertion"

type_synonym 'w chan_creator = "smlt_channel \<Rightarrow> u32 list \<Rightarrow> u32 list \<Rightarrow> u16 \<Rightarrow> u16 \<Rightarrow> 'w \<Rightarrow> (errval_t \<times> smlt_channel \<times> 'w) call_result"

section \<open>Creation\<close>

text \<open>The id of the node behind the \<open>j\<close>-th pointer of an array of children.\<close>

definition child_id :: "smlt_topology \<Rightarrow> nat option list option \<Rightarrow> nat \<Rightarrow> u32 run" where
  "child_id topo children j =
     bind_run (deref_run children) (\<lambda>cs.
     bind_run (nth_run cs j) (\<lambda>p.
     bind_run (deref_run p) (smlt_topology_node_get_id topo)))"

text \<open>The loop that creates the channels to the children; what \<open>smlt_channel_create\<close> returns is ignored.\<close>

definition child_channel_step ::
  "'w chan_creator \<Rightarrow> smlt_topology \<Rightarrow> nat \<Rightarrow> nat option list option \<Rightarrow> nat \<Rightarrow> smlt_channel list \<times> 'w \<Rightarrow>
   (smlt_channel list \<times> 'w) run"
where
  "child_channel_step create topo tn children i = (\<lambda>(chans, w).
     bind_run (child_id topo children i) (\<lambda>dst.
     bind_run (smlt_topology_node_get_id topo tn) (\<lambda>src.
     bind_run (nth_run chans i) (\<lambda>chan.
     bind_run (run_call (create chan [src] [dst] 1 1 w)) (\<lambda>(_, chan', w').
       Inr (chans[i := chan'], w'))))))"

text \<open>The channels of one node: to the children by message passing, and behind them the shared-memory one.\<close>

definition node_channels ::
  "('h \<times> mem) chan_creator \<Rightarrow> (u64 \<Rightarrow> 'h \<Rightarrow> addr \<times> 'h) \<Rightarrow> smlt_topology \<Rightarrow> nat \<Rightarrow> smlt_context_node \<times> 'h \<times> mem \<Rightarrow>
   (smlt_context_node \<times> 'h \<times> mem) run"
where
  "node_channels create nl topo tn = (\<lambda>(n, w).
     bind_run (smlt_topology_node_use_shm topo tn) (\<lambda>use_shm.
     if cn_num_children n \<noteq> 0 then
       let count = (if use_shm then cn_num_children n + 1 else cn_num_children n) in
       bind_run (alloc_run nl (ucast count * SIZEOF_SMLT_CHANNEL) SMLT_ARCH_CACHELINE_SIZE w) (\<lambda>(p, w1).
       bind_run (assert_run (p \<noteq> 0) ()) (\<lambda>_.
       bind_run (smlt_topology_node_children topo tn) (\<lambda>(children, num_children).
       bind_run (for_run (child_channel_step create topo tn children) 0 (unat num_children)
                   (replicate (unat count) channel_zero, w1)) (\<lambda>(chans, w2).
         Inr (n\<lparr>cn_children := Some chans\<rparr>, w2)))))
     else if use_shm then
       bind_run (alloc_run nl SIZEOF_SMLT_CHANNEL SMLT_ARCH_CACHELINE_SIZE w) (\<lambda>(p, w1).
       bind_run (assert_run (p \<noteq> 0) ()) (\<lambda>_.
         Inr (n\<lparr>cn_children := Some [channel_zero]\<rparr>, w1)))
     else Inr (n, w)))"

definition node_shm_channel ::
  "('h \<times> mem) chan_creator \<Rightarrow> (u64 \<Rightarrow> 'h \<Rightarrow> addr \<times> 'h) \<Rightarrow> smlt_topology \<Rightarrow> nat \<Rightarrow> smlt_context_node \<times> 'h \<times> mem \<Rightarrow>
   (smlt_context_node \<times> 'h \<times> mem) run"
where
  "node_shm_channel create nl topo tn = (\<lambda>(n, w).
     bind_run (smlt_topology_node_use_shm topo tn) (\<lambda>use_shm.
     bind_run (smlt_topology_node_get_num_children_shm topo tn) (\<lambda>num_children_shm.
     if use_shm \<and> num_children_shm \<noteq> 0 then
       bind_run (smlt_topology_node_children_shm topo tn) (\<lambda>(children, num).
       bind_run (alloc_run nl (ucast num * 4) SMLT_ARCH_CACHELINE_SIZE w) (\<lambda>(_, w1).
       bind_run (smlt_topology_node_get_id topo tn) (\<lambda>src.
       bind_run (for_run (\<lambda>i dst. bind_run (child_id topo children i) (\<lambda>c. Inr (dst @ [c]))) 0 (unat num) []) (\<lambda>dst.
       bind_run (deref_run (cn_children n)) (\<lambda>chans.
       bind_run (nth_run chans (unat (cn_num_children n))) (\<lambda>chan.
       bind_run (run_call (create chan [src] dst 1 (ucast num) w1)) (\<lambda>(_, chan', w2).
         Inr (n\<lparr>cn_children := Some (chans[unat (cn_num_children n) := chan']),
                cn_num_children := cn_num_children n + 1\<rparr>, w2))))))))
     else Inr (n, w))))"

text \<open>One round of the first loop: the node, and the greatest id seen.\<close>

definition context_node_step ::
  "('h \<times> mem) chan_creator \<Rightarrow> (u64 \<Rightarrow> 'h \<Rightarrow> addr \<times> 'h) \<Rightarrow> smlt_topology \<Rightarrow> nat \<Rightarrow>
   (smlt_context_node list \<times> u32) \<times> 'h \<times> mem \<Rightarrow> ((smlt_context_node list \<times> u32) \<times> 'h \<times> mem) run"
where
  "context_node_step create nl topo i = (\<lambda>((nodes, max_nid), w).
     bind_run (nth_run nodes i) (\<lambda>n.
     bind_run (smlt_topology_node_get_id topo i) (\<lambda>current_nid.
     bind_run (smlt_topology_node_get_num_children topo i) (\<lambda>num_children.
     bind_run (node_channels create nl topo i (n\<lparr>cn_node_id := current_nid, cn_num_children := num_children\<rparr>, w)) (\<lambda>nw1.
     bind_run (node_shm_channel create nl topo i nw1) (\<lambda>(n2, w2).
       Inr ((nodes[i := n2], if max_nid < current_nid then current_nid else max_nid), w2)))))))"

text \<open>The second loop: the table from ids to nodes.\<close>

definition nid_to_node_step :: "smlt_context_node list \<Rightarrow> nat \<Rightarrow> nat option list \<Rightarrow> nat option list run" where
  "nid_to_node_step nodes i tab =
     bind_run (nth_run nodes i) (\<lambda>n.
     bind_run (nth_run tab (unat (cn_node_id n))) (\<lambda>_.
       Inr (tab[unat (cn_node_id n) := Some i])))"

text \<open>
  The third loop: the channel to the parent. A child of shared memory is looked for by its position,
  not by its id.
\<close>

definition is_shm_child_step ::
  "smlt_topology \<Rightarrow> nat option list option \<Rightarrow> nat \<Rightarrow> nat \<Rightarrow> bool \<Rightarrow> bool run"
where
  "is_shm_child_step topo children i j found =
     bind_run (child_id topo children j) (\<lambda>c. Inr (if c = of_nat i then True else found))"

definition parent_step ::
  "smlt_topology \<Rightarrow> nat option list \<Rightarrow> nat \<Rightarrow> smlt_context_node list \<Rightarrow> smlt_context_node list run"
where
  "parent_step topo tab i nodes =
     bind_run (smlt_topology_node_get_id topo i) (\<lambda>current_nid.
     bind_run (smlt_topology_node_is_root topo i) (\<lambda>is_root.
     if is_root then Inr nodes
     else
       bind_run (smlt_topology_node_parent topo i) (\<lambda>tp0.
       bind_run (deref_run tp0) (\<lambda>tp.
       bind_run (smlt_topology_node_get_id topo tp) (\<lambda>parent_nid.
       bind_run (bind_run (nth_run tab (unat parent_nid)) deref_run) (\<lambda>parent.
       bind_run (bind_run (nth_run tab (unat current_nid)) deref_run) (\<lambda>k.
       bind_run (nth_run nodes parent) (\<lambda>pn.
       bind_run (nth_run nodes k) (\<lambda>n.
       bind_run (smlt_topology_node_use_shm topo tp) (\<lambda>use_shm.
       bind_run (smlt_topology_node_get_child_idx topo i) (\<lambda>idx.
       bind_run (smlt_topology_node_get_child_idx_shm topo i) (\<lambda>idx_shm.
       if use_shm then
         bind_run (smlt_topology_node_children_shm topo tp) (\<lambda>(children, num_children).
         bind_run (for_run (is_shm_child_step topo children i) 0 (unat num_children) False) (\<lambda>child_use_shm.
           Inr (nodes[k := (if child_use_shm
                            then n\<lparr>cn_parent := Some (parent, unat (cn_num_children pn - 1)), cn_index := idx_shm\<rparr>
                            else n\<lparr>cn_parent := Some (parent, unat idx), cn_index := idx\<rparr>)])))
       else Inr (nodes[k := n\<lparr>cn_parent := Some (parent, unat idx)\<rparr>])))))))))))))"

text \<open>\<open>smlt_context_create\<close>; no context is made for a null topology.\<close>

definition smlt_context_create ::
  "(u64 \<Rightarrow> u8 \<Rightarrow> 'h \<Rightarrow> addr \<times> 'h) \<Rightarrow> (u64 \<Rightarrow> 'h \<Rightarrow> addr \<times> 'h) \<Rightarrow> (addr \<Rightarrow> u64 \<Rightarrow> 'h \<Rightarrow> 'h) \<Rightarrow> int \<Rightarrow> (u32 \<Rightarrow> u8) \<Rightarrow>
   smlt_topology option \<Rightarrow> 'h \<times> mem \<Rightarrow> (errval_t \<times> smlt_context option \<times> 'h \<times> mem) run"
where
  "smlt_context_create na nl nf mx node_of_cpu topo w =
     (case topo of
        None \<Rightarrow> Inr (errval SMLT_ERR_INVAL, None, w)
      | Some topo \<Rightarrow>
          let create = smlt_channel_create na nl nf mx node_of_cpu; num_nodes = smlt_topology_get_num_nodes topo; n = unat num_nodes in
          bind_run (alloc_run nl (SIZEOF_SMLT_CONTEXT + ucast num_nodes * SIZEOF_SMLT_CONTEXT_NODE)
                      SMLT_ARCH_CACHELINE_SIZE w) (\<lambda>(p, w1).
          if p = 0 then Inr (errval SMLT_ERR_MALLOC_FAIL, None, w1)
          else
            bind_run (for_run (context_node_step create nl topo) 0 n ((replicate n context_node_zero, 0), w1))
              (\<lambda>((nodes, max_nid), w2).
            bind_run (alloc_run nl (ucast (max_nid + 1) * 8) SMLT_ARCH_CACHELINE_SIZE w2) (\<lambda>(q, w3).
            bind_run (assert_run (q \<noteq> 0) ()) (\<lambda>_.
            bind_run (for_run (nid_to_node_step nodes) 0 n (replicate (unat (max_nid + 1)) None)) (\<lambda>tab.
            bind_run (for_run (parent_step topo tab) 0 n nodes) (\<lambda>nodes'.
              Inr (errval SMLT_SUCCESS,
                   Some \<lparr>cx_num_nodes = num_nodes, cx_max_nid = max_nid, cx_nid_to_node = tab, cx_all_nodes = nodes'\<rparr>,
                   w3))))))))"

text \<open>\<open>smlt_context_destroy\<close> frees the structure at \<open>p\<close>, and nothing of what it points to.\<close>

definition smlt_context_destroy ::
  "(addr \<Rightarrow> u64 \<Rightarrow> 'h \<Rightarrow> 'h) \<Rightarrow> addr \<Rightarrow> 'h \<times> mem \<Rightarrow> errval_t \<times> 'h \<times> mem"
where
  "smlt_context_destroy nf p w = (errval SMLT_SUCCESS, smlt_platform_free nf p w)"

section \<open>Channels and queries\<close>

text \<open>
  The results are given as values; \<open>node\<close> is \<open>node->id\<close>. A node with an id above the greatest gets the
  error value -1. The array of the children's channels is given by the node it belongs to.
\<close>

definition context_node :: "smlt_context \<Rightarrow> u32 \<Rightarrow> (nat \<times> smlt_context_node) run" where
  "context_node ctx node =
     bind_run (bind_run (nth_run (cx_nid_to_node ctx) (unat node)) deref_run) (\<lambda>k.
     bind_run (nth_run (cx_all_nodes ctx) k) (\<lambda>n. Inr (k, n)))"

definition smlt_context_node_get_children_channels ::
  "smlt_context \<Rightarrow> u32 \<Rightarrow> (errval_t \<times> nat \<times> u32) run"
where
  "smlt_context_node_get_children_channels ctx node =
     (if cx_max_nid ctx < node then Inr (- 1, 0, 0)
      else bind_run (context_node ctx node) (\<lambda>(k, n). Inr (errval SMLT_SUCCESS, k, cn_num_children n)))"

definition smlt_context_node_get_parent_channel ::
  "smlt_context \<Rightarrow> u32 \<Rightarrow> (errval_t \<times> chan_ptr option) run"
where
  "smlt_context_node_get_parent_channel ctx node =
     (if cx_max_nid ctx < node then Inr (- 1, None)
      else bind_run (context_node ctx node) (\<lambda>(k, n). Inr (errval SMLT_SUCCESS, cn_parent n)))"

definition smlt_context_node_is_root :: "smlt_context \<Rightarrow> u32 \<Rightarrow> bool run" where
  "smlt_context_node_is_root ctx node =
     (if cx_max_nid ctx < node then Inr False
      else bind_run (context_node ctx node) (\<lambda>(k, n). Inr (cn_parent n = None)))"

definition smlt_context_node_is_leaf :: "smlt_context \<Rightarrow> u32 \<Rightarrow> bool run" where
  "smlt_context_node_is_leaf ctx node =
     (if cx_max_nid ctx < node then Inr False
      else bind_run (context_node ctx node) (\<lambda>(k, n). Inr (cn_num_children n = 0)))"

definition smlt_context_node_get_child_idx :: "smlt_context \<Rightarrow> u32 \<Rightarrow> u32 run" where
  "smlt_context_node_get_child_idx ctx self = bind_run (context_node ctx self) (\<lambda>(k, n). Inr (cn_index n))"

text \<open>Not implemented: the assertion fails for every node the context has.\<close>

definition smlt_context_node_does_shared_memory :: "smlt_context \<Rightarrow> u32 \<Rightarrow> bool run" where
  "smlt_context_node_does_shared_memory ctx node = (if cx_max_nid ctx < node then Inr False else Inl Assertion)"

definition smlt_context_node_does_message_passing :: "smlt_context \<Rightarrow> u32 \<Rightarrow> bool run" where
  "smlt_context_node_does_message_passing ctx node = (if cx_max_nid ctx < node then Inr False else Inl Assertion)"

definition smlt_context_node_does_inter_machine :: "smlt_context \<Rightarrow> u32 \<Rightarrow> bool run" where
  "smlt_context_node_does_inter_machine ctx node = (if cx_max_nid ctx < node then Inr False else Inl Assertion)"

text \<open>The variants for the calling node.\<close>

definition smlt_context_get_children_channels where
  "smlt_context_get_children_channels ctx self = smlt_context_node_get_children_channels ctx self"

definition smlt_context_get_parent_channel where
  "smlt_context_get_parent_channel ctx self = smlt_context_node_get_parent_channel ctx self"

definition smlt_context_is_root where
  "smlt_context_is_root ctx self = smlt_context_node_is_root ctx self"

definition smlt_context_is_leaf where
  "smlt_context_is_leaf ctx self = smlt_context_node_is_leaf ctx self"

definition smlt_context_does_shared_memory where
  "smlt_context_does_shared_memory ctx self = smlt_context_node_does_shared_memory ctx self"

definition smlt_context_does_message_passing where
  "smlt_context_does_message_passing ctx self = smlt_context_node_does_message_passing ctx self"

definition smlt_context_does_inter_machine where
  "smlt_context_does_inter_machine ctx self = smlt_context_node_does_inter_machine ctx self"

end
