(* ===== verification/Collective_Code.thy ===== *)
theory Collective_Code
  imports Context
begin

text \<open>
  The collective operations of a node (\<open>src/broadcast.c\<close>, \<open>src/reduction.c\<close>, \<open>src/barrier.c\<close>), as the
  trees of the channel calls they make: a node of the tree is a call, its branches are the answers
  the call may come back with. The loops that poll for messages need not end, so the trees may be
  infinite. Running the trees of all nodes of a machine side by side is the subject of the theory of
  networks.
\<close>

section \<open>Code\<close>

datatype chan_call =
  Chan_send chan_ptr smlt_msg
| Chan_notify chan_ptr
| Chan_can_recv chan_ptr
| Chan_recv chan_ptr smlt_msg
| Chan_recv_index chan_ptr smlt_msg u32
| Chan_recv_notification chan_ptr

datatype answer =
  Err (ans_err: errval_t)
| Err_msg (ans_err: errval_t) (ans_msg: smlt_msg)
| Yes_no (ans_yes: bool)

codatatype 'r code =
  Return 'r
| Abort
| Tau "'r code"
| Call chan_call "answer \<Rightarrow> 'r code"

text \<open>A call and what is done with its answer.\<close>

definition Send :: "chan_ptr \<Rightarrow> smlt_msg \<Rightarrow> (errval_t \<Rightarrow> 'r code) \<Rightarrow> 'r code" where
  "Send q msg k = Call (Chan_send q msg) (\<lambda>a. k (ans_err a))"

definition Notify :: "chan_ptr \<Rightarrow> (errval_t \<Rightarrow> 'r code) \<Rightarrow> 'r code" where
  "Notify q k = Call (Chan_notify q) (\<lambda>a. k (ans_err a))"

definition Can_recv :: "chan_ptr \<Rightarrow> (bool \<Rightarrow> 'r code) \<Rightarrow> 'r code" where
  "Can_recv q k = Call (Chan_can_recv q) (\<lambda>a. k (ans_yes a))"

definition Recv_index :: "chan_ptr \<Rightarrow> smlt_msg \<Rightarrow> u32 \<Rightarrow> (errval_t \<times> smlt_msg \<Rightarrow> 'r code) \<Rightarrow> 'r code" where
  "Recv_index q msg i k = Call (Chan_recv_index q msg i) (\<lambda>a. k (ans_err a, ans_msg a))"

definition Recv_notification :: "chan_ptr \<Rightarrow> (errval_t \<Rightarrow> 'r code) \<Rightarrow> 'r code" where
  "Recv_notification q k = Call (Chan_recv_notification q) (\<lambda>a. k (ans_err a))"

lemmas call_defs = Send_def Notify_def Can_recv_def Recv_index_def Recv_notification_def

primcorec bind_code :: "'a code \<Rightarrow> ('a \<Rightarrow> 'b code) \<Rightarrow> 'b code" where
  "bind_code c f =
     (case c of
        Return r \<Rightarrow> f r
      | Abort \<Rightarrow> Abort
      | Tau d \<Rightarrow> Tau (bind_code d f)
      | Call q k \<Rightarrow> Call q (\<lambda>a. bind_code (k a) f))"

lemma bind_code_simps [simp]:
  "bind_code (Return r) f = f r"
  "bind_code Abort f = Abort"
  "bind_code (Tau d) f = Tau (bind_code d f)"
  "bind_code (Call q k) f = Call q (\<lambda>a. bind_code (k a) f)"
  by (subst bind_code.code, simp)+

text \<open>
  A loop, by what it does in each of its states: leave to what follows the loop, go on without a call,
  or make a call and go on with the answer.
\<close>

datatype ('s, 'r) loop_step =
  is_leave: Leave (left_to: "'r code")
| is_skip: Skip (skipped_to: 's)
| is_ask: Ask (asked: chan_call) (answered: "answer \<Rightarrow> 's")

primcorec loop_code :: "('s \<Rightarrow> ('s, 'r) loop_step) \<Rightarrow> 's \<Rightarrow> 'r code" where
  "loop_code f s =
     (case f s of
        Leave c \<Rightarrow> c
      | Skip s' \<Rightarrow> Tau (loop_code f s')
      | Ask q k \<Rightarrow> Call q (\<lambda>a. loop_code f (k a)))"

lemma loop_code_simps:
  "f s = Leave c \<Longrightarrow> loop_code f s = c"
  "f s = Skip s' \<Longrightarrow> loop_code f s = Tau (loop_code f s')"
  "f s = Ask q k \<Longrightarrow> loop_code f s = Call q (\<lambda>a. loop_code f (k a))"
  by (subst loop_code.code, simp)+

text \<open>An abort of one of the accessors of the context aborts the operation.\<close>

definition run_code :: "'a run \<Rightarrow> ('a \<Rightarrow> 'r code) \<Rightarrow> 'r code" where
  "run_code r k = (case r of Inl _ \<Rightarrow> Abort | Inr x \<Rightarrow> k x)"

lemma run_code_simps [simp]: "run_code (Inl a) k = Abort" "run_code (Inr x) k = k x"
  by (simp_all add: run_code_def)

section \<open>Broadcasts\<close>

text \<open>The loop over the channels \<open>(p, i)\<close>, ..., to the children; a failing send is a panic.\<close>

fun send_children :: "nat \<Rightarrow> smlt_msg \<Rightarrow> nat \<Rightarrow> nat \<Rightarrow> errval_t code" where
  "send_children p msg i 0 = Return (errval SMLT_SUCCESS)"
| "send_children p msg i (Suc k) =
     Send (p, i) msg (\<lambda>err. if smlt_err_is_fail err then Abort else send_children p msg (Suc i) k)"

definition smlt_broadcast_subtree :: "smlt_context \<Rightarrow> u32 \<Rightarrow> smlt_msg \<Rightarrow> errval_t code" where
  "smlt_broadcast_subtree ctx self msg =
     run_code (smlt_context_get_children_channels ctx self) (\<lambda>(err, children, count).
       if smlt_err_is_fail err then Return err else send_children children msg 0 (unat count))"

fun notify_children :: "nat \<Rightarrow> nat \<Rightarrow> nat \<Rightarrow> errval_t code" where
  "notify_children p i 0 = Return (errval SMLT_SUCCESS)"
| "notify_children p i (Suc k) =
     Notify (p, i) (\<lambda>err. if \<not> smlt_err_is_ok err then Abort else notify_children p (Suc i) k)"

definition smlt_broadcast_notify_subtree :: "smlt_context \<Rightarrow> u32 \<Rightarrow> errval_t code" where
  "smlt_broadcast_notify_subtree ctx self =
     run_code (smlt_context_get_children_channels ctx self) (\<lambda>(err, children, count).
       if smlt_err_is_fail err then Return err else notify_children children 0 (unat count))"

text \<open>The message is given back beside the error value. Calling on a null channel is an abort.\<close>

definition smlt_broadcast :: "smlt_context \<Rightarrow> u32 \<Rightarrow> smlt_msg \<Rightarrow> (errval_t \<times> smlt_msg) code" where
  "smlt_broadcast ctx self msg =
     run_code (smlt_context_is_root ctx self) (\<lambda>root.
     if root then bind_code (smlt_broadcast_subtree ctx self msg) (\<lambda>err. Return (err, msg))
     else
       run_code (smlt_context_get_parent_channel ctx self) (\<lambda>(err, parent).
       if smlt_err_is_fail err then Return (err, msg)
       else
         run_code (deref_run parent) (\<lambda>parent.
         run_code (smlt_context_node_get_child_idx ctx self) (\<lambda>idx.
           Recv_index parent msg idx (\<lambda>(err, msg').
             if smlt_err_is_fail err then Abort
             else bind_code (smlt_broadcast_subtree ctx self msg') (\<lambda>err. Return (err, msg')))))))"

definition smlt_broadcast_can_recv :: "smlt_context \<Rightarrow> u32 \<Rightarrow> bool code" where
  "smlt_broadcast_can_recv ctx self =
     run_code (smlt_context_is_root ctx self) (\<lambda>root.
     if root then Return False
     else
       run_code (smlt_context_get_parent_channel ctx self) (\<lambda>(err, parent).
       if smlt_err_is_fail err then Return False
       else run_code (deref_run parent) (\<lambda>parent. Can_recv parent (\<lambda>b. if b then Return True else Return False))))"

definition smlt_broadcast_notify :: "smlt_context \<Rightarrow> u32 \<Rightarrow> errval_t code" where
  "smlt_broadcast_notify ctx self =
     run_code (smlt_context_is_root ctx self) (\<lambda>root.
     if root then smlt_broadcast_notify_subtree ctx self
     else
       run_code (smlt_context_get_parent_channel ctx self) (\<lambda>(err, parent).
       if smlt_err_is_fail err then Return err
       else
         run_code (deref_run parent) (\<lambda>parent.
           Recv_notification parent (\<lambda>err.
             if smlt_err_is_fail err then Return (errval SMLT_ERR)
             else smlt_broadcast_notify_subtree ctx self))))"

section \<open>Reductions\<close>

text \<open>
  The loop that takes one message from every child, in the order in which they come: the states it is
  in between two calls, \<open>recv\<close>, \<open>num_recv\<close>, \<open>i\<close> and the message received into. \<open>Stopped\<close> is the
  early return of the failure of a receive.
\<close>

datatype 'a collecting =
  Polling_child "bool list" nat nat 'a
| Taking "bool list" nat nat 'a
| Stopped errval_t 'a

definition next_child :: "nat \<Rightarrow> nat \<Rightarrow> nat" where
  "next_child count i = (if i + 1 = count then 0 else i + 1)"

fun reduce_step ::
  "nat \<Rightarrow> nat \<Rightarrow> (smlt_msg \<Rightarrow> (errval_t \<times> smlt_msg) code) \<Rightarrow> smlt_msg collecting \<Rightarrow>
   (smlt_msg collecting, errval_t \<times> smlt_msg) loop_step"
where
  "reduce_step p count K (Polling_child recv num_recv i result) =
     (if num_recv < count then
        if recv ! i then Skip (Polling_child recv num_recv (next_child count i) result)
        else Ask (Chan_can_recv (p, i))
               (\<lambda>a. if ans_yes a then Taking recv num_recv i result
                    else Polling_child recv num_recv (next_child count i) result)
      else Leave (K result))"
| "reduce_step p count K (Taking recv num_recv i result) =
     Ask (Chan_recv (p, i) result)
       (\<lambda>a. if smlt_err_is_fail (ans_err a) then Stopped (ans_err a) (ans_msg a)
            else Polling_child (recv[i := True]) (num_recv + 1) (next_child count i) (ans_msg a))"
| "reduce_step p count K (Stopped err result) = Leave (Return (err, result))"

fun reduce_notify_step ::
  "nat \<Rightarrow> nat \<Rightarrow> errval_t code \<Rightarrow> unit collecting \<Rightarrow> (unit collecting, errval_t) loop_step"
where
  "reduce_notify_step p count K (Polling_child recv num_recv i _) =
     (if num_recv < count then
        if recv ! i then Skip (Polling_child recv num_recv (next_child count i) ())
        else Ask (Chan_can_recv (p, i))
               (\<lambda>a. if ans_yes a then Taking recv num_recv i ()
                    else Polling_child recv num_recv (next_child count i) ())
      else Leave K)"
| "reduce_notify_step p count K (Taking recv num_recv i _) =
     Ask (Chan_recv_notification (p, i))
       (\<lambda>a. if smlt_err_is_fail (ans_err a) then Stopped (ans_err a) ()
            else Polling_child (recv[i := True]) (num_recv + 1) (next_child count i) ())"
| "reduce_notify_step p count K (Stopped err _) = Leave (Return err)"

definition smlt_reduce_notify :: "smlt_context \<Rightarrow> u32 \<Rightarrow> errval_t code" where
  "smlt_reduce_notify ctx self =
     run_code (smlt_context_get_children_channels ctx self) (\<lambda>(err, children, count).
     if smlt_err_is_fail err then Return err
     else
       loop_code (reduce_notify_step children (unat count)
         (run_code (smlt_context_get_parent_channel ctx self) (\<lambda>(err, parent).
            if smlt_err_is_fail err then Return err
            else case parent of
                   None \<Rightarrow> Return (errval SMLT_SUCCESS)
                 | Some q \<Rightarrow> Notify q (\<lambda>_. Return (errval SMLT_SUCCESS)))))
         (Polling_child (replicate (unat count) False) 0 0 ()))"

text \<open>
  \<open>smlt_reduce\<close>. The operation of the caller maps its two messages to what it leaves in them; it is
  applied once, to the result and the input, and not to what comes from the children.
\<close>

definition smlt_reduce ::
  "smlt_context \<Rightarrow> u32 \<Rightarrow> smlt_msg \<Rightarrow> smlt_msg \<Rightarrow> (smlt_msg \<Rightarrow> smlt_msg \<Rightarrow> smlt_msg \<times> smlt_msg) option \<Rightarrow>
   (errval_t \<times> smlt_msg) code"
where
  "smlt_reduce ctx self input result0 operation =
     (case operation of
        None \<Rightarrow> bind_code (smlt_reduce_notify ctx self) (\<lambda>err. Return (err, result0))
      | Some f \<Rightarrow>
          let result = fst (f result0 input) in
          run_code (smlt_context_get_children_channels ctx self) (\<lambda>(err, children, count).
          if smlt_err_is_fail err then Return (err, result)
          else
            loop_code (reduce_step children (unat count)
              (\<lambda>result.
                 run_code (smlt_context_get_parent_channel ctx self) (\<lambda>(err, parent).
                 if smlt_err_is_fail err then Return (err, result)
                 else case parent of
                        None \<Rightarrow> Return (errval SMLT_SUCCESS, result)
                      | Some q \<Rightarrow> Send q result (\<lambda>_. Return (errval SMLT_SUCCESS, result)))))
              (Polling_child (replicate (unat count) False) 0 0 result)))"

text \<open>\<open>smlt_reduce_can_recv\<close> returns an error value as its truth value.\<close>

fun any_can_recv :: "nat \<Rightarrow> nat \<Rightarrow> nat \<Rightarrow> bool code" where
  "any_can_recv p i 0 = Return False"
| "any_can_recv p i (Suc k) = Can_recv (p, i) (\<lambda>b. if b then Return True else any_can_recv p (Suc i) k)"

definition smlt_reduce_can_recv :: "smlt_context \<Rightarrow> u32 \<Rightarrow> bool code" where
  "smlt_reduce_can_recv ctx self =
     run_code (smlt_context_get_children_channels ctx self) (\<lambda>(err, children, count).
       if smlt_err_is_fail err then Return (err \<noteq> 0) else any_can_recv children 0 (unat count))"

definition smlt_reduce_all ::
  "smlt_context \<Rightarrow> u32 \<Rightarrow> smlt_msg \<Rightarrow> smlt_msg \<Rightarrow> (smlt_msg \<Rightarrow> smlt_msg \<Rightarrow> smlt_msg \<times> smlt_msg) option \<Rightarrow>
   (errval_t \<times> smlt_msg) code"
where
  "smlt_reduce_all ctx self input result operation =
     bind_code (smlt_reduce ctx self input result operation) (\<lambda>(err, result').
       if smlt_err_is_fail err then Return (err, result') else smlt_broadcast ctx self result')"

section \<open>Barriers\<close>

definition smlt_barrier_init :: "smlt_context \<Rightarrow> errval_t" where
  "smlt_barrier_init ctx = errval SMLT_SUCCESS"

definition smlt_barrier_destroy :: "smlt_context \<Rightarrow> errval_t" where
  "smlt_barrier_destroy ctx = errval SMLT_SUCCESS"

definition smlt_barrier_wait :: "smlt_context \<Rightarrow> u32 \<Rightarrow> errval_t code" where
  "smlt_barrier_wait ctx self =
     bind_code (smlt_reduce_notify ctx self) (\<lambda>err.
       if smlt_err_is_fail err then Return err else smlt_broadcast_notify ctx self)"

end
