(* ===== verification/Network.thy ===== *)
theory Network
  imports Collective_Code Fifo_Channel
begin

text \<open>
  Nodes that run side by side. The state of a network is the state of every channel and the code that
  every node has left to run; a schedule says which node moves next. A move is one channel call of the
  node, which may have to be tried again, or a step without a call. The calls go to one-to-one
  channels: the channel \<open>(p, c)\<close> is owned by the node \<open>p\<close>. How the channels store messages is left to the
  functions \<open>snd_op\<close>, \<open>rcv_op\<close> and \<open>can_op\<close>, which are the channel operations of one direction, cut
  off after one attempt.
\<close>

section \<open>Moves\<close>

type_synonym 's links = "chan_ptr \<Rightarrow> 's"

text \<open>A message with a new payload.\<close>

definition put_payload :: "smlt_msg \<Rightarrow> u64 list \<Rightarrow> smlt_msg" where
  "put_payload msg x = msg\<lparr>msg_data := (\<lambda>i. if i < length x then x ! i else msg_data msg i)\<rparr>"

lemma msg_payload_put: "length x = unat (msg_words msg) \<Longrightarrow> msg_payload (put_payload msg x) = x"
  by (auto simp: msg_payload_def put_payload_def intro: nth_equalityI)

lemma msg_words_put [simp]: "msg_words (put_payload msg x) = msg_words msg"
  by (simp add: put_payload_def)

text \<open>One attempt of a call by the node \<open>self\<close>; \<open>None\<close> asks for another one.\<close>

fun answer_call ::
  "(bool \<Rightarrow> u64 list \<Rightarrow> 's \<Rightarrow> bool \<times> 's) \<Rightarrow> (bool \<Rightarrow> 's \<Rightarrow> u64 list option \<times> 's) \<Rightarrow> (bool \<Rightarrow> 's \<Rightarrow> bool) \<Rightarrow>
   nat \<Rightarrow> chan_call \<Rightarrow> 's links \<Rightarrow> answer option \<times> 's links"
where
  "answer_call snd_op rcv_op can_op self (Chan_send q msg) L =
     (let (ok, s) = snd_op (self = fst q) (msg_payload msg) (L q)
      in (if ok then Some (Err (errval SMLT_SUCCESS)) else None, L(q := s)))"
| "answer_call snd_op rcv_op can_op self (Chan_notify q) L =
     (let (ok, s) = snd_op (self = fst q) [] (L q)
      in (if ok then Some (Err (errval SMLT_SUCCESS)) else None, L(q := s)))"
| "answer_call snd_op rcv_op can_op self (Chan_can_recv q) L =
     (Some (Yes_no (can_op (self \<noteq> fst q) (L q))), L)"
| "answer_call snd_op rcv_op can_op self (Chan_recv q msg) L =
     (let (r, s) = rcv_op (self \<noteq> fst q) (L q)
      in (map_option (\<lambda>x. Err_msg (errval SMLT_SUCCESS) (put_payload msg x)) r, L(q := s)))"
| "answer_call snd_op rcv_op can_op self (Chan_recv_index q msg i) L =
     (let (r, s) = rcv_op (self \<noteq> fst q) (L q)
      in (map_option (\<lambda>x. Err_msg (errval SMLT_SUCCESS) (put_payload msg x)) r, L(q := s)))"
| "answer_call snd_op rcv_op can_op self (Chan_recv_notification q) L =
     (let (r, s) = rcv_op (self \<noteq> fst q) (L q)
      in (map_option (\<lambda>x. Err (errval SMLT_SUCCESS)) r, L(q := s)))"

definition code_step ::
  "(bool \<Rightarrow> u64 list \<Rightarrow> 's \<Rightarrow> bool \<times> 's) \<Rightarrow> (bool \<Rightarrow> 's \<Rightarrow> u64 list option \<times> 's) \<Rightarrow> (bool \<Rightarrow> 's \<Rightarrow> bool) \<Rightarrow>
   nat \<Rightarrow> 'r code \<Rightarrow> 's links \<Rightarrow> 'r code \<times> 's links"
where
  "code_step snd_op rcv_op can_op self c L =
     (case c of
        Return r \<Rightarrow> (c, L)
      | Abort \<Rightarrow> (c, L)
      | Tau d \<Rightarrow> (d, L)
      | Call q k \<Rightarrow>
          (case answer_call snd_op rcv_op can_op self q L of
             (None, L') \<Rightarrow> (c, L')
           | (Some a, L') \<Rightarrow> (k a, L')))"

lemma code_step_simps [simp]:
  "code_step snd_op rcv_op can_op self (Return r) L = (Return r, L)"
  "code_step snd_op rcv_op can_op self Abort L = (Abort, L)"
  "code_step snd_op rcv_op can_op self (Tau d) L = (d, L)"
  "code_step snd_op rcv_op can_op self (Call q k) L =
     (case answer_call snd_op rcv_op can_op self q L of (None, L') \<Rightarrow> (Call q k, L') | (Some a, L') \<Rightarrow> (k a, L'))"
  by (simp_all add: code_step_def)

text \<open>A node that has not entered the operation has no code yet; its first move is to enter.\<close>

record ('s, 'r) net =
  net_links :: "'s links"
  net_code :: "nat \<Rightarrow> 'r code option"

definition net_move ::
  "(bool \<Rightarrow> u64 list \<Rightarrow> 's \<Rightarrow> bool \<times> 's) \<Rightarrow> (bool \<Rightarrow> 's \<Rightarrow> u64 list option \<times> 's) \<Rightarrow> (bool \<Rightarrow> 's \<Rightarrow> bool) \<Rightarrow>
   (nat \<Rightarrow> 'r code) \<Rightarrow> nat \<Rightarrow> ('s, 'r) net \<Rightarrow> ('s, 'r) net"
where
  "net_move snd_op rcv_op can_op prog i s =
     (case net_code s i of
        None \<Rightarrow> s\<lparr>net_code := (net_code s)(i \<mapsto> prog i)\<rparr>
      | Some c \<Rightarrow>
          let (c', L') = code_step snd_op rcv_op can_op i c (net_links s)
          in s\<lparr>net_links := L', net_code := (net_code s)(i \<mapsto> c')\<rparr>)"

fun net_run ::
  "(bool \<Rightarrow> u64 list \<Rightarrow> 's \<Rightarrow> bool \<times> 's) \<Rightarrow> (bool \<Rightarrow> 's \<Rightarrow> u64 list option \<times> 's) \<Rightarrow> (bool \<Rightarrow> 's \<Rightarrow> bool) \<Rightarrow>
   (nat \<Rightarrow> 'r code) \<Rightarrow> nat list \<Rightarrow> ('s, 'r) net \<Rightarrow> ('s, 'r) net"
where
  "net_run snd_op rcv_op can_op prog [] s = s"
| "net_run snd_op rcv_op can_op prog (i # is) s =
     net_run snd_op rcv_op can_op prog is (net_move snd_op rcv_op can_op prog i s)"

text \<open>Nobody has entered.\<close>

definition net_start :: "'s links \<Rightarrow> ('s, 'r) net" where
  "net_start L = \<lparr>net_links = L, net_code = (\<lambda>_. None)\<rparr>"

definition entered :: "('s, 'r) net \<Rightarrow> nat \<Rightarrow> bool" where
  "entered s i \<longleftrightarrow> net_code s i \<noteq> None"

definition returned :: "('s, 'r) net \<Rightarrow> nat \<Rightarrow> 'r \<Rightarrow> bool" where
  "returned s i r \<longleftrightarrow> net_code s i = Some (Return r)"

lemma net_run_append:
  "net_run snd_op rcv_op can_op prog (is @ js) s =
   net_run snd_op rcv_op can_op prog js (net_run snd_op rcv_op can_op prog is s)"
  by (induction "is" arbitrary: s) simp_all

lemma net_run_invariant:
  assumes "I s" "\<And>i s. i \<in> set is \<Longrightarrow> I s \<Longrightarrow> I (net_move snd_op rcv_op can_op prog i s)"
  shows "I (net_run snd_op rcv_op can_op prog is s)"
  using assms by (induction "is" arbitrary: s) simp_all

section \<open>Channels that can be polled\<close>

locale polled_channel =
  duplex_channel inv pending good snd_op rcv_op
  for inv :: "'s \<Rightarrow> bool" and pending :: "bool \<Rightarrow> 's \<Rightarrow> u64 list list" and good :: "u64 list \<Rightarrow> bool"
    and snd_op :: "bool \<Rightarrow> u64 list \<Rightarrow> 's \<Rightarrow> bool \<times> 's" and rcv_op :: "bool \<Rightarrow> 's \<Rightarrow> u64 list option \<times> 's" +
  fixes can_op :: "bool \<Rightarrow> 's \<Rightarrow> bool"
  assumes can: "inv s \<Longrightarrow> can_op d s \<longleftrightarrow> pending d s \<noteq> []"
begin

abbreviation answer :: "nat \<Rightarrow> chan_call \<Rightarrow> 's links \<Rightarrow> answer option \<times> 's links" where
  "answer \<equiv> answer_call snd_op rcv_op can_op"

text \<open>What the calls do to the channel they are made on, in terms of the messages under way.\<close>

lemma answer_notify:
  assumes "inv (L q)" "good []" "answer self (Chan_notify q) L = (a, L')"
  obtains s' where "L' = L(q := s')" "inv s'"
    and "pending (self \<noteq> fst q) s' = pending (self \<noteq> fst q) (L q)"
    and "a = Some (Err (errval SMLT_SUCCESS)) \<and> pending (self = fst q) s' = pending (self = fst q) (L q) @ [[]] \<or>
         a = None \<and> pending (self = fst q) s' = pending (self = fst q) (L q) \<and> pending (self = fst q) (L q) \<noteq> []"
proof -
  obtain ok s' where c: "snd_op (self = fst q) [] (L q) = (ok, s')" by fastforce
  from dsend[OF assms(1,2) c] show ?thesis
    using assms(3) c by (intro that[of s']) (auto simp: Let_def split: if_splits)
qed

lemma answer_send:
  assumes "inv (L q)" "good (msg_payload msg)" "answer self (Chan_send q msg) L = (a, L')"
  obtains s' where "L' = L(q := s')" "inv s'"
    and "pending (self \<noteq> fst q) s' = pending (self \<noteq> fst q) (L q)"
    and "a = Some (Err (errval SMLT_SUCCESS)) \<and>
           pending (self = fst q) s' = pending (self = fst q) (L q) @ [msg_payload msg] \<or>
         a = None \<and> pending (self = fst q) s' = pending (self = fst q) (L q) \<and> pending (self = fst q) (L q) \<noteq> []"
proof -
  obtain ok s' where c: "snd_op (self = fst q) (msg_payload msg) (L q) = (ok, s')" by fastforce
  from dsend[OF assms(1,2) c] show ?thesis
    using assms(3) c by (intro that[of s']) (auto simp: Let_def split: if_splits)
qed

lemma answer_recv_notification:
  assumes "inv (L q)" "answer self (Chan_recv_notification q) L = (a, L')"
  obtains s' where "L' = L(q := s')" "inv s'"
    and "pending (self = fst q) s' = pending (self = fst q) (L q)"
    and "(\<exists>x. a = Some (Err (errval SMLT_SUCCESS)) \<and> pending (self \<noteq> fst q) (L q) = x # pending (self \<noteq> fst q) s') \<or>
         a = None \<and> pending (self \<noteq> fst q) s' = [] \<and> pending (self \<noteq> fst q) (L q) = []"
proof -
  obtain r s' where c: "rcv_op (self \<noteq> fst q) (L q) = (r, s')" by fastforce
  from drecv[OF assms(1) c] show ?thesis
    using assms(2) c by (intro that[of s']) (auto simp: Let_def split: option.splits)
qed

lemma answer_recv_index:
  assumes "inv (L q)" "answer self (Chan_recv_index q msg i) L = (a, L')"
  obtains s' where "L' = L(q := s')" "inv s'"
    and "pending (self = fst q) s' = pending (self = fst q) (L q)"
    and "(\<exists>x. a = Some (Err_msg (errval SMLT_SUCCESS) (put_payload msg x)) \<and>
              pending (self \<noteq> fst q) (L q) = x # pending (self \<noteq> fst q) s') \<or>
         a = None \<and> pending (self \<noteq> fst q) s' = [] \<and> pending (self \<noteq> fst q) (L q) = []"
proof -
  obtain r s' where c: "rcv_op (self \<noteq> fst q) (L q) = (r, s')" by fastforce
  from drecv[OF assms(1) c] show ?thesis
    using assms(2) c by (intro that[of s']) (auto simp: Let_def split: option.splits)
qed

end

end
