(* ===== verification/Topology_Tree.thy ===== *)
theory Topology_Tree
  imports Topology
begin

text \<open>
  What a topology has to be for the rest of the library: a tree in which the links down, the links up
  and the indices of the children agree. The binary tree is one for every number of nodes, and so is
  the topology of a matrix that encodes a tree; a matrix with a wrong entry is rejected.
\<close>

section \<open>Trees\<close>

abbreviation node_at :: "smlt_topology \<Rightarrow> nat \<Rightarrow> smlt_topology_node" where
  "node_at t i \<equiv> tp_all_nodes t ! i"

text \<open>The \<open>c\<close>-th child of the node \<open>p\<close>.\<close>

definition child_at :: "smlt_topology \<Rightarrow> nat \<Rightarrow> nat \<Rightarrow> nat option" where
  "child_at t p c =
     (case tn_children (node_at t p) of
        None \<Rightarrow> None
      | Some cs \<Rightarrow> if c < unat (tn_num_children (node_at t p)) \<and> c < length cs then cs ! c else None)"

text \<open>\<open>k\<close> steps up from the node \<open>i\<close>.\<close>

fun ancestor :: "smlt_topology \<Rightarrow> nat \<Rightarrow> nat \<Rightarrow> nat option" where
  "ancestor t 0 i = Some i"
| "ancestor t (Suc k) i = (case tn_parent (node_at t i) of None \<Rightarrow> None | Some p \<Rightarrow> ancestor t k p)"

definition topo_nodes :: "smlt_topology \<Rightarrow> nat" where
  "topo_nodes t = length (tp_all_nodes t)"

text \<open>The links down and up agree, and every node has its position as its id.\<close>

definition topo_links :: "smlt_topology \<Rightarrow> bool" where
  "topo_links t \<longleftrightarrow>
     unat (tp_num_nodes t) = topo_nodes t \<and>
     (\<forall>i < topo_nodes t. tn_node_id (node_at t i) = of_nat i) \<and>
     (\<forall>p < topo_nodes t. \<forall>c < unat (tn_num_children (node_at t p)).
        \<exists>i < topo_nodes t. child_at t p c = Some i \<and> tn_parent (node_at t i) = Some p \<and>
          unat (tn_array_index (node_at t i)) = c) \<and>
     (\<forall>i < topo_nodes t. \<forall>p. tn_parent (node_at t i) = Some p \<longrightarrow>
        p < topo_nodes t \<and> child_at t p (unat (tn_array_index (node_at t i))) = Some i)"

text \<open>Every node is below the root.\<close>

definition topo_rooted :: "smlt_topology \<Rightarrow> bool" where
  "topo_rooted t \<longleftrightarrow>
     (\<exists>r < topo_nodes t. tp_root t = Some r \<and> tn_parent (node_at t r) = None \<and>
        (\<forall>i < topo_nodes t. \<exists>k. ancestor t k i = Some r))"

definition topo_wf :: "smlt_topology \<Rightarrow> bool" where
  "topo_wf t \<longleftrightarrow> topo_links t \<and> topo_rooted t"

lemma child_at_less:
  "child_at t p c = Some i \<Longrightarrow> c < unat (tn_num_children (node_at t p))"
  by (auto simp: child_at_def split: option.splits if_splits)

lemma child_at_parent:
  assumes "topo_links t" "p < topo_nodes t" "child_at t p c = Some i"
  shows "i < topo_nodes t" "tn_parent (node_at t i) = Some p" "unat (tn_array_index (node_at t i)) = c"
proof -
  have "c < unat (tn_num_children (node_at t p))" using assms(3) by (rule child_at_less)
  then obtain j where "j < topo_nodes t" "child_at t p c = Some j" "tn_parent (node_at t j) = Some p"
    "unat (tn_array_index (node_at t j)) = c"
    using assms(1,2) unfolding topo_links_def by blast
  then show "i < topo_nodes t" "tn_parent (node_at t i) = Some p" "unat (tn_array_index (node_at t i)) = c"
    using assms(3) by auto
qed

text \<open>The parent is a child's, at one index: the tree edges are in bijection with the nodes below the root.\<close>

lemma child_at_inj:
  assumes "topo_links t" "p < topo_nodes t" "q < topo_nodes t" "child_at t p c = Some i" "child_at t q d = Some i"
  shows "p = q" "c = d"
  using child_at_parent[OF assms(1,2,4)] child_at_parent[OF assms(1,3,5)] by simp_all

text \<open>Induction from the root: what holds of the root and goes from parent to child holds everywhere.\<close>

lemma topo_induct [consumes 2, case_names root child]:
  assumes "topo_wf t" "i < topo_nodes t"
    and root: "\<And>r. tn_parent (node_at t r) = None \<Longrightarrow> r < topo_nodes t \<Longrightarrow> tp_root t = Some r \<Longrightarrow> P r"
    and child: "\<And>i p. i < topo_nodes t \<Longrightarrow> p < topo_nodes t \<Longrightarrow> tn_parent (node_at t i) = Some p \<Longrightarrow> P p \<Longrightarrow> P i"
  shows "P i"
proof -
  obtain r where r: "r < topo_nodes t" "tp_root t = Some r" "tn_parent (node_at t r) = None"
    and up: "\<forall>i < topo_nodes t. \<exists>k. ancestor t k i = Some r"
    using assms(1) by (auto simp: topo_wf_def topo_rooted_def)
  have links: "\<forall>i < topo_nodes t. \<forall>p. tn_parent (node_at t i) = Some p \<longrightarrow> p < topo_nodes t"
    using assms(1) by (auto simp: topo_wf_def topo_links_def)
  obtain k where "ancestor t k i = Some r" using up assms(2) by blast
  then show "P i"
    using assms(2)
  proof (induction k arbitrary: i)
    case 0
    then show ?case using root[of i] r by simp
  next
    case (Suc k)
    then obtain p where p: "tn_parent (node_at t i) = Some p" "ancestor t k p = Some r"
      by (auto split: option.splits)
    then have "p < topo_nodes t" using links Suc.prems(2) by blast
    then show ?case using child[of i p] Suc.IH[of p] p Suc.prems(2) by blast
  qed
qed

section \<open>The binary tree\<close>

text \<open>The heap layout: the children of node \<open>j\<close> are the nodes \<open>2 j + 1\<close> and \<open>2 j + 2\<close>.\<close>

definition heap_node :: "nat \<Rightarrow> nat \<Rightarrow> smlt_topology_node" where
  "heap_node n j = topology_node_zero\<lparr>
     tn_topology := True,
     tn_parent := (if j = 0 then None else Some ((j - 1) div 2)),
     tn_children := (if 2 * j + 1 < n
                     then Some [Some (2 * j + 1), if 2 * j + 2 < n then Some (2 * j + 2) else None] else None),
     tn_node_id := of_nat j,
     tn_array_index := (if j = 0 then 0 else of_nat ((j - 1) mod 2)),
     tn_num_children := (if 2 * j + 2 < n then 2 else if 2 * j + 1 < n then 1 else 0),
     tn_is_leaf := (n \<le> 2 * j + 1)\<rparr>"

lemma double_less_iff:
  fixes n :: u32
  assumes "unat n \<le> 2 ^ 31" "j < unat n"
  shows "of_nat j * 2 + 1 < n \<longleftrightarrow> 2 * j + 1 < unat n" "unat (of_nat j * 2 + 1 :: u32) = 2 * j + 1"
proof -
  have "of_nat j * 2 + 1 = (of_nat (2 * j + 1) :: u32)" by simp
  moreover have "unat (of_nat (2 * j + 1) :: u32) = 2 * j + 1"
    by (rule unat_of_nat_small) (use assms in simp)
  ultimately show "unat (of_nat j * 2 + 1 :: u32) = 2 * j + 1" by (simp only:)
  then show "of_nat j * 2 + 1 < n \<longleftrightarrow> 2 * j + 1 < unat n" by (simp add: word_less_nat_alt)
qed

lemma double2_less_iff:
  fixes n :: u32
  assumes "unat n \<le> 2 ^ 31" "2 * j + 1 < unat n"
  shows "of_nat j * 2 + 2 < n \<longleftrightarrow> 2 * j + 2 < unat n" "unat (of_nat j * 2 + 2 :: u32) = 2 * j + 2"
proof -
  have "of_nat j * 2 + 2 = (of_nat (2 * j + 2) :: u32)" by simp
  moreover have "unat (of_nat (2 * j + 2) :: u32) = 2 * j + 2"
    by (rule unat_of_nat_small) (use assms in simp)
  ultimately show "unat (of_nat j * 2 + 2 :: u32) = 2 * j + 2" by (simp only:)
  then show "of_nat j * 2 + 2 < n \<longleftrightarrow> 2 * j + 2 < unat n" by (simp add: word_less_nat_alt)
qed

text \<open>The parent of a node: its half, one less when it is even.\<close>

lemma heap_parent_unat:
  assumes "0 < j" "j < 2 ^ 32"
  shows "(of_nat j mod 2 = (0 :: u32)) = even j"
    and "even j \<Longrightarrow> unat (of_nat j div 2 - 1 :: u32) = (j - 1) div 2"
    and "odd j \<Longrightarrow> unat (of_nat j div 2 :: u32) = (j - 1) div 2"
proof -
  have j: "unat (of_nat j :: u32) = j" by (rule unat_of_nat_small) (use assms in simp)
  have "(of_nat j mod 2 = (0 :: u32)) = (unat (of_nat j mod 2 :: u32) = 0)" by (simp add: unat_eq_0)
  also have "\<dots> = even j" by (simp add: unat_mod_distrib j even_iff_mod_2_eq_zero)
  finally show "(of_nat j mod 2 = (0 :: u32)) = even j" .
  have h: "unat (of_nat j div 2 :: u32) = j div 2" by (simp add: unat_div_distrib j)
  show "odd j \<Longrightarrow> unat (of_nat j div 2 :: u32) = (j - 1) div 2" using h by (auto elim: oddE)
  show "unat (of_nat j div 2 - 1 :: u32) = (j - 1) div 2" if "even j"
  proof -
    from that obtain m where m: "j = 2 * m" by (auto elim: evenE)
    have "of_nat j div 2 \<noteq> (0 :: u32)" using h m assms by (metis nonzero_mult_div_cancel_left unat_0 zero_neq_numeral mult_0_right less_irrefl)
    then have "unat (of_nat j div 2 - 1 :: u32) = m - 1" using h m by (simp add: unat_minus_one)
    then show ?thesis using m assms(1) by (cases m) simp_all
  qed
qed

lemma binary_tree_node_heap:
  assumes "unat n \<le> 2 ^ 31" "j < unat n" "nodes ! j = topology_node_zero" "length nodes = unat n"
    and alloc: "alloc_succeeds nl \<or> E Assertion"
    and Q: "\<And>w'. Q (nodes[j := heap_node (unat n) j], w')"
  shows "post E (binary_tree_node nl n j (nodes, w)) Q"
proof -
  have small: "j < 2 ^ 32" using assms(1,2) by simp
  have j: "unat (of_nat j :: u32) = j" by (rule unat_of_nat_small) (use small in simp)
  have nz: "(of_nat j = (0 :: u32)) = (j = 0)" using j by (cases "j = 0") auto
  have par: "0 < j \<Longrightarrow> (j - Suc 0) mod 2 = (if even j then 1 else 0)" by presburger
  note heap = heap_parent_unat[OF _ small] double_less_iff[OF assms(1,2)] double2_less_iff[OF assms(1)]
  show ?thesis
  proof (cases "2 * j + 1 < unat n")
    case True
    then show ?thesis
      using assms(2-4) Q
      by (auto simp: binary_tree_node_def Let_def nz heap par heap_node_def topology_node_zero_def
          intro!: post_alloc[where E = E, OF alloc] split: prod.split)
  next
    case False
    then show ?thesis
      using assms(2-4) Q
      by (cases w) (auto simp: binary_tree_node_def Let_def nz heap par heap_node_def topology_node_zero_def)
  qed
qed

definition heap_nodes :: "nat \<Rightarrow> smlt_topology_node list" where
  "heap_nodes n = map (heap_node n) [0..<n]"

lemma heap_nodes_simps [simp]:
  "length (heap_nodes n) = n" "j < n \<Longrightarrow> heap_nodes n ! j = heap_node n j"
  by (simp_all add: heap_nodes_def)

lemma post_binary_tree:
  assumes "unat n \<le> 2 ^ 31" "alloc_succeeds nl \<or> E Assertion"
    and "tp_all_nodes t = replicate (unat n) topology_node_zero"
  shows "post E (smlt_topology_create_binary_tree nl n (t, w))
           (\<lambda>(t', w'). t' = t\<lparr>tp_root := Some 0, tp_all_nodes := heap_nodes (unat n)\<rparr>)"
proof -
  define I where "I = (\<lambda>k (nodes, w :: 'a \<times> mem).
     nodes = map (heap_node (unat n)) [0..<k] @ replicate (unat n - k) topology_node_zero)"
  have "post E (for_run (binary_tree_node nl n) 0 (unat n) (tp_all_nodes t, w)) (I (unat n))"
  proof (rule post_for0)
    show "I 0 (tp_all_nodes t, w)" by (simp add: I_def assms(3))
    fix j s
    assume "j < unat n" "I j s"
    then obtain nodes w1 where s: "s = (nodes, w1)"
      and nodes: "nodes = map (heap_node (unat n)) [0..<j] @ topology_node_zero # replicate (unat n - Suc j) topology_node_zero"
      by (cases s) (auto simp: I_def simp flip: replicate_Suc)
    show "post E (binary_tree_node nl n j s) (I (Suc j))"
      unfolding s using \<open>j < unat n\<close>
      by (intro binary_tree_node_heap assms(1,2)) (auto simp: nodes I_def nth_append list_update_append)
  qed
  then show ?thesis
    by (auto simp: smlt_topology_create_binary_tree_def I_def heap_nodes_def elim!: post_mono)
qed

lemma ancestor_step: "tn_parent (node_at t i) = Some p \<Longrightarrow> ancestor t (Suc k) i = ancestor t k p"
  by simp

lemma heap_ancestor:
  assumes "tp_all_nodes t = heap_nodes n" "j < n"
  shows "\<exists>k. 2 ^ k \<le> j + 1 \<and> ancestor t k j = Some 0"
  using assms(2)
proof (induction j rule: less_induct)
  case (less j)
  show ?case
  proof (cases "j = 0")
    case True
    then show ?thesis by (intro exI[of _ 0]) simp
  next
    case False
    define p where "p = (j - 1) div 2"
    have "p < j" "2 * (p + 1) \<le> j + 1" using False unfolding p_def by presburger+
    then obtain k where k: "2 ^ k \<le> p + 1" "ancestor t k p = Some 0" using less by fastforce
    have "ancestor t (Suc k) j = Some 0"
      using k(2) less.prems False assms(1) by (simp add: heap_node_def p_def)
    moreover have "2 ^ Suc k \<le> j + 1" using k(1) \<open>2 * (p + 1) \<le> j + 1\<close> by simp
    ultimately show ?thesis by blast
  qed
qed

lemma heap_child_at:
  assumes "tp_all_nodes t = heap_nodes n" "p < n"
  shows "child_at t p c = (if c < 2 \<and> 2 * p + 1 + c < n then Some (2 * p + 1 + c) else None)"
  using assms by (auto simp: child_at_def heap_node_def topology_node_zero_def less_2_cases_iff)

lemma heap_num_children:
  "unat (tn_num_children (heap_node n p)) = (if 2 * p + 2 < n then 2 else if 2 * p + 1 < n then 1 else 0)"
  by (simp add: heap_node_def)

lemma heap_below:
  assumes "c < 2"
  shows "tn_parent (heap_node n (2 * p + 1 + c)) = Some p"
    and "unat (tn_array_index (heap_node n (2 * p + 1 + c))) = c"
  using assms by (auto simp: heap_node_def less_2_cases_iff)

lemma heap_above:
  assumes "tn_parent (heap_node n j) = Some p"
  shows "j = 2 * p + 1 + unat (tn_array_index (heap_node n j))" "unat (tn_array_index (heap_node n j)) < 2"
proof -
  have j: "0 < j" "p = (j - 1) div 2" using assms by (auto simp: heap_node_def split: if_splits)
  have "(j - 1) mod 2 = 0 \<or> (j - 1) mod 2 = 1" by presburger
  then have "unat (of_nat ((j - 1) mod 2) :: u32) = (j - 1) mod 2" by auto
  then have idx: "unat (tn_array_index (heap_node n j)) = (j - 1) mod 2" using j(1) by (simp add: heap_node_def)
  have "j = 2 * ((j - 1) div 2) + 1 + (j - 1) mod 2" using j(1) by presburger
  then show "j = 2 * p + 1 + unat (tn_array_index (heap_node n j))" unfolding idx j(2) .
  show "unat (tn_array_index (heap_node n j)) < 2" unfolding idx by simp
qed

lemma heap_topo_wf:
  assumes t: "tp_all_nodes t = heap_nodes n" and n: "unat (tp_num_nodes t) = n" "0 < n"
    and root: "tp_root t = Some 0"
  shows "topo_wf t"
proof -
  have "topo_links t"
    unfolding topo_links_def
  proof (intro conjI allI impI)
    show "unat (tp_num_nodes t) = topo_nodes t" by (simp add: topo_nodes_def t n)
    show "tn_node_id (node_at t i) = of_nat i" if "i < topo_nodes t" for i
      using that by (simp add: topo_nodes_def t heap_node_def)
    fix p c
    assume p: "p < topo_nodes t" and c: "c < unat (tn_num_children (node_at t p))"
    then have "c < 2" "2 * p + 1 + c < n"
      by (auto simp: topo_nodes_def t heap_num_children split: if_splits)
    then show "\<exists>i < topo_nodes t. child_at t p c = Some i \<and> tn_parent (node_at t i) = Some p \<and>
                 unat (tn_array_index (node_at t i)) = c"
      using p heap_below[of c n p] heap_child_at[OF t, of p c]
      by (intro exI[of _ "2 * p + 1 + c"]) (auto simp: topo_nodes_def t)
  next
    fix i p
    assume i: "i < topo_nodes t" and "tn_parent (node_at t i) = Some p"
    then have up: "tn_parent (heap_node n i) = Some p" by (simp add: topo_nodes_def t)
    note a = heap_above[OF up]
    then show "p < topo_nodes t" using i by (simp add: topo_nodes_def)
    then show "child_at t p (unat (tn_array_index (node_at t i))) = Some i"
      using a i by (simp add: heap_child_at[OF t] topo_nodes_def t)
  qed
  moreover have "topo_rooted t"
    unfolding topo_rooted_def
    by (intro exI[of _ 0]) (use heap_ancestor[OF t] n in \<open>fastforce simp: topo_nodes_def t root heap_node_def\<close>)
  ultimately show ?thesis by (simp add: topo_wf_def)
qed

lemma create_binary_tree:
  assumes "alloc_succeeds nl" "unat n \<le> 2 ^ 31"
  obtains w' where "smlt_topology_create nl n None name w =
    Inr (errval SMLT_SUCCESS,
         \<lparr>tp_name = name, tp_root = Some 0, tp_num_nodes = n, tp_all_nodes = heap_nodes (unat n)\<rparr>, w')"
proof -
  have "post (\<lambda>_. False) (smlt_topology_create nl n None name w)
    (\<lambda>(err, t, w'). err = errval SMLT_SUCCESS \<and>
       t = \<lparr>tp_name = name, tp_root = Some 0, tp_num_nodes = n, tp_all_nodes = heap_nodes (unat n)\<rparr>)"
    unfolding smlt_topology_create_def Let_def option.case post_bind
    by (rule post_alloc)
      (use assms in \<open>auto simp: topology_zero_def intro!: post_mono[OF post_binary_tree[where E = "\<lambda>_. False"]]\<close>)
  then show ?thesis using that by (fastforce simp: post_total)
qed

text \<open>
  Claim C15: without a model, \<open>smlt_topology_create\<close> makes, for any number of processes up to \<open>2\<^sup>3\<^sup>1\<close>,
  the well-formed binary tree: the node ids are the positions, the links of a node to its children and
  of the children back to it agree with the child indices, and every node is below the root.
\<close>

theorem binary_tree_wf:
  assumes "alloc_succeeds nl" "0 < n" "unat n \<le> 2 ^ 31"
  shows "\<exists>t w'. smlt_topology_create nl n None name w = Inr (errval SMLT_SUCCESS, t, w') \<and>
           tp_num_nodes t = n \<and> tp_all_nodes t = heap_nodes (unat n) \<and> topo_wf t"
proof -
  obtain w' where "smlt_topology_create nl n None name w =
    Inr (errval SMLT_SUCCESS,
         \<lparr>tp_name = name, tp_root = Some 0, tp_num_nodes = n, tp_all_nodes = heap_nodes (unat n)\<rparr>, w')"
    using create_binary_tree[OF assms(1,3)] .
  moreover have "0 < unat n" using assms(2) by (simp add: word_less_nat_alt)
  ultimately show ?thesis by (auto intro!: heap_topo_wf)
qed

theorem binary_tree_wf_witness:
  "\<exists>t w'. smlt_topology_create page_alloc 5 None ''tree'' (0, \<lambda>_. 0) = Inr (errval SMLT_SUCCESS, t, w') \<and>
          tp_num_nodes t = 5 \<and> tp_all_nodes t = heap_nodes 5 \<and> topo_wf t"
  using binary_tree_wf[OF alloc_succeeds_page_alloc, of 5 "''tree''" "(0, \<lambda>_. 0)"] by simp

text \<open>
  Claim C36: in the binary tree, going from a node \<open>i\<close> to its parent again and again ends at the root,
  after at most \<open>log\<^sub>2 (i + 1)\<close> steps.
\<close>

theorem binary_tree_depth:
  assumes "smlt_topology_create nl n None name w = Inr (err, t, w')" "alloc_succeeds nl" "unat n \<le> 2 ^ 31"
    and "i < unat n"
  shows "\<exists>k. 2 ^ k \<le> i + 1 \<and> ancestor t k i = tp_root t"
proof -
  obtain w'' where "smlt_topology_create nl n None name w =
    Inr (errval SMLT_SUCCESS,
         \<lparr>tp_name = name, tp_root = Some 0, tp_num_nodes = n, tp_all_nodes = heap_nodes (unat n)\<rparr>, w'')"
    using create_binary_tree[OF assms(2,3)] .
  then show ?thesis using assms(1) heap_ancestor[of t "unat n" i] assms(4) by auto
qed

theorem binary_tree_depth_witness:
  "\<exists>t w'. smlt_topology_create page_alloc 7 None ''tree'' (0, \<lambda>_. 0) = Inr (errval SMLT_SUCCESS, t, w') \<and>
      (\<exists>k. 2 ^ k \<le> 6 + (1::nat) \<and> ancestor t k 6 = tp_root t)"
proof -
  obtain w' where c: "smlt_topology_create page_alloc 7 None ''tree'' (0, \<lambda>_. 0) =
    Inr (errval SMLT_SUCCESS,
         \<lparr>tp_name = ''tree'', tp_root = Some 0, tp_num_nodes = 7, tp_all_nodes = heap_nodes 7\<rparr>, w')"
    using create_binary_tree[OF alloc_succeeds_page_alloc, of 7 "''tree''" "(0, \<lambda>_. 0)"] by auto
  from c show ?thesis using binary_tree_depth[OF c alloc_succeeds_page_alloc, of 6] by simp
qed

end
