(* ===== verification/Topology_Parse.thy ===== *)
theory Topology_Parse
  imports Topology_Tree
begin

text \<open>
  The parser of the generator's matrix: a matrix that encodes a tree gives the well-formed topology
  with the links of the matrix, and the parser returns exactly for the matrices without a wrong entry.
\<close>

section \<open>The matrix of a model\<close>

definition entry :: "smlt_generated_model \<Rightarrow> nat \<Rightarrow> nat \<Rightarrow> int" where
  "entry g x y = uint (gm_model g ! (x * unat (gm_len g) + y))"

text \<open>The arrays have the sizes that the structure promises.\<close>

definition model_shape :: "smlt_generated_model \<Rightarrow> bool" where
  "model_shape g \<longleftrightarrow>
     unat (gm_len g) < 2 ^ 16 \<and> length (gm_model g) = unat (gm_len g) * unat (gm_len g) \<and>
     gm_root g < gm_len g \<and> length (gm_leafs g) = unat (gm_num_leafs g)"

text \<open>
  The entries the parser accepts: nothing, a child, a parent that knows the child, or the slave of a
  shared-memory region.
\<close>

definition entry_ok :: "(nat \<Rightarrow> nat \<Rightarrow> int) \<Rightarrow> nat \<Rightarrow> nat \<Rightarrow> bool" where
  "entry_ok M x y \<longleftrightarrow>
     0 \<le> M x y \<and> M x y \<le> 98 \<or> M x y = 99 \<and> 0 < M y x \<and> M y x < 98 \<or> 150 \<le> M x y \<and> M x y < 170"

lemma entry_nonneg: "0 \<le> entry g x y"
  by (simp add: entry_def)

lemma model_at_entry:
  assumes "model_shape g" "x < unat (gm_len g)" "y < unat (gm_len g)"
  shows "model_at g x y = Inr (entry g x y)"
proof -
  define n where "n = unat (gm_len g)"
  have n: "n < 2 ^ 16" "length (gm_model g) = n * n" "x < n" "y < n"
    using assms by (simp_all add: model_shape_def n_def)
  have "x * n + y < Suc x * n" using n(4) by simp
  also have "\<dots> \<le> n * n" using n(3) by (intro mult_le_mono) auto
  finally have lt: "x * n + y < n * n" .
  have "n * n \<le> (2 ^ 16) * (2 ^ 16)" using n(1) by (intro mult_le_mono) auto
  then have "x * n + y < 2 ^ LENGTH(32)" using lt by simp
  moreover have "of_nat x * gm_len g + of_nat y = (of_nat (x * n + y) :: u32)" by (simp add: n_def)
  ultimately have "unat (of_nat x * gm_len g + of_nat y :: u32) = x * n + y"
    by (simp only: unat_of_nat_small)
  then show ?thesis using lt n(2) by (simp add: model_at_def entry_def nth_run_def n_def)
qed

text \<open>The greatest child number of a row.\<close>

definition is_row_max :: "(nat \<Rightarrow> nat \<Rightarrow> int) \<Rightarrow> nat \<Rightarrow> nat \<Rightarrow> int \<Rightarrow> bool" where
  "is_row_max M n x v \<longleftrightarrow>
     0 \<le> v \<and> v \<le> 98 \<and> (\<forall>y < n. M x y \<le> 98 \<longrightarrow> M x y \<le> v) \<and> (v = 0 \<or> (\<exists>y < n. M x y = v))"

lemma post_max_child:
  assumes "model_shape g" "x < unat (gm_len g)"
  shows "post E (for_run (max_child_step g x) 0 (unat (gm_len g)) 0) (is_row_max (entry g) (unat (gm_len g)) x)"
proof (rule post_for0[where I = "\<lambda>k. is_row_max (entry g) k x"])
  show "is_row_max (entry g) 0 x 0" by (simp add: is_row_max_def)
  fix j v
  assume "j < unat (gm_len g)" "is_row_max (entry g) j x v"
  then show "post E (max_child_step g x j v) (is_row_max (entry g) (Suc j) x)"
    using model_at_entry[OF assms, of j] entry_nonneg[of g x j]
    by (fastforce simp: max_child_step_def is_row_max_def less_Suc_eq topo_matrix_defs)
qed

lemma post_shm_children:
  assumes "model_shape g" "x < unat (gm_len g)"
  shows "post E (for_run (shm_children_step g x) 0 (unat (gm_len g)) 0) (\<lambda>_. True)"
  by (rule post_for0) (use model_at_entry[OF assms] in \<open>auto simp: shm_children_step_def\<close>)

section \<open>The entries one by one\<close>

text \<open>
  A matrix in which the links are determined: no child number comes twice in a row, no row has two
  parents, no column is the child of two rows, and there are no regions of shared memory.
\<close>

definition links_unique :: "(nat \<Rightarrow> nat \<Rightarrow> int) \<Rightarrow> nat \<Rightarrow> bool" where
  "links_unique M n \<longleftrightarrow>
     (\<forall>x < n. \<forall>y < n. M x y \<le> 99) \<and>
     (\<forall>x < n. \<forall>y < n. \<forall>z < n. 0 < M x y \<and> M x y = M x z \<longrightarrow> y = z) \<and>
     (\<forall>x < n. \<forall>z < n. \<forall>y < n. 0 < M x y \<and> M x y \<le> 98 \<and> 0 < M z y \<and> M z y \<le> 98 \<longrightarrow> x = z)"

lemma links_uniqueD:
  assumes "links_unique M n" "x < n" "y < n"
  shows "M x y \<le> 99"
    and "z < n \<Longrightarrow> 0 < M x y \<Longrightarrow> M x z = M x y \<Longrightarrow> z = y"
    and "z < n \<Longrightarrow> 0 < M x y \<Longrightarrow> M x y \<le> 98 \<Longrightarrow> 0 < M z y \<Longrightarrow> M z y \<le> 98 \<Longrightarrow> z = x"
  using assms unfolding links_unique_def by (blast, metis, blast)

text \<open>The nodes after the rows \<open>R\<close> have got their arrays and the entries \<open>D\<close> have been read.\<close>

definition rows_ready :: "(nat \<Rightarrow> nat \<Rightarrow> int) \<Rightarrow> nat \<Rightarrow> nat set \<Rightarrow> smlt_topology_node list \<Rightarrow> bool" where
  "rows_ready M n R nodes \<longleftrightarrow>
     length nodes = n \<and>
     (\<forall>i < n. \<not> tn_is_leaf (nodes ! i) \<and> \<not> tn_use_shm (nodes ! i)) \<and>
     (\<forall>i \<in> R. i < n \<and> tn_node_id (nodes ! i) = of_nat i \<and>
        (\<exists>cs. tn_children (nodes ! i) = Some cs \<and> is_row_max M n i (int (length cs)) \<and>
              tn_num_children (nodes ! i) = of_nat (length cs)))"

definition links_read :: "(nat \<Rightarrow> nat \<Rightarrow> int) \<Rightarrow> (nat \<times> nat) set \<Rightarrow> smlt_topology_node list \<Rightarrow> bool" where
  "links_read M D nodes \<longleftrightarrow>
     (\<forall>(a, b) \<in> D. 0 < M a b \<and> M a b \<le> 98 \<longrightarrow>
        (\<exists>cs. tn_children (nodes ! a) = Some cs \<and> nat (M a b - 1) < length cs \<and> cs ! nat (M a b - 1) = Some b) \<and>
        tn_array_index (nodes ! b) = of_int (M a b - 1)) \<and>
     (\<forall>(a, b) \<in> D. M a b = 99 \<longrightarrow> tn_parent (nodes ! a) = Some b) \<and>
     (\<forall>a < length nodes. \<forall>p. tn_parent (nodes ! a) = Some p \<longrightarrow> (a, p) \<in> D \<and> M a p = 99)"

lemma links_read_cong:
  assumes "links_read M D nodes" "length nodes' = length nodes"
    and same: "\<And>i. tn_parent (nodes' ! i) = tn_parent (nodes ! i)" "\<And>i. tn_array_index (nodes' ! i) = tn_array_index (nodes ! i)"
    and children: "\<And>a b. (a, b) \<in> D \<Longrightarrow> tn_children (nodes' ! a) = tn_children (nodes ! a)"
  shows "links_read M D nodes'"
proof -
  have "links_read M D nodes' = links_read M D nodes"
    unfolding links_read_def same assms(2)
    by (intro arg_cong2[where f = "(\<and>)"] ball_cong refl) (clarsimp simp: children)
  then show ?thesis using assms(1) by simp
qed

definition parsed ::
  "(nat \<Rightarrow> nat \<Rightarrow> int) \<Rightarrow> nat \<Rightarrow> nat set \<Rightarrow> (nat \<times> nat) set \<Rightarrow> smlt_topology_node list \<Rightarrow> bool"
where
  "parsed M n R D nodes \<longleftrightarrow>
     rows_ready M n R nodes \<and> D \<subseteq> R \<times> {..<n} \<and> (\<forall>(a, b) \<in> D. entry_ok M a b) \<and>
     (links_unique M n \<longrightarrow> links_read M D nodes)"

lemma parsed_row:
  assumes "parsed M n R D nodes"
  shows "length nodes = n" "x \<in> R \<Longrightarrow> x < n"
    and "x \<in> R \<Longrightarrow> \<exists>cs. tn_children (nodes ! x) = Some cs \<and> is_row_max M n x (int (length cs)) \<and>
           tn_num_children (nodes ! x) = of_nat (length cs)"
  using assms unfolding parsed_def rows_ready_def by blast+

lemma row_max_bound:
  assumes "is_row_max M n x (int k)" "y < n" "0 < M x y" "M x y \<le> 98"
  shows "nat (M x y - 1) < k"
  using assms unfolding is_row_max_def by (smt (verit) nat_less_iff)

text \<open>Reading the entry in row \<open>x\<close> and column \<open>y\<close>.\<close>

lemma parsed_nothing:
  assumes "parsed M n R D nodes" "x \<in> R" "y < n" "M x y = 0"
  shows "parsed M n R (insert (x, y) D) nodes"
  using assms by (auto simp: parsed_def entry_ok_def links_read_def)

lemma parsed_parent:
  assumes p: "parsed M n R D nodes" and x: "x \<in> R" and y: "y < n" and ok: "entry_ok M x y" and M: "98 < M x y"
  shows "parsed M n R (insert (x, y) D) (nodes[x := (nodes ! x)\<lparr>tn_parent := Some y\<rparr>])"
proof -
  have xn: "x < n" "length nodes = n" using p x by (auto simp: parsed_def rows_ready_def)
  have "rows_ready M n R (nodes[x := (nodes ! x)\<lparr>tn_parent := Some y\<rparr>])"
    using p xn unfolding parsed_def rows_ready_def by (auto simp: nth_list_update)
  moreover have "links_read M (insert (x, y) D) (nodes[x := (nodes ! x)\<lparr>tn_parent := Some y\<rparr>])"
    if u: "links_unique M n"
  proof -
    have D: "D \<subseteq> R \<times> {..<n}" and l: "links_read M D nodes" using p u by (auto simp: parsed_def)
    have M99: "M x y = 99" using links_uniqueD(1)[OF u xn(1) y] M by simp
    have only: "b = y" if "(x, b) \<in> D" "M x b = 99" for b
      using links_uniqueD(2)[OF u xn(1) y, of b] that D M99 by auto
    show ?thesis
      using l M99 xn only y by (auto simp: links_read_def nth_list_update) 
  qed
  ultimately show ?thesis using p x y ok by (auto simp: parsed_def)
qed

lemma parsed_child:
  assumes p: "parsed M n R D nodes" and x: "x \<in> R" and y: "y < n" and M: "0 < M x y" "M x y \<le> 98"
    and cs: "tn_children (nodes ! x) = Some cs"
    and nodes1: "nodes1 = nodes[x := (nodes ! x)\<lparr>tn_topology := True, tn_children := Some (cs[nat (M x y - 1) := Some y]),
                                            tn_node_id := of_nat x\<rparr>]"
  shows "parsed M n R (insert (x, y) D) (nodes1[y := (nodes1 ! y)\<lparr>tn_array_index := of_int (M x y - 1)\<rparr>])"
proof -
  define nodes2 where "nodes2 = nodes1[y := (nodes1 ! y)\<lparr>tn_array_index := of_int (M x y - 1)\<rparr>]"
  have xn: "x < length nodes" "length nodes = n" using p x by (auto simp: parsed_def rows_ready_def)
  have rest: "tn_parent (nodes2 ! i) = tn_parent (nodes ! i)" "tn_is_leaf (nodes2 ! i) = tn_is_leaf (nodes ! i)"
    "tn_use_shm (nodes2 ! i) = tn_use_shm (nodes ! i)" "tn_num_children (nodes2 ! i) = tn_num_children (nodes ! i)"
    "tn_children (nodes2 ! i) = (if i = x then Some (cs[nat (M x y - 1) := Some y]) else tn_children (nodes ! i))"
    "tn_node_id (nodes2 ! i) = (if i = x then of_nat x else tn_node_id (nodes ! i))"
    "tn_array_index (nodes2 ! i) = (if i = y then of_int (M x y - 1) else tn_array_index (nodes ! i))" for i
    using xn y by (simp_all add: nodes2_def nodes1 nth_list_update)
  have len: "length nodes2 = n" using xn by (simp add: nodes2_def nodes1)
  have ready: "rows_ready M n R nodes" and D: "D \<subseteq> R \<times> {..<n}" using p by (simp_all add: parsed_def)
  then have k: "is_row_max M n x (int (length cs))" using x cs by (auto simp: rows_ready_def)
  have "rows_ready M n R nodes2"
    using ready cs len unfolding rows_ready_def by (auto simp: rest)
  moreover have "links_read M (insert (x, y) D) nodes2" if u: "links_unique M n"
  proof -
    have l: "links_read M D nodes" using p u by (simp add: parsed_def)
    have row: "b = y" if "(x, b) \<in> D" "M x b = M x y" for b
      using links_uniqueD(2)[OF u _ y, of x b] that D xn M(1) by auto
    have col: "a = x" if "(a, y) \<in> D" "0 < M a y" "M a y \<le> 98" for a
      using links_uniqueD(3)[OF u _ y, of x a] that D xn M ready by (auto simp: rows_ready_def)
    have other: "nat (M x b - 1) \<noteq> nat (M x y - 1)" if "(x, b) \<in> D" "b \<noteq> y" "0 < M x b" for b
      using row[of b] that M(1) by (auto simp: eq_nat_nat_iff)
    have b: "nat (M x y - 1) < length cs" using row_max_bound[OF k y M] .
    show ?thesis
      unfolding links_read_def
    proof (intro conjI)
      show "\<forall>(a, b) \<in> insert (x, y) D. 0 < M a b \<and> M a b \<le> 98 \<longrightarrow>
        (\<exists>cs. tn_children (nodes2 ! a) = Some cs \<and> nat (M a b - 1) < length cs \<and> cs ! nat (M a b - 1) = Some b) \<and>
        tn_array_index (nodes2 ! b) = of_int (M a b - 1)"
        using l b cs col other unfolding links_read_def by (fastforce simp: rest nth_list_update)
    qed (use l M len xn in \<open>auto simp: links_read_def rest\<close>)
  qed
  ultimately show ?thesis
    unfolding nodes2_def[symmetric] using p x y M by (auto simp: parsed_def entry_ok_def)
qed

lemma post_set_model_step:
  assumes g: "model_shape g" "n = unat (gm_len g)" "M = entry g"
    and p: "parsed M n R D nodes" and x: "x \<in> R" and y: "y < n"
    and E: "entry_ok M x y \<or> E Assertion \<and> E Panic"
  shows "post E (set_model_step g x y nodes) (parsed M n R (insert (x, y) D))"
proof -
  have xn: "x < n" "length nodes = n" using p x by (auto simp: parsed_def rows_ready_def)
  have at: "model_at g x y = Inr (M x y)" "model_at g y x = Inr (M y x)"
    using model_at_entry g xn y by simp_all
  obtain cs where cs: "tn_children (nodes ! x) = Some cs" "is_row_max M n x (int (length cs))"
    using p x by (auto simp: parsed_def rows_ready_def)
  have pos: "0 \<le> M x y" using g(3) entry_nonneg by simp
  consider "M x y = 0" | "0 < M x y \<and> M x y \<le> 98" | "entry_ok M x y" "98 < M x y" | "\<not> entry_ok M x y" "98 < M x y"
    using pos by linarith
  then show ?thesis
  proof cases
    case 1
    then show ?thesis using parsed_nothing[OF p x y] by (simp add: set_model_step_def at)
  next
    case 2
    then have "nat (M x y - 1) < length cs" using row_max_bound[OF cs(2) y] by blast
    then show ?thesis
      using parsed_child[OF p x y _ _ cs(1) refl] 2 xn y cs(1)
      by (simp add: set_model_step_def at topo_matrix_defs Let_def)
  next
    case 3
    then show ?thesis
      using parsed_parent[OF p x y] xn
      by (auto simp: set_model_step_def at topo_matrix_defs entry_ok_def)
  next
    case 4
    then show ?thesis
      using E xn by (auto simp: set_model_step_def at topo_matrix_defs entry_ok_def)
  qed
qed

section \<open>Rows\<close>

lemma parsed_new_row:
  assumes p: "parsed M n {..<x} ({..<x} \<times> {..<n}) nodes" and x: "x < n" and k: "is_row_max M n x k"
  shows "parsed M n {..<Suc x} ({..<x} \<times> {..<n})
     (nodes[x := (nodes ! x)\<lparr>tn_node_id := of_nat x, tn_children := Some (replicate (nat k) None),
                            tn_num_children := of_int k, tn_children_shm := c, tn_num_children_shm := d\<rparr>])"
    (is "parsed _ _ _ _ ?nodes")
proof -
  define nodes' where "nodes' = ?nodes"
  have len: "length nodes = n" "0 \<le> k" using parsed_row(1)[OF p] k by (auto simp: is_row_max_def)
  then have same: "tn_parent (nodes' ! i) = tn_parent (nodes ! i)" "tn_array_index (nodes' ! i) = tn_array_index (nodes ! i)"
    "tn_is_leaf (nodes' ! i) = tn_is_leaf (nodes ! i)" "tn_use_shm (nodes' ! i) = tn_use_shm (nodes ! i)"
    and other: "i < x \<Longrightarrow> nodes' ! i = nodes ! i" for i
    using x by (simp_all add: nodes'_def nth_list_update)
  have new: "tn_children (nodes' ! x) = Some (replicate (nat k) None)" "tn_node_id (nodes' ! x) = of_nat x"
    "tn_num_children (nodes' ! x) = of_nat (nat k)" "length nodes' = n"
    using x len by (simp_all add: nodes'_def of_nat_nat)
  have "rows_ready M n {..<Suc x} nodes'"
    using p k x len(2) unfolding parsed_def rows_ready_def
    by (auto simp: less_Suc_eq same other new)
  moreover have "links_read M ({..<x} \<times> {..<n}) nodes'" if "links_unique M n"
  proof -
    have "links_read M ({..<x} \<times> {..<n}) nodes" using p that by (simp add: parsed_def)
    then show ?thesis by (rule links_read_cong) (simp_all add: same new len other)
  qed
  ultimately show ?thesis using p unfolding nodes'_def[symmetric] by (auto simp: parsed_def)
qed

lemma parsed_same_num_children:
  assumes "parsed M n R D nodes" "x \<in> R" "is_row_max M n x k"
  shows "nodes[x := (nodes ! x)\<lparr>tn_num_children := of_int k\<rparr>] = nodes"
proof -
  obtain cs where "tn_children (nodes ! x) = Some cs" "is_row_max M n x (int (length cs))"
    "tn_num_children (nodes ! x) = of_nat (length cs)"
    using parsed_row(3)[OF assms(1,2)] by blast
  moreover have "k = j" if "is_row_max M n x j" for j
    using that assms(3) unfolding is_row_max_def by (smt (verit, best))
  ultimately have "of_int k = tn_num_children (nodes ! x)" by fastforce
  then show ?thesis by simp
qed

lemma post_parse_row:
  assumes g: "model_shape g" "n = unat (gm_len g)" "M = entry g"
    and alloc: "alloc_succeeds nl \<or> E Assertion"
    and p: "parsed M n {..<x} ({..<x} \<times> {..<n}) nodes" and x: "x < n"
    and E: "(\<forall>y < n. entry_ok M x y) \<or> E Assertion \<and> E Panic"
  shows "post E (parse_row nl g x (nodes, w)) (\<lambda>(nodes', w'). parsed M n {..<Suc x} ({..<Suc x} \<times> {..<n}) nodes')"
proof -
  have len: "length nodes = n" using p by (simp add: parsed_def rows_ready_def)
  have entries: "post E (for_run (set_model_step g x) 0 n nodes1) (parsed M n {..<Suc x} ({..<Suc x} \<times> {..<n}))"
    if "parsed M n {..<Suc x} ({..<x} \<times> {..<n}) nodes1" for nodes1
  proof -
    have ins: "insert (x, j) ({..<x} \<times> {..<n} \<union> {x} \<times> {..<j}) = {..<x} \<times> {..<n} \<union> {x} \<times> {..<Suc j}" for j
      by auto
    have "post E (for_run (set_model_step g x) 0 n nodes1) (parsed M n {..<Suc x} ({..<x} \<times> {..<n} \<union> {x} \<times> {..<n}))"
      using that E
      by (intro post_for0[where I = "\<lambda>y. parsed M n {..<Suc x} ({..<x} \<times> {..<n} \<union> {x} \<times> {..<y})"])
        (auto simp flip: ins intro!: post_set_model_step[OF g])
    moreover have "{..<x} \<times> {..<n} \<union> {x} \<times> {..<n} = {..<Suc x} \<times> {..<n}" by auto
    ultimately show ?thesis by simp
  qed
  show ?thesis
    unfolding parse_row_def Let_def case_prod_conv post_bind g(2)[symmetric]
    apply (rule post_weaken[OF post_max_child[OF g(1), of x, folded g(2,3), OF x]])
    apply (simp add: len x)
    apply (rule post_alloc[where E = E, OF alloc], simp)
    apply clarsimp
    apply (rule post_weaken[OF post_shm_children[OF g(1), of x, folded g(2,3), OF x]])
    apply (rule post_alloc[where E = E, OF alloc], simp)
    apply clarsimp
    apply (rule post_weaken[OF entries])
    apply (rule parsed_new_row[OF p x])
    apply assumption
    apply (frule parsed_row(1))
    apply (simp add: x parsed_same_num_children)
    done
qed

section \<open>Leaves\<close>

text \<open>The nodes \<open>ns\<close> are the nodes \<open>nodes\<close> but for the marks, and those are on the leaves \<open>L\<close>.\<close>

definition marked :: "(nat \<Rightarrow> bool) \<Rightarrow> smlt_topology_node list \<Rightarrow> smlt_topology_node list \<Rightarrow> bool" where
  "marked L nodes ns \<longleftrightarrow>
     length ns = length nodes \<and> (\<forall>a. ns ! a = (nodes ! a)\<lparr>tn_is_leaf := tn_is_leaf (ns ! a)\<rparr>) \<and>
     (\<forall>a < length nodes. tn_is_leaf (ns ! a) \<longleftrightarrow> tn_is_leaf (nodes ! a) \<or> L a)"

lemma marked_update:
  assumes "marked L nodes ns" "i < length nodes" "\<And>a. a < length nodes \<Longrightarrow> L' a \<longleftrightarrow> L a \<or> a = i"
  shows "marked L' nodes (ns[i := (ns ! i)\<lparr>tn_is_leaf := True\<rparr>])"
proof -
  have len: "i < length ns" "length ns = length nodes"
    and same: "\<And>a. ns ! a = (nodes ! a)\<lparr>tn_is_leaf := tn_is_leaf (ns ! a)\<rparr>"
    using assms(1,2) by (auto simp: marked_def)
  have "(ns[i := (ns ! i)\<lparr>tn_is_leaf := True\<rparr>]) ! a =
      (nodes ! a)\<lparr>tn_is_leaf := tn_is_leaf ((ns[i := (ns ! i)\<lparr>tn_is_leaf := True\<rparr>]) ! a)\<rparr>" for a
    using same[of a] len by (cases "a = i") (metis (no_types, lifting) nth_list_update_eq smlt_topology_node.surjective
        smlt_topology_node.update_convs(7) smlt_topology_node.select_convs(7), simp)
  then show ?thesis
    using assms len by (auto simp: marked_def nth_list_update)
qed

lemma post_leaves:
  assumes "model_shape g" "n = unat (gm_len g)" "length nodes = n"
  shows "post E (for_run (\<lambda>i. for_run (leaf_step g i) 0 (unat (gm_num_leafs g))) 0 n nodes)
           (marked (\<lambda>a. a \<noteq> 0 \<and> of_nat a \<in> set (gm_leafs g)) nodes)"
proof -
  define L where "L = (\<lambda>i j a. a \<noteq> 0 \<and> (a < i \<and> of_nat a \<in> set (gm_leafs g) \<or> a = i \<and> of_nat a \<in> set (take j (gm_leafs g))))"
  have len: "length (gm_leafs g) = unat (gm_num_leafs g)" using assms(1) by (simp add: model_shape_def)
  have step: "post E (leaf_step g i j ns) (marked (L i (Suc j)) nodes)"
    if "i < n" "j < unat (gm_num_leafs g)" "marked (L i j) nodes ns" for i j ns
  proof (cases "gm_leafs g ! j = of_nat i \<and> i \<noteq> 0")
    case True
    then have "L i (Suc j) a \<longleftrightarrow> L i j a \<or> a = i" for a
      using that(2) len by (auto simp: L_def take_Suc_conv_app_nth)
    then have "marked (L i (Suc j)) nodes (ns[i := (ns ! i)\<lparr>tn_is_leaf := True\<rparr>])"
      using marked_update[OF that(3), of i "L i (Suc j)"] that(1) assms(3) by simp
    then show ?thesis using True that assms(3) len by (simp add: leaf_step_def marked_def)
  next
    case False
    then have "L i (Suc j) = L i j" using that(2) len by (auto simp: L_def take_Suc_conv_app_nth fun_eq_iff)
    then show ?thesis using False that len by (auto simp: leaf_step_def)
  qed
  have inner: "post E (for_run (leaf_step g i) 0 (unat (gm_num_leafs g)) ns) (marked (L (Suc i) 0) nodes)"
    if "i < n" "marked (L i 0) nodes ns" for i ns
  proof -
    have "L i (unat (gm_num_leafs g)) = L (Suc i) 0" by (auto simp: L_def less_Suc_eq fun_eq_iff simp flip: len)
    then show ?thesis
      using post_for0[of "\<lambda>j. marked (L i j) nodes" ns "unat (gm_num_leafs g)" E "leaf_step g i"] step that by simp
  qed
  have "marked (L 0 0) nodes nodes" by (simp add: marked_def L_def)
  then have "post E (for_run (\<lambda>i. for_run (leaf_step g i) 0 (unat (gm_num_leafs g))) 0 n nodes) (marked (L n 0) nodes)"
    by (rule post_for0[where I = "\<lambda>i. marked (L i 0) nodes"]) (rule inner)
  then show ?thesis
    by (rule post_weaken) (auto simp: marked_def L_def assms(3))
qed

section \<open>The parser\<close>

abbreviation (input) all_entries :: "nat \<Rightarrow> (nat \<times> nat) set" where
  "all_entries n \<equiv> {..<n} \<times> {..<n}"

lemma parsed_initial: "parsed M n {} {} (replicate n topology_node_zero)"
  by (auto simp: parsed_def rows_ready_def links_read_def topology_node_zero_def)

lemma post_parse_model:
  assumes g: "model_shape g" "n = unat (gm_len g)" "M = entry g"
    and alloc: "alloc_succeeds nl \<or> E Assertion"
    and t: "tp_all_nodes t = replicate n topology_node_zero"
    and E: "(\<forall>x < n. \<forall>y < n. entry_ok M x y) \<or> E Assertion \<and> E Panic"
  shows "post E (smlt_topology_parse_model nl g (t, w))
    (\<lambda>(t', w'). tp_root t' = Some (unat (gm_root g)) \<and>
       (\<exists>nodes. parsed M n {..<n} (all_entries n) nodes \<and>
                marked (\<lambda>a. a \<noteq> 0 \<and> of_nat a \<in> set (gm_leafs g)) nodes (tp_all_nodes t')))"
proof -
  have root: "unat (gm_root g) < n" using g(1,2) by (simp add: model_shape_def word_less_nat_alt)
  then have same: "(tp_all_nodes t)[unat (gm_root g) := (tp_all_nodes t ! unat (gm_root g))\<lparr>tn_parent := None\<rparr>] = tp_all_nodes t"
    by (simp add: t topology_node_zero_def list_update_same_conv)
  have len: "length (tp_all_nodes t) = n" by (simp add: t)
  have rows: "post E (for_run (parse_row nl g) 0 n (tp_all_nodes t, w))
      (\<lambda>(nodes, w'). parsed M n {..<n} (all_entries n) nodes)"
    by (rule post_for0[where I = "\<lambda>x (nodes, w). parsed M n {..<x} ({..<x} \<times> {..<n}) nodes"])
      (use parsed_initial E in \<open>auto simp: t intro!: post_parse_row[where E = E, OF g alloc]\<close>)
  show ?thesis
    unfolding smlt_topology_parse_model_def Let_def case_prod_conv post_bind g(2)[symmetric]
    apply (simp add: root len same)
    apply (rule post_weaken[OF rows], clarsimp)
    apply (rule post_weaken[OF post_leaves[OF g(1,2)]])
     apply (auto dest: parsed_row(1))
    done
qed

text \<open>The matrix of a tree with the root \<open>r\<close>.\<close>

definition tree_matrix :: "(nat \<Rightarrow> nat \<Rightarrow> int) \<Rightarrow> nat \<Rightarrow> nat \<Rightarrow> bool" where
  "tree_matrix M n r \<longleftrightarrow>
     (\<forall>x < n. \<forall>y < n. 0 \<le> M x y \<and> M x y \<le> 99 \<and> M x y \<noteq> 98) \<and>
     (\<forall>x < n. \<forall>y < n. M x y = 99 \<longleftrightarrow> 0 < M y x \<and> M y x \<le> 97) \<and>
     (\<forall>x < n. \<forall>y < n. \<forall>z < n. 0 < M x y \<and> M x y = M x z \<longrightarrow> y = z) \<and>
     (\<forall>x < n. \<forall>y < n. M x y \<le> 97 \<longrightarrow> (\<forall>v. 0 < v \<and> v \<le> M x y \<longrightarrow> (\<exists>z < n. M x z = v))) \<and>
     r < n \<and> (\<forall>y < n. M r y \<noteq> 99) \<and>
     (\<forall>x < n. (x, r) \<in> {(a, b). a < n \<and> b < n \<and> M a b = 99}\<^sup>*)"

lemma tree_matrixD:
  assumes "tree_matrix M n r" "x < n" "y < n"
  shows "0 \<le> M x y" "M x y \<le> 99" "M x y \<noteq> 98"
    and "M x y = 99 \<longleftrightarrow> 0 < M y x \<and> M y x \<le> 97"
    and "z < n \<Longrightarrow> 0 < M x y \<Longrightarrow> M x y = M x z \<Longrightarrow> y = z"
    and "M x y \<le> 97 \<Longrightarrow> 0 < v \<Longrightarrow> v \<le> M x y \<Longrightarrow> \<exists>z < n. M x z = v"
proof -
  from assms(1) have range: "\<forall>x < n. \<forall>y < n. 0 \<le> M x y \<and> M x y \<le> 99 \<and> M x y \<noteq> 98"
    and sym: "\<forall>x < n. \<forall>y < n. M x y = 99 \<longleftrightarrow> 0 < M y x \<and> M y x \<le> 97"
    and uniq: "\<forall>x < n. \<forall>y < n. \<forall>z < n. 0 < M x y \<and> M x y = M x z \<longrightarrow> y = z"
    and gaps: "\<forall>x < n. \<forall>y < n. M x y \<le> 97 \<longrightarrow> (\<forall>v. 0 < v \<and> v \<le> M x y \<longrightarrow> (\<exists>z < n. M x z = v))"
    unfolding tree_matrix_def by - (elim conjE, assumption)+
  show "0 \<le> M x y" "M x y \<le> 99" "M x y \<noteq> 98" using range assms(2,3) by auto
  show "M x y = 99 \<longleftrightarrow> 0 < M y x \<and> M y x \<le> 97" using sym assms(2,3) by blast
  show "z < n \<Longrightarrow> 0 < M x y \<Longrightarrow> M x y = M x z \<Longrightarrow> y = z" using uniq assms(2,3) by blast
  show "M x y \<le> 97 \<Longrightarrow> 0 < v \<Longrightarrow> v \<le> M x y \<Longrightarrow> \<exists>z < n. M x z = v" using gaps assms(2,3) by blast
qed

lemma tree_matrix_ok:
  assumes "tree_matrix M n r"
  shows "x < n \<Longrightarrow> y < n \<Longrightarrow> entry_ok M x y" "links_unique M n"
proof -
  note d = tree_matrixD[OF assms]
  show "entry_ok M x y" if "x < n" "y < n" using d(1-4)[OF that] by (auto simp: entry_ok_def)
  show "links_unique M n"
    unfolding links_unique_def
  proof (intro conjI allI impI)
    fix x z y
    assume "x < n" "z < n" "y < n" and c: "0 < M x y \<and> M x y \<le> 98 \<and> 0 < M z y \<and> M z y \<le> 98"
    then have "M y x = 99" "M y z = 99" using d(3,4)[of x y] d(4)[of y x] d(3,4)[of z y] d(4)[of y z] by force+
    then show "x = z" using d(5)[of y x z] \<open>x < n\<close> \<open>z < n\<close> \<open>y < n\<close> by simp
  next
    fix x y z
    assume "x < n" "y < n" "z < n" "0 < M x y \<and> M x y = M x z"
    then show "y = z" using d(5) by blast
  qed (rule d(2))
qed

text \<open>The links that a parsed topology has, when the matrix is that of a tree.\<close>

lemma marked_fields:
  assumes "marked L nodes (tp_all_nodes t)"
  shows "tn_parent (node_at t a) = tn_parent (nodes ! a)" "tn_array_index (node_at t a) = tn_array_index (nodes ! a)"
    "tn_children (node_at t a) = tn_children (nodes ! a)" "tn_node_id (node_at t a) = tn_node_id (nodes ! a)"
    "tn_num_children (node_at t a) = tn_num_children (nodes ! a)"
proof -
  have same: "node_at t a = (nodes ! a)\<lparr>tn_is_leaf := tn_is_leaf (node_at t a)\<rparr>"
    using assms unfolding marked_def by blast
  show "tn_parent (node_at t a) = tn_parent (nodes ! a)" "tn_array_index (node_at t a) = tn_array_index (nodes ! a)"
    "tn_children (node_at t a) = tn_children (nodes ! a)" "tn_node_id (node_at t a) = tn_node_id (nodes ! a)"
    "tn_num_children (node_at t a) = tn_num_children (nodes ! a)"
    by (subst same, simp)+
qed

lemma parsed_link_down:
  assumes "tree_matrix M n r" "parsed M n {..<n} (all_entries n) nodes" "a < n" "b < n" "0 < M a b" "M a b \<le> 98"
  shows "\<exists>cs. tn_children (nodes ! a) = Some cs \<and> nat (M a b - 1) < length cs \<and> cs ! nat (M a b - 1) = Some b"
    "tn_array_index (nodes ! b) = of_int (M a b - 1)"
proof -
  have "links_read M (all_entries n) nodes" using assms(2) tree_matrix_ok(2)[OF assms(1)] by (simp add: parsed_def)
  then have "(\<exists>cs. tn_children (nodes ! a) = Some cs \<and> nat (M a b - 1) < length cs \<and> cs ! nat (M a b - 1) = Some b) \<and>
      tn_array_index (nodes ! b) = of_int (M a b - 1)" using assms(3-6) unfolding links_read_def by fast
  then show "\<exists>cs. tn_children (nodes ! a) = Some cs \<and> nat (M a b - 1) < length cs \<and> cs ! nat (M a b - 1) = Some b"
    "tn_array_index (nodes ! b) = of_int (M a b - 1)" by blast+
qed

lemma parsed_links_up:
  assumes T: "tree_matrix M n r" and p: "parsed M n {..<n} (all_entries n) nodes" and m: "marked L nodes (tp_all_nodes t)"
  shows "topo_nodes t = n"
    and "x < n \<Longrightarrow> tn_node_id (node_at t x) = of_nat x"
    and "x < n \<Longrightarrow> tn_parent (node_at t x) = Some y \<longleftrightarrow> y < n \<and> M x y = 99"
    and "x < n \<Longrightarrow> y < n \<Longrightarrow> 0 < M x y \<Longrightarrow> M x y \<le> 97 \<Longrightarrow> unat (tn_array_index (node_at t y)) = nat (M x y - 1)"
proof -
  note fields = marked_fields[OF m]
  have len: "length nodes = n" "length (tp_all_nodes t) = n" using parsed_row(1)[OF p] m by (simp_all add: marked_def)
  show "topo_nodes t = n" by (simp add: topo_nodes_def len)
  show "x < n \<Longrightarrow> tn_node_id (node_at t x) = of_nat x" using p by (simp add: fields parsed_def rows_ready_def)
  have "links_read M (all_entries n) nodes" using p tree_matrix_ok(2)[OF T] by (simp add: parsed_def)
  then have up: "\<And>a b. a < n \<Longrightarrow> b < n \<Longrightarrow> M a b = 99 \<Longrightarrow> tn_parent (nodes ! a) = Some b"
    "\<And>a b. a < n \<Longrightarrow> tn_parent (nodes ! a) = Some b \<Longrightarrow> b < n \<and> M a b = 99"
    unfolding links_read_def len by fast+
  show "x < n \<Longrightarrow> tn_parent (node_at t x) = Some y \<longleftrightarrow> y < n \<and> M x y = 99" using up[of x y] by (auto simp: fields)
  show "unat (tn_array_index (node_at t y)) = nat (M x y - 1)" if "x < n" "y < n" "0 < M x y" "M x y \<le> 97"
  proof -
    have "tn_array_index (node_at t y) = of_nat (nat (M x y - 1))"
      using parsed_link_down(2)[OF T p that(1-3)] that(3,4) by (simp add: fields of_nat_nat)
    moreover have "unat (of_nat (nat (M x y - 1)) :: u32) = nat (M x y - 1)"
      by (rule unat_of_nat_small) (use that(4) in simp)
    ultimately show ?thesis by simp
  qed
qed

lemma parsed_links_down:
  assumes T: "tree_matrix M n r" and p: "parsed M n {..<n} (all_entries n) nodes" and m: "marked L nodes (tp_all_nodes t)"
    and x: "x < n"
  shows "child_at t x c = Some y \<longleftrightarrow> y < n \<and> M x y = int c + 1 \<and> int c + 1 \<le> 97"
    and "c < unat (tn_num_children (node_at t x)) \<Longrightarrow> \<exists>y. child_at t x c = Some y"
proof -
  note d = tree_matrixD[OF T] and fields = marked_fields[OF m]
  obtain cs where cs: "tn_children (nodes ! x) = Some cs" "is_row_max M n x (int (length cs))"
    "tn_num_children (nodes ! x) = of_nat (length cs)"
    using parsed_row(3)[OF p] x by blast
  have small: "length cs \<le> 97"
    using cs(2) d(3)[OF x] unfolding is_row_max_def by fastforce
  then have num: "unat (tn_num_children (node_at t x)) = length cs"
    unfolding fields cs(3) by (intro unat_of_nat_small) simp
  have at: "child_at t x c = (if c < length cs then cs ! c else None)" for c
    using num by (simp add: child_at_def fields cs(1))
  have child: "child_at t x (nat (M x y - 1)) = Some y" if "y < n" "0 < M x y" "M x y \<le> 97" for y
    using parsed_link_down(1)[OF T p x that(1,2)] that(3) cs(1) by (auto simp: at)
  have some: "\<exists>y < n. M x y = int c + 1" if lt: "c < length cs" for c
  proof -
    obtain y where "y < n" "M x y = int (length cs)" using cs(2) lt by (fastforce simp: is_row_max_def)
    then show ?thesis using d(6)[OF x, of y "int c + 1"] small lt by simp
  qed
  show "child_at t x c = Some y \<longleftrightarrow> y < n \<and> M x y = int c + 1 \<and> int c + 1 \<le> 97"
  proof
    assume c: "child_at t x c = Some y"
    then have "c < length cs" by (simp add: at split: if_splits)
    then obtain z where "z < n" "M x z = int c + 1" using some by blast
    then show "y < n \<and> M x y = int c + 1 \<and> int c + 1 \<le> 97"
      using child[of z] c small \<open>c < length cs\<close> by simp
  next
    assume "y < n \<and> M x y = int c + 1 \<and> int c + 1 \<le> 97"
    then show "child_at t x c = Some y" using child[of y] by simp
  qed
  show "\<exists>y. child_at t x c = Some y" if "c < unat (tn_num_children (node_at t x))"
    using some[of c] that child num small by fastforce
qed

lemmas parsed_links = parsed_links_up(1-3) parsed_links_down parsed_links_up(4)

lemma tree_matrix_ancestor:
  assumes "(x, r) \<in> {(a, b). a < n \<and> b < n \<and> M a b = 99}\<^sup>*"
    and "\<And>a b. a < n \<Longrightarrow> b < n \<Longrightarrow> M a b = 99 \<Longrightarrow> tn_parent (node_at t a) = Some b"
  shows "\<exists>k. ancestor t k x = Some r"
  using assms(1)
proof (induction rule: converse_rtrancl_induct)
  case base
  show ?case by (rule exI[of _ 0]) simp
next
  case (step y z)
  then obtain k where "ancestor t k z = Some r" by blast
  then have "ancestor t (Suc k) y = Some r" using assms(2)[of y z] step.hyps(1) by simp
  then show ?case by blast
qed

lemma parsed_topo_wf:
  assumes T: "tree_matrix M n r" and p: "parsed M n {..<n} (all_entries n) nodes"
    and m: "marked L nodes (tp_all_nodes t)" and t: "tp_root t = Some r" "unat (tp_num_nodes t) = n"
  shows "topo_wf t"
proof -
  note d = tree_matrixD[OF T] and l = parsed_links[OF T p m]
  have r: "r < n" "\<forall>y < n. M r y \<noteq> 99"
    "\<forall>x < n. (x, r) \<in> {(a, b). a < n \<and> b < n \<and> M a b = 99}\<^sup>*"
    using T unfolding tree_matrix_def by - (elim conjE, assumption)+
  have "topo_links t"
    unfolding topo_links_def l(1)
  proof (intro conjI allI impI)
    show "unat (tp_num_nodes t) = n" by (rule t(2))
    show "tn_node_id (node_at t i) = of_nat i" if "i < n" for i using l(2) that .
    fix p c
    assume pc: "p < n" "c < unat (tn_num_children (node_at t p))"
    then obtain i where i: "child_at t p c = Some i" using l(5) by blast
    then have M: "i < n" "M p i = int c + 1" "int c + 1 \<le> 97" using l(4)[OF pc(1)] by blast+
    then have "M i p = 99" using d(4)[of i p] pc(1) by simp
    then show "\<exists>i < n. child_at t p c = Some i \<and> tn_parent (node_at t i) = Some p \<and>
                unat (tn_array_index (node_at t i)) = c"
      using i M l(3)[of i p] l(6)[of p i] pc(1) by (intro exI[of _ i]) simp
  next
    fix i p
    assume "i < n" and "tn_parent (node_at t i) = Some p"
    then have M: "p < n" "M i p = 99" using l(3) by blast+
    show "p < n" by (rule M(1))
    have "0 < M p i" "M p i \<le> 97" using d(4)[of i p] \<open>i < n\<close> M by simp_all
    then show "child_at t p (unat (tn_array_index (node_at t i))) = Some i"
      using l(4)[OF M(1)] l(6)[of p i] M(1) \<open>i < n\<close> by simp
  qed
  moreover have "topo_rooted t"
    unfolding topo_rooted_def l(1)
  proof (rule exI[of _ r], intro conjI allI impI)
    show "r < n" "tp_root t = Some r" by (rule r t)+
    show "tn_parent (node_at t r) = None" using l(3)[OF r(1)] r(2) by (cases "tn_parent (node_at t r)") blast+
    show "\<exists>k. ancestor t k i = Some r" if "i < n" for i
      using tree_matrix_ancestor[of i r n M t] r(3) that l(3) by blast
  qed
  ultimately show ?thesis by (simp add: topo_wf_def)
qed

lemma post_create_model:
  assumes g: "model_shape g" "n = unat (gm_len g)" and alloc: "alloc_succeeds nl \<or> E Assertion"
    and E: "(\<forall>x < n. \<forall>y < n. entry_ok (entry g) x y) \<or> E Assertion \<and> E Panic"
  shows "post E (smlt_topology_create nl num_proc (Some g) name w)
    (\<lambda>(err, t, w'). err = errval SMLT_SUCCESS \<and> tp_root t = Some (unat (gm_root g)) \<and> tp_num_nodes t = gm_len g \<and>
       (\<exists>nodes. parsed (entry g) n {..<n} (all_entries n) nodes \<and>
                marked (\<lambda>a. a \<noteq> 0 \<and> of_nat a \<in> set (gm_leafs g)) nodes (tp_all_nodes t)))"
  unfolding smlt_topology_create_def Let_def option.case post_bind
  apply (rule post_alloc[where E = E, OF alloc], simp)
  apply (clarsimp simp del: lessThan_iff)
  apply (rule post_weaken[OF post_parse_model[where E = E, OF g refl alloc _ E]])
   apply (auto simp: topology_zero_def g(2))
  done

text \<open>
  Claim C14: from a model whose matrix encodes a tree, \<open>smlt_topology_create\<close> makes the well-formed
  topology with the links of the matrix: the parent of \<open>x\<close> is the column that has the number of the
  parent, and the child \<open>c\<close> of \<open>x\<close> is the column that has the number \<open>c + 1\<close>.
\<close>

theorem parse_model_wf:
  assumes "alloc_succeeds nl" "model_shape g" "n = unat (gm_len g)"
    and "tree_matrix (entry g) n (unat (gm_root g))"
  shows "\<exists>t w'. smlt_topology_create nl num_proc (Some g) name w = Inr (errval SMLT_SUCCESS, t, w') \<and>
           topo_wf t \<and> topo_nodes t = n \<and>
           (\<forall>x < n. \<forall>y < n. tn_parent (node_at t x) = Some y \<longleftrightarrow> entry g x y = TOPO_MATRIX_PARENT) \<and>
           (\<forall>x < n. \<forall>y < n. \<forall>c < 97. child_at t x c = Some y \<longleftrightarrow> entry g x y = int c + 1)"
proof -
  have "\<exists>r. smlt_topology_create nl num_proc (Some g) name w = Inr r \<and>
    (case r of (err, t, w') \<Rightarrow> err = errval SMLT_SUCCESS \<and> tp_root t = Some (unat (gm_root g)) \<and>
       tp_num_nodes t = gm_len g \<and>
       (\<exists>nodes. parsed (entry g) n {..<n} (all_entries n) nodes \<and>
                marked (\<lambda>a. a \<noteq> 0 \<and> of_nat a \<in> set (gm_leafs g)) nodes (tp_all_nodes t)))"
    unfolding post_total[symmetric]
    by (rule post_create_model[OF assms(2,3)]) (use assms(1) tree_matrix_ok(1)[OF assms(4)] in blast)+
  then obtain t w' nodes where c: "smlt_topology_create nl num_proc (Some g) name w = Inr (errval SMLT_SUCCESS, t, w')"
    and t: "tp_root t = Some (unat (gm_root g))" "tp_num_nodes t = gm_len g"
    and p: "parsed (entry g) n {..<n} (all_entries n) nodes"
    and m: "marked (\<lambda>a. a \<noteq> 0 \<and> of_nat a \<in> set (gm_leafs g)) nodes (tp_all_nodes t)"
    by fast
  have "topo_wf t" using parsed_topo_wf[OF assms(4) p m t(1)] t(2) assms(3) by simp
  moreover note l = parsed_links[OF assms(4) p m]
  ultimately show ?thesis
    using c l(1,3,4) by (intro exI[of _ t] exI[of _ w']) (simp add: TOPO_MATRIX_PARENT_def)
qed

text \<open>A model of three nodes: node 2 is the root, its children are the nodes 0 and 1.\<close>

definition model3 :: smlt_generated_model where
  "model3 = \<lparr>gm_ncores = 3, gm_len = 3, gm_root = 2,
     gm_model = [0, 0, 99,
                 0, 0, 99,
                 1, 2, 0], gm_num_leafs = 2, gm_leafs = [0, 1]\<rparr>"

lemma model3_shape: "model_shape model3"
  by (simp add: model_shape_def model3_def)

lemma entry_model3:
  "entry model3 0 0 = 0" "entry model3 0 (Suc 0) = 0" "entry model3 0 2 = 99"
  "entry model3 (Suc 0) 0 = 0" "entry model3 (Suc 0) (Suc 0) = 0" "entry model3 (Suc 0) 2 = 99"
  "entry model3 2 0 = 1" "entry model3 2 (Suc 0) = 2" "entry model3 2 2 = 0"
  by (simp_all add: entry_def model3_def)

lemma less_3_iff: "x < 3 \<longleftrightarrow> x = 0 \<or> x = Suc 0 \<or> x = (2 :: nat)"
  by auto

lemma model3_tree: "tree_matrix (entry model3) 3 2"
proof -
  have "(x, 2) \<in> {(a, b). a < 3 \<and> b < 3 \<and> entry model3 a b = 99}\<^sup>*" if "x < 3" for x
    using that by (auto simp: less_3_iff entry_model3 intro: r_into_rtrancl)
  moreover have "\<exists>z < 3. entry model3 x z = v" if "x < 3" "y < 3" "entry model3 x y \<le> 97" "0 < v" "v \<le> entry model3 x y" for x y v
  proof -
    have "x = 2 \<and> (v = 1 \<or> v = 2)" using that by (auto simp: less_3_iff entry_model3)
    then show ?thesis by (auto simp: less_3_iff entry_model3)
  qed
  ultimately show ?thesis
    by (auto simp: tree_matrix_def less_3_iff entry_model3)
qed

theorem parse_model_wf_witness:
  "\<exists>t w'. smlt_topology_create page_alloc 3 (Some model3) ''star'' (0, \<lambda>_. 0) = Inr (errval SMLT_SUCCESS, t, w') \<and>
     topo_wf t \<and> topo_nodes t = 3 \<and>
     (\<forall>x < 3. \<forall>y < 3. tn_parent (node_at t x) = Some y \<longleftrightarrow> entry model3 x y = TOPO_MATRIX_PARENT) \<and>
     (\<forall>x < 3. \<forall>y < 3. \<forall>c < 97. child_at t x c = Some y \<longleftrightarrow> entry model3 x y = int c + 1)"
  by (rule parse_model_wf[OF alloc_succeeds_page_alloc model3_shape])
    (use model3_tree in \<open>simp_all add: model3_def\<close>)

text \<open>
  Claim C37: the parser of the model accepts exactly the matrices with no wrong entry: every entry is
  nothing, a child, the parent at a row that has this row as one of its first 97 children, or the slave
  of a shared-memory region. Then it returns. For every other matrix the program stops in a failed
  assertion or in the parser's panic, and never behind the end of an array.
\<close>

theorem parse_model_accepts:
  assumes "alloc_succeeds nl" "model_shape g" "n = unat (gm_len g)"
  shows "if \<forall>x < n. \<forall>y < n. entry_ok (entry g) x y
         then \<exists>r. smlt_topology_create nl num_proc (Some g) name w = Inr r
         else smlt_topology_create nl num_proc (Some g) name w \<in> {Inl Assertion, Inl Panic}"
proof (cases "\<forall>x < n. \<forall>y < n. entry_ok (entry g) x y")
  case True
  then have "post (\<lambda>_. False) (smlt_topology_create nl num_proc (Some g) name w) (\<lambda>_. True)"
    by (intro post_weaken[OF post_create_model[OF assms(2,3)]]) (use assms(1) in simp_all)
  then show ?thesis using True by (simp add: post_total)
next
  case False
  have "post (\<lambda>a. a = Assertion \<or> a = Panic) (smlt_topology_create nl num_proc (Some g) name w) (\<lambda>_. False)"
    by (rule post_weaken[OF post_create_model[OF assms(2,3)]]) (use assms(1) False in \<open>auto simp: parsed_def\<close>)
  then show ?thesis using False by (auto simp: post_def split: sum.splits)
qed

theorem parse_model_accepts_witness:
  "smlt_topology_create page_alloc 3 (Some (model3\<lparr>gm_model := [0, 0, 99, 0, 0, 99, 1, 98, 0]\<rparr>)) ''star'' (0, \<lambda>_. 0) \<in>
     {Inl Assertion, Inl Panic}"
proof -
  define g where "g = model3\<lparr>gm_model := [0, 0, 99, 0, 0, 99, 1, 98, 0]\<rparr>"
  have "model_shape g" "unat (gm_len g) = 3" by (simp_all add: g_def model_shape_def model3_def)
  moreover have "\<not> entry_ok (entry g) 1 2" by (simp add: entry_ok_def entry_def g_def model3_def)
  then have "\<not> (\<forall>x < 3. \<forall>y < 3. entry_ok (entry g) x y)" by force
  ultimately show ?thesis
    unfolding g_def[symmetric]
    using parse_model_accepts[OF alloc_succeeds_page_alloc, of g 3 3 "''star''" "(0, \<lambda>_. 0)"] by (auto split: if_splits)
qed

end
