(* ===== verification/Context_Tree.thy ===== *)
theory Context_Tree
  imports Context Topology_Parse
begin

text \<open>
  The context of a well-formed topology: every node finds the channels to its children and the channel
  to its parent, and the two ends of a tree edge find the same channel, which runs from the parent to
  the child.
\<close>

section \<open>The channels of a tree\<close>

definition edge_channel :: "nat \<Rightarrow> nat \<Rightarrow> smlt_channel \<Rightarrow> bool" where
  "edge_channel p i ch \<longleftrightarrow>
     ch_owner ch = of_nat p \<and> ch_trg ch = of_nat i \<and> ch_m ch = 1 \<and> ch_n ch = 1 \<and> \<not> ch_use_shm ch"

text \<open>The channel between a node and its parent.\<close>

definition parent_chan :: "smlt_topology \<Rightarrow> nat \<Rightarrow> chan_ptr option" where
  "parent_chan t i =
     (case tn_parent (node_at t i) of None \<Rightarrow> None | Some p \<Rightarrow> Some (p, unat (tn_array_index (node_at t i))))"

definition node_context :: "smlt_topology \<Rightarrow> nat \<Rightarrow> smlt_context_node \<Rightarrow> bool" where
  "node_context t i n \<longleftrightarrow>
     cn_node_id n = of_nat i \<and> cn_num_children n = tn_num_children (node_at t i) \<and>
     (\<forall>c j. child_at t i c = Some j \<longrightarrow>
        (\<exists>chans. cn_children n = Some chans \<and> c < length chans \<and> edge_channel i j (chans ! c)))"

definition context_of :: "smlt_topology \<Rightarrow> smlt_context \<Rightarrow> bool" where
  "context_of t ctx \<longleftrightarrow>
     cx_num_nodes ctx = tp_num_nodes t \<and> cx_max_nid ctx = tp_num_nodes t - 1 \<and>
     cx_nid_to_node ctx = map Some [0..<topo_nodes t] \<and> length (cx_all_nodes ctx) = topo_nodes t \<and>
     (\<forall>i < topo_nodes t. node_context t i (cx_all_nodes ctx ! i) \<and> cn_parent (cx_all_nodes ctx ! i) = parent_chan t i)"

text \<open>A topology without shared memory, as both constructions make it.\<close>

definition mp_only :: "smlt_topology \<Rightarrow> bool" where
  "mp_only t \<longleftrightarrow> (\<forall>i < topo_nodes t. \<not> tn_use_shm (node_at t i))"

section \<open>Creating it\<close>

lemma ump_queuepair_returns:
  "case smlt_queuepair_create na nf mx node_of_cpu SMLT_QP_TYPE_UMP src dst w of
     Returns (err, qps, w') \<Rightarrow> \<not> smlt_err_is_fail err \<longrightarrow> qps \<noteq> None
   | _ \<Rightarrow> False"
  by (simp add: smlt_queuepair_create_def Let_def smlt_err_is_fail_errval split: prod.split)

lemma channel_create_edge:
  "\<exists>err ch' w'. smlt_channel_create na nl nf mx node_of_cpu ch [src] [dst] 1 1 w = Returns (err, ch', w') \<and>
     ch_owner ch' = src \<and> ch_trg ch' = dst \<and> ch_m ch' = 1 \<and> ch_n ch' = 1 \<and> \<not> ch_use_shm ch'"
  using ump_queuepair_returns[of na nf mx node_of_cpu src dst w]
  by (auto simp: smlt_channel_create_def Let_def split: call_result.splits prod.splits option.splits)

lemma post_create_edge:
  assumes "\<And>ch' w'. edge_channel p i ch' \<Longrightarrow> Q (ch', w')"
  shows "post E (run_call (smlt_channel_create na nl nf mx node_of_cpu ch [of_nat p] [of_nat i] 1 1 w))
           (\<lambda>(err, ch', w'). Q (ch', w'))"
  using channel_create_edge[of na nl nf mx node_of_cpu ch "of_nat p" "of_nat i" w] assms
  by (auto simp: edge_channel_def)

text \<open>The accessors inside of the topology.\<close>

lemma topo_accessors:
  assumes "i < topo_nodes t"
  shows "smlt_topology_node_get_num_children t i = Inr (tn_num_children (node_at t i))"
    and "smlt_topology_node_use_shm t i = Inr (tn_use_shm (node_at t i))"
    and "smlt_topology_node_children t i = Inr (tn_children (node_at t i), tn_num_children (node_at t i))"
    and "smlt_topology_node_get_num_children_shm t i = Inr (tn_num_children_shm (node_at t i))"
    and "smlt_topology_node_is_root t i = Inr (tn_parent (node_at t i) = None)"
    and "smlt_topology_node_parent t i = Inr (tn_parent (node_at t i))"
    and "smlt_topology_node_get_child_idx t i = Inr (tn_array_index (node_at t i))"
    and "smlt_topology_node_get_child_idx_shm t i = Inr (tn_array_index_shm (node_at t i))"
  using assms
  by (simp_all add: topo_nodes_def nth_run_def smlt_topology_node_get_num_children_def smlt_topology_node_use_shm_def
      smlt_topology_node_children_def smlt_topology_node_get_num_children_shm_def smlt_topology_node_is_root_def
      smlt_topology_node_parent_def smlt_topology_node_get_child_idx_def smlt_topology_node_get_child_idx_shm_def)

lemma topo_node_id:
  assumes "topo_links t" "i < topo_nodes t"
  shows "smlt_topology_node_get_id t i = Inr (of_nat i)"
  using assms by (simp add: smlt_topology_node_get_id_def nth_run_def topo_nodes_def topo_links_def)

lemma child_id_eq:
  assumes "topo_links t" "p < topo_nodes t" "child_at t p c = Some i"
  shows "child_id t (tn_children (node_at t p)) c = Inr (of_nat i)"
proof -
  obtain cs where "tn_children (node_at t p) = Some cs" "c < length cs" "cs ! c = Some i"
    using assms(3) by (auto simp: child_at_def split: option.splits if_splits)
  then show ?thesis
    using topo_node_id[OF assms(1) child_at_parent(1)[OF assms]] by (simp add: child_id_def nth_run_def deref_run_def)
qed

lemma child_at_ex:
  assumes "topo_links t" "p < topo_nodes t" "c < unat (tn_num_children (node_at t p))"
  obtains i where "child_at t p c = Some i"
  using assms unfolding topo_links_def by blast

lemma post_child_channels:
  fixes w :: "'h \<times> mem"
  assumes t: "topo_links t" "p < topo_nodes t" and n: "n = unat (tn_num_children (node_at t p))"
  shows "post E (for_run (child_channel_step (smlt_channel_create na nl nf mx node_of_cpu) t p (tn_children (node_at t p)))
                   0 n (replicate n channel_zero, w))
           (\<lambda>(chans, w'). length chans = n \<and> (\<forall>c < n. \<forall>j. child_at t p c = Some j \<longrightarrow> edge_channel p j (chans ! c)))"
proof (rule post_for0[where I = "\<lambda>k (chans, w').
         length chans = n \<and> (\<forall>c < k. \<forall>j. child_at t p c = Some j \<longrightarrow> edge_channel p j (chans ! c))"])
  fix c and s :: "smlt_channel list \<times> 'h \<times> mem"
  assume c: "c < n"
    and "case s of (chans, w') \<Rightarrow> length chans = n \<and> (\<forall>c' < c. \<forall>j. child_at t p c' = Some j \<longrightarrow> edge_channel p j (chans ! c'))"
  then obtain chans w1 where s: "s = (chans, w1)" "length chans = n"
    "\<forall>c' < c. \<forall>j. child_at t p c' = Some j \<longrightarrow> edge_channel p j (chans ! c')" by auto
  obtain i where i: "child_at t p c = Some i" using child_at_ex[OF t] c n by blast
  show "post E (child_channel_step (smlt_channel_create na nl nf mx node_of_cpu) t p (tn_children (node_at t p)) c s)
          (\<lambda>(chans, w'). length chans = n \<and> (\<forall>c' < Suc c. \<forall>j. child_at t p c' = Some j \<longrightarrow> edge_channel p j (chans ! c')))"
    using s c i channel_create_edge[of na nl nf mx node_of_cpu "chans ! c" "of_nat p" "of_nat i" w1]
    by (auto simp: child_channel_step_def child_id_eq[OF t i] topo_node_id[OF t] nth_list_update less_Suc_eq edge_channel_def)
qed simp

lemma post_node_channels:
  assumes t: "topo_links t" "mp_only t" "i < topo_nodes t" and alloc: "alloc_succeeds nl"
    and n: "cn_node_id n = of_nat i" "cn_num_children n = tn_num_children (node_at t i)"
  shows "post (\<lambda>_. False) (node_channels (smlt_channel_create na nl nf mx node_of_cpu) nl t i (n, w))
           (\<lambda>(n', w'). node_context t i n' \<and> cn_parent n' = cn_parent n)"
proof (cases "cn_num_children n = 0")
  case True
  then have "child_at t i c = None" for c
    using child_at_less[of t i c] n(2) by (cases "child_at t i c") auto
  then show ?thesis
    using True t n by (cases w) (auto simp: node_channels_def topo_accessors mp_only_def node_context_def)
next
  case False
  have shm: "\<not> tn_use_shm (node_at t i)" using t by (simp add: mp_only_def)
  have small: "c < unat (tn_num_children (node_at t i))" if "child_at t i c = Some j" for c j
    using that by (rule child_at_less)
  show ?thesis
    using False shm
    apply (simp add: node_channels_def topo_accessors[OF t(3)] Let_def)
    apply (rule post_alloc[where E = "\<lambda>_. False"])
      apply (simp_all add: alloc n(2))
    apply clarsimp
    apply (rule post_weaken[OF post_child_channels[OF t(1,3) refl]])
    using small n apply (auto simp: node_context_def)
    done
qed

lemma topo_nodes_small:
  assumes "topo_links t"
  shows "topo_nodes t < 2 ^ 32" "of_nat (topo_nodes t) = tp_num_nodes t"
    and "i < topo_nodes t \<Longrightarrow> unat (of_nat i :: u32) = i"
proof -
  have n: "unat (tp_num_nodes t) = topo_nodes t" using assms by (simp add: topo_links_def)
  show lt: "topo_nodes t < 2 ^ 32" unfolding n[symmetric] using unsigned_less[of "tp_num_nodes t"] by simp
  show "of_nat (topo_nodes t) = tp_num_nodes t" unfolding n[symmetric] by simp
  show "unat (of_nat i :: u32) = i" if "i < topo_nodes t" by (rule unat_of_nat_small) (use lt that in simp)
qed

definition nodes_made :: "smlt_topology \<Rightarrow> nat \<Rightarrow> smlt_context_node list \<times> u32 \<Rightarrow> bool" where
  "nodes_made t k = (\<lambda>(nodes, max_nid).
     length nodes = topo_nodes t \<and> max_nid = of_nat (k - 1) \<and>
     (\<forall>i < k. node_context t i (nodes ! i) \<and> cn_parent (nodes ! i) = None) \<and>
     (\<forall>i < topo_nodes t. k \<le> i \<longrightarrow> nodes ! i = context_node_zero))"

lemma post_context_node_step:
  assumes t: "topo_links t" "mp_only t" "i < topo_nodes t" and alloc: "alloc_succeeds nl"
    and made: "nodes_made t i nm"
  shows "post (\<lambda>_. False) (context_node_step (smlt_channel_create na nl nf mx node_of_cpu) nl t i (nm, w))
           (\<lambda>(nm', w'). nodes_made t (Suc i) nm')"
proof -
  obtain nodes max_nid where nm: "nm = (nodes, max_nid)" by fastforce
  have zero: "nodes ! i = context_node_zero" "i < length nodes" and mx: "max_nid = of_nat (i - 1)"
    using made t(3) by (auto simp: nodes_made_def nm)
  have max: "(if max_nid < of_nat i then of_nat i else max_nid) = of_nat i"
    using topo_nodes_small(3)[OF t(1), of i] topo_nodes_small(3)[OF t(1), of "i - 1"] t(3)
    by (cases i) (auto simp: mx word_less_nat_alt)
  have shm: "\<not> tn_use_shm (node_at t i)" using t by (simp add: mp_only_def)
  show ?thesis
    unfolding nm context_node_step_def case_prod_conv post_bind
    apply (simp add: zero topo_node_id[OF t(1,3)] topo_accessors[OF t(3)] max)
    apply (rule post_weaken[OF post_node_channels[OF t alloc]])
      apply simp
     apply simp
    using made zero shm
    apply (auto simp: node_shm_channel_def topo_accessors[OF t(3)] max nodes_made_def nm nth_list_update less_Suc_eq
        context_node_zero_def)
    done
qed

lemma post_nid_to_node:
  assumes t: "topo_links t" and nodes: "length nodes = topo_nodes t"
    and ids: "\<forall>i < topo_nodes t. cn_node_id (nodes ! i) = of_nat i"
  shows "post E (for_run (nid_to_node_step nodes) 0 (topo_nodes t) (replicate (topo_nodes t) None))
           (\<lambda>tab. tab = map Some [0..<topo_nodes t])"
proof -
  have "post E (for_run (nid_to_node_step nodes) 0 (topo_nodes t) (replicate (topo_nodes t) None))
      (\<lambda>tab. tab = map Some [0..<topo_nodes t] @ replicate (topo_nodes t - topo_nodes t) None)"
  proof (rule post_for0[where I = "\<lambda>k tab. tab = map Some [0..<k] @ replicate (topo_nodes t - k) None"])
    fix j tab
    assume "j < topo_nodes t" "tab = map Some [0..<j] @ replicate (topo_nodes t - j) None"
    moreover obtain d where "topo_nodes t - j = Suc d" using calculation(1) by (metis Suc_diff_Suc)
    ultimately show "post E (nid_to_node_step nodes j tab)
        (\<lambda>tab. tab = map Some [0..<Suc j] @ replicate (topo_nodes t - Suc j) None)"
      using ids nodes topo_nodes_small(3)[OF t, of j]
      by (auto simp: nid_to_node_step_def list_update_append)
  qed simp
  then show ?thesis by simp
qed

lemma post_parents:
  assumes t: "topo_links t" "mp_only t" and nodes: "length nodes = topo_nodes t"
    and none: "\<forall>i < topo_nodes t. cn_parent (nodes ! i) = None"
  shows "post E (for_run (parent_step t (map Some [0..<topo_nodes t])) 0 (topo_nodes t) nodes)
           (\<lambda>nodes'. length nodes' = topo_nodes t \<and>
              (\<forall>i < topo_nodes t. nodes' ! i = (nodes ! i)\<lparr>cn_parent := parent_chan t i\<rparr>))"
proof -
  define I where "I = (\<lambda>k nodes'. length nodes' = topo_nodes t \<and>
     (\<forall>i < topo_nodes t. nodes' ! i = (if i < k then (nodes ! i)\<lparr>cn_parent := parent_chan t i\<rparr> else nodes ! i)))"
  have "post E (for_run (parent_step t (map Some [0..<topo_nodes t])) 0 (topo_nodes t) nodes) (I (topo_nodes t))"
  proof (rule post_for0)
    show "I 0 nodes" by (simp add: I_def nodes)
    fix i nodes'
    assume i: "i < topo_nodes t" and "I i nodes'"
    then have n: "length nodes' = topo_nodes t" "nodes' ! i = nodes ! i"
      "\<forall>j < topo_nodes t. nodes' ! j = (if j < i then (nodes ! j)\<lparr>cn_parent := parent_chan t j\<rparr> else nodes ! j)"
      by (auto simp: I_def)
    note acc = topo_node_id[OF t(1)] topo_accessors
    show "post E (parent_step t (map Some [0..<topo_nodes t]) i nodes') (I (Suc i))"
    proof (cases "tn_parent (node_at t i)")
      case None
      then have "(nodes ! i)\<lparr>cn_parent := parent_chan t i\<rparr> = nodes ! i" using none i by (simp add: parent_chan_def)
      then show ?thesis using None n i by (auto simp: parent_step_def acc[OF i] I_def less_Suc_eq)
    next
      case (Some p)
      then have p: "p < topo_nodes t" using t(1) i by (auto simp: topo_links_def)
      have "\<not> tn_use_shm (node_at t p)" using t(2) p by (simp add: mp_only_def)
      then show ?thesis
        using Some n i p
        by (auto simp: parent_step_def acc[OF i] acc[OF p] topo_nodes_small(3)[OF t(1)] I_def nth_list_update parent_chan_def)
    qed
  qed
  then show ?thesis by (rule post_weaken) (simp add: I_def)
qed

lemma post_context_tail:
  assumes t: "topo_links t" "mp_only t" and a: "length a = topo_nodes t"
    and made: "\<forall>i < topo_nodes t. node_context t i (a ! i) \<and> cn_parent (a ! i) = None"
  shows "post E (for_run (nid_to_node_step a) 0 (topo_nodes t) (replicate (topo_nodes t) None))
      (\<lambda>tab. post E (for_run (parent_step t tab) 0 (topo_nodes t) a)
        (\<lambda>nodes. context_of t \<lparr>cx_num_nodes = tp_num_nodes t, cx_max_nid = tp_num_nodes t - 1,
                               cx_nid_to_node = tab, cx_all_nodes = nodes\<rparr>))"
proof (rule post_weaken[OF post_nid_to_node[OF t(1) a]])
  show "\<forall>i < topo_nodes t. cn_node_id (a ! i) = of_nat i" using made by (simp add: node_context_def)
  fix tab
  assume tab: "tab = map Some [0..<topo_nodes t]"
  show "post E (for_run (parent_step t tab) 0 (topo_nodes t) a)
      (\<lambda>nodes. context_of t \<lparr>cx_num_nodes = tp_num_nodes t, cx_max_nid = tp_num_nodes t - 1,
                             cx_nid_to_node = tab, cx_all_nodes = nodes\<rparr>)"
    unfolding tab
    by (rule post_weaken[OF post_parents[OF t a]]) (use made in \<open>auto simp: context_of_def node_context_def\<close>)
qed

lemma create_context:
  assumes "alloc_succeeds nl" "topo_wf t" "mp_only t"
  shows "\<exists>ctx w'. smlt_context_create na nl nf mx node_of_cpu (Some t) w = Inr (errval SMLT_SUCCESS, Some ctx, w') \<and>
           context_of t ctx"
proof -
  have t: "topo_links t" and pos: "0 < topo_nodes t" using assms(2) by (auto simp: topo_wf_def topo_rooted_def)
  have n: "unat (tp_num_nodes t) = topo_nodes t" using t by (simp add: topo_links_def)
  have last: "of_nat (topo_nodes t - Suc 0) = tp_num_nodes t - 1"
    using topo_nodes_small(2)[OF t] pos by (simp add: of_nat_diff Suc_le_eq)
  have loop: "post (\<lambda>_. False) (for_run (context_node_step (smlt_channel_create na nl nf mx node_of_cpu) nl t) 0 (topo_nodes t)
      ((replicate (topo_nodes t) context_node_zero, 0), w1)) (\<lambda>(nm, w'). nodes_made t (topo_nodes t) nm)" for w1
    by (rule post_for0[where I = "\<lambda>k (nm, w'). nodes_made t k nm"])
      (auto simp: nodes_made_def[of _ 0] intro!: post_context_node_step[OF t assms(3) _ assms(1)])
  have "post (\<lambda>_. False) (smlt_context_create na nl nf mx node_of_cpu (Some t) w)
      (\<lambda>(err, ctx, w'). err = errval SMLT_SUCCESS \<and> (\<exists>c. ctx = Some c \<and> context_of t c))"
    unfolding smlt_context_create_def option.case Let_def smlt_topology_get_num_nodes_def n post_bind
    apply (rule post_alloc)
      apply (simp_all add: assms(1))
    apply clarsimp
    apply (rule post_weaken[OF loop])
    apply clarsimp
    apply (rule post_alloc)
      apply (simp_all add: assms(1))
    apply (clarsimp simp: nodes_made_def last n post_context_tail[OF t assms(3)])
    done
  then show ?thesis by (auto simp: post_total)
qed

lemma heap_mp_only: "tp_all_nodes t = heap_nodes n \<Longrightarrow> mp_only t"
  by (simp add: mp_only_def topo_nodes_def heap_node_def topology_node_zero_def)

text \<open>What the accessors of the context answer to a node of the topology.\<close>

lemma context_accessors:
  assumes "topo_wf t" "context_of t ctx" "i < topo_nodes t"
  shows "smlt_context_get_children_channels ctx (of_nat i) = Inr (errval SMLT_SUCCESS, i, tn_num_children (node_at t i))"
    and "smlt_context_get_parent_channel ctx (of_nat i) = Inr (errval SMLT_SUCCESS, parent_chan t i)"
    and "smlt_context_is_root ctx (of_nat i) = Inr (tn_parent (node_at t i) = None)"
    and "smlt_context_is_leaf ctx (of_nat i) = Inr (tn_num_children (node_at t i) = 0)"
    and "\<exists>k. smlt_context_node_get_child_idx ctx (of_nat i) = Inr k"
proof -
  have t: "topo_links t" using assms(1) by (simp add: topo_wf_def)
  note small = topo_nodes_small[OF t]
  have n: "unat (tp_num_nodes t) = topo_nodes t" using t by (simp add: topo_links_def)
  then have "tp_num_nodes t \<noteq> 0" using assms(3) by auto
  then have "unat (tp_num_nodes t - 1) = topo_nodes t - 1" using n by (simp add: unat_minus_one)
  then have "\<not> cx_max_nid ctx < of_nat i"
    using assms(2,3) small(3)[OF assms(3)] by (simp add: context_of_def word_less_nat_alt)
  moreover have "context_node ctx (of_nat i) = Inr (i, cx_all_nodes ctx ! i)"
    using assms(2,3) small(3)[OF assms(3)] by (simp add: context_node_def context_of_def nth_run_def deref_run_def)
  moreover have "node_context t i (cx_all_nodes ctx ! i)" "cn_parent (cx_all_nodes ctx ! i) = parent_chan t i"
    using assms(2,3) by (simp_all add: context_of_def)
  ultimately show "smlt_context_get_children_channels ctx (of_nat i) = Inr (errval SMLT_SUCCESS, i, tn_num_children (node_at t i))"
    and "smlt_context_get_parent_channel ctx (of_nat i) = Inr (errval SMLT_SUCCESS, parent_chan t i)"
    and "smlt_context_is_root ctx (of_nat i) = Inr (tn_parent (node_at t i) = None)"
    and "smlt_context_is_leaf ctx (of_nat i) = Inr (tn_num_children (node_at t i) = 0)"
    and "\<exists>k. smlt_context_node_get_child_idx ctx (of_nat i) = Inr k"
    by (simp_all add: smlt_context_get_children_channels_def smlt_context_node_get_children_channels_def
        smlt_context_get_parent_channel_def smlt_context_node_get_parent_channel_def
        smlt_context_is_root_def smlt_context_node_is_root_def smlt_context_is_leaf_def smlt_context_node_is_leaf_def
        smlt_context_node_get_child_idx_def node_context_def parent_chan_def split: option.split)
qed

text \<open>
  Claim C13: for a well-formed topology without shared memory, \<open>smlt_context_create\<close> returns success
  and the context of that topology: every node has a channel to each of its children, owned by the node
  and with the child as its target; and the parent channel of a child is the very channel that the
  parent has in its array for this child, so that the two ends of every tree edge share one channel.
\<close>

theorem context_create_tree:
  assumes "alloc_succeeds nl" "topo_wf t" "mp_only t"
  shows "\<exists>ctx w'. smlt_context_create na nl nf mx node_of_cpu (Some t) w = Inr (errval SMLT_SUCCESS, Some ctx, w') \<and>
           context_of t ctx"
  using assms by (rule create_context)

theorem context_create_tree_witness:
  "\<exists>t ctx w'. tp_all_nodes t = heap_nodes 3 \<and>
     smlt_context_create (\<lambda>b _. page_alloc b) page_alloc (\<lambda>_ _ h. h) 0 (\<lambda>_. 0) (Some t) (0, \<lambda>_. 0) =
       Inr (errval SMLT_SUCCESS, Some ctx, w') \<and> context_of t ctx"
proof -
  define t where "t = \<lparr>tp_name = ''tree'', tp_root = Some 0, tp_num_nodes = 3, tp_all_nodes = heap_nodes 3\<rparr>"
  have "topo_wf t" "mp_only t" by (auto simp: t_def intro!: heap_topo_wf[of _ 3] heap_mp_only)
  from context_create_tree[OF alloc_succeeds_page_alloc this]
  show ?thesis by (intro exI[of _ t]) (simp add: t_def)
qed

end
