(* ===== verification/Barrier_Tree.thy ===== *)
theory Barrier_Tree
  imports Network Context_Tree
begin

text \<open>
  The tree barrier: \<open>smlt_barrier_wait\<close>, run by all nodes of a well-formed tree over any channels that
  keep the contract. A node goes through stages: it collects a notification from every child, reports
  to its parent, awaits the parent's notification and releases its children. The code refines this
  state machine, and on the state machine nobody is released before everybody has reported.
\<close>

section \<open>Stages\<close>

datatype stage = Collecting "unit collecting" | Reporting | Awaiting | Releasing nat

definition kids :: "smlt_topology \<Rightarrow> nat \<Rightarrow> nat" where
  "kids t i = unat (tn_num_children (node_at t i))"

text \<open>The code that a node has left to run in a stage.\<close>

definition release_code :: "smlt_topology \<Rightarrow> nat \<Rightarrow> nat \<Rightarrow> errval_t code" where
  "release_code t i c = notify_children i c (kids t i - c)"

definition await_code :: "smlt_topology \<Rightarrow> nat \<Rightarrow> errval_t code" where
  "await_code t i =
     (case parent_chan t i of
        None \<Rightarrow> release_code t i 0
      | Some q \<Rightarrow> Recv_notification q (\<lambda>err. if smlt_err_is_fail err then Return (errval SMLT_ERR) else release_code t i 0))"

definition report_code :: "smlt_topology \<Rightarrow> nat \<Rightarrow> errval_t code" where
  "report_code t i =
     (case parent_chan t i of
        None \<Rightarrow> Return (errval SMLT_SUCCESS)
      | Some q \<Rightarrow> Notify q (\<lambda>_. Return (errval SMLT_SUCCESS)))"

definition after_reduce :: "smlt_topology \<Rightarrow> nat \<Rightarrow> errval_t code \<Rightarrow> errval_t code" where
  "after_reduce t i c = bind_code c (\<lambda>err. if smlt_err_is_fail err then Return err else await_code t i)"

fun stage_code :: "smlt_topology \<Rightarrow> nat \<Rightarrow> stage \<Rightarrow> errval_t code" where
  "stage_code t i (Collecting st) = after_reduce t i (loop_code (reduce_notify_step i (kids t i) (report_code t i)) st)"
| "stage_code t i Reporting = after_reduce t i (report_code t i)"
| "stage_code t i Awaiting = await_code t i"
| "stage_code t i (Releasing c) = release_code t i c"

text \<open>The stage after \<open>num\<close> children have been heard; a root has nobody to report to.\<close>

definition collect_stage :: "smlt_topology \<Rightarrow> nat \<Rightarrow> bool list \<Rightarrow> nat \<Rightarrow> nat \<Rightarrow> stage" where
  "collect_stage t i recv num k =
     (if num < kids t i then Collecting (Polling_child recv num k ())
      else if parent_chan t i = None then Releasing 0 else Reporting)"

definition first_stage :: "smlt_topology \<Rightarrow> nat \<Rightarrow> stage" where
  "first_stage t i = collect_stage t i (replicate (kids t i) False) 0 0"

lemma collect_stage_code:
  "stage_code t i (collect_stage t i recv num k) =
   after_reduce t i (loop_code (reduce_notify_step i (kids t i) (report_code t i)) (Polling_child recv num k ()))"
proof (cases "num < kids t i")
  case True
  then show ?thesis by (simp add: collect_stage_def)
next
  case False
  then have "loop_code (reduce_notify_step i (kids t i) (report_code t i)) (Polling_child recv num k ()) = report_code t i"
    by (subst loop_code.code) simp
  then show ?thesis
    using False by (simp add: collect_stage_def after_reduce_def report_code_def await_code_def smlt_err_is_fail_errval)
qed

lemma smlt_barrier_wait_code:
  assumes "topo_wf t" "context_of t ctx" "i < topo_nodes t"
  shows "smlt_barrier_wait ctx (of_nat i) = stage_code t i (first_stage t i)"
proof -
  have "smlt_broadcast_notify_subtree ctx (of_nat i) = release_code t i 0"
    by (simp add: smlt_broadcast_notify_subtree_def context_accessors[OF assms] release_code_def kids_def
        smlt_err_is_fail_errval)
  then have "smlt_broadcast_notify ctx (of_nat i) = await_code t i"
    unfolding smlt_broadcast_notify_def context_accessors[OF assms]
    by (simp add: await_code_def parent_chan_def smlt_err_is_fail_errval deref_run_def
        split: option.split cong: if_cong)
  moreover have "smlt_reduce_notify ctx (of_nat i) =
      loop_code (reduce_notify_step i (kids t i) (report_code t i)) (Polling_child (replicate (kids t i) False) 0 0 ())"
    unfolding smlt_reduce_notify_def context_accessors[OF assms]
    by (simp add: report_code_def kids_def smlt_err_is_fail_errval)
  ultimately show ?thesis
    by (simp add: smlt_barrier_wait_def first_stage_def collect_stage_code after_reduce_def cong: if_cong)
qed

section \<open>The state machine\<close>

text \<open>
  What a move does to the channels: nothing, or it finds a message to the owner of the channel, takes a
  message off, or puts a notification on a channel.
\<close>

datatype effect = Nop | Saw chan_ptr | Took chan_ptr bool | Put chan_ptr bool

inductive stage_move :: "smlt_topology \<Rightarrow> nat \<Rightarrow> stage \<Rightarrow> effect \<Rightarrow> stage \<Rightarrow> bool" for t i where
  stay: "stage_move t i \<sigma> Nop \<sigma>"
| poll_next: "num < kids t i \<Longrightarrow>
    stage_move t i (Collecting (Polling_child recv num k ())) Nop
      (Collecting (Polling_child recv num (next_child (kids t i) k) ()))"
| poll_yes: "num < kids t i \<Longrightarrow> \<not> recv ! k \<Longrightarrow>
    stage_move t i (Collecting (Polling_child recv num k ())) (Saw (i, k)) (Collecting (Taking recv num k ()))"
| take: "stage_move t i (Collecting (Taking recv num k ())) (Took (i, k) False)
      (collect_stage t i (recv[k := True]) (num + 1) (next_child (kids t i) k))"
| report: "parent_chan t i = Some q \<Longrightarrow> stage_move t i Reporting (Put q False) Awaiting"
| hear: "parent_chan t i = Some q \<Longrightarrow> stage_move t i Awaiting (Took q True) (Releasing 0)"
| release: "c < kids t i \<Longrightarrow> stage_move t i (Releasing c) (Put (i, c) True) (Releasing (c + 1))"

text \<open>The move a node makes, by the channels that hold a message; \<open>ne q d\<close> is such a channel and direction.\<close>

fun stage_next :: "smlt_topology \<Rightarrow> nat \<Rightarrow> (chan_ptr \<Rightarrow> bool \<Rightarrow> bool) \<Rightarrow> stage \<Rightarrow> stage" where
  "stage_next t i ne (Collecting (Polling_child recv num k _)) =
     Collecting (if recv ! k \<or> \<not> ne (i, k) False then Polling_child recv num (next_child (kids t i) k) ()
                 else Taking recv num k ())"
| "stage_next t i ne (Collecting (Taking recv num k _)) =
     (if ne (i, k) False then collect_stage t i (recv[k := True]) (num + 1) (next_child (kids t i) k)
      else Collecting (Taking recv num k ()))"
| "stage_next t i ne (Collecting (Stopped err _)) = Collecting (Stopped err ())"
| "stage_next t i ne Reporting = Awaiting"
| "stage_next t i ne Awaiting =
     (case parent_chan t i of None \<Rightarrow> Awaiting | Some q \<Rightarrow> if ne q True then Releasing 0 else Awaiting)"
| "stage_next t i ne (Releasing c) = Releasing (if c < kids t i then c + 1 else c)"

inductive_cases stage_moveE: "stage_move t i \<sigma> e \<sigma>'"

text \<open>The stages that come up: the array of the children heard so far agrees with their number.\<close>

fun collecting_wf :: "nat \<Rightarrow> unit collecting \<Rightarrow> bool" where
  "collecting_wf m (Polling_child recv num k _) \<longleftrightarrow> length recv = m \<and> num = length (filter id recv) \<and> num < m \<and> k < m"
| "collecting_wf m (Taking recv num k _) \<longleftrightarrow>
     length recv = m \<and> num = length (filter id recv) \<and> num < m \<and> k < m \<and> \<not> recv ! k"
| "collecting_wf m (Stopped _ _) \<longleftrightarrow> False"

fun stage_wf :: "smlt_topology \<Rightarrow> nat \<Rightarrow> stage \<Rightarrow> bool" where
  "stage_wf t i (Collecting st) \<longleftrightarrow> collecting_wf (kids t i) st"
| "stage_wf t i (Releasing c) \<longleftrightarrow> c \<le> kids t i"
| "stage_wf t i _ \<longleftrightarrow> parent_chan t i \<noteq> None"

text \<open>What a node has done in a stage.\<close>

fun seen :: "stage \<Rightarrow> nat \<Rightarrow> bool" where
  "seen (Collecting (Polling_child recv num k _)) c \<longleftrightarrow> recv ! c"
| "seen (Collecting (Taking recv num k _)) c \<longleftrightarrow> recv ! c"
| "seen (Collecting (Stopped _ _)) c \<longleftrightarrow> False"
| "seen _ c \<longleftrightarrow> True"

fun taking :: "stage \<Rightarrow> nat \<Rightarrow> bool" where
  "taking (Collecting (Taking recv num k _)) c \<longleftrightarrow> k = c"
| "taking _ c \<longleftrightarrow> False"

fun reported :: "stage \<Rightarrow> bool" where
  "reported Awaiting \<longleftrightarrow> True"
| "reported (Releasing _) \<longleftrightarrow> True"
| "reported _ \<longleftrightarrow> False"

fun released :: "stage \<Rightarrow> nat \<Rightarrow> bool" where
  "released (Releasing k) c \<longleftrightarrow> c < k"
| "released _ c \<longleftrightarrow> False"

fun received :: "stage \<Rightarrow> bool" where
  "received (Releasing _) \<longleftrightarrow> True"
| "received _ \<longleftrightarrow> False"

lemma filter_all_seen:
  assumes "length (filter id xs) = length xs" "c < length xs"
  shows "xs ! c"
  using assms by (metis id_apply filter_id_conv length_filter_less less_irrefl nth_mem)

lemma filter_see_one:
  "k < length xs \<Longrightarrow> \<not> xs ! k \<Longrightarrow> length (filter id (xs[k := True])) = Suc (length (filter id xs))"
  by (induction xs arbitrary: k) (auto split: nat.splits)

lemma collect_stage_wf:
  assumes "length recv = kids t i" "num = length (filter id recv)" "0 < kids t i \<Longrightarrow> k < kids t i"
  shows "stage_wf t i (collect_stage t i recv num k)"
  using assms by (auto simp: collect_stage_def)

lemma seen_collect_stage:
  assumes "length recv = kids t i" "num = length (filter id recv)" "c < kids t i"
  shows "seen (collect_stage t i recv num k) c = recv ! c"
proof (cases "num < kids t i")
  case True
  then show ?thesis by (simp add: collect_stage_def)
next
  case False
  then have "num = length recv" using assms(1,2) length_filter_le[of id recv] by simp
  then have "recv ! c" using filter_all_seen[of recv c] assms by simp
  then show ?thesis using False by (simp add: collect_stage_def)
qed

lemma stage_move_wf:
  assumes "stage_move t i \<sigma> e \<sigma>'" "stage_wf t i \<sigma>"
  shows "stage_wf t i \<sigma>'"
  using assms
proof cases
  case (take recv num k)
  then have w: "length recv = kids t i" "num = length (filter id recv)" "k < kids t i" "\<not> recv ! k"
    using assms(2) by simp_all
  then show ?thesis unfolding take
    by (intro collect_stage_wf) (auto simp: filter_see_one next_child_def)
qed (use assms(2) in \<open>auto simp: next_child_def\<close>)

text \<open>What a move leaves as it was, at the channels it does not touch.\<close>

lemma stage_move_frame:
  assumes "stage_move t i \<sigma> e \<sigma>'" "stage_wf t i \<sigma>"
  shows "c < kids t i \<Longrightarrow> e \<noteq> Took (i, c) False \<Longrightarrow> seen \<sigma>' c = seen \<sigma> c"
    and "c < kids t i \<Longrightarrow> e \<noteq> Put (i, c) True \<Longrightarrow> released \<sigma>' c = released \<sigma> c"
    and "parent_chan t i = Some q \<Longrightarrow> e \<noteq> Put q False \<Longrightarrow> reported \<sigma>' = reported \<sigma>"
    and "parent_chan t i = Some q \<Longrightarrow> e \<noteq> Took q True \<Longrightarrow> received \<sigma>' = received \<sigma>"
proof -
  show "seen \<sigma>' c = seen \<sigma> c" if "c < kids t i" "e \<noteq> Took (i, c) False"
    using assms(1)
  proof cases
    case (take recv num k)
    then have w: "length recv = kids t i" "num = length (filter id recv)" "k < kids t i" "\<not> recv ! k"
      using assms(2) by simp_all
    then have "seen \<sigma>' c = (recv[k := True]) ! c"
      unfolding take using that(1) by (intro seen_collect_stage) (auto simp: filter_see_one)
    then show ?thesis using take that w by (auto simp: nth_list_update)
  qed auto
  show "c < kids t i \<Longrightarrow> e \<noteq> Put (i, c) True \<Longrightarrow> released \<sigma>' c = released \<sigma> c"
    using assms(1) by cases (auto simp: collect_stage_def less_Suc_eq)
  show "parent_chan t i = Some q \<Longrightarrow> e \<noteq> Put q False \<Longrightarrow> reported \<sigma>' = reported \<sigma>"
    using assms(1) by cases (auto simp: collect_stage_def)
  show "parent_chan t i = Some q \<Longrightarrow> e \<noteq> Took q True \<Longrightarrow> received \<sigma>' = received \<sigma>"
    using assms(1) by cases (auto simp: collect_stage_def)
qed

text \<open>And what it does at the channel it touches.\<close>

lemma stage_move_effect:
  assumes "stage_move t i \<sigma> e \<sigma>'" "stage_wf t i \<sigma>" "\<And>c. parent_chan t i \<noteq> Some (i, c)"
  shows "e = Took (i, c) d \<Longrightarrow> c < kids t i \<and> d = False \<and> \<not> seen \<sigma> c \<and> seen \<sigma>' c"
    and "e = Put (i, c) d \<Longrightarrow> c < kids t i \<and> d = True \<and> \<not> released \<sigma> c \<and> released \<sigma>' c"
    and "parent_chan t i = Some q \<Longrightarrow> e = Put q d \<Longrightarrow> d = False \<and> \<not> reported \<sigma> \<and> reported \<sigma>' \<and> (\<forall>c. seen \<sigma> c)"
    and "parent_chan t i = Some q \<Longrightarrow> e = Took q d \<Longrightarrow> d = True \<and> \<not> received \<sigma> \<and> received \<sigma>' \<and> reported \<sigma>"
    and "e = Took q d \<or> e = Put q d \<Longrightarrow> (\<exists>c. q = (i, c)) \<or> parent_chan t i = Some q"
proof -
  show "c < kids t i \<and> d = False \<and> \<not> seen \<sigma> c \<and> seen \<sigma>' c" if "e = Took (i, c) d"
    using assms(1)
  proof cases
    case (take recv num k)
    then have w: "length recv = kids t i" "num = length (filter id recv)" "k < kids t i" "\<not> recv ! k" "k = c"
      using assms(2) that by simp_all
    then have "seen \<sigma>' c = (recv[k := True]) ! c"
      unfolding take by (intro seen_collect_stage) (auto simp: filter_see_one)
    then show ?thesis using take that w by simp
  qed (use that assms(3) in auto)
  show "e = Put (i, c) d \<Longrightarrow> c < kids t i \<and> d = True \<and> \<not> released \<sigma> c \<and> released \<sigma>' c"
    using assms(1,3) by cases auto
  show "parent_chan t i = Some q \<Longrightarrow> e = Put q d \<Longrightarrow> d = False \<and> \<not> reported \<sigma> \<and> reported \<sigma>' \<and> (\<forall>c. seen \<sigma> c)"
    using assms(1,3) by cases auto
  show "parent_chan t i = Some q \<Longrightarrow> e = Took q d \<Longrightarrow> d = True \<and> \<not> received \<sigma> \<and> received \<sigma>' \<and> reported \<sigma>"
    using assms(1,3) by cases auto
  show "e = Took q d \<or> e = Put q d \<Longrightarrow> (\<exists>c. q = (i, c)) \<or> parent_chan t i = Some q"
    using assms(1) by cases auto
qed

lemma stage_move_saw: "stage_move t i \<sigma> e \<sigma>' \<Longrightarrow> e = Saw q \<Longrightarrow> fst q = i"
  by (erule stage_move.cases) auto

lemma stage_move_taking:
  assumes "stage_move t i \<sigma> e \<sigma>'"
  shows "taking \<sigma>' c \<Longrightarrow> taking \<sigma> c \<or> e = Saw (i, c)" "e = Took (i, c) False \<Longrightarrow> \<not> taking \<sigma>' c"
proof -
  have collect: "\<not> taking (collect_stage t i recv num k) c" for recv num k by (simp add: collect_stage_def)
  show "taking \<sigma>' c \<Longrightarrow> taking \<sigma> c \<or> e = Saw (i, c)" using assms collect by cases auto
  show "e = Took (i, c) False \<Longrightarrow> \<not> taking \<sigma>' c" using assms collect by cases auto
qed

lemma stage_move_down:
  assumes "stage_move t i \<sigma> e \<sigma>'" "stage_wf t i \<sigma>" "\<And>c. parent_chan t i \<noteq> Some (i, c)" "c < kids t i"
  shows "seen \<sigma>' c \<longleftrightarrow> seen \<sigma> c \<or> e = Took (i, c) False" "e = Took (i, c) False \<Longrightarrow> \<not> seen \<sigma> c"
    and "released \<sigma>' c \<longleftrightarrow> released \<sigma> c \<or> e = Put (i, c) True" "e = Put (i, c) True \<Longrightarrow> \<not> released \<sigma> c"
    and "e \<noteq> Put (i, c) False" "e \<noteq> Took (i, c) True"
    and "taking \<sigma>' c \<Longrightarrow> taking \<sigma> c \<or> e = Saw (i, c)" "e = Took (i, c) False \<Longrightarrow> \<not> taking \<sigma>' c"
  using stage_move_taking[OF assms(1)] stage_move_frame(1,2)[OF assms(1,2,4)] stage_move_effect(1,2)[OF assms(1-3), of c] by blast+

lemma stage_move_up:
  assumes "stage_move t i \<sigma> e \<sigma>'" "stage_wf t i \<sigma>" "\<And>c. parent_chan t i \<noteq> Some (i, c)" "parent_chan t i = Some q"
  shows "reported \<sigma>' \<longleftrightarrow> reported \<sigma> \<or> e = Put q False" "e = Put q False \<Longrightarrow> \<not> reported \<sigma>"
    and "received \<sigma>' \<longleftrightarrow> received \<sigma> \<or> e = Took q True" "e = Took q True \<Longrightarrow> \<not> received \<sigma>"
    and "e \<noteq> Took q False" "e \<noteq> Put q True"
  using stage_move_frame(3,4)[OF assms(1,2,4)] stage_move_effect(3,4)[OF assms] by blast+

section \<open>The code refines the state machine\<close>

fun effect_ok ::
  "('s \<Rightarrow> bool) \<Rightarrow> (bool \<Rightarrow> 's \<Rightarrow> u64 list list) \<Rightarrow> effect \<Rightarrow> 's links \<Rightarrow> 's links \<Rightarrow> bool"
where
  "effect_ok ok pending Nop L L' \<longleftrightarrow>
     (\<forall>q. ok (L q) \<longrightarrow> ok (L' q) \<and> (\<forall>d. pending d (L' q) = pending d (L q)))"
| "effect_ok ok pending (Saw q) L L' \<longleftrightarrow> L' = L \<and> pending False (L q) \<noteq> []"
| "effect_ok ok pending (Took q d) L L' \<longleftrightarrow>
     (\<exists>s x. L' = L(q := s) \<and> ok s \<and> pending d (L q) = x # pending d s \<and> pending (\<not> d) s = pending (\<not> d) (L q))"
| "effect_ok ok pending (Put q d) L L' \<longleftrightarrow>
     (\<exists>s. L' = L(q := s) \<and> ok s \<and> pending d s = pending d (L q) @ [[]] \<and> pending (\<not> d) s = pending (\<not> d) (L q))"

text \<open>
  The invariant of an edge: what the parent and the child have done determines what is under way. \<open>sn\<close>
  and \<open>rl\<close>: the parent has seen the child's report, and has released the child. \<open>rp\<close> and \<open>rc\<close>: the
  child has reported, and has heard of its release. \<open>tk\<close>: the parent is about to take the report.
\<close>

definition edge_ok ::
  "('s \<Rightarrow> bool) \<Rightarrow> (bool \<Rightarrow> 's \<Rightarrow> u64 list list) \<Rightarrow> bool \<Rightarrow> bool \<Rightarrow> bool \<Rightarrow> bool \<Rightarrow> bool \<Rightarrow> 's \<Rightarrow> bool"
where
  "edge_ok ok pending tk sn rl rp rc s \<longleftrightarrow>
     ok s \<and> pending False s = (if rp \<and> \<not> sn then [[]] else []) \<and> pending True s = (if rl \<and> \<not> rc then [[]] else []) \<and>
     (sn \<longrightarrow> rp) \<and> (rc \<longrightarrow> rl) \<and> (tk \<longrightarrow> rp)"

lemma edge_ok_step:
  assumes "edge_ok ok pending tk sn rl rp rc (L q)" "effect_ok ok pending e L L'"
    and "tk' \<Longrightarrow> tk \<or> e = Saw q"
    and "sn' \<longleftrightarrow> sn \<or> e = Took q False" "e = Took q False \<Longrightarrow> \<not> sn"
    and "rl' \<longleftrightarrow> rl \<or> e = Put q True" "e = Put q True \<Longrightarrow> \<not> rl"
    and "rp' \<longleftrightarrow> rp \<or> e = Put q False" "e = Put q False \<Longrightarrow> \<not> rp"
    and "rc' \<longleftrightarrow> rc \<or> e = Took q True" "e = Took q True \<Longrightarrow> \<not> rc"
  shows "edge_ok ok pending tk' sn' rl' rp' rc' (L' q)"
proof (cases e)
  case Nop
  then show ?thesis using assms by (cases q) (auto simp: edge_ok_def)
next
  case (Saw q')
  then show ?thesis using assms by (auto simp: edge_ok_def split: if_splits)
next
  case (Took q' d)
  then show ?thesis using assms by (cases "q' = q"; cases d) (auto simp: edge_ok_def split: if_splits)
next
  case (Put q' d)
  then show ?thesis using assms by (cases "q' = q"; cases d) (auto simp: edge_ok_def split: if_splits)
qed

definition has :: "(stage \<Rightarrow> bool) \<Rightarrow> stage option \<Rightarrow> bool" where
  "has f S = (case S of None \<Rightarrow> False | Some \<sigma> \<Rightarrow> f \<sigma>)"

lemma has_simps [simp]: "has f None = False" "has f (Some \<sigma>) = f \<sigma>"
  by (simp_all add: has_def)

text \<open>The invariant of the network: the stages of the nodes, and the edges between them.\<close>

definition barrier_inv ::
  "('s \<Rightarrow> bool) \<Rightarrow> (bool \<Rightarrow> 's \<Rightarrow> u64 list list) \<Rightarrow> smlt_topology \<Rightarrow> (nat \<Rightarrow> stage option) \<Rightarrow> ('s, errval_t) net \<Rightarrow> bool"
where
  "barrier_inv ok pending t S s \<longleftrightarrow>
     (\<forall>i < topo_nodes t. net_code s i = map_option (stage_code t i) (S i) \<and> (\<forall>\<sigma>. S i = Some \<sigma> \<longrightarrow> stage_wf t i \<sigma>)) \<and>
     (\<forall>p < topo_nodes t. \<forall>c j. child_at t p c = Some j \<longrightarrow>
        edge_ok ok pending (has (\<lambda>\<sigma>. taking \<sigma> c) (S p)) (has (\<lambda>\<sigma>. seen \<sigma> c) (S p)) (has (\<lambda>\<sigma>. released \<sigma> c) (S p)) (has reported (S j)) (has received (S j))
          (net_links s (p, c)))"

lemma parent_not_self:
  assumes "topo_wf t" "i < topo_nodes t"
  shows "tn_parent (node_at t i) \<noteq> Some i"
proof
  assume self: "tn_parent (node_at t i) = Some i"
  have "ancestor t k i = Some i" for k using self by (induction k) simp_all
  moreover obtain r k where "ancestor t k i = Some r" "tn_parent (node_at t r) = None"
    using assms by (auto simp: topo_wf_def topo_rooted_def)
  ultimately show False using self by (metis option.inject option.distinct(1))
qed

text \<open>The channel to the parent is the one the parent has for this child.\<close>

lemma parent_chan_iff:
  assumes "topo_wf t" "i < topo_nodes t"
  shows "parent_chan t i = Some (p, c) \<longleftrightarrow> p < topo_nodes t \<and> child_at t p c = Some i"
proof -
  have t: "topo_links t" using assms(1) by (simp add: topo_wf_def)
  show ?thesis
  proof
    assume "parent_chan t i = Some (p, c)"
    then have "tn_parent (node_at t i) = Some p" "c = unat (tn_array_index (node_at t i))"
      by (auto simp: parent_chan_def split: option.splits)
    then show "p < topo_nodes t \<and> child_at t p c = Some i" using t assms(2) by (auto simp: topo_links_def)
  next
    assume "p < topo_nodes t \<and> child_at t p c = Some i"
    then show "parent_chan t i = Some (p, c)" using child_at_parent[OF t] by (auto simp: parent_chan_def)
  qed
qed

lemma child_at_kids: "child_at t p c = Some j \<Longrightarrow> c < kids t p"
  by (simp add: kids_def child_at_less)

context polled_channel
begin

lemma effect_refused:
  assumes "L' = L(q := s)" "inv s" "pending d s = pending d (L q)" "pending (\<not> d) s = pending (\<not> d) (L q)"
  shows "effect_ok inv pending Nop L L'"
proof -
  have "pending e s = pending e (L q)" for e using assms(3,4) by (cases "e = d") auto
  then show ?thesis using assms(1,2) by simp
qed

text \<open>A notification received, and one sent, by the node \<open>i\<close>.\<close>

lemma recv_notification_step:
  assumes "inv (L q)" "code_step snd_op rcv_op can_op i (Call (Chan_recv_notification q) k) L = (c', L')"
    and "d = (i \<noteq> fst q)"
  shows "if pending d (L q) \<noteq> [] then c' = k (Err (errval SMLT_SUCCESS)) \<and> effect_ok inv pending (Took q d) L L'
         else c' = Call (Chan_recv_notification q) k \<and> effect_ok inv pending Nop L L'"
proof -
  obtain a where a: "answer i (Chan_recv_notification q) L = (a, L')"
    and c': "c' = (case a of None \<Rightarrow> Call (Chan_recv_notification q) k | Some a \<Rightarrow> k a)"
    using assms(2) by (auto split: prod.splits option.splits)
  show ?thesis
  proof (rule answer_recv_notification[OF assms(1) a])
    fix s
    assume "L' = L(q := s)" "inv s" "pending (i = fst q) s = pending (i = fst q) (L q)"
      "(\<exists>x. a = Some (Err (errval SMLT_SUCCESS)) \<and> pending (i \<noteq> fst q) (L q) = x # pending (i \<noteq> fst q) s) \<or>
       a = None \<and> pending (i \<noteq> fst q) s = [] \<and> pending (i \<noteq> fst q) (L q) = []"
    moreover from this have "a = None \<Longrightarrow> effect_ok inv pending Nop L L'"
      using effect_refused[of L' L q s "i \<noteq> fst q"] by auto
    ultimately show ?thesis by (auto simp: c' assms(3) simp del: effect_ok.simps(1))
  qed
qed

lemma notify_step:
  assumes "inv (L q)" "good []" "code_step snd_op rcv_op can_op i (Call (Chan_notify q) k) L = (c', L')"
    and "d = (i = fst q)" "pending d (L q) = []"
  shows "c' = k (Err (errval SMLT_SUCCESS)) \<and> effect_ok inv pending (Put q d) L L'"
proof -
  obtain a where a: "answer i (Chan_notify q) L = (a, L')"
    and c': "c' = (case a of None \<Rightarrow> Call (Chan_notify q) k | Some a \<Rightarrow> k a)"
    using assms(3) by (auto split: prod.splits option.splits)
  show ?thesis
  proof (rule answer_notify[OF assms(1,2) a])
    fix s
    assume "L' = L(q := s)" "inv s" "pending (i \<noteq> fst q) s = pending (i \<noteq> fst q) (L q)"
      "a = Some (Err (errval SMLT_SUCCESS)) \<and> pending (i = fst q) s = pending (i = fst q) (L q) @ [[]] \<or>
       a = None \<and> pending (i = fst q) s = pending (i = fst q) (L q) \<and> pending (i = fst q) (L q) \<noteq> []"
    then show ?thesis using assms(4,5) by (auto simp: c')
  qed
qed

lemma barrier_poll_step:
  assumes wf: "stage_wf t i \<sigma>" and \<sigma>: "\<sigma> = Collecting (Polling_child recv num k ())"
    and down: "\<And>c. c < kids t i \<Longrightarrow> inv (L (i, c))"
    and step: "code_step snd_op rcv_op can_op i (stage_code t i \<sigma>) L = (c', L')"
    and \<sigma>': "\<sigma>' = stage_next t i (\<lambda>q d. pending d (L q) \<noteq> []) \<sigma>"
  shows "\<exists>e. c' = stage_code t i \<sigma>' \<and> stage_move t i \<sigma> e \<sigma>' \<and> effect_ok inv pending e L L'"
proof -
  let ?f = "reduce_notify_step i (kids t i) (report_code t i)"
  have w: "num < kids t i" and k: "k < kids t i" using wf \<sigma> by simp_all
  consider "recv ! k" | "\<not> recv ! k" "pending False (L (i, k)) \<noteq> []" | "\<not> recv ! k" "pending False (L (i, k)) = []" by blast
  then show ?thesis
  proof cases
    case 1
    then have "c' = stage_code t i \<sigma>'" "L' = L"
      using step w \<sigma> by (simp_all add: \<sigma>' after_reduce_def loop_code_simps(2)[of ?f])
    moreover have "stage_move t i \<sigma> Nop \<sigma>'" using poll_next[OF w, of recv k] 1 by (simp add: \<sigma> \<sigma>')
    moreover have "effect_ok inv pending Nop L L" by simp
    ultimately show ?thesis by blast
  next
    case 2
    then have "c' = stage_code t i \<sigma>'" "L' = L"
      using step w \<sigma> can[OF down[OF k]] by (auto simp: \<sigma>' after_reduce_def loop_code_simps(3)[of ?f])
    moreover have "stage_move t i \<sigma> (Saw (i, k)) \<sigma>'" using poll_yes[OF w 2(1)] 2 by (simp add: \<sigma> \<sigma>')
    moreover have "effect_ok inv pending (Saw (i, k)) L L" using 2 by simp
    ultimately show ?thesis by blast
  next
    case 3
    then have "c' = stage_code t i \<sigma>'" "L' = L"
      using step w \<sigma> can[OF down[OF k]] by (auto simp: \<sigma>' after_reduce_def loop_code_simps(3)[of ?f])
    moreover have "stage_move t i \<sigma> Nop \<sigma>'" using poll_next[OF w, of recv k] 3 by (simp add: \<sigma> \<sigma>')
    moreover have "effect_ok inv pending Nop L L" by simp
    ultimately show ?thesis by blast
  qed
qed

lemma barrier_take_step:
  assumes wf: "stage_wf t i \<sigma>" and \<sigma>: "\<sigma> = Collecting (Taking recv num k u)"
    and down: "\<And>c. c < kids t i \<Longrightarrow> inv (L (i, c))"
    and step: "code_step snd_op rcv_op can_op i (stage_code t i \<sigma>) L = (c', L')"
    and \<sigma>': "\<sigma>' = stage_next t i (\<lambda>q d. pending d (L q) \<noteq> []) \<sigma>"
  shows "\<exists>e. c' = stage_code t i \<sigma>' \<and> stage_move t i \<sigma> e \<sigma>' \<and> effect_ok inv pending e L L'"
proof -
  let ?f = "reduce_notify_step i (kids t i) (report_code t i)"
  let ?n = "collect_stage t i (recv[k := True]) (num + 1) (next_child (kids t i) k)"
  have w: "k < kids t i" using wf \<sigma> by simp
  let ?k = "\<lambda>a. after_reduce t i (loop_code ?f (if smlt_err_is_fail (ans_err a) then Stopped (ans_err a) ()
       else Polling_child (recv[k := True]) (num + 1) (next_child (kids t i) k) ()))"
  have code: "stage_code t i \<sigma> = Call (Chan_recv_notification (i, k)) ?k"
    using \<sigma> by (simp add: after_reduce_def loop_code_simps(3)[of ?f])
  have k: "?k (Err (errval SMLT_SUCCESS)) = stage_code t i ?n" by (simp add: collect_stage_code smlt_err_is_fail_errval)
  have move: "stage_move t i \<sigma> (Took (i, k) False) ?n" using take[of t i recv num k] \<sigma> by simp
  have "\<sigma>' = (if pending False (L (i, k)) \<noteq> [] then ?n else \<sigma>)" using \<sigma> by (simp add: \<sigma>')
  moreover have "False = (i \<noteq> fst (i, k))" by simp
  from recv_notification_step[OF down[OF w] step[unfolded code] this]
  have "if pending False (L (i, k)) \<noteq> [] then c' = stage_code t i ?n \<and> effect_ok inv pending (Took (i, k) False) L L'
    else c' = stage_code t i \<sigma> \<and> effect_ok inv pending Nop L L'"
    unfolding k code[symmetric] .
  ultimately show ?thesis using move stay by (metis (full_types))
qed

lemma barrier_report_step:
  assumes q: "parent_chan t i = Some q" "inv (L q)" "fst q \<noteq> i" "pending False (L q) = []" and good: "good []"
    and step: "code_step snd_op rcv_op can_op i (stage_code t i Reporting) L = (c', L')"
  shows "\<exists>e. c' = stage_code t i Awaiting \<and> stage_move t i Reporting e Awaiting \<and> effect_ok inv pending e L L'"
proof -
  have code: "stage_code t i Reporting = Call (Chan_notify q) (\<lambda>_. stage_code t i Awaiting)"
    using q(1) by (simp add: after_reduce_def report_code_def Notify_def smlt_err_is_fail_errval)
  have "False = (i = fst q)" using q(3) by auto
  from notify_step[OF q(2) good step[unfolded code] this q(4)] show ?thesis using report[OF q(1)] by blast
qed

lemma barrier_await_step:
  assumes q: "parent_chan t i = Some q" "inv (L q)" "fst q \<noteq> i"
    and step: "code_step snd_op rcv_op can_op i (stage_code t i Awaiting) L = (c', L')"
    and \<sigma>': "\<sigma>' = stage_next t i (\<lambda>q d. pending d (L q) \<noteq> []) Awaiting"
  shows "\<exists>e. c' = stage_code t i \<sigma>' \<and> stage_move t i Awaiting e \<sigma>' \<and> effect_ok inv pending e L L'"
proof -
  let ?k = "\<lambda>a. if smlt_err_is_fail (ans_err a) then Return (errval SMLT_ERR) else stage_code t i (Releasing 0)"
  have code: "stage_code t i Awaiting = Call (Chan_recv_notification q) ?k"
    using q(1) by (simp add: await_code_def Recv_notification_def cong: if_cong)
  have k: "?k (Err (errval SMLT_SUCCESS)) = stage_code t i (Releasing 0)" by (simp add: smlt_err_is_fail_errval)
  have "\<sigma>' = (if pending True (L q) \<noteq> [] then Releasing 0 else Awaiting)" using q(1) by (simp add: \<sigma>')
  moreover have "True = (i \<noteq> fst q)" using q(3) by auto
  from recv_notification_step[OF q(2) step[unfolded code] this]
  have "if pending True (L q) \<noteq> [] then c' = stage_code t i (Releasing 0) \<and> effect_ok inv pending (Took q True) L L'
    else c' = stage_code t i Awaiting \<and> effect_ok inv pending Nop L L'"
    unfolding k code[symmetric] .
  ultimately show ?thesis using hear[OF q(1)] stay by (metis (full_types))
qed

lemma barrier_release_step:
  assumes c: "c < kids t i" "inv (L (i, c))" "pending True (L (i, c)) = []" and good: "good []"
    and step: "code_step snd_op rcv_op can_op i (stage_code t i (Releasing c)) L = (c', L')"
  shows "\<exists>e. c' = stage_code t i (Releasing (c + 1)) \<and> stage_move t i (Releasing c) e (Releasing (c + 1)) \<and> effect_ok inv pending e L L'"
proof -
  obtain m where m: "kids t i - c = Suc m" "kids t i - Suc c = m" using c(1) by (metis Suc_diff_Suc)
  let ?k = "\<lambda>a. if \<not> smlt_err_is_ok (ans_err a) then Abort else stage_code t i (Releasing (c + 1))"
  have code: "stage_code t i (Releasing c) = Call (Chan_notify (i, c)) ?k"
    using m by (simp add: release_code_def Notify_def cong: if_cong)
  have k: "?k (Err (errval SMLT_SUCCESS)) = stage_code t i (Releasing (c + 1))" by (simp add: smlt_err_is_ok_errval)
  have "True = (i = fst (i, c))" by simp
  from notify_step[OF c(2) good step[unfolded code] this c(3)]
  have "c' = stage_code t i (Releasing (c + 1)) \<and> effect_ok inv pending (Put (i, c) True) L L'" unfolding k .
  then show ?thesis using release[OF c(1)] by blast
qed

lemma barrier_stage_step:
  assumes wf: "stage_wf t i \<sigma>" and up: "\<And>q. parent_chan t i = Some q \<Longrightarrow> inv (L q) \<and> fst q \<noteq> i"
    and down: "\<And>c. c < kids t i \<Longrightarrow> inv (L (i, c))" and good: "good []"
    and room: "\<And>q. \<sigma> = Reporting \<Longrightarrow> parent_chan t i = Some q \<Longrightarrow> pending False (L q) = []"
      "\<And>c. \<sigma> = Releasing c \<Longrightarrow> c < kids t i \<Longrightarrow> pending True (L (i, c)) = []"
    and step: "code_step snd_op rcv_op can_op i (stage_code t i \<sigma>) L = (c', L')"
    and \<sigma>': "\<sigma>' = stage_next t i (\<lambda>q d. pending d (L q) \<noteq> []) \<sigma>"
  shows "\<exists>e. c' = stage_code t i \<sigma>' \<and> stage_move t i \<sigma> e \<sigma>' \<and> effect_ok inv pending e L L'"
proof (cases \<sigma>)
  case (Collecting st)
  show ?thesis
  proof (cases st)
    case (Polling_child recv num k u)
    then show ?thesis using barrier_poll_step[OF wf _ down step \<sigma>'] Collecting by simp
  next
    case (Taking recv num k u)
    then show ?thesis using barrier_take_step[OF wf _ down step \<sigma>'] Collecting by simp
  qed (use wf Collecting in simp)
next
  case Reporting
  then obtain q where q: "parent_chan t i = Some q" using wf by auto
  then show ?thesis
    using barrier_report_step[OF q _ _ room(1)[OF Reporting q] good step[unfolded Reporting]] up[OF q] Reporting by (simp add: \<sigma>')
next
  case Awaiting
  then obtain q where q: "parent_chan t i = Some q" using wf by auto
  then show ?thesis using barrier_await_step[OF q _ _ step[unfolded Awaiting] \<sigma>'[unfolded Awaiting]] up[OF q] Awaiting by simp
next
  case (Releasing c)
  show ?thesis
  proof (cases "c < kids t i")
    case True
    from barrier_release_step[OF this down[OF this] room(2)[OF Releasing this] good step[unfolded Releasing]]
    show ?thesis using Releasing True by (simp add: \<sigma>')
  next
    case False
    then have "c' = stage_code t i \<sigma>" "L' = L" "\<sigma>' = \<sigma>" using step Releasing by (auto simp: release_code_def \<sigma>')
    then show ?thesis using stay[of t i \<sigma>] by (intro exI[of _ Nop]) auto
  qed
qed

lemma barrier_inv_enter:
  assumes t: "topo_wf t" and I: "barrier_inv inv pending t S s" and i: "i < topo_nodes t" "S i = None"
  shows "barrier_inv inv pending t (S(i \<mapsto> first_stage t i)) (s\<lparr>net_code := (net_code s)(i \<mapsto> stage_code t i (first_stage t i))\<rparr>)"
proof -
  have wf: "stage_wf t i (first_stage t i)"
    unfolding first_stage_def by (intro collect_stage_wf) simp_all
  have down: "\<not> seen (first_stage t i) c \<and> \<not> released (first_stage t i) c \<and> \<not> taking (first_stage t i) c" if "c < kids t i" for c
    using seen_collect_stage[of "replicate (kids t i) False" t i 0 c 0] that
    by (simp add: first_stage_def collect_stage_def)
  have up: "\<not> reported (first_stage t i) \<and> \<not> received (first_stage t i)" if "parent_chan t i \<noteq> None"
    using that by (auto simp: first_stage_def collect_stage_def)
  have "edge_ok inv pending (has (\<lambda>\<sigma>. taking \<sigma> c) ((S(i \<mapsto> first_stage t i)) p))
      (has (\<lambda>\<sigma>. seen \<sigma> c) ((S(i \<mapsto> first_stage t i)) p)) (has (\<lambda>\<sigma>. released \<sigma> c) ((S(i \<mapsto> first_stage t i)) p))
      (has reported ((S(i \<mapsto> first_stage t i)) j)) (has received ((S(i \<mapsto> first_stage t i)) j)) (net_links s (p, c))"
    if e: "p < topo_nodes t" "child_at t p c = Some j" for p c j
  proof -
    have old: "edge_ok inv pending (has (\<lambda>\<sigma>. taking \<sigma> c) (S p)) (has (\<lambda>\<sigma>. seen \<sigma> c) (S p)) (has (\<lambda>\<sigma>. released \<sigma> c) (S p)) (has reported (S j)) (has received (S j))
        (net_links s (p, c))" using I e by (simp add: barrier_inv_def)
    have "has (\<lambda>\<sigma>. seen \<sigma> c) ((S(i \<mapsto> first_stage t i)) p) = has (\<lambda>\<sigma>. seen \<sigma> c) (S p)"
      "has (\<lambda>\<sigma>. taking \<sigma> c) ((S(i \<mapsto> first_stage t i)) p) = has (\<lambda>\<sigma>. taking \<sigma> c) (S p)"
      "has (\<lambda>\<sigma>. released \<sigma> c) ((S(i \<mapsto> first_stage t i)) p) = has (\<lambda>\<sigma>. released \<sigma> c) (S p)"
      using down[of c] child_at_kids[OF e(2)] i(2) by auto
    moreover have "has reported ((S(i \<mapsto> first_stage t i)) j) = has reported (S j)"
      "has received ((S(i \<mapsto> first_stage t i)) j) = has received (S j)"
      using up parent_chan_iff[OF t i(1), of p c] e i(2) by auto
    ultimately show ?thesis using old by simp
  qed
  then show ?thesis using I i wf by (auto simp: barrier_inv_def)
qed

lemma barrier_inv_step:
  assumes t: "topo_wf t" and I: "barrier_inv inv pending t S s" and i: "i < topo_nodes t" "S i = Some \<sigma>"
    and move: "stage_move t i \<sigma> e \<sigma>'" and eff: "effect_ok inv pending e (net_links s) L'"
  shows "barrier_inv inv pending t (S(i \<mapsto> \<sigma>')) (s\<lparr>net_links := L', net_code := (net_code s)(i \<mapsto> stage_code t i \<sigma>')\<rparr>)"
proof -
  have wf: "stage_wf t i \<sigma>" using I i by (simp add: barrier_inv_def)
  have self: "parent_chan t i \<noteq> Some (i, c)" for c
    using parent_not_self[OF t i(1)] by (auto simp: parent_chan_def split: option.splits)
  have "edge_ok inv pending (has (\<lambda>\<sigma>. taking \<sigma> c) ((S(i \<mapsto> \<sigma>')) p)) (has (\<lambda>\<sigma>. seen \<sigma> c) ((S(i \<mapsto> \<sigma>')) p)) (has (\<lambda>\<sigma>. released \<sigma> c) ((S(i \<mapsto> \<sigma>')) p))
      (has reported ((S(i \<mapsto> \<sigma>')) j)) (has received ((S(i \<mapsto> \<sigma>')) j)) (L' (p, c))"
    if e: "p < topo_nodes t" "child_at t p c = Some j" for p c j
  proof -
    have old: "edge_ok inv pending (has (\<lambda>\<sigma>. taking \<sigma> c) (S p)) (has (\<lambda>\<sigma>. seen \<sigma> c) (S p)) (has (\<lambda>\<sigma>. released \<sigma> c) (S p)) (has reported (S j)) (has received (S j))
        (net_links s (p, c))" using I e by (simp add: barrier_inv_def)
    have j: "j < topo_nodes t" using child_at_parent(1)[OF _ e] t by (simp add: topo_wf_def)
    have pj: "parent_chan t j = Some (p, c)" using parent_chan_iff[OF t j] e by blast
    have "p \<noteq> j" using self pj i parent_not_self[OF t j] by (auto simp: parent_chan_def split: option.splits)
    consider "i = p" | "i = j" "i \<noteq> p" | "i \<noteq> p" "i \<noteq> j" by blast
    then show ?thesis
    proof cases
      case 1
      then have "c < kids t i" using child_at_kids[OF e(2)] by simp
      then show ?thesis
        using stage_move_down[OF move wf self] 1 \<open>p \<noteq> j\<close> i(2) by (intro edge_ok_step[OF old eff]) auto
    next
      case 2
      then show ?thesis
        using stage_move_up[OF move wf self, of "(p, c)"] pj i(2) by (intro edge_ok_step[OF old eff]) auto
    next
      case 3
      have "parent_chan t i \<noteq> Some (p, c)" using parent_chan_iff[OF t i(1), of p c] e 3 by auto
      then have "e \<noteq> Took (p, c) d \<and> e \<noteq> Put (p, c) d \<and> e \<noteq> Saw (p, c)" for d
        using stage_move_effect(5)[OF move wf self, of "(p, c)" d] stage_move_saw[OF move, of "(p, c)"] 3 by auto
      then show ?thesis using 3 by (intro edge_ok_step[OF old eff]) auto
    qed
  qed
  then show ?thesis using I i stage_move_wf[OF move wf] by (auto simp: barrier_inv_def)
qed

lemma barrier_inv_move:
  assumes t: "topo_wf t" and I: "barrier_inv inv pending t S s" and i: "i < topo_nodes t" and good: "good []"
    and prog: "prog i = stage_code t i (first_stage t i)"
  shows "barrier_inv inv pending t
    (S(i \<mapsto> case S i of None \<Rightarrow> first_stage t i
           | Some \<sigma> \<Rightarrow> stage_next t i (\<lambda>q d. pending d (net_links s q) \<noteq> []) \<sigma>))
    (net_move snd_op rcv_op can_op prog i s)"
proof (cases "S i")
  case None
  then have "net_code s i = None" using I i by (simp add: barrier_inv_def)
  then show ?thesis using barrier_inv_enter[OF t I i None] None by (simp add: net_move_def prog)
next
  case (Some \<sigma>)
  then have code: "net_code s i = Some (stage_code t i \<sigma>)" and wf: "stage_wf t i \<sigma>"
    using I i by (simp_all add: barrier_inv_def)
  obtain c' L' where step: "code_step snd_op rcv_op can_op i (stage_code t i \<sigma>) (net_links s) = (c', L')" by fastforce
  have edge: "inv (net_links s (p, c))" "\<not> has reported (S j) \<Longrightarrow> pending False (net_links s (p, c)) = []"
    "\<not> has (\<lambda>\<sigma>. released \<sigma> c) (S p) \<Longrightarrow> pending True (net_links s (p, c)) = []"
    if "p < topo_nodes t" "child_at t p c = Some j" for p c j
    using I that unfolding barrier_inv_def edge_ok_def by auto
  have up: "inv (net_links s q) \<and> fst q \<noteq> i" if "parent_chan t i = Some q" for q
    using that edge(1) parent_chan_iff[OF t i, of "fst q" "snd q"] parent_not_self[OF t i]
    by (auto simp: parent_chan_def split: option.splits)
  have child: "\<exists>j. child_at t i c = Some j" if c: "c < kids t i" for c
    using child_at_ex[OF _ i, of c] t c unfolding topo_wf_def kids_def by metis
  have down: "inv (net_links s (i, c))" if "c < kids t i" for c using child[OF that] edge(1)[OF i] by blast
  have room: "pending False (net_links s q) = []" if "\<sigma> = Reporting" "parent_chan t i = Some q" for q
    using edge(2)[of "fst q" "snd q" i] parent_chan_iff[OF t i, of "fst q" "snd q"] that Some by simp
  have room': "pending True (net_links s (i, c)) = []" if "\<sigma> = Releasing c" "c < kids t i" for c
    using child[OF that(2)] edge(3)[OF i] Some that(1) by auto
  define \<sigma>' where "\<sigma>' = stage_next t i (\<lambda>q d. pending d (net_links s q) \<noteq> []) \<sigma>"
  obtain e where "c' = stage_code t i \<sigma>'" "stage_move t i \<sigma> e \<sigma>'" "effect_ok inv pending e (net_links s) L'"
    using barrier_stage_step[OF wf up down good room room' step \<sigma>'_def] by blast
  then show ?thesis
    using barrier_inv_step[OF t I i Some] step code Some by (auto simp: net_move_def \<sigma>'_def)
qed

end

section \<open>Nobody leaves before everybody has entered\<close>

text \<open>A node is past the collecting once it has heard all of its children.\<close>

fun collected :: "stage \<Rightarrow> bool" where
  "collected (Collecting st) \<longleftrightarrow> False"
| "collected _ \<longleftrightarrow> True"

lemma stage_implications:
  "reported \<sigma> \<Longrightarrow> collected \<sigma>" "received \<sigma> \<Longrightarrow> collected \<sigma>" "released \<sigma> c \<Longrightarrow> received \<sigma>" "collected \<sigma> \<Longrightarrow> seen \<sigma> c"
  by (cases \<sigma>; simp)+

lemma has_mono: "has f S \<Longrightarrow> (\<And>\<sigma>. f \<sigma> \<Longrightarrow> g \<sigma>) \<Longrightarrow> has g S"
  by (cases S) simp_all

lemma barrier_edge:
  assumes "barrier_inv ok pending t S s" "p < topo_nodes t" "child_at t p c = Some i"
  shows "has (\<lambda>\<sigma>. seen \<sigma> c) (S p) \<Longrightarrow> has reported (S i)" "has received (S i) \<Longrightarrow> has (\<lambda>\<sigma>. released \<sigma> c) (S p)"
  using assms unfolding barrier_inv_def edge_ok_def by blast+

lemma topo_edge:
  assumes "topo_wf t" "i < topo_nodes t" "tn_parent (node_at t i) = Some p"
  obtains c where "child_at t p c = Some i"
  using assms unfolding topo_wf_def topo_links_def by blast

lemma barrier_all_entered:
  assumes t: "topo_wf t" and I: "barrier_inv ok pending t S s" and i: "i < topo_nodes t" "has received (S i)"
    and j: "j < topo_nodes t"
  shows "has collected (S j)"
proof -
  obtain r where r: "tp_root t = Some r" using t by (auto simp: topo_wf_def topo_rooted_def)
  have "has received (S i) \<longrightarrow> has received (S r)"
    using t i(1)
  proof (induction rule: topo_induct)
    case (child i p)
    obtain c where c: "child_at t p c = Some i" using topo_edge[OF t child(1,3)] .
    have "has received (S p)" if "has received (S i)"
      using barrier_edge(2)[OF I child(2) c that] by (rule has_mono) (rule stage_implications(3))
    then show ?case using child(4) by blast
  qed (use r in simp)
  then have top: "has received (S r)" using i(2) by blast
  show ?thesis
    using t j
  proof (induction rule: topo_induct)
    case (root r')
    then show ?case using has_mono[OF top stage_implications(2)] r by simp
  next
    case (child i p)
    obtain c where c: "child_at t p c = Some i" using topo_edge[OF t child(1,3)] .
    have "has (\<lambda>\<sigma>. seen \<sigma> c) (S p)" by (rule has_mono[OF child(4) stage_implications(4)])
    then have "has reported (S i)" by (rule barrier_edge(1)[OF I child(2) c])
    then show ?case by (rule has_mono) (rule stage_implications(1))
  qed
qed

lemma stage_code_returns:
  assumes "stage_code t i \<sigma> = Return r" "stage_wf t i \<sigma>"
  shows "r = errval SMLT_SUCCESS" "\<sigma> = Releasing (kids t i)"
proof -
  have "r = errval SMLT_SUCCESS \<and> \<sigma> = Releasing (kids t i)"
  proof (cases \<sigma>)
    case (Collecting st)
    let ?f = "reduce_notify_step i (kids t i) (report_code t i)"
    show ?thesis
    proof (cases st)
      case (Polling_child recv num k u)
      then show ?thesis
        using assms Collecting
        by (cases "recv ! k") (auto simp: after_reduce_def loop_code_simps(2,3)[of ?f])
    qed (use assms Collecting in \<open>auto simp: after_reduce_def loop_code_simps(3)[of ?f]\<close>)
  next
    case (Releasing c)
    then show ?thesis
      using assms by (cases "kids t i - c") (auto simp: release_code_def Notify_def)
  qed (use assms in \<open>auto simp: after_reduce_def report_code_def await_code_def Notify_def Recv_notification_def\<close>)
  then show "r = errval SMLT_SUCCESS" "\<sigma> = Releasing (kids t i)" by simp_all
qed

context polled_channel
begin

text \<open>Channels that hold nothing.\<close>

definition tree_idle :: "smlt_topology \<Rightarrow> 's links \<Rightarrow> bool" where
  "tree_idle t L \<longleftrightarrow>
     (\<forall>p < topo_nodes t. \<forall>c j. child_at t p c = Some j \<longrightarrow> inv (L (p, c)) \<and> (\<forall>d. pending d (L (p, c)) = []))"

lemma barrier_reach:
  assumes "topo_wf t" "context_of t ctx" "tree_idle t L" "good []" "set is \<subseteq> {..<topo_nodes t}"
  shows "\<exists>S. barrier_inv inv pending t S
               (net_run snd_op rcv_op can_op (\<lambda>i. smlt_barrier_wait ctx (of_nat i)) is (net_start L))"
proof (rule net_run_invariant[where I = "\<lambda>s. \<exists>S. barrier_inv inv pending t S s"])
  show "\<exists>S. barrier_inv inv pending t S (net_start L)"
    using assms(3) by (intro exI[of _ "\<lambda>_. None"]) (simp add: barrier_inv_def net_start_def edge_ok_def tree_idle_def)
  fix i s
  assume "i \<in> set is" and s: "\<exists>S. barrier_inv inv pending t S s"
  then have "i < topo_nodes t" using assms(5) by blast
  then show "\<exists>S. barrier_inv inv pending t S
      (net_move snd_op rcv_op can_op (\<lambda>i. smlt_barrier_wait ctx (of_nat i)) i s)"
    using s barrier_inv_move[OF assms(1) _ _ assms(4), where prog = "\<lambda>i. smlt_barrier_wait ctx (of_nat i)"]
      smlt_barrier_wait_code[OF assms(1,2)] by blast
qed

lemma barrier_safe:
  assumes "topo_wf t" "context_of t ctx" "tree_idle t L" "good []" "set is \<subseteq> {..<topo_nodes t}"
    and "s = net_run snd_op rcv_op can_op (\<lambda>i. smlt_barrier_wait ctx (of_nat i)) is (net_start L)"
    and "i < topo_nodes t" "returned s i r"
  shows "r = errval SMLT_SUCCESS \<and> (\<forall>j < topo_nodes t. entered s j)"
proof -
  obtain S where I: "barrier_inv inv pending t S s" using barrier_reach[OF assms(1-5)] assms(6) by blast
  have codes: "\<forall>j < topo_nodes t. net_code s j = map_option (stage_code t j) (S j) \<and> (\<forall>\<sigma>. S j = Some \<sigma> \<longrightarrow> stage_wf t j \<sigma>)"
    using I by (simp add: barrier_inv_def)
  then obtain \<sigma> where \<sigma>: "S i = Some \<sigma>" "stage_code t i \<sigma> = Return r" "stage_wf t i \<sigma>"
    using assms(7,8) by (auto simp: returned_def)
  have "has received (S i)" using stage_code_returns(2)[OF \<sigma>(2,3)] \<sigma>(1) by simp
  then have "has collected (S j)" if "j < topo_nodes t" for j using barrier_all_entered[OF assms(1) I assms(7) _ that] by blast
  then have "entered s j" if "j < topo_nodes t" for j
    using that codes by (cases "S j") (force simp: entered_def)+
  then show ?thesis using stage_code_returns(1)[OF \<sigma>(2,3)] by blast
qed

end

end
