(* ===== verification/Barrier_Live.thy ===== *)
theory Barrier_Live
  imports Barrier_Tree
begin

text \<open>
  The tree barrier does not deadlock: from every state that the nodes can get into, some schedule brings
  all of them out of the barrier. Every node has a rank that its useful moves lower; while some node is
  inside, some node can make a useful move, if only after polling its children for a while.
\<close>

section \<open>Induction from the leaves\<close>

definition depth :: "smlt_topology \<Rightarrow> nat \<Rightarrow> nat" where
  "depth t i = (LEAST k. ancestor t k i = tp_root t)"

lemma depth_child:
  assumes "topo_wf t" "i < topo_nodes t" "tn_parent (node_at t i) = Some p"
  shows "depth t i = Suc (depth t p)"
proof -
  obtain r k where r: "tp_root t = Some r" "tn_parent (node_at t r) = None" and k: "ancestor t k i = Some r"
    using assms(1,2) by (auto simp: topo_wf_def topo_rooted_def)
  have "ancestor t 0 i \<noteq> Some r" using r assms(3) by auto
  from Least_Suc[of "\<lambda>k. ancestor t k i = Some r", OF k this] show ?thesis
    using assms(3) by (simp add: depth_def r)
qed

lemma topo_induct_up [consumes 2, case_names node]:
  assumes t: "topo_wf t" and i: "i < topo_nodes t"
    and node: "\<And>i. i < topo_nodes t \<Longrightarrow> (\<And>c j. child_at t i c = Some j \<Longrightarrow> P j) \<Longrightarrow> P i"
  shows "P i"
proof -
  obtain B where B: "\<And>j. j < topo_nodes t \<Longrightarrow> depth t j \<le> B"
    using finite_nat_set_iff_bounded_le[of "depth t ` {..<topo_nodes t}"] by auto
  show ?thesis
    using i
  proof (induction "B - depth t i" arbitrary: i rule: less_induct)
    case less
    show ?case
    proof (rule node[OF less.prems])
      fix c j
      assume c: "child_at t i c = Some j"
      then have j: "j < topo_nodes t" "tn_parent (node_at t j) = Some i"
        using child_at_parent[OF _ less.prems c] t by (simp_all add: topo_wf_def)
      then have "depth t j = Suc (depth t i)" using depth_child[OF t] by blast
      then show "P j" using less.hyps[of j] B[OF j(1)] j(1) by simp
    qed
  qed
qed

section \<open>Ranks\<close>

fun stage_rank :: "nat \<Rightarrow> stage option \<Rightarrow> nat" where
  "stage_rank m None = 2 * m + 4"
| "stage_rank m (Some (Collecting (Polling_child recv num k _))) = 2 * m + 3 - num"
| "stage_rank m (Some (Collecting (Taking recv num k _))) = 2 * m + 3 - num"
| "stage_rank m (Some (Collecting (Stopped _ _))) = 2 * m + 3"
| "stage_rank m (Some Reporting) = m + 2"
| "stage_rank m (Some Awaiting) = m + 1"
| "stage_rank m (Some (Releasing c)) = m - c"

definition net_rank :: "smlt_topology \<Rightarrow> (nat \<Rightarrow> stage option) \<Rightarrow> nat" where
  "net_rank t S = (\<Sum>i < topo_nodes t. stage_rank (kids t i) (S i))"

lemma net_rank_less:
  assumes "i < topo_nodes t" "stage_rank (kids t i) \<sigma> < stage_rank (kids t i) (S i)"
  shows "net_rank t (S(i := \<sigma>)) < net_rank t S"
  unfolding net_rank_def
  by (rule sum_strict_mono_ex1) (use assms in \<open>auto intro!: bexI[of _ i]\<close>)

lemma rank_collect_stage:
  assumes "num < kids t i"
  shows "stage_rank (kids t i) (Some (collect_stage t i recv (num + 1) k)) < 2 * kids t i + 3 - num"
  using assms by (auto simp: collect_stage_def)

lemma rank_first_stage: "stage_rank (kids t i) (Some (first_stage t i)) < 2 * kids t i + 4"
  by (auto simp: first_stage_def collect_stage_def)

lemma next_child_pow:
  assumes "k < m" "c < m"
  shows "\<exists>d. (next_child m ^^ d) k = c"
proof -
  have mod: "(next_child m ^^ d) k = (k + d) mod m" for d
  proof (induction d)
    case 0
    then show ?case using assms(1) by simp
  next
    case (Suc d)
    have "next_child m x = (x + 1) mod m" if "x < m" for x
      using that by (auto simp: next_child_def)
    then show ?case using Suc assms(1) by (simp add: mod_Suc_eq)
  qed
  have "(k + (c + m - k)) mod m = c" using assms by simp
  then show ?thesis by (intro exI[of _ "c + m - k"]) (simp only: mod)
qed

lemma net_rank_same:
  assumes "stage_rank (kids t i) \<sigma> = stage_rank (kids t i) (S i)"
  shows "net_rank t (S(i := \<sigma>)) = net_rank t S"
  unfolding net_rank_def by (rule sum.cong) (use assms in auto)

lemma unseen_child:
  assumes "length (filter id xs) < length xs"
  obtains c where "c < length xs" "\<not> xs ! c"
  using assms by (metis filter_id_conv id_apply in_set_conv_nth less_irrefl)

section \<open>Some node can always go on\<close>

context polled_channel
begin

definition progress :: "(nat \<Rightarrow> errval_t code) \<Rightarrow> smlt_topology \<Rightarrow> (nat \<Rightarrow> stage option) \<Rightarrow> ('s, errval_t) net \<Rightarrow> bool" where
  "progress prog t S s \<longleftrightarrow>
     (\<exists>is S'. set is \<subseteq> {..<topo_nodes t} \<and> barrier_inv inv pending t S' (net_run snd_op rcv_op can_op prog is s) \<and>
              net_rank t S' < net_rank t S)"

lemma progress_later:
  assumes "progress prog t S' (net_move snd_op rcv_op can_op prog i s)" "i < topo_nodes t" "net_rank t S' = net_rank t S"
  shows "progress prog t S s"
proof -
  obtain "is" S'' where "set is \<subseteq> {..<topo_nodes t}" "net_rank t S'' < net_rank t S'"
    "barrier_inv inv pending t S'' (net_run snd_op rcv_op can_op prog is (net_move snd_op rcv_op can_op prog i s))"
    using assms(1) unfolding progress_def by blast
  then show ?thesis unfolding progress_def using assms(2,3) by (intro exI[of _ "i # is"] exI[of _ S'']) simp
qed

lemma progress_now:
  assumes "barrier_inv inv pending t (S(i := \<sigma>)) (net_move snd_op rcv_op can_op prog i s)" "i < topo_nodes t"
    and "stage_rank (kids t i) \<sigma> < stage_rank (kids t i) (S i)"
  shows "progress prog t S s"
  unfolding progress_def
  by (rule exI[of _ "[i]"], rule exI[of _ "S(i := \<sigma>)"]) (use assms net_rank_less[of i t \<sigma> S] in simp)

lemma take_progress:
  assumes t: "topo_wf t" "good []" and prog: "\<forall>i < topo_nodes t. prog i = stage_code t i (first_stage t i)"
    and I: "barrier_inv inv pending t S s" and i: "i < topo_nodes t" "S i = Some (Collecting (Taking recv num k ()))"
  shows "progress prog t S s"
proof -
  have wf: "num < kids t i" "k < kids t i" "\<not> recv ! k" using I i by (auto simp: barrier_inv_def)
  obtain j where j: "child_at t i k = Some j"
    using child_at_ex[OF _ i(1), of k] t(1) wf(2) unfolding topo_wf_def kids_def by blast
  then have "edge_ok inv pending (has (\<lambda>\<sigma>. taking \<sigma> k) (S i)) (has (\<lambda>\<sigma>. seen \<sigma> k) (S i)) (has (\<lambda>\<sigma>. released \<sigma> k) (S i))
      (has reported (S j)) (has received (S j)) (net_links s (i, k))" using I i(1) by (simp add: barrier_inv_def)
  then have "pending False (net_links s (i, k)) \<noteq> []" using i(2) wf(3) by (simp add: edge_ok_def)
  then show ?thesis
    using progress_now[OF barrier_inv_move[OF t(1) I i(1) t(2), of prog] i(1)] prog i rank_collect_stage[OF wf(1)] by simp
qed

lemma poll_progress:
  assumes t: "topo_wf t" "good []" and prog: "\<forall>i < topo_nodes t. prog i = stage_code t i (first_stage t i)"
    and i: "i < topo_nodes t" and c: "child_at t i c = Some j" "\<not> recv ! c"
  shows "barrier_inv inv pending t S s \<Longrightarrow> S i = Some (Collecting (Polling_child recv num k ())) \<Longrightarrow>
         has reported (S j) \<Longrightarrow> (next_child (kids t i) ^^ d) k = c \<Longrightarrow> progress prog t S s"
proof (induction d arbitrary: k S s)
  case 0
  have "edge_ok inv pending (has (\<lambda>\<sigma>. taking \<sigma> c) (S i)) (has (\<lambda>\<sigma>. seen \<sigma> c) (S i)) (has (\<lambda>\<sigma>. released \<sigma> c) (S i))
      (has reported (S j)) (has received (S j)) (net_links s (i, c))" using 0(1) i c by (simp add: barrier_inv_def)
  then have "pending False (net_links s (i, c)) \<noteq> []" using 0(2,3) c by (simp add: edge_ok_def)
  then have move: "barrier_inv inv pending t (S(i \<mapsto> Collecting (Taking recv num c ()))) (net_move snd_op rcv_op can_op prog i s)"
    using barrier_inv_move[OF t(1) 0(1) i t(2), of prog] prog i 0(2,4) c(2) by simp
  show ?case
    by (rule progress_later[OF take_progress[OF t prog move i] i net_rank_same]) (simp_all add: 0(2))
next
  case (Suc d)
  let ?n = "\<lambda>q d. pending d (net_links s q) \<noteq> []"
  have move: "barrier_inv inv pending t (S(i \<mapsto> stage_next t i ?n (Collecting (Polling_child recv num k ()))))
      (net_move snd_op rcv_op can_op prog i s)"
    using barrier_inv_move[OF t(1) Suc(2) i t(2), of prog] prog i Suc(3) by simp
  have "j \<noteq> i"
    using child_at_parent[OF _ i c(1)] parent_not_self[OF t(1) i] t(1) by (auto simp: topo_wf_def)
  show ?case
  proof (cases "recv ! k \<or> \<not> ?n (i, k) False")
    case True
    have "barrier_inv inv pending t (S(i \<mapsto> Collecting (Polling_child recv num (next_child (kids t i) k) ())))
        (net_move snd_op rcv_op can_op prog i s)" using move True by simp
    then have "progress prog t (S(i \<mapsto> Collecting (Polling_child recv num (next_child (kids t i) k) ())))
        (net_move snd_op rcv_op can_op prog i s)"
      by (rule Suc.IH) (use Suc(4,5) \<open>j \<noteq> i\<close> in \<open>simp_all add: funpow_swap1\<close>)
    then show ?thesis by (rule progress_later[OF _ i net_rank_same]) (simp add: Suc(3))
  next
    case False
    then have move: "barrier_inv inv pending t (S(i \<mapsto> Collecting (Taking recv num k ()))) (net_move snd_op rcv_op can_op prog i s)"
      using move by simp
    show ?thesis
      by (rule progress_later[OF take_progress[OF t prog move i] i net_rank_same]) (simp_all add: Suc(3))
  qed
qed

lemma collecting_progress:
  assumes t: "topo_wf t" "good []" and prog: "\<forall>i < topo_nodes t. prog i = stage_code t i (first_stage t i)"
    and I: "barrier_inv inv pending t S s" and i: "i < topo_nodes t" "S i = Some (Collecting st)"
    and kids: "\<And>c j. child_at t i c = Some j \<Longrightarrow> has reported (S j)"
  shows "progress prog t S s"
proof (cases st)
  case (Polling_child recv num k u)
  then have wf: "length recv = kids t i" "num = length (filter id recv)" "num < kids t i" "k < kids t i"
    using I i by (auto simp: barrier_inv_def)
  obtain c where c: "c < kids t i" "\<not> recv ! c" using unseen_child[of recv] wf by auto
  obtain j where j: "child_at t i c = Some j"
    using child_at_ex[OF _ i(1), of c] t(1) c(1) unfolding topo_wf_def kids_def by blast
  obtain d where "(next_child (kids t i) ^^ d) k = c" using next_child_pow[OF wf(4) c(1)] by blast
  then show ?thesis using poll_progress[OF t prog i(1) j c(2) I] i(2) Polling_child kids[OF j] by simp
next
  case (Taking recv num k u)
  then show ?thesis using take_progress[OF t prog I i(1)] i(2) by simp
next
  case (Stopped err u)
  then show ?thesis using I i by (auto simp: barrier_inv_def)
qed

text \<open>Without progress, nobody is in the middle of anything: all are through.\<close>

lemma stuck_stages:
  assumes t: "topo_wf t" "good []" and prog: "\<forall>i < topo_nodes t. prog i = stage_code t i (first_stage t i)"
    and I: "barrier_inv inv pending t S s" and stuck: "\<not> progress prog t S s" and i: "i < topo_nodes t"
  shows "\<exists>\<sigma>. S i = Some \<sigma> \<and> \<sigma> \<noteq> Reporting \<and> (\<forall>c. \<sigma> = Releasing c \<longrightarrow> c = kids t i) \<and>
             (\<forall>q. \<sigma> = Awaiting \<longrightarrow> parent_chan t i = Some q \<longrightarrow> pending True (net_links s q) = [])"
proof -
  let ?\<sigma> = "case S i of None \<Rightarrow> first_stage t i | Some \<sigma> \<Rightarrow> stage_next t i (\<lambda>q d. pending d (net_links s q) \<noteq> []) \<sigma>"
  have rank: "\<not> stage_rank (kids t i) (Some ?\<sigma>) < stage_rank (kids t i) (S i)"
    using progress_now[OF barrier_inv_move[OF t(1) I i t(2), of prog] i] prog i stuck by blast
  have "S i \<noteq> None" using rank rank_first_stage[of t i] by (cases "S i") simp_all
  then obtain \<sigma> where \<sigma>: "S i = Some \<sigma>" by blast
  have wf: "stage_wf t i \<sigma>" using I i \<sigma> by (simp add: barrier_inv_def)
  have "c = kids t i" if "\<sigma> = Releasing c" for c using rank wf that \<sigma> by (auto split: if_splits)
  moreover have "pending True (net_links s q) = []" if "\<sigma> = Awaiting" "parent_chan t i = Some q" for q
    using rank that \<sigma> by (auto split: if_splits)
  moreover have "\<sigma> \<noteq> Reporting" using rank \<sigma> by auto
  ultimately show ?thesis using \<sigma> by blast
qed

lemma barrier_progress:
  assumes t: "topo_wf t" "good []" and prog: "\<forall>i < topo_nodes t. prog i = stage_code t i (first_stage t i)"
    and I: "barrier_inv inv pending t S s" and stuck: "\<not> progress prog t S s" and i: "i < topo_nodes t"
  shows "S i = Some (Releasing (kids t i))"
proof -
  note stage = stuck_stages[OF t prog I stuck]
  have through: "has reported (S i)" if "i < topo_nodes t" for i
    using t(1) that
  proof (induction rule: topo_induct_up)
    case (node i)
    obtain \<sigma> where \<sigma>: "S i = Some \<sigma>" "\<sigma> \<noteq> Reporting" using stage[OF node(1)] by blast
    have "\<sigma> \<noteq> Collecting st" for st using collecting_progress[OF t prog I node(1), of st] node(2) stuck \<sigma>(1) by blast
    then show ?case using \<sigma> by (cases \<sigma>) auto
  qed
  show ?thesis
    using t(1) i
  proof (induction rule: topo_induct)
    case (root r)
    then have "parent_chan t r = None" by (simp add: parent_chan_def)
    moreover have "stage_wf t r \<sigma>" if "S r = Some \<sigma>" for \<sigma> using I root that by (simp add: barrier_inv_def)
    moreover obtain \<sigma> where "S r = Some \<sigma>" "\<forall>c. \<sigma> = Releasing c \<longrightarrow> c = kids t r" using stage[OF root(2)] by blast
    moreover have "has reported (S r)" by (rule through[OF root(2)])
    ultimately show ?case by (cases \<sigma>) auto
  next
    case (child i p)
    obtain c where c: "child_at t p c = Some i" using topo_edge[OF t(1) child(1,3)] .
    then have pc: "parent_chan t i = Some (p, c)" using parent_chan_iff[OF t(1) child(1)] child(2) by blast
    have "edge_ok inv pending (has (\<lambda>\<sigma>. taking \<sigma> c) (S p)) (has (\<lambda>\<sigma>. seen \<sigma> c) (S p)) (has (\<lambda>\<sigma>. released \<sigma> c) (S p))
        (has reported (S i)) (has received (S i)) (net_links s (p, c))" using I child(2) c by (simp add: barrier_inv_def)
    then have "pending True (net_links s (p, c)) \<noteq> []" if "S i = Some Awaiting"
      using that child(4) child_at_kids[OF c] by (simp add: edge_ok_def)
    moreover obtain \<sigma> where "S i = Some \<sigma>" "\<forall>c. \<sigma> = Releasing c \<longrightarrow> c = kids t i"
      "\<sigma> = Awaiting \<longrightarrow> pending True (net_links s (p, c)) = []" using stage[OF child(1)] pc by blast
    moreover have "has reported (S i)" by (rule through[OF child(1)])
    ultimately show ?case by (cases \<sigma>) auto
  qed
qed

lemma barrier_inv_completes:
  assumes t: "topo_wf t" "good []" and prog: "\<forall>i < topo_nodes t. prog i = stage_code t i (first_stage t i)"
    and I: "barrier_inv inv pending t S s"
  shows "\<exists>is S'. set is \<subseteq> {..<topo_nodes t} \<and> barrier_inv inv pending t S' (net_run snd_op rcv_op can_op prog is s) \<and>
           (\<forall>i < topo_nodes t. S' i = Some (Releasing (kids t i)))"
  using I
proof (induction "net_rank t S" arbitrary: S s rule: less_induct)
  case less
  show ?case
  proof (cases "progress prog t S s")
    case True
    then obtain "is" S1 where 1: "set is \<subseteq> {..<topo_nodes t}" "net_rank t S1 < net_rank t S"
      "barrier_inv inv pending t S1 (net_run snd_op rcv_op can_op prog is s)" unfolding progress_def by blast
    from less.hyps[OF 1(2,3)] obtain js S' where 2: "set js \<subseteq> {..<topo_nodes t}"
      "barrier_inv inv pending t S' (net_run snd_op rcv_op can_op prog js (net_run snd_op rcv_op can_op prog is s))"
      "\<forall>i < topo_nodes t. S' i = Some (Releasing (kids t i))" by blast
    show ?thesis by (rule exI[of _ "is @ js"], rule exI[of _ S']) (use 1 2 in \<open>simp add: net_run_append\<close>)
  next
    case False
    then show ?thesis
      using barrier_progress[OF t prog less.prems] less.prems by (intro exI[of _ "[]"] exI[of _ S]) simp
  qed
qed

lemma barrier_inv_done:
  assumes I: "barrier_inv inv pending t S s" and S: "\<forall>i < topo_nodes t. S i = Some (Releasing (kids t i))"
    and t: "topo_wf t"
  shows "i < topo_nodes t \<Longrightarrow> returned s i (errval SMLT_SUCCESS)" "tree_idle t (net_links s)"
proof -
  show "returned s i (errval SMLT_SUCCESS)" if "i < topo_nodes t"
    using I S that by (simp add: barrier_inv_def returned_def release_code_def)
  have "inv (net_links s (p, c)) \<and> (\<forall>d. pending d (net_links s (p, c)) = [])"
    if e: "p < topo_nodes t" "child_at t p c = Some j" for p c j
  proof -
    have "j < topo_nodes t" using child_at_parent(1)[OF _ e] t by (simp add: topo_wf_def)
    moreover have "edge_ok inv pending (has (\<lambda>\<sigma>. taking \<sigma> c) (S p)) (has (\<lambda>\<sigma>. seen \<sigma> c) (S p)) (has (\<lambda>\<sigma>. released \<sigma> c) (S p))
        (has reported (S j)) (has received (S j)) (net_links s (p, c))" using I e by (simp add: barrier_inv_def)
    ultimately show ?thesis
      using S e child_at_kids[OF e(2)] by (auto simp: edge_ok_def all_bool_eq)
  qed
  then show "tree_idle t (net_links s)" by (simp add: tree_idle_def)
qed

text \<open>However far the nodes have got, some schedule brings all of them out, and leaves the channels empty again.\<close>

lemma barrier_live:
  assumes "topo_wf t" "context_of t ctx" "tree_idle t L" "good []" "set is \<subseteq> {..<topo_nodes t}"
  shows "\<exists>js s. set js \<subseteq> {..<topo_nodes t} \<and>
           s = net_run snd_op rcv_op can_op (\<lambda>i. smlt_barrier_wait ctx (of_nat i)) (is @ js) (net_start L) \<and>
           (\<forall>i < topo_nodes t. returned s i (errval SMLT_SUCCESS)) \<and> tree_idle t (net_links s)"
proof -
  let ?prog = "\<lambda>i. smlt_barrier_wait ctx (of_nat i)"
  have prog: "\<forall>i < topo_nodes t. ?prog i = stage_code t i (first_stage t i)"
    using smlt_barrier_wait_code[OF assms(1,2)] by blast
  obtain S where I: "barrier_inv inv pending t S (net_run snd_op rcv_op can_op ?prog is (net_start L))"
    using barrier_reach[OF assms] by blast
  obtain js S' where js: "set js \<subseteq> {..<topo_nodes t}" "\<forall>i < topo_nodes t. S' i = Some (Releasing (kids t i))"
    "barrier_inv inv pending t S' (net_run snd_op rcv_op can_op ?prog (is @ js) (net_start L))"
    using barrier_inv_completes[OF assms(1,4) prog I] by (auto simp: net_run_append)
  show ?thesis
    by (intro exI[of _ js] exI conjI allI impI refl) (use js barrier_inv_done[OF js(3,2) assms(1)] in auto)
qed

end

end
