(* ===== verification/Broadcast_Tree.thy ===== *)
theory Broadcast_Tree
  imports Barrier_Live
begin

text \<open>
  The broadcast: \<open>smlt_broadcast\<close>, run by all nodes of a well-formed tree over any channels that keep the
  contract, every node with a message of its own to receive into. A node waits for its parent's message
  and passes it on to its children; the root starts with passing on its own. Whoever returns has the
  message of the root, and some schedule brings everybody to return.
\<close>

section \<open>Stages\<close>

datatype bcast_stage = Waiting | Passing nat

text \<open>The message of a node once it has it; \<open>x\<close> is the payload of the root's message.\<close>

definition bcast_msg :: "smlt_topology \<Rightarrow> (nat \<Rightarrow> smlt_msg) \<Rightarrow> u64 list \<Rightarrow> nat \<Rightarrow> smlt_msg" where
  "bcast_msg t msgs x i = (if parent_chan t i = None then msgs i else put_payload (msgs i) x)"

definition passing_code :: "smlt_topology \<Rightarrow> nat \<Rightarrow> smlt_msg \<Rightarrow> nat \<Rightarrow> (errval_t \<times> smlt_msg) code" where
  "passing_code t i m c = bind_code (send_children i m c (kids t i - c)) (\<lambda>err. Return (err, m))"

definition waiting_code :: "smlt_topology \<Rightarrow> nat \<Rightarrow> u32 \<Rightarrow> smlt_msg \<Rightarrow> chan_ptr \<Rightarrow> (errval_t \<times> smlt_msg) code" where
  "waiting_code t i idx msg q =
     Recv_index q msg idx (\<lambda>(err, m). if smlt_err_is_fail err then Abort else passing_code t i m 0)"

fun bcast_code :: "smlt_topology \<Rightarrow> (nat \<Rightarrow> u32) \<Rightarrow> (nat \<Rightarrow> smlt_msg) \<Rightarrow> u64 list \<Rightarrow> nat \<Rightarrow> bcast_stage \<Rightarrow> (errval_t \<times> smlt_msg) code" where
  "bcast_code t ix msgs x i Waiting = waiting_code t i (ix i) (msgs i) (the (parent_chan t i))"
| "bcast_code t ix msgs x i (Passing c) = passing_code t i (bcast_msg t msgs x i) c"

definition bcast_first :: "smlt_topology \<Rightarrow> nat \<Rightarrow> bcast_stage" where
  "bcast_first t i = (if parent_chan t i = None then Passing 0 else Waiting)"

lemma smlt_broadcast_code:
  assumes "topo_wf t" "context_of t ctx" "i < topo_nodes t" "ix i = projr (smlt_context_node_get_child_idx ctx (of_nat i))"
  shows "smlt_broadcast ctx (of_nat i) (msgs i) = bcast_code t ix msgs x i (bcast_first t i)"
proof -
  have sub: "smlt_broadcast_subtree ctx (of_nat i) m = send_children i m 0 (kids t i)" for m
    by (simp add: smlt_broadcast_subtree_def context_accessors[OF assms(1-3)] kids_def smlt_err_is_fail_errval)
  obtain k where "smlt_context_node_get_child_idx ctx (of_nat i) = Inr k" using context_accessors(5)[OF assms(1-3)] by blast
  then show ?thesis
    unfolding smlt_broadcast_def assms(4) context_accessors[OF assms(1-3)] sub
    by (simp add: assms(4) bcast_first_def bcast_msg_def passing_code_def waiting_code_def parent_chan_def smlt_err_is_fail_errval deref_run_def
        split: option.split cong: if_cong)
qed

text \<open>What a node has done.\<close>

fun passed_to :: "bcast_stage option \<Rightarrow> nat \<Rightarrow> bool" where
  "passed_to (Some (Passing k)) c \<longleftrightarrow> c < k"
| "passed_to _ c \<longleftrightarrow> False"

fun informed :: "bcast_stage option \<Rightarrow> bool" where
  "informed (Some (Passing k)) \<longleftrightarrow> True"
| "informed _ \<longleftrightarrow> False"

lemma passed_informed: "passed_to S c \<Longrightarrow> informed S"
  by (cases "(S, c)" rule: passed_to.cases) simp_all

section \<open>The invariant\<close>

definition bcast_edge :: "('s \<Rightarrow> bool) \<Rightarrow> (bool \<Rightarrow> 's \<Rightarrow> u64 list list) \<Rightarrow> u64 list \<Rightarrow> bool \<Rightarrow> bool \<Rightarrow> 's \<Rightarrow> bool" where
  "bcast_edge ok pending x passed got s \<longleftrightarrow>
     ok s \<and> pending True s = (if passed \<and> \<not> got then [x] else []) \<and> pending False s = [] \<and> (got \<longrightarrow> passed)"

definition bcast_inv ::
  "('s \<Rightarrow> bool) \<Rightarrow> (bool \<Rightarrow> 's \<Rightarrow> u64 list list) \<Rightarrow> smlt_topology \<Rightarrow> (nat \<Rightarrow> u32) \<Rightarrow> (nat \<Rightarrow> smlt_msg) \<Rightarrow> u64 list \<Rightarrow>
   (nat \<Rightarrow> bcast_stage option) \<Rightarrow> ('s, errval_t \<times> smlt_msg) net \<Rightarrow> bool"
where
  "bcast_inv ok pending t ix msgs x S s \<longleftrightarrow>
     (\<forall>i < topo_nodes t. net_code s i = map_option (bcast_code t ix msgs x i) (S i) \<and>
        (S i = Some Waiting \<longrightarrow> parent_chan t i \<noteq> None) \<and> (\<forall>c. S i = Some (Passing c) \<longrightarrow> c \<le> kids t i)) \<and>
     (\<forall>p < topo_nodes t. \<forall>c j. child_at t p c = Some j \<longrightarrow>
        bcast_edge ok pending x (passed_to (S p) c) (informed (S j)) (net_links s (p, c)))"

text \<open>The rank of a node; a useful move lowers it.\<close>

fun bcast_rank :: "nat \<Rightarrow> bcast_stage option \<Rightarrow> nat" where
  "bcast_rank m None = m + 2"
| "bcast_rank m (Some Waiting) = m + 1"
| "bcast_rank m (Some (Passing c)) = m - c"

definition bcast_ranks :: "smlt_topology \<Rightarrow> (nat \<Rightarrow> bcast_stage option) \<Rightarrow> nat" where
  "bcast_ranks t S = (\<Sum>i < topo_nodes t. bcast_rank (kids t i) (S i))"

lemma bcast_ranks_less:
  assumes "i < topo_nodes t" "bcast_rank (kids t i) \<sigma> < bcast_rank (kids t i) (S i)"
  shows "bcast_ranks t (S(i := \<sigma>)) < bcast_ranks t S"
  unfolding bcast_ranks_def
  by (rule sum_strict_mono_ex1) (use assms in \<open>auto intro!: bexI[of _ i]\<close>)

text \<open>The move of a node, by what is under way to it.\<close>

fun bcast_next :: "smlt_topology \<Rightarrow> nat \<Rightarrow> bool \<Rightarrow> bcast_stage \<Rightarrow> bcast_stage" where
  "bcast_next t i mail Waiting = (if mail then Passing 0 else Waiting)"
| "bcast_next t i mail (Passing c) = Passing (if c < kids t i then c + 1 else c)"

lemma bcast_first_facts:
  "\<not> passed_to (Some (bcast_first t i)) c" "parent_chan t i \<noteq> None \<Longrightarrow> \<not> informed (Some (bcast_first t i))"
  "bcast_first t i = Waiting \<Longrightarrow> parent_chan t i \<noteq> None" "bcast_first t i = Passing c \<Longrightarrow> c \<le> m"
  "bcast_rank m (Some (bcast_first t i)) < m + 2"
  by (auto simp: bcast_first_def split: if_splits)

text \<open>An edge at which the two nodes have done the same, over channels of which the others are as they were.\<close>

lemma bcast_inv_cong:
  assumes t: "topo_wf t" and I: "bcast_inv ok pending t ix msgs x S s" and i: "i < topo_nodes t"
    and wf: "\<sigma> = Waiting \<longrightarrow> parent_chan t i \<noteq> None" "\<forall>c. \<sigma> = Passing c \<longrightarrow> c \<le> kids t i"
    and down: "\<And>c j. child_at t i c = Some j \<Longrightarrow> bcast_edge ok pending x (passed_to (Some \<sigma>) c) (informed (S j)) (L' (i, c))"
    and up: "\<And>p c. p < topo_nodes t \<Longrightarrow> child_at t p c = Some i \<Longrightarrow>
      bcast_edge ok pending x (passed_to (S p) c) (informed (Some \<sigma>)) (L' (p, c))"
    and others: "\<And>p c j. p < topo_nodes t \<Longrightarrow> child_at t p c = Some j \<Longrightarrow> p \<noteq> i \<Longrightarrow> j \<noteq> i \<Longrightarrow>
      bcast_edge ok pending x (passed_to (S p) c) (informed (S j)) (L' (p, c))"
  shows "bcast_inv ok pending t ix msgs x (S(i \<mapsto> \<sigma>))
    (s\<lparr>net_links := L', net_code := (net_code s)(i \<mapsto> bcast_code t ix msgs x i \<sigma>)\<rparr>)"
proof -
  have "bcast_edge ok pending x (passed_to ((S(i \<mapsto> \<sigma>)) p) c) (informed ((S(i \<mapsto> \<sigma>)) j)) (L' (p, c))"
    if e: "p < topo_nodes t" "child_at t p c = Some j" for p c j
  proof -
    have j: "j < topo_nodes t" "tn_parent (node_at t j) = Some p" using child_at_parent[OF _ e] t by (simp_all add: topo_wf_def)
    then have "p \<noteq> j" using parent_not_self[OF t j(1)] by auto
    then show ?thesis using down[of c j] up[OF e(1), of c] others[OF e] e by (cases "p = i"; cases "j = i") auto
  qed
  then show ?thesis using I wf by (simp add: bcast_inv_def)
qed

context polled_channel
begin

lemma bcast_inv_enter:
  assumes t: "topo_wf t" and I: "bcast_inv inv pending t ix msgs x S s" and i: "i < topo_nodes t" "S i = None"
  shows "bcast_inv inv pending t ix msgs x (S(i \<mapsto> bcast_first t i))
    (s\<lparr>net_code := (net_code s)(i \<mapsto> bcast_code t ix msgs x i (bcast_first t i))\<rparr>)"
proof -
  have "bcast_inv inv pending t ix msgs x (S(i \<mapsto> bcast_first t i))
    (s\<lparr>net_links := net_links s, net_code := (net_code s)(i \<mapsto> bcast_code t ix msgs x i (bcast_first t i))\<rparr>)"
  proof (rule bcast_inv_cong[OF t I i(1)])
    fix p c
    assume e: "p < topo_nodes t" "child_at t p c = Some i"
    then have "parent_chan t i \<noteq> None" using parent_chan_iff[OF t i(1), of p c] by simp
    then show "bcast_edge inv pending x (passed_to (S p) c) (informed (Some (bcast_first t i))) (net_links s (p, c))"
      using I e i(2) bcast_first_facts(2) by (force simp: bcast_inv_def)
  qed (use I i bcast_first_facts(1,3)[of t i] bcast_first_facts(4)[of t i _ "kids t i"] in \<open>auto simp: bcast_inv_def\<close>)
  then show ?thesis by simp
qed

lemma bcast_inv_pass:
  assumes t: "topo_wf t" and I: "bcast_inv inv pending t ix msgs x S s" and i: "i < topo_nodes t" "S i = Some (Passing c)"
    and c: "c < kids t i" and good: "good x" "msg_payload (bcast_msg t msgs x i) = x"
    and step: "code_step snd_op rcv_op can_op i (bcast_code t ix msgs x i (Passing c)) (net_links s) = (c', L')"
  shows "c' = bcast_code t ix msgs x i (Passing (c + 1)) \<and> bcast_inv inv pending t ix msgs x (S(i \<mapsto> Passing (c + 1)))
    (s\<lparr>net_links := L', net_code := (net_code s)(i \<mapsto> bcast_code t ix msgs x i (Passing (c + 1)))\<rparr>)"
proof -
  have edge: "bcast_edge inv pending x (passed_to (S p) c) (informed (S j)) (net_links s (p, c))"
    if "p < topo_nodes t" "child_at t p c = Some j" for p c j using I that by (simp add: bcast_inv_def)
  obtain j where j: "child_at t i c = Some j"
    using child_at_ex[OF _ i(1), of c] t c unfolding topo_wf_def kids_def by metis
  have free: "inv (net_links s (i, c))" "pending True (net_links s (i, c)) = []" "pending False (net_links s (i, c)) = []"
    "\<not> informed (S j)" using edge[OF i(1) j] i(2) by (auto simp: bcast_edge_def)
  let ?m = "bcast_msg t msgs x i"
  have "kids t i - c = Suc (kids t i - (c + 1))" using c by simp
  then have code: "bcast_code t ix msgs x i (Passing c) =
    Call (Chan_send (i, c) ?m) (\<lambda>a. if smlt_err_is_fail (ans_err a) then Abort else bcast_code t ix msgs x i (Passing (c + 1)))"
    by (simp add: passing_code_def Send_def if_distrib[of "\<lambda>c. bind_code c f" for f] cong: if_cong)
  obtain a where a: "answer i (Chan_send (i, c) ?m) (net_links s) = (a, L')"
    and c': "c' = (case a of None \<Rightarrow> bcast_code t ix msgs x i (Passing c)
       | Some a \<Rightarrow> if smlt_err_is_fail (ans_err a) then Abort else bcast_code t ix msgs x i (Passing (c + 1)))"
    using step unfolding code by (auto split: prod.splits option.splits)
  show ?thesis
  proof (rule answer_send[OF free(1) _ a])
    show "good (msg_payload ?m)" using good by simp
    fix s'
    assume L': "L' = (net_links s)((i, c) := s')" "inv s'" "pending (i \<noteq> fst (i, c)) s' = pending (i \<noteq> fst (i, c)) (net_links s (i, c))"
      "a = Some (Err (errval SMLT_SUCCESS)) \<and> pending (i = fst (i, c)) s' = pending (i = fst (i, c)) (net_links s (i, c)) @ [msg_payload ?m] \<or>
       a = None \<and> pending (i = fst (i, c)) s' = pending (i = fst (i, c)) (net_links s (i, c)) \<and> pending (i = fst (i, c)) (net_links s (i, c)) \<noteq> []"
    then have s': "a = Some (Err (errval SMLT_SUCCESS))" "pending True s' = [x]" "pending False s' = []" using free good(2) by auto
    have "bcast_inv inv pending t ix msgs x (S(i \<mapsto> Passing (c + 1)))
      (s\<lparr>net_links := L', net_code := (net_code s)(i \<mapsto> bcast_code t ix msgs x i (Passing (c + 1)))\<rparr>)"
    proof (rule bcast_inv_cong[OF t I i(1)])
      fix c2 j2
      assume e: "child_at t i c2 = Some j2"
      show "bcast_edge inv pending x (passed_to (Some (Passing (c + 1))) c2) (informed (S j2)) (L' (i, c2))"
      proof (cases "c2 = c")
        case True
        then show ?thesis using e j s' L'(1,2) free(4) by (simp add: bcast_edge_def)
      next
        case False
        then show ?thesis using edge[OF i(1) e] i(2) L'(1) by (simp add: less_Suc_eq)
      qed
    next
      fix p c2
      assume e: "p < topo_nodes t" "child_at t p c2 = Some i"
      moreover have "p \<noteq> i" using parent_not_self[OF t i(1)] child_at_parent(2)[OF _ e] t by (auto simp: topo_wf_def)
      ultimately show "bcast_edge inv pending x (passed_to (S p) c2) (informed (Some (Passing (c + 1)))) (L' (p, c2))"
        using edge[OF e] L'(1) i(2) by simp
    qed (use c edge L'(1) in auto)
    then show ?thesis using s'(1) c' by (simp add: smlt_err_is_fail_errval)
  qed
qed

lemma bcast_inv_wait:
  assumes t: "topo_wf t" and I: "bcast_inv inv pending t ix msgs x S s" and i: "i < topo_nodes t" "S i = Some Waiting"
    and q: "parent_chan t i = Some q" and \<sigma>: "\<sigma> = bcast_next t i (pending True (net_links s q) \<noteq> []) Waiting"
    and step: "code_step snd_op rcv_op can_op i (bcast_code t ix msgs x i Waiting) (net_links s) = (c', L')"
  shows "c' = bcast_code t ix msgs x i \<sigma> \<and> bcast_inv inv pending t ix msgs x (S(i \<mapsto> \<sigma>))
    (s\<lparr>net_links := L', net_code := (net_code s)(i \<mapsto> bcast_code t ix msgs x i \<sigma>)\<rparr>)"
proof -
  have edge: "bcast_edge inv pending x (passed_to (S p) c) (informed (S j)) (net_links s (p, c))"
    if "p < topo_nodes t" "child_at t p c = Some j" for p c j using I that by (simp add: bcast_inv_def)
  obtain p k where pk: "q = (p, k)" by fastforce
  then have e: "p < topo_nodes t" "child_at t p k = Some i" using q parent_chan_iff[OF t i(1), of p k] by auto
  have "p \<noteq> i" using parent_not_self[OF t i(1)] child_at_parent(2)[OF _ e] t by (auto simp: topo_wf_def)
  have E: "inv (net_links s q)" "pending True (net_links s q) = (if passed_to (S p) k then [x] else [])" "pending False (net_links s q) = []"
    using edge[OF e] i(2) by (simp_all add: bcast_edge_def pk)
  have code: "bcast_code t ix msgs x i Waiting = Call (Chan_recv_index q (msgs i) (ix i))
      (\<lambda>a. if smlt_err_is_fail (ans_err a) then Abort else passing_code t i (ans_msg a) 0)"
    using q by (simp add: waiting_code_def Recv_index_def)
  obtain a where a: "answer i (Chan_recv_index q (msgs i) (ix i)) (net_links s) = (a, L')"
    and c': "c' = (case a of None \<Rightarrow> bcast_code t ix msgs x i Waiting
       | Some a \<Rightarrow> if smlt_err_is_fail (ans_err a) then Abort else passing_code t i (ans_msg a) 0)"
    using step unfolding code by (auto split: prod.splits option.splits)
  have dir: "(i = fst q) = False" using \<open>p \<noteq> i\<close> pk by auto
  show ?thesis
  proof (rule answer_recv_index[OF E(1) a, unfolded dir not_False_eq_True])
    fix s'
    assume L': "L' = (net_links s)(q := s')" "inv s'" "pending False s' = pending False (net_links s q)"
      "(\<exists>y. a = Some (Err_msg (errval SMLT_SUCCESS) (put_payload (msgs i) y)) \<and> pending True (net_links s q) = y # pending True s') \<or>
       a = None \<and> pending True s' = [] \<and> pending True (net_links s q) = []"
    have s': "pending True s' = []" "a = (if passed_to (S p) k then Some (Err_msg (errval SMLT_SUCCESS) (put_payload (msgs i) x)) else None)"
      using L'(4) E(2) by (auto split: if_splits)
    have "c' = bcast_code t ix msgs x i \<sigma>"
      using c' s'(2) E(2) q by (simp add: \<sigma> smlt_err_is_fail_errval bcast_msg_def)
    moreover have "bcast_inv inv pending t ix msgs x (S(i \<mapsto> \<sigma>))
      (s\<lparr>net_links := L', net_code := (net_code s)(i \<mapsto> bcast_code t ix msgs x i \<sigma>)\<rparr>)"
    proof (rule bcast_inv_cong[OF t I i(1)])
      fix c j
      assume e: "child_at t i c = Some j"
      then show "bcast_edge inv pending x (passed_to (Some \<sigma>) c) (informed (S j)) (L' (i, c))"
        using edge[OF i(1) e] i(2) L'(1) pk \<open>p \<noteq> i\<close> by (simp add: \<sigma>)
    next
      fix p2 k2
      assume "p2 < topo_nodes t" "child_at t p2 k2 = Some i"
      then have "(p2, k2) = q" using parent_chan_iff[OF t i(1), of p2 k2] q by simp
      then show "bcast_edge inv pending x (passed_to (S p2) k2) (informed (Some \<sigma>)) (L' (p2, k2))"
        using E L' s' pk by (auto simp: bcast_edge_def \<sigma>)
    next
      fix p2 k2 j
      assume e2: "p2 < topo_nodes t" "child_at t p2 k2 = Some j" "p2 \<noteq> i" "j \<noteq> i"
      then have "(p2, k2) \<noteq> q" using pk e by auto
      then show "bcast_edge inv pending x (passed_to (S p2) k2) (informed (S j)) (L' (p2, k2))" using edge[OF e2(1,2)] L'(1) by simp
    qed (use q \<sigma> in \<open>auto split: if_splits\<close>)
    ultimately show ?thesis by blast
  qed
qed

lemma bcast_inv_move:
  assumes t: "topo_wf t" and I: "bcast_inv inv pending t ix msgs x S s" and i: "i < topo_nodes t"
    and prog: "prog i = bcast_code t ix msgs x i (bcast_first t i)"
    and good: "good x" "\<And>i. i < topo_nodes t \<Longrightarrow> msg_payload (bcast_msg t msgs x i) = x"
  shows "bcast_inv inv pending t ix msgs x
    (S(i \<mapsto> case S i of None \<Rightarrow> bcast_first t i
           | Some \<sigma> \<Rightarrow> bcast_next t i (pending True (net_links s (the (parent_chan t i))) \<noteq> []) \<sigma>))
    (net_move snd_op rcv_op can_op prog i s)"
proof (cases "S i")
  case None
  then have "net_code s i = None" using I i by (simp add: bcast_inv_def)
  then show ?thesis using bcast_inv_enter[OF t I i None] None by (simp add: net_move_def prog)
next
  case (Some \<sigma>)
  then have code: "net_code s i = Some (bcast_code t ix msgs x i \<sigma>)" using I i by (simp add: bcast_inv_def)
  obtain c' L' where step: "code_step snd_op rcv_op can_op i (bcast_code t ix msgs x i \<sigma>) (net_links s) = (c', L')" by fastforce
  define \<sigma>' where "\<sigma>' = bcast_next t i (pending True (net_links s (the (parent_chan t i))) \<noteq> []) \<sigma>"
  have edge: "bcast_edge inv pending x (passed_to (S p) c) (informed (S j)) (net_links s (p, c))"
    if "p < topo_nodes t" "child_at t p c = Some j" for p c j using I that by (simp add: bcast_inv_def)
  have "c' = bcast_code t ix msgs x i \<sigma>' \<and> bcast_inv inv pending t ix msgs x (S(i \<mapsto> \<sigma>'))
    (s\<lparr>net_links := L', net_code := (net_code s)(i \<mapsto> bcast_code t ix msgs x i \<sigma>')\<rparr>)"
  proof (cases \<sigma>)
    case Waiting
    moreover from this obtain q where "parent_chan t i = Some q" using I i Some by (auto simp: bcast_inv_def)
    ultimately show ?thesis using bcast_inv_wait[OF t I i, of q \<sigma>' c' L'] Some step by (simp add: \<sigma>'_def)
  next
    case (Passing c)
    show ?thesis
    proof (cases "c < kids t i")
      case True
      then show ?thesis using bcast_inv_pass[OF t I i _ True good(1) good(2)[OF i]] Passing Some step by (simp add: \<sigma>'_def)
    next
      case False
      then have "c' = bcast_code t ix msgs x i \<sigma>" "L' = net_links s" "\<sigma>' = \<sigma>"
        using step Passing by (auto simp: passing_code_def \<sigma>'_def)
      moreover have "S(i \<mapsto> \<sigma>) = S" "(net_code s)(i \<mapsto> bcast_code t ix msgs x i \<sigma>) = net_code s" using Some code by auto
      ultimately show ?thesis using I by simp
    qed
  qed
  then show ?thesis using step code Some by (simp add: net_move_def \<sigma>'_def)
qed

lemma bcast_reach:
  assumes "topo_wf t" "tree_idle t L" "good x" "\<And>i. i < topo_nodes t \<Longrightarrow> msg_payload (bcast_msg t msgs x i) = x"
    and "\<And>i. i < topo_nodes t \<Longrightarrow> prog i = bcast_code t ix msgs x i (bcast_first t i)" "set is \<subseteq> {..<topo_nodes t}"
  shows "\<exists>S. bcast_inv inv pending t ix msgs x S (net_run snd_op rcv_op can_op prog is (net_start L))"
proof (rule net_run_invariant[where I = "\<lambda>s. \<exists>S. bcast_inv inv pending t ix msgs x S s"])
  show "\<exists>S. bcast_inv inv pending t ix msgs x S (net_start L)"
    using assms(2) by (intro exI[of _ "\<lambda>_. None"]) (simp add: bcast_inv_def net_start_def bcast_edge_def tree_idle_def)
  fix i s
  assume "i \<in> set is" and s: "\<exists>S. bcast_inv inv pending t ix msgs x S s"
  then have i: "i < topo_nodes t" using assms(6) by blast
  obtain S where I: "bcast_inv inv pending t ix msgs x S s" using s by blast
  show "\<exists>S. bcast_inv inv pending t ix msgs x S (net_move snd_op rcv_op can_op prog i s)"
    using bcast_inv_move[where prog = prog, OF assms(1) I i assms(5)[OF i] assms(3,4)] by blast
qed

lemma bcast_inv_returned:
  assumes "bcast_inv inv pending t ix msgs x S s" "i < topo_nodes t" "returned s i r"
  shows "S i = Some (Passing (kids t i)) \<and> r = (errval SMLT_SUCCESS, bcast_msg t msgs x i)"
proof -
  obtain \<sigma> where \<sigma>: "S i = Some \<sigma>" "bcast_code t ix msgs x i \<sigma> = Return r" "\<forall>c. \<sigma> = Passing c \<longrightarrow> c \<le> kids t i"
    using assms by (auto simp: bcast_inv_def returned_def)
  then show ?thesis
  proof (cases \<sigma>)
    case (Passing c)
    then show ?thesis using \<sigma> by (cases "kids t i - c") (auto simp: passing_code_def Send_def)
  qed (auto simp: waiting_code_def Recv_index_def)
qed

text \<open>While some node is not through, the first one on the way from the root can make a useful move.\<close>

lemma bcast_progress:
  assumes t: "topo_wf t" and I: "bcast_inv inv pending t ix msgs x S s"
    and stuck: "\<And>i. i < topo_nodes t \<Longrightarrow>
      \<not> bcast_rank (kids t i) (Some (case S i of None \<Rightarrow> bcast_first t i
           | Some \<sigma> \<Rightarrow> bcast_next t i (pending True (net_links s (the (parent_chan t i))) \<noteq> []) \<sigma>)) < bcast_rank (kids t i) (S i)"
    and i: "i < topo_nodes t"
  shows "S i = Some (Passing (kids t i))"
proof -
  have entered: "S i \<noteq> None" if "i < topo_nodes t" for i using stuck[OF that] bcast_first_facts(5)[of "kids t i" t i] by (cases "S i") simp_all
  have through: "S i = Some (Passing c) \<Longrightarrow> c = kids t i" if "i < topo_nodes t" for i c
    using stuck[OF that] I that by (auto simp: bcast_inv_def split: if_splits)
  show ?thesis
    using t i
  proof (induction rule: topo_induct)
    case (root r)
    then have "parent_chan t r = None" by (simp add: parent_chan_def)
    then have "S r \<noteq> Some Waiting" using I root(2) by (auto simp: bcast_inv_def)
    then show ?case using entered[OF root(2)] through[OF root(2)] by (metis bcast_stage.exhaust option.exhaust)
  next
    case (child i p)
    obtain c where c: "child_at t p c = Some i" using topo_edge[OF t child(1,3)] .
    then have pc: "parent_chan t i = Some (p, c)" using parent_chan_iff[OF t child(1)] child(2) by blast
    have "bcast_edge inv pending x (passed_to (S p) c) (informed (S i)) (net_links s (p, c))"
      using I child(2) c by (simp add: bcast_inv_def)
    then have "S i \<noteq> Some Waiting"
      using stuck[OF child(1)] child(4) child_at_kids[OF c] pc by (auto simp: bcast_edge_def)
    then show ?case using entered[OF child(1)] through[OF child(1)] by (metis bcast_stage.exhaust option.exhaust)
  qed
qed

lemma bcast_completes:
  assumes t: "topo_wf t" and good: "good x" "\<And>i. i < topo_nodes t \<Longrightarrow> msg_payload (bcast_msg t msgs x i) = x"
    and prog: "\<And>i. i < topo_nodes t \<Longrightarrow> prog i = bcast_code t ix msgs x i (bcast_first t i)"
    and I: "bcast_inv inv pending t ix msgs x S s"
  shows "\<exists>js S'. set js \<subseteq> {..<topo_nodes t} \<and> bcast_inv inv pending t ix msgs x S' (net_run snd_op rcv_op can_op prog js s) \<and>
    (\<forall>i < topo_nodes t. S' i = Some (Passing (kids t i)))"
  using I
proof (induction "bcast_ranks t S" arbitrary: S s rule: less_induct)
  case less
  let ?n = "\<lambda>i. case S i of None \<Rightarrow> bcast_first t i
     | Some \<sigma> \<Rightarrow> bcast_next t i (pending True (net_links s (the (parent_chan t i))) \<noteq> []) \<sigma>"
  show ?case
  proof (cases "\<exists>i < topo_nodes t. bcast_rank (kids t i) (Some (?n i)) < bcast_rank (kids t i) (S i)")
    case True
    then obtain i where i: "i < topo_nodes t" "bcast_rank (kids t i) (Some (?n i)) < bcast_rank (kids t i) (S i)" by blast
    from less.hyps[OF bcast_ranks_less[where S = S, OF i] bcast_inv_move[where prog = prog, OF t less.prems i(1) prog[OF i(1)] good]]
    obtain js S' where "set js \<subseteq> {..<topo_nodes t}" "\<forall>i < topo_nodes t. S' i = Some (Passing (kids t i))"
      "bcast_inv inv pending t ix msgs x S' (net_run snd_op rcv_op can_op prog js (net_move snd_op rcv_op can_op prog i s))" by blast
    then show ?thesis using i(1) by (intro exI[of _ "i # js"] exI[of _ S']) simp
  next
    case False
    then have "\<not> bcast_rank (kids t i) (Some (?n i)) < bcast_rank (kids t i) (S i)" if "i < topo_nodes t" for i using that by blast
    from bcast_progress[OF t less.prems this] have "\<forall>i < topo_nodes t. S i = Some (Passing (kids t i))" by blast
    with less.prems show ?thesis by (intro exI[of _ "[]"] exI[of _ S] conjI) simp_all
  qed
qed

lemma bcast_inv_done:
  assumes t: "topo_wf t" and I: "bcast_inv inv pending t ix msgs x S s" and S: "\<forall>i < topo_nodes t. S i = Some (Passing (kids t i))"
  shows "i < topo_nodes t \<Longrightarrow> returned s i (errval SMLT_SUCCESS, bcast_msg t msgs x i)" "tree_idle t (net_links s)"
proof -
  show "returned s i (errval SMLT_SUCCESS, bcast_msg t msgs x i)" if "i < topo_nodes t"
    using I S that by (simp add: bcast_inv_def returned_def passing_code_def)
  have "inv (net_links s (p, c)) \<and> (\<forall>d. pending d (net_links s (p, c)) = [])"
    if e: "p < topo_nodes t" "child_at t p c = Some j" for p c j
  proof -
    have "j < topo_nodes t" using child_at_parent(1)[OF _ e] t by (simp add: topo_wf_def)
    moreover have "bcast_edge inv pending x (passed_to (S p) c) (informed (S j)) (net_links s (p, c))" using I e by (simp add: bcast_inv_def)
    ultimately show ?thesis using S by (simp add: bcast_edge_def all_bool_eq)
  qed
  then show "tree_idle t (net_links s)" by (simp add: tree_idle_def)
qed

end

end
