(* ===== verification/Dissem_Barrier.thy ===== *)
theory Dissem_Barrier
  imports Collective_Code "HOL-Library.Log_Nat"
begin

text \<open>
  The dissemination barrier and the stubs of the older barriers (\<open>src/barrier.c\<close>). The barrier has a
  channel for every pair of its threads; in round \<open>r\<close> a thread notifies the one \<open>2\<^sup>r\<close> places further and
  waits for the notification of the one \<open>2\<^sup>r\<close> places back.
\<close>

section \<open>The structure\<close>

text \<open>
  The array \<open>channels\<close> holds pointers: the entries for \<open>(i, j)\<close> and for \<open>(j, i)\<close> point to one channel,
  which is named by the indices \<open>i \<le> j\<close> it was created for. The channels themselves are the objects
  these pointers lead to.
\<close>

record smlt_dissem_barrier =
  db_num_threads :: int
  db_rounds :: u32
  db_cores :: "u32 list"
  db_channels :: "chan_ptr option list"

type_synonym chan_store = "chan_ptr \<Rightarrow> smlt_channel"

abbreviation (input) SIZEOF_SMLT_DISSEM_BARRIER :: u64 where "SIZEOF_SMLT_DISSEM_BARRIER \<equiv> 24"

text \<open>The index \<open>i*num_cores+j\<close>, in 32 bits.\<close>

definition pair_index :: "u32 \<Rightarrow> nat \<Rightarrow> nat \<Rightarrow> nat" where
  "pair_index num_cores i j = unat (of_nat i * num_cores + of_nat j)"

section \<open>Creation and destruction\<close>

text \<open>The pairs that the two nested loops run through.\<close>

definition dissem_pairs :: "nat \<Rightarrow> (nat \<times> nat) list" where
  "dissem_pairs n = concat (map (\<lambda>i. map (Pair i) [i..<n]) [0..<n])"

text \<open>
  The loops: a channel is allocated and created for every pair; the first failure is the end. The
  pointers are not checked, so that a failed allocation comes to an access through a null pointer.
\<close>

fun dissem_channels ::
  "('h \<times> mem) chan_creator \<Rightarrow> (u64 \<Rightarrow> 'h \<Rightarrow> addr \<times> 'h) \<Rightarrow> u32 list \<Rightarrow> u32 \<Rightarrow> (nat \<times> nat) list \<Rightarrow>
   chan_ptr option list \<times> chan_store \<times> 'h \<times> mem \<Rightarrow> (errval_t \<times> chan_ptr option list \<times> chan_store \<times> 'h \<times> mem) run"
where
  "dissem_channels create nl cores num_cores [] s = Inr (errval SMLT_SUCCESS, s)"
| "dissem_channels create nl cores num_cores ((i, j) # ps) (channels, store, w) =
     bind_run (alloc_run nl SIZEOF_SMLT_CHANNEL SMLT_ARCH_CACHELINE_SIZE w) (\<lambda>(p, w1).
     bind_run (nth_run channels (pair_index num_cores i j)) (\<lambda>_.
     if p = 0 then Inl Wild
     else
       bind_run (nth_run cores i) (\<lambda>src.
       bind_run (nth_run cores j) (\<lambda>dst.
       bind_run (run_call (create channel_zero [src] [dst] 1 1 w1)) (\<lambda>(err, ch, w2).
         let channels' = channels[pair_index num_cores i j := Some (i, j)]; store' = store((i, j) := ch) in
         if smlt_err_is_fail err then Inr (errval SMLT_ERR_CHAN_CREATE, channels', store', w2)
         else
           bind_run (nth_run channels' (pair_index num_cores j i)) (\<lambda>_.
             dissem_channels create nl cores num_cores ps
               (channels'[pair_index num_cores j i := Some (i, j)], store', w2)))))))"

text \<open>
  \<open>smlt_dissem_barrier_init\<close>. \<open>ceil(log2(n))\<close> is the ceiling of the real logarithm; nothing is said
  about zero cores, where the conversion of its result is undefined.
\<close>

definition smlt_dissem_barrier_init ::
  "(u64 \<Rightarrow> u8 \<Rightarrow> 'h \<Rightarrow> addr \<times> 'h) \<Rightarrow> (u64 \<Rightarrow> 'h \<Rightarrow> addr \<times> 'h) \<Rightarrow> (addr \<Rightarrow> u64 \<Rightarrow> 'h \<Rightarrow> 'h) \<Rightarrow> int \<Rightarrow> (u32 \<Rightarrow> u8) \<Rightarrow>
   u32 list \<Rightarrow> u32 \<Rightarrow> 'h \<times> mem \<Rightarrow> (errval_t \<times> smlt_dissem_barrier \<times> chan_store \<times> 'h \<times> mem) run"
where
  "smlt_dissem_barrier_init na nl nf mx node_of_cpu cores num_cores w =
     (let n = unat num_cores in
      bind_run (alloc_run nl SIZEOF_SMLT_DISSEM_BARRIER SMLT_ARCH_CACHELINE_SIZE w) (\<lambda>(p, w1).
      if p = 0 then Inl Wild
      else
        bind_run (alloc_run nl (4 * ucast num_cores) SMLT_ARCH_CACHELINE_SIZE w1) (\<lambda>(pc, w2).
        bind_run (alloc_run nl (8 * ucast num_cores * ucast num_cores) SMLT_ARCH_CACHELINE_SIZE w2) (\<lambda>(pch, w3).
        if 0 < n \<and> (pc = 0 \<or> pch = 0) then Inl Wild
        else
          bind_run (for_run (\<lambda>i own. bind_run (nth_run cores i) (\<lambda>c. Inr (own @ [c]))) 0 n []) (\<lambda>own.
          bind_run (dissem_channels (smlt_channel_create na nl nf mx node_of_cpu) nl cores num_cores (dissem_pairs n)
                      (replicate (n * n) None, \<lambda>_. channel_zero, w3)) (\<lambda>(err, channels, store, w4).
          let bar = \<lparr>db_num_threads = sint num_cores, db_rounds = 0, db_cores = own, db_channels = channels\<rparr> in
          if smlt_err_is_fail err then Inr (err, bar, store, w4)
          else Inr (errval SMLT_SUCCESS, bar\<lparr>db_rounds := of_nat (ceillog2 n)\<rparr>, store, w4)))))))"

text \<open>\<open>smlt_dissem_barrier_destroy\<close>; \<open>place\<close> gives the addresses of the channels.\<close>

definition smlt_dissem_barrier_destroy ::
  "(addr \<Rightarrow> u64 \<Rightarrow> 'h \<Rightarrow> 'h) \<Rightarrow> (chan_ptr option \<Rightarrow> addr) \<Rightarrow> addr \<Rightarrow> addr \<Rightarrow> addr \<Rightarrow> smlt_dissem_barrier \<Rightarrow>
   'h \<times> mem \<Rightarrow> (errval_t \<times> 'h \<times> mem) run"
where
  "smlt_dissem_barrier_destroy nf place p_cores p_channels p_bar bar w =
     (let n = nat (db_num_threads bar) in
      bind_run (for_run (\<lambda>k w. case dissem_pairs n ! k of (i, j) \<Rightarrow>
                   bind_run (nth_run (db_channels bar) (i * n + j)) (\<lambda>q. Inr (smlt_platform_free nf (place q) w)))
                  0 (length (dissem_pairs n)) w) (\<lambda>w1.
        Inr (errval SMLT_SUCCESS,
             smlt_platform_free nf p_bar (smlt_platform_free nf p_channels (smlt_platform_free nf p_cores w1)))))"

section \<open>Waiting\<close>

text \<open>The loop \<open>while (peer < 0) peer = peer + n\<close>, which never ends when \<open>n\<close> is not positive.\<close>

function wrap_peer :: "int \<Rightarrow> int \<Rightarrow> int run" where
  "wrap_peer n peer = (if peer < 0 then if 0 < n then wrap_peer n (peer + n) else Inl Hang else Inr peer)"
  by auto
termination by (relation "measure (\<lambda>(n, peer). nat (- peer))") auto

declare wrap_peer.simps [simp del]

text \<open>The loop that looks for the own index: the last place that has the own id, or 0.\<close>

fun find_id :: "u32 \<Rightarrow> u32 list \<Rightarrow> int \<Rightarrow> int \<Rightarrow> int" where
  "find_id self [] i my_id = my_id"
| "find_id self (c # cs) i my_id = find_id self cs (i + 1) (if c = self then i else my_id)"

definition bar_channel :: "smlt_dissem_barrier \<Rightarrow> int \<Rightarrow> int \<Rightarrow> chan_ptr run" where
  "bar_channel bar my_id peer =
     (if my_id * db_num_threads bar + peer < 0 then Inl Wild
      else bind_run (nth_run (db_channels bar) (nat (my_id * db_num_threads bar + peer))) deref_run)"

text \<open>
  The rounds that are left. \<open>step\<close> is a C integer: doubling it past its range is undefined, as is
  the remainder by zero. The dividend of the remainder is never negative, so that the sign of the
  divisor does not matter.
\<close>

fun dissem_rounds :: "smlt_dissem_barrier \<Rightarrow> int \<Rightarrow> int \<Rightarrow> nat \<Rightarrow> errval_t code" where
  "dissem_rounds bar my_id step 0 = Return (errval SMLT_SUCCESS)"
| "dissem_rounds bar my_id step (Suc k) =
     (if db_num_threads bar = 0 then Abort
      else
        run_code (bar_channel bar my_id ((my_id + step) mod \<bar>db_num_threads bar\<bar>)) (\<lambda>q.
        Notify q (\<lambda>err.
        if smlt_err_is_fail err then Return err
        else
          run_code (wrap_peer (db_num_threads bar) (my_id - step)) (\<lambda>peer.
          run_code (bar_channel bar my_id peer) (\<lambda>q.
          Recv_notification q (\<lambda>err.
          if smlt_err_is_fail err then Return err
          else if 2 ^ 31 \<le> step * 2 then Abort
          else dissem_rounds bar my_id (step * 2) k))))))"

definition smlt_dissem_barrier_wait :: "smlt_dissem_barrier \<Rightarrow> u32 \<Rightarrow> errval_t code" where
  "smlt_dissem_barrier_wait bar self =
     dissem_rounds bar (find_id self (take (nat (db_num_threads bar)) (db_cores bar)) 0 0) 1 (unat (db_rounds bar))"

section \<open>The older barriers\<close>

text \<open>
  \<open>shl_barrier_t\<close> and the two static variables. The body of \<open>shl_barrier_shm\<close> is compiled out: a wait
  on these barriers returns at once.
\<close>

record shl_barrier_t =
  shl_num :: int
  shl_idx :: int

record shl_statics =
  idx_max :: int
  barrier_num :: u32

definition shl_barrier_init :: "u32 \<Rightarrow> shl_statics \<Rightarrow> (int \<times> shl_barrier_t \<times> shl_statics) run" where
  "shl_barrier_init count st =
     (if idx_max st = 0 \<or> barrier_num st = count then
        Inr (0, \<lparr>shl_num = sint count, shl_idx = idx_max st\<rparr>, st\<lparr>barrier_num := count, idx_max := idx_max st + 1\<rparr>)
      else Inl Assertion)"

definition shl_barrier_destroy :: "shl_barrier_t \<Rightarrow> shl_statics \<Rightarrow> int \<times> shl_statics" where
  "shl_barrier_destroy barrier st = (0, st\<lparr>idx_max := idx_max st - 1\<rparr>)"

definition shl_barrier_shm :: "int \<Rightarrow> shl_statics \<Rightarrow> shl_statics" where
  "shl_barrier_shm b_count st = st"

definition shl_barrier_wait :: "shl_barrier_t \<Rightarrow> shl_statics \<Rightarrow> int \<times> shl_statics" where
  "shl_barrier_wait barrier st = (0, shl_barrier_shm (shl_num barrier) st)"

definition shl_hybrid_barrier :: int where
  "shl_hybrid_barrier = 0"

definition shl_hybrid_barrier0 :: int where
  "shl_hybrid_barrier0 = 0"

end
