(* ===== verification/Dissem_Proof.thy ===== *)
theory Dissem_Proof
  imports Dissem_Barrier Network
begin

text \<open>
  The dissemination barrier over any channels that keep the contract. How far a node has got is a
  number: twice the rounds it has finished, plus one when it has sent the notification of the round it
  is in. The code refines the counters; on the counters, no node is done before all have entered, and
  all are done when everyone has moved often enough.
\<close>

section \<open>Peers\<close>

definition dissem_bar :: "nat \<Rightarrow> smlt_dissem_barrier \<Rightarrow> bool" where
  "dissem_bar n bar \<longleftrightarrow>
     0 < n \<and> n < 2 ^ 16 \<and> db_num_threads bar = int n \<and> db_rounds bar = of_nat (ceillog2 n) \<and>
     length (db_cores bar) = n \<and> distinct (db_cores bar) \<and> length (db_channels bar) = n * n \<and>
     (\<forall>i < n. \<forall>j < n. db_channels bar ! (i * n + j) = Some (min i j, max i j))"

definition peer_to :: "nat \<Rightarrow> nat \<Rightarrow> nat \<Rightarrow> nat" where
  "peer_to n k i = (i + 2 ^ k) mod n"

definition peer_from :: "nat \<Rightarrow> nat \<Rightarrow> nat \<Rightarrow> nat" where
  "peer_from n k i = (i + n - 2 ^ k) mod n"

definition link :: "nat \<Rightarrow> nat \<Rightarrow> chan_ptr" where
  "link i j = (min i j, max i j)"

lemma link_eq: "link i j = link i' j' \<longleftrightarrow> i = i' \<and> j = j' \<or> i = j' \<and> j = i'"
  by (auto simp: link_def min_def max_def)

lemma link_sym: "link i j = link j i"
  by (simp add: link_eq)

lemma fst_link: "i \<noteq> j \<Longrightarrow> i = fst (link i j) \<longleftrightarrow> i < j"
  by (auto simp: link_def)

lemma round_step: "k < ceillog2 n \<Longrightarrow> (2::nat) ^ k < n"
  using ceillog2_le_iff[of n k] by (cases "n = 0") auto

lemma peer_less: "0 < n \<Longrightarrow> peer_to n k i < n" "0 < n \<Longrightarrow> peer_from n k i < n"
  by (simp_all add: peer_to_def peer_from_def)

lemma peer_to_neq:
  assumes "i < n" "k < ceillog2 n"
  shows "peer_to n k i \<noteq> i"
  using mod_inj_window[of i "i + 2 ^ k" n i] round_step[OF assms(2)] assms(1) by (auto simp: peer_to_def)

lemma peer_to_inj:
  assumes "k < ceillog2 n" "k' < ceillog2 n" "peer_to n k i = peer_to n k' i"
  shows "k = k'"
  using mod_inj_window[of i "i + 2 ^ k" n "i + 2 ^ k'"] round_step[OF assms(1)] round_step[OF assms(2)] assms(3)
  by (simp add: peer_to_def)

lemma peer_from_to:
  assumes "i < n" "k < ceillog2 n"
  shows "peer_to n k (peer_from n k i) = i" "peer_from n k (peer_to n k i) = i"
proof -
  note s = round_step[OF assms(2)]
  have "(i + n - 2 ^ k + 2 ^ k) mod n = i" using s assms(1) by simp
  then show "peer_to n k (peer_from n k i) = i" by (simp add: peer_to_def peer_from_def mod_add_left_eq)
  show "peer_from n k (peer_to n k i) = i"
  proof (cases "i + 2 ^ k < n")
    case True
    then show ?thesis by (simp add: peer_to_def peer_from_def)
  next
    case False
    then have "(i + 2 ^ k) mod n = i + 2 ^ k - n" using s assms(1) by (simp add: mod_if)
    then show ?thesis using False s assms(1) by (simp add: peer_to_def peer_from_def)
  qed
qed

section \<open>The code of a node\<close>

definition await_round :: "smlt_dissem_barrier \<Rightarrow> nat \<Rightarrow> nat \<Rightarrow> nat \<Rightarrow> errval_t code" where
  "await_round bar n k i =
     Recv_notification (link i (peer_from n k i)) (\<lambda>err.
       if smlt_err_is_fail err then Return err else dissem_rounds bar (int i) (2 ^ Suc k) (ceillog2 n - Suc k))"

definition dissem_code :: "smlt_dissem_barrier \<Rightarrow> nat \<Rightarrow> nat \<Rightarrow> nat \<Rightarrow> errval_t code" where
  "dissem_code bar n i p =
     (if even p then dissem_rounds bar (int i) (2 ^ (p div 2)) (ceillog2 n - p div 2) else await_round bar n (p div 2) i)"

lemma dissem_pair_less: "i < n \<Longrightarrow> j < n \<Longrightarrow> i * n + j < n * (n :: nat)"
proof -
  assume "i < n" "j < n"
  then have "i * n + j < Suc i * n" by simp
  also have "\<dots> \<le> n * n" using \<open>i < n\<close> by (intro mult_le_mono1) simp
  finally show ?thesis .
qed

lemma bar_channel_link:
  assumes "dissem_bar n bar" "i < n" "j < n"
  shows "bar_channel bar (int i) (int j) = Inr (link i j)"
proof -
  have e: "int i * int n + int j = int (i * n + j)" by simp
  have "db_num_threads bar = int n" "length (db_channels bar) = n * n"
    "db_channels bar ! (i * n + j) = Some (min i j, max i j)" using assms by (simp_all add: dissem_bar_def)
  then show ?thesis
    using dissem_pair_less[OF assms(2,3)]
    by (simp only: bar_channel_def e nat_int nth_run_def deref_run_def link_def) (simp add: deref_run_def del: of_nat_add of_nat_mult)
qed

lemma wrap_peer_unfold:
  "peer < 0 \<Longrightarrow> 0 < n \<Longrightarrow> wrap_peer n peer = wrap_peer n (peer + n)" "0 \<le> peer \<Longrightarrow> wrap_peer n peer = Inr peer"
  by (subst wrap_peer.simps, simp)+

lemma wrap_peer_from:
  assumes "i < n" "k < ceillog2 n"
  shows "wrap_peer (int n) (int i - 2 ^ k) = Inr (int (peer_from n k i))"
proof -
  define a where "a = (2 :: nat) ^ k"
  have a: "(2 :: int) ^ k = int a" "a < n" using round_step[OF assms(2)] by (simp_all add: a_def)
  show ?thesis
  proof (cases "i < a")
    case True
    then have "peer_from n k i = i + n - a" using assms(1) by (simp add: peer_from_def flip: a_def)
    then have "int (peer_from n k i) = int i - int a + int n" using a(2) by simp
    then show ?thesis unfolding a(1) using True a(2) assms(1) by (simp add: wrap_peer_unfold)
  next
    case False
    then have "peer_from n k i = i - a" using assms(1) by (simp add: peer_from_def mod_if flip: a_def)
    then show ?thesis using False by (simp add: a wrap_peer_unfold of_nat_diff)
  qed
qed

lemma dissem_round_code:
  assumes bar: "dissem_bar n bar" and i: "i < n" "k < ceillog2 n"
  shows "dissem_rounds bar (int i) (2 ^ k) (ceillog2 n - k) =
    Notify (link i (peer_to n k i)) (\<lambda>err. if smlt_err_is_fail err then Return err else await_round bar n k i)"
proof -
  have n: "0 < n" "db_num_threads bar = int n" "n < 2 ^ 16" using bar by (simp_all add: dissem_bar_def)
  obtain m where m: "ceillog2 n - k = Suc m" "m = ceillog2 n - Suc k" using i(2) by (metis Suc_diff_Suc)
  have "(int i + 2 ^ k) mod int n = int (peer_to n k i)"
    by (simp add: peer_to_def zmod_int)
  moreover have "(2::int) ^ k < 2 ^ 16"
  proof -
    have "(2::nat) ^ k < 2 ^ 16" using round_step[OF i(2)] n(3) by linarith
    then have "int (2 ^ k) < int (2 ^ 16)" by (simp only: of_nat_less_iff)
    then show ?thesis by (simp only: of_nat_power of_nat_numeral)
  qed
  ultimately show ?thesis
    using n bar_channel_link[OF bar i(1) peer_less(1)[OF n(1)]] bar_channel_link[OF bar i(1) peer_less(2)[OF n(1)]]
      wrap_peer_from[OF i]
    by (simp add: m(1) await_round_def m(2)[symmetric] mult.commute cong: if_cong)
qed

lemma find_id_index:
  assumes "distinct cs" "i < length cs"
  shows "find_id (cs ! i) cs a b = a + int i"
proof -
  have none: "find_id c cs a b = b" if "c \<notin> set cs" for c cs a b
    using that by (induction cs arbitrary: a b) auto
  show ?thesis
    using assms
  proof (induction cs arbitrary: i a b)
    case (Cons c cs)
    then show ?case by (cases i) (auto simp: none)
  qed simp
qed

lemma ceillog2_word: "n < 2 ^ 16 \<Longrightarrow> unat (of_nat (ceillog2 n) :: u32) = ceillog2 n"
proof -
  assume n: "n < 2 ^ 16"
  then have "ceillog2 n \<le> 16" by (cases "n = 0") (simp_all add: ceillog2_le_iff)
  then show ?thesis by (intro unat_of_nat_small) simp
qed

lemma dissem_wait_code:
  assumes "dissem_bar n bar" "i < n"
  shows "smlt_dissem_barrier_wait bar (db_cores bar ! i) = dissem_code bar n i 0"
  using assms find_id_index[of "db_cores bar" i 0 0]
  by (simp add: smlt_dissem_barrier_wait_def dissem_code_def dissem_bar_def ceillog2_word)

section \<open>The counters\<close>

text \<open>How far the nodes have got, and what a node has sent and received.\<close>

type_synonym counters = "nat \<Rightarrow> nat option"

fun beyond :: "nat \<Rightarrow> nat option \<Rightarrow> bool" where
  "beyond a None \<longleftrightarrow> False"
| "beyond a (Some p) \<longleftrightarrow> a < p"

abbreviation sent :: "counters \<Rightarrow> nat \<Rightarrow> nat \<Rightarrow> bool" where "sent P i k \<equiv> beyond (2 * k) (P i)"
abbreviation got :: "counters \<Rightarrow> nat \<Rightarrow> nat \<Rightarrow> bool" where "got P i k \<equiv> beyond (2 * k + 1) (P i)"

lemma beyond_mono: "beyond a p \<Longrightarrow> b \<le> a \<Longrightarrow> beyond b p"
  by (cases p) auto

text \<open>The move of a node: a notification goes out at once, a receive waits for its sender.\<close>

definition dissem_next :: "nat \<Rightarrow> counters \<Rightarrow> nat \<Rightarrow> nat" where
  "dissem_next n P i =
     (case P i of
        None \<Rightarrow> 0
      | Some p \<Rightarrow>
          if p < 2 * ceillog2 n \<and> (even p \<or> sent P (peer_from n (p div 2) i) (p div 2)) then p + 1 else p)"

text \<open>The counters after a schedule, from which the state of the network follows.\<close>

fun dissem_count :: "nat \<Rightarrow> nat list \<Rightarrow> counters \<Rightarrow> counters" where
  "dissem_count n [] P = P"
| "dissem_count n (i # is) P = dissem_count n is (P(i \<mapsto> dissem_next n P i))"

definition dissem_edge ::
  "('s \<Rightarrow> bool) \<Rightarrow> (bool \<Rightarrow> 's \<Rightarrow> u64 list list) \<Rightarrow> nat \<Rightarrow> counters \<Rightarrow> 's links \<Rightarrow> nat \<Rightarrow> nat \<Rightarrow> bool"
where
  "dissem_edge ok pending n P L i k \<longleftrightarrow>
     (let j = peer_to n k i in
      ok (L (link i j)) \<and> (got P j k \<longrightarrow> sent P i k) \<and>
      pending (i < j) (L (link i j)) = (if sent P i k \<and> \<not> got P j k then [[]] else []))"

definition dissem_inv ::
  "('s \<Rightarrow> bool) \<Rightarrow> (bool \<Rightarrow> 's \<Rightarrow> u64 list list) \<Rightarrow> nat \<Rightarrow> smlt_dissem_barrier \<Rightarrow> counters \<Rightarrow> ('s, errval_t) net \<Rightarrow> bool"
where
  "dissem_inv ok pending n bar P s \<longleftrightarrow>
     (\<forall>i < n. net_code s i = map_option (dissem_code bar n i) (P i) \<and> \<not> beyond (2 * ceillog2 n) (P i)) \<and>
     (\<forall>i < n. \<forall>k < ceillog2 n. dissem_edge ok pending n P (net_links s) i k)"

text \<open>An edge whose channel and counters are not touched, or touched in the other direction.\<close>

lemma dissem_edge_other:
  assumes "dissem_edge ok pending n P L i k" and j: "j = peer_to n k i"
    and "sent P' i k = sent P i k" "got P' j k = got P j k"
    and "link i j \<noteq> q \<or> ok s' \<and> pending (i < j) s' = pending (i < j) (L q)"
  shows "dissem_edge ok pending n P' (L(q := s')) i k"
  using assms by (auto simp: dissem_edge_def Let_def)

lemma dissem_done_code:
  "dissem_code bar n i (2 * ceillog2 n) = Return (errval SMLT_SUCCESS)"
  by (simp add: dissem_code_def)

lemma beyond_Suc_even: "k' \<noteq> k \<Longrightarrow> beyond (2 * k') (Some (Suc (2 * k))) = beyond (2 * k') (Some (2 * k))"
  "beyond (2 * k' + 1) (Some (Suc (2 * k))) = beyond (2 * k' + 1) (Some (2 * k))"
  by auto

lemma beyond_Suc_odd: "beyond (2 * k') (Some (Suc (Suc (2 * k)))) = beyond (2 * k') (Some (Suc (2 * k)))"
  "k' \<noteq> k \<Longrightarrow> beyond (2 * k' + 1) (Some (Suc (Suc (2 * k)))) = beyond (2 * k' + 1) (Some (Suc (2 * k)))"
  unfolding beyond.simps by presburger+

context polled_channel
begin

lemma dissem_notify_edges:
  assumes edges: "\<forall>i < n. \<forall>k < ceillog2 n. dissem_edge inv pending n P L i k"
    and i: "i < n" "k < ceillog2 n" "P i = Some (2 * k)" and j: "j = peer_to n k i"
    and s': "inv s'" "pending (i < j) s' = [[]]" "pending (\<not> i < j) s' = pending (\<not> i < j) (L (link i j))"
    and a: "i' < n" "k' < ceillog2 n"
  shows "dissem_edge inv pending n (P(i \<mapsto> Suc (2 * k))) (L(link i j := s')) i' k'"
proof (cases "i' = i \<and> k' = k")
  case True
  have "j \<noteq> i" using peer_to_neq[OF i(1,2)] j by simp
  moreover have "\<not> got P j k" using edges i j unfolding dissem_edge_def Let_def by fastforce
  ultimately show ?thesis using True s' j by (simp add: dissem_edge_def)
next
  case False
  let ?j' = "peer_to n k' i'"
  have old: "dissem_edge inv pending n P L i' k'" using edges a by blast
  have sent: "beyond (2 * k') ((P(i \<mapsto> Suc (2 * k))) i') = beyond (2 * k') (P i')"
    using False i(3) beyond_Suc_even(1)[of k' k] by auto
  have got: "beyond (2 * k' + 1) ((P(i \<mapsto> Suc (2 * k))) ?j') = beyond (2 * k' + 1) (P ?j')"
    using i(3) beyond_Suc_even(2)[of k' k] by auto
  have neq: "?j' \<noteq> i'" using peer_to_neq[OF a] .
  have "pending (i' < ?j') s' = pending (i' < ?j') (L (link i j))" if "link i' ?j' = link i j"
  proof -
    have "\<not> (i' = i \<and> ?j' = j)" using False peer_to_inj[OF a(2) i(2)] j by metis
    then have "i' = j" "?j' = i" using that by (auto simp: link_eq)
    then have "(i' < ?j') = (\<not> i < j)" using neq by auto
    then show ?thesis using s'(3) by simp
  qed
  then show ?thesis using s'(1) by (intro dissem_edge_other[OF old refl sent got]) blast
qed

lemma dissem_take_edges:
  assumes edges: "\<forall>i < n. \<forall>k < ceillog2 n. dissem_edge inv pending n P L i k"
    and i: "i < n" "k < ceillog2 n" "P i = Some (Suc (2 * k))" and j: "j = peer_from n k i"
    and sent: "sent P j k"
    and s': "inv s'" "pending (j < i) s' = []" "pending (\<not> j < i) s' = pending (\<not> j < i) (L (link i j))"
    and a: "i' < n" "k' < ceillog2 n"
  shows "dissem_edge inv pending n (P(i \<mapsto> Suc (Suc (2 * k)))) (L(link i j := s')) i' k'"
proof -
  have jn: "j < n" using j i(1) peer_less(2)[of n k i] by simp
  have to: "peer_to n k j = i" using peer_from_to(1)[OF i(1,2)] j by simp
  have ij: "i \<noteq> j" using peer_to_neq[OF jn i(2)] to by simp
  show ?thesis
  proof (cases "i' = j \<and> k' = k")
    case True
    then show ?thesis using s' to ij sent by (simp add: dissem_edge_def link_sym[of j i])
  next
    case False
    let ?j' = "peer_to n k' i'"
    have old: "dissem_edge inv pending n P L i' k'" using edges a by blast
    have sent': "beyond (2 * k') ((P(i \<mapsto> Suc (Suc (2 * k)))) i') = beyond (2 * k') (P i')"
      using i(3) beyond_Suc_odd(1)[of k' k] by auto
    have same: "i' = j" if "?j' = i" "k' = k" using that peer_from_to(2)[OF a] j by simp
    have got: "beyond (2 * k' + 1) ((P(i \<mapsto> Suc (Suc (2 * k)))) ?j') = beyond (2 * k' + 1) (P ?j')"
      using False i(3) beyond_Suc_odd(2)[of k' k] same by auto
    have neq: "?j' \<noteq> i'" using peer_to_neq[OF a] .
    have "pending (i' < ?j') s' = pending (i' < ?j') (L (link i j))" if "link i' ?j' = link i j"
    proof -
      have "\<not> (i' = j \<and> ?j' = i)" using False peer_to_inj[OF a(2) i(2)] to by metis
      then have "i' = i" "?j' = j" using that by (auto simp: link_eq)
      then have "(i' < ?j') = (\<not> j < i)" using neq by auto
      then show ?thesis using s'(3) by simp
    qed
    then show ?thesis using s'(1) by (intro dissem_edge_other[OF old refl sent' got]) blast
  qed
qed

lemma dissem_notify_step:
  assumes bar: "dissem_bar n bar" and I: "dissem_inv inv pending n bar P s" and good: "good []"
    and i: "i < n" "k < ceillog2 n" "P i = Some (2 * k)"
  shows "dissem_inv inv pending n bar (P(i \<mapsto> Suc (2 * k))) (net_move snd_op rcv_op can_op prog i s)"
proof -
  define j where "j = peer_to n k i"
  let ?q = "link i j" and ?L = "net_links s"
  have code: "net_code s i = Some (Notify ?q (\<lambda>err. if smlt_err_is_fail err then Return err else await_round bar n k i))"
    using I i dissem_round_code[OF bar i(1,2)] by (simp add: dissem_inv_def dissem_code_def j_def)
  have edges: "\<forall>i < n. \<forall>k < ceillog2 n. dissem_edge inv pending n P ?L i k" using I by (simp add: dissem_inv_def)
  then have e: "inv (?L ?q)" "pending (i < j) (?L ?q) = []" using i unfolding dissem_edge_def Let_def j_def by auto
  have ij: "i \<noteq> j" using peer_to_neq[OF i(1,2)] j_def by simp
  have d: "(i = fst ?q) = (i < j)" "(i \<noteq> fst ?q) = (\<not> i < j)" using fst_link[OF ij] by blast+
  obtain a L' where ans: "answer i (Chan_notify ?q) ?L = (a, L')" by fastforce
  from answer_notify[where L = ?L, OF e(1) good ans] obtain s' where s': "L' = ?L(?q := s')" "inv s'"
    "pending (\<not> i < j) s' = pending (\<not> i < j) (?L ?q)" "a = Some (Err (errval SMLT_SUCCESS))" "pending (i < j) s' = [[]]"
    unfolding d e(2) by auto
  have "net_move snd_op rcv_op can_op prog i s = s\<lparr>net_links := L', net_code := (net_code s)(i \<mapsto> await_round bar n k i)\<rparr>"
    using code ans s'(4) by (simp add: net_move_def Notify_def smlt_err_is_fail_errval)
  moreover have "await_round bar n k i = dissem_code bar n i (Suc (2 * k))" by (simp add: dissem_code_def)
  ultimately show ?thesis
    using I i s'(1) dissem_notify_edges[OF edges i j_def s'(2,5,3)] by (auto simp: dissem_inv_def)
qed

lemma dissem_await_step:
  assumes bar: "dissem_bar n bar" and I: "dissem_inv inv pending n bar P s"
    and i: "i < n" "k < ceillog2 n" "P i = Some (Suc (2 * k))"
  shows "dissem_inv inv pending n bar (P(i \<mapsto> if sent P (peer_from n k i) k then Suc (Suc (2 * k)) else Suc (2 * k)))
           (net_move snd_op rcv_op can_op prog i s)"
proof -
  define j where "j = peer_from n k i"
  let ?q = "link i j" and ?L = "net_links s"
  have jn: "j < n" using j_def i(1) peer_less(2)[of n k i] by simp
  have to: "peer_to n k j = i" using peer_from_to(1)[OF i(1,2)] j_def by simp
  have ij: "i \<noteq> j" using peer_to_neq[OF jn i(2)] to by simp
  have code: "net_code s i = Some (Recv_notification ?q (\<lambda>err. if smlt_err_is_fail err then Return err
      else dissem_rounds bar (int i) (2 ^ Suc k) (ceillog2 n - Suc k)))"
    using I i by (simp add: dissem_inv_def dissem_code_def await_round_def j_def)
  have edges: "\<forall>i < n. \<forall>k < ceillog2 n. dissem_edge inv pending n P ?L i k" using I by (simp add: dissem_inv_def)
  then have "dissem_edge inv pending n P ?L j k" using i jn by blast
  then have e: "inv (?L ?q)" "pending (j < i) (?L ?q) = (if sent P j k then [[]] else [])"
    using i(3) unfolding dissem_edge_def Let_def to by (auto simp: link_sym[of j i])
  have d: "(i = fst ?q) = (\<not> j < i)" "(i \<noteq> fst ?q) = (j < i)" using fst_link[OF ij] ij by linarith+
  obtain a L' where ans: "answer i (Chan_recv_notification ?q) ?L = (a, L')" by fastforce
  obtain s' where u: "L' = ?L(?q := s')" "inv s'" "pending (\<not> j < i) s' = pending (\<not> j < i) (?L ?q)"
    and r: "(\<exists>x. a = Some (Err (errval SMLT_SUCCESS)) \<and> (if sent P j k then [[]] else []) = x # pending (j < i) s') \<or>
      a = None \<and> pending (j < i) s' = [] \<and> (if sent P j k then [[]] else [] :: u64 list list) = []"
    using answer_recv_notification[where L = ?L, OF e(1) ans] unfolding d not_not e(2) by blast
  have "pending (j < i) s' = []" "a = (if sent P j k then Some (Err (errval SMLT_SUCCESS)) else None)"
    using r by (auto split: if_splits)
  note s' = u this
  show ?thesis
  proof (cases "sent P j k")
    case True
    have "net_move snd_op rcv_op can_op prog i s =
        s\<lparr>net_links := L', net_code := (net_code s)(i \<mapsto> dissem_code bar n i (Suc (Suc (2 * k))))\<rparr>"
      using code ans s'(5) True by (simp add: net_move_def Recv_notification_def smlt_err_is_fail_errval dissem_code_def)
    moreover have "\<forall>i' < n. \<forall>k' < ceillog2 n. dissem_edge inv pending n (P(i \<mapsto> Suc (Suc (2 * k)))) L' i' k'"
      using dissem_take_edges[OF edges i j_def True s'(2,4,3)] s'(1) by simp
    moreover have "sent P (peer_from n k i) k" using True j_def by simp
    ultimately show ?thesis using I i by (auto simp: dissem_inv_def)
  next
    case False
    have P: "P(i \<mapsto> Suc (2 * k)) = P" using i(3) by (simp add: fun_upd_idem)
    have "net_move snd_op rcv_op can_op prog i s = s\<lparr>net_links := L', net_code := (net_code s)(i := net_code s i)\<rparr>"
      using code ans s'(5) False by (simp add: net_move_def Recv_notification_def)
    moreover have "dissem_edge inv pending n P L' i' k'" if "i' < n" "k' < ceillog2 n" for i' k'
      unfolding s'(1)
    proof (rule dissem_edge_other[OF _ refl refl refl])
      show "dissem_edge inv pending n P ?L i' k'" using edges that by blast
      have "pending b s' = pending b (?L ?q)" for b using s'(3,4) e(2) False by (cases b; cases "j < i") auto
      then show "link i' (peer_to n k' i') \<noteq> ?q \<or>
          inv s' \<and> pending (i' < peer_to n k' i') s' = pending (i' < peer_to n k' i') (?L ?q)" using s'(2) by blast
    qed
    moreover have "\<not> sent P (peer_from n k i) k" using False j_def by simp
    ultimately show ?thesis using I by (simp add: dissem_inv_def P)
  qed
qed

lemma dissem_inv_move:
  assumes bar: "dissem_bar n bar" and I: "dissem_inv inv pending n bar P s" and i: "i < n" and good: "good []"
    and prog: "prog i = dissem_code bar n i 0"
  shows "dissem_inv inv pending n bar (P(i \<mapsto> dissem_next n P i)) (net_move snd_op rcv_op can_op prog i s)"
proof (cases "P i")
  case None
  have "net_code s i = None" using I i None by (simp add: dissem_inv_def)
  then have "net_move snd_op rcv_op can_op prog i s = s\<lparr>net_code := (net_code s)(i \<mapsto> dissem_code bar n i 0)\<rparr>"
    by (simp add: net_move_def prog)
  moreover have "beyond a ((P(i \<mapsto> 0)) i') = beyond a (P i')" for a i' using None by simp
  ultimately show ?thesis using I None by (auto simp: dissem_inv_def dissem_edge_def dissem_next_def)
next
  case (Some p)
  have p: "p \<le> 2 * ceillog2 n" and code: "net_code s i = Some (dissem_code bar n i p)"
    using I i Some by (force simp: dissem_inv_def)+
  consider "p = 2 * ceillog2 n" | k where "k < ceillog2 n" "p = 2 * k" | k where "k < ceillog2 n" "p = Suc (2 * k)"
  proof -
    have "p = 2 * (p div 2) \<or> p = Suc (2 * (p div 2))" by presburger
    then show ?thesis using p that(1) that(2)[of "p div 2"] that(3)[of "p div 2"] by linarith
  qed
  then show ?thesis
  proof cases
    case 1
    have "dissem_next n P i = p" using Some 1 by (simp add: dissem_next_def)
    then have P: "P(i \<mapsto> dissem_next n P i) = P" using Some by (simp add: fun_upd_idem)
    have "net_move snd_op rcv_op can_op prog i s = s"
      using code by (simp add: net_move_def 1 dissem_done_code fun_upd_idem)
    then show ?thesis unfolding P using I by simp
  next
    case 2
    then show ?thesis
      using dissem_notify_step[OF bar I good i 2(1)] Some by (simp add: dissem_next_def)
  next
    case 3
    then have "dissem_next n P i = (if sent P (peer_from n k i) k then Suc (Suc (2 * k)) else Suc (2 * k))"
      using Some by (simp add: dissem_next_def)
    then show ?thesis using dissem_await_step[OF bar I i 3(1)] Some 3(2) by simp
  qed
qed

text \<open>Channels that hold nothing, between all pairs of peers.\<close>

definition pairs_idle :: "nat \<Rightarrow> 's links \<Rightarrow> bool" where
  "pairs_idle n L \<longleftrightarrow> (\<forall>j < n. \<forall>i < j. inv (L (i, j)) \<and> (\<forall>d. pending d (L (i, j)) = []))"

lemma dissem_inv_start:
  assumes "pairs_idle n L" "0 < n"
  shows "dissem_inv inv pending n bar (\<lambda>_. None) (net_start L)"
proof -
  have "inv (L (link i j)) \<and> (\<forall>d. pending d (L (link i j)) = [])" if "i < n" "j < n" "i \<noteq> j" for i j
    using assms(1) that unfolding pairs_idle_def link_def by (cases i j rule: linorder_cases) (auto simp: min_def max_def)
  then show ?thesis
    using peer_less(1)[OF assms(2)] peer_to_neq[THEN not_sym] by (simp add: dissem_inv_def net_start_def dissem_edge_def Let_def)
qed

lemma dissem_inv_run:
  assumes bar: "dissem_bar n bar" and good: "good []" and prog: "\<forall>i < n. prog i = dissem_code bar n i 0"
    and "dissem_inv inv pending n bar P s" "set is \<subseteq> {..<n}"
  shows "dissem_inv inv pending n bar (dissem_count n is P) (net_run snd_op rcv_op can_op prog is s)"
  using assms(4,5)
proof (induction "is" arbitrary: P s)
  case (Cons i "is")
  then have "dissem_inv inv pending n bar (P(i \<mapsto> dissem_next n P i)) (net_move snd_op rcv_op can_op prog i s)"
    using dissem_inv_move[OF bar Cons.prems(1) _ good, of i prog] prog by simp
  then show ?case using Cons by simp
qed simp

end

section \<open>Nobody leaves before everybody has entered\<close>

lemma dissem_heard:
  assumes I: "dissem_inv ok pending n bar P s" and n: "0 < n"
  shows "i < n \<Longrightarrow> k \<le> ceillog2 n \<Longrightarrow> P i = Some p \<Longrightarrow> 2 * k \<le> p \<Longrightarrow> d < 2 ^ k \<Longrightarrow> d < n \<Longrightarrow>
         P ((i + n - d) mod n) \<noteq> None"
proof (induction k arbitrary: i p d)
  case (Suc k)
  show ?case
  proof (cases "d < 2 ^ k")
    case True
    then show ?thesis using Suc.IH[of i p d] Suc.prems by simp
  next
    case False
    define j where "j = peer_from n k i"
    have k: "k < ceillog2 n" using Suc.prems by simp
    have j: "j < n" "peer_to n k j = i" using peer_less(2)[OF n] peer_from_to(1)[OF Suc.prems(1) k] by (simp_all add: j_def)
    have "got P i k" using Suc.prems by simp
    then have "sent P j k" using I j k unfolding dissem_inv_def dissem_edge_def Let_def by metis
    then obtain q where q: "P j = Some q" "2 * k < q" by (cases "P j") auto
    have s: "2 ^ k < n" by (rule round_step[OF k])
    have "(j + n - (d - 2 ^ k)) mod n = (i + n - d) mod n"
    proof (cases "i < 2 ^ k")
      case True
      then have "j = i + n - 2 ^ k" using s by (simp add: j_def peer_from_def)
      then have "j + n - (d - 2 ^ k) = (i + n - d) + n" using s False Suc.prems(6) by simp
      then show ?thesis by simp
    next
      case le: False
      then have "j = i - 2 ^ k" using Suc.prems(1) by (simp add: j_def peer_from_def mod_if)
      then have "j + n - (d - 2 ^ k) = i + n - d" using le False Suc.prems(6) by simp
      then show ?thesis by simp
    qed
    then show ?thesis using Suc.IH[OF j(1) _ q(1), of "d - 2 ^ k"] k q(2) False Suc.prems(5,6) by simp
  qed
next
  case 0
  then show ?case by simp
qed

lemma dissem_all_entered:
  assumes I: "dissem_inv ok pending n bar P s" and i: "i < n" "P i = Some (2 * ceillog2 n)" and j: "j < n"
  shows "P j \<noteq> None"
proof -
  define d where "d = (i + n - j) mod n"
  have d: "d < n" using i(1) by (simp add: d_def)
  then have d': "d < 2 ^ ceillog2 n" using le_two_power_ceillog2[of n] by (rule less_le_trans)
  have "(i + n - d) mod n = j"
  proof (cases "j \<le> i")
    case True
    then have "d = i - j" using i(1) by (simp add: d_def mod_if)
    then show ?thesis using True j by (simp add: mod_if)
  next
    case False
    then have "d = i + n - j" using j by (simp add: d_def)
    then show ?thesis using False j i(1) by simp
  qed
  then show ?thesis using dissem_heard[OF I _ i(1) _ i(2), of "ceillog2 n" d] d d' i(1) by simp
qed

section \<open>Enough moves bring everybody out\<close>

text \<open>The steps a node has made: none outside, one for entering and one for every call that came back.\<close>

fun steps :: "nat option \<Rightarrow> nat" where
  "steps None = 0"
| "steps (Some p) = p + 1"

lemma steps_next_mono: "steps (P i) \<le> steps (Some (dissem_next n P i))"
  by (cases "P i") (simp_all add: dissem_next_def)

text \<open>The slowest node can always go on.\<close>

lemma steps_next_less:
  assumes low: "\<forall>j < n. a \<le> steps (P j)" and i: "i < n" and a: "a \<le> 2 * ceillog2 n"
  shows "a < steps (Some (dissem_next n P i))"
proof (cases "P i")
  case None
  then show ?thesis using low i by (auto simp: dissem_next_def)
next
  case (Some p)
  let ?j = "peer_from n (p div 2) i"
  have "?j < n" using peer_less(2)[of n] i by simp
  then have j: "a \<le> steps (P ?j)" using low by blast
  show ?thesis
  proof (cases "a = p + 1")
    case True
    have "even p \<or> sent P ?j (p div 2)"
    proof (cases "even p")
      case False
      then have "2 * (p div 2) < p" by presburger
      then show ?thesis using j True by (cases "P ?j") auto
    qed simp
    then show ?thesis using Some True a by (simp add: dissem_next_def)
  next
    case False
    then have "a < steps (P i)" using low i Some by fastforce
    then show ?thesis using steps_next_mono[of P i n] by linarith
  qed
qed

text \<open>A pass in which everybody moves brings everybody one step further than the slowest one was.\<close>

lemma dissem_count_pass:
  assumes "\<forall>j < n. a \<le> steps (P j)" "set is \<subseteq> {..<n}" "a \<le> 2 * ceillog2 n" "j < n"
  shows "a \<le> steps (dissem_count n is P j) \<and> (j \<in> set is \<or> a < steps (P j) \<longrightarrow> a < steps (dissem_count n is P j))"
  using assms(1,2)
proof (induction "is" arbitrary: P)
  case Nil
  then show ?case using assms(4) by simp
next
  case (Cons i "is")
  let ?P = "P(i \<mapsto> dissem_next n P i)"
  have i: "i < n" using Cons.prems(2) by simp
  have less: "a < steps (Some (dissem_next n P i))" by (rule steps_next_less[OF Cons.prems(1) i assms(3)])
  then have "\<forall>j < n. a \<le> steps (?P j)" using Cons.prems(1) by simp
  then have IH: "a \<le> steps (dissem_count n is ?P j) \<and> (j \<in> set is \<or> a < steps (?P j) \<longrightarrow> a < steps (dissem_count n is ?P j))"
    using Cons.IH Cons.prems(2) by simp
  have "a < steps (?P j)" if "j = i \<or> a < steps (P j)" using that less by (cases "j = i") simp_all
  then show ?case using IH unfolding dissem_count.simps by fastforce
qed

lemma dissem_count_append: "dissem_count n (is @ js) P = dissem_count n js (dissem_count n is P)"
  by (induction "is" arbitrary: P) simp_all

lemma dissem_count_passes:
  assumes "\<forall>js \<in> set passes. set js = {..<n}" "\<forall>j < n. min a (2 * ceillog2 n + 1) \<le> steps (P j)" "j < n"
  shows "min (a + length passes) (2 * ceillog2 n + 1) \<le> steps (dissem_count n (concat passes) P j)"
  using assms(1,2)
proof (induction passes arbitrary: a P)
  case Nil
  then show ?case using assms(3) by simp
next
  case (Cons js passes)
  let ?P = "dissem_count n js P" and ?a = "min a (2 * ceillog2 n)"
  have low: "\<forall>j < n. ?a \<le> steps (P j)" using Cons.prems(2) by fastforce
  have "min (Suc a) (2 * ceillog2 n + 1) \<le> steps (?P j)" if "j < n" for j
  proof -
    have "?a < steps (?P j)" using dissem_count_pass[OF low, of js j] Cons.prems(1) that by simp
    then show ?thesis by linarith
  qed
  then show ?case using Cons.IH[of "Suc a" ?P] Cons.prems(1) by (simp add: dissem_count_append)
qed

context polled_channel
begin

lemma dissem_reach:
  assumes bar: "dissem_bar n bar" and "pairs_idle n L" "good []" "set is \<subseteq> {..<n}"
  shows "dissem_inv inv pending n bar (dissem_count n is (\<lambda>_. None))
    (net_run snd_op rcv_op can_op (\<lambda>i. smlt_dissem_barrier_wait bar (db_cores bar ! i)) is (net_start L))"
proof (rule dissem_inv_run[OF bar assms(3) _ _ assms(4)])
  show "\<forall>i < n. smlt_dissem_barrier_wait bar (db_cores bar ! i) = dissem_code bar n i 0"
    using dissem_wait_code[OF bar] by blast
  show "dissem_inv inv pending n bar (\<lambda>_. None) (net_start L)"
    using dissem_inv_start[OF assms(2)] bar by (simp add: dissem_bar_def)
qed

lemma dissem_returned:
  assumes bar: "dissem_bar n bar" and I: "dissem_inv inv pending n bar P s" and i: "i < n" "returned s i r"
  shows "r = errval SMLT_SUCCESS" "P i = Some (2 * ceillog2 n)"
proof -
  obtain p where p: "P i = Some p" "dissem_code bar n i p = Return r" "p \<le> 2 * ceillog2 n"
    using I i unfolding dissem_inv_def returned_def by (cases "P i") (force simp: not_less)+
  have "p = 2 * ceillog2 n"
  proof (rule ccontr)
    assume "p \<noteq> 2 * ceillog2 n"
    then have k: "p div 2 < ceillog2 n" using p(3) by presburger
    show False
      using p(2) dissem_round_code[OF bar i(1) k]
      by (cases "even p") (simp_all add: dissem_code_def Notify_def await_round_def Recv_notification_def)
  qed
  then show "r = errval SMLT_SUCCESS" "P i = Some (2 * ceillog2 n)" using p by (simp_all add: dissem_done_code)
qed

lemma dissem_safe:
  assumes bar: "dissem_bar n bar" and L: "pairs_idle n L" "good []" "set is \<subseteq> {..<n}"
    and s: "s = net_run snd_op rcv_op can_op (\<lambda>i. smlt_dissem_barrier_wait bar (db_cores bar ! i)) is (net_start L)"
    and i: "i < n" "returned s i r"
  shows "r = errval SMLT_SUCCESS \<and> (\<forall>j < n. entered s j)"
proof -
  note I = dissem_reach[OF bar L, folded s]
  note ret = dissem_returned[OF bar I i]
  have "entered s j" if "j < n" for j
    using dissem_all_entered[OF I i(1) ret(2) that] I that by (auto simp: dissem_inv_def entered_def)
  then show ?thesis using ret(1) by blast
qed

lemma dissem_terminates:
  assumes bar: "dissem_bar n bar" and L: "pairs_idle n L" "good []"
    and passes: "\<forall>js \<in> set passes. set js = {..<n}" "2 * ceillog2 n < length passes"
    and s: "s = net_run snd_op rcv_op can_op (\<lambda>i. smlt_dissem_barrier_wait bar (db_cores bar ! i)) (concat passes) (net_start L)"
  shows "i < n \<Longrightarrow> returned s i (errval SMLT_SUCCESS)"
proof -
  assume i: "i < n"
  let ?P = "dissem_count n (concat passes) (\<lambda>_. None)"
  have "set (concat passes) \<subseteq> {..<n}" using passes(1) by auto
  note I = dissem_reach[OF bar L this, folded s]
  have "2 * ceillog2 n + 1 \<le> steps (?P i)" using dissem_count_passes[OF passes(1), of 0 "\<lambda>_. None" i] passes(2) i by simp
  moreover have "\<not> beyond (2 * ceillog2 n) (?P i)" using I i by (simp add: dissem_inv_def)
  ultimately have "?P i = Some (2 * ceillog2 n)" by (cases "?P i") simp_all
  then show ?thesis using I i by (simp add: dissem_inv_def returned_def dissem_done_code)
qed

end

end
