(* ===== verification/Channel_Net.thy ===== *)
theory Channel_Net
  imports Channel_Refine Broadcast_Tree Dissem_Proof
begin

text \<open>
  Networks of the one-to-one channels of \<open>src/channel.c\<close>. Notifications, and the check for them, on such
  a channel keep the contract of a channel that can be polled, so that the tree barrier holds on
  the library's own channels, over the UMP backend. The links of a network are the channels, each with the memory
  its two rings are in.
\<close>

section \<open>One attempt of a notification\<close>

definition chan_notify :: "bool \<Rightarrow> chan_state \<Rightarrow> bool \<times> chan_state" where
  "chan_notify d = (\<lambda>(m, ch).
     case smlt_channel_notify (\<lambda>_ w. w) 1 (chan_sender d ch) ((), m, ch) of
       Returns (err, _, m', ch') \<Rightarrow> (smlt_err_is_ok err, m', ch')
     | _ \<Rightarrow> (False, m, ch))"

definition chan_hear :: "bool \<Rightarrow> chan_state \<Rightarrow> u64 list option \<times> chan_state" where
  "chan_hear d = (\<lambda>(m, ch).
     case smlt_channel_recv_notification (\<lambda>_ w. w) 1 (chan_sender (\<not> d) ch) ((), m, ch) of
       Returns (err, _, m', ch') \<Rightarrow> (if smlt_err_is_ok err then Some [] else None, m', ch')
     | _ \<Rightarrow> (None, m, ch))"

definition chan_can_recv :: "bool \<Rightarrow> chan_state \<Rightarrow> bool" where
  "chan_can_recv d = (\<lambda>(m, ch). smlt_channel_can_recv (chan_sender (\<not> d) ch) m ch = Returns True)"

text \<open>On the UMP backend a notification is a message without words.\<close>

lemma ump_notify_once:
  assumes "smlt_ump_queuepair_try_send m u (msg_of []) = (err, m', u')"
  shows "smlt_ump_queuepair_notify (\<lambda>_ w. w) (Suc 0) (e, m, u) =
    (if err = errval SMLT_SUCCESS then Some (err, e, m', u') else None)"
  using assms
  by (auto simp: smlt_ump_queuepair_notify_def lift_env_def smlt_ump_queuepair_try_send_def smlt_ump_queuepair_prepare_send_def
      smlt_ump_queuepair_send_raw_def smlt_ump_queuepair_notify_raw_def smlt_ump_queue_send_def smlt_ump_queue_notify_def
      smlt_ump_queue_get_next_def msg_of_def Let_def smlt_err_is_fail_errval split: prod.splits if_splits)

lemma ump_hear_once:
  assumes "smlt_ump_queuepair_try_recv m u (msg_of []) = (err, m', u', msg)"
  shows "smlt_ump_queuepair_recv_notify (\<lambda>_ w. w) (Suc 0) (e, m, u) =
    (if err = errval SMLT_SUCCESS then Some (err, e, m', u') else None)"
  using assms
  by (auto simp: smlt_ump_queuepair_recv_notify_def lift_env_def smlt_ump_queuepair_try_recv_def smlt_ump_queuepair_recv_raw_def
      smlt_ump_queuepair_can_recv_raw_def smlt_ump_queue_recv_raw_def smlt_ump_queue_can_recv_def
      Let_def smlt_err_is_fail_errval split: prod.splits if_splits)

lemma ump_hear_payload:
  "smlt_ump_queuepair_try_recv m u (msg_of []) = (err, m', u', msg) \<Longrightarrow> err = errval SMLT_SUCCESS \<Longrightarrow> msg_payload msg = []"
  by (auto simp: smlt_ump_queuepair_try_recv_def msg_of_def msg_payload_def split: prod.splits if_splits)

lemma chan_notify_eq:
  assumes "chan_inv w s"
  shows "chan_notify d s = chan_try_send d [] s"
proof -
  obtain m ch where s: "s = (m, ch)" by (cases s)
  obtain a r where q: "ch_send ch = [a]" "ch_recv ch = [r]" "qp_f a = qp_fns Fn_ump" "qp_f r = qp_fns Fn_ump"
    and c: "\<not> ch_use_shm ch" "ch_m ch = 1" "ch_n ch = 1" "ch_owner ch \<noteq> ch_trg ch"
    using assms by (auto simp: s chan_inv_def)
  obtain err m' u where t: "smlt_ump_queuepair_try_send m (if d then own_end ch else trg_end ch) (msg_of []) = (err, m', u)"
    using prod_cases3 by blast
  have n: "num_chan ch = Suc 0" using c by (simp add: num_chan_def)
  show ?thesis
    using chan_try_send_eq[OF assms[unfolded s] t] ump_notify_once[OF t, of "()"] q c n
    by (cases d) (auto simp: s chan_notify_def smlt_channel_notify_def chan_sender_def on_field_def call_at_def
        smlt_queuepair_notify_def qp_fns_def own_end_def trg_end_def smlt_err_is_ok_errval smlt_err_is_fail_errval)
qed

lemma chan_hear_eq:
  assumes "chan_inv w s"
  shows "chan_hear d s = chan_try_recv 0 d s"
proof -
  obtain m ch where s: "s = (m, ch)" by (cases s)
  obtain a r where q: "ch_send ch = [a]" "ch_recv ch = [r]" "qp_f a = qp_fns Fn_ump" "qp_f r = qp_fns Fn_ump"
    and c: "\<not> ch_use_shm ch" "ch_m ch = 1" "ch_n ch = 1" "ch_owner ch \<noteq> ch_trg ch"
    using assms by (auto simp: s chan_inv_def)
  obtain err m' u msg where t: "smlt_ump_queuepair_try_recv m (if d then trg_end ch else own_end ch) (msg_of []) = (err, m', u, msg)"
    using prod_cases4 by blast
  have "smlt_ump_queuepair_try_recv m (if d then trg_end ch else own_end ch) (msg_of (replicate 0 0)) = (err, m', u, msg)"
    using t by simp
  from chan_try_recv_eq[OF assms[unfolded s] this] show ?thesis
    using ump_hear_once[OF t, of "()"] ump_hear_payload[OF t] q c
    by (cases d) (auto simp: s chan_hear_def smlt_channel_recv_notification_def chan_sender_def on_field_def call_at_def
        smlt_queuepair_recv0_def qp_fns_def own_end_def trg_end_def smlt_err_is_ok_errval smlt_err_is_fail_errval)
qed

lemma chan_can_recv_pending:
  assumes "chan_inv w s"
  shows "chan_can_recv d s \<longleftrightarrow> chan_pending w d s \<noteq> []"
proof -
  obtain m ch where s: "s = (m, ch)" by (cases s)
  obtain a r where q: "ch_send ch = [a]" "ch_recv ch = [r]" "qp_f a = qp_fns Fn_ump" "qp_f r = qp_fns Fn_ump"
    and c: "\<not> ch_use_shm ch" "ch_m ch = 1" "ch_n ch = 1" "ch_owner ch \<noteq> ch_trg ch"
    using assms by (auto simp: s chan_inv_def)
  have n: "num_chan ch = Suc 0" using c by (simp add: num_chan_def)
  let ?a = "if d then own_end ch else trg_end ch" and ?b = "if d then trg_end ch else own_end ch"
  obtain S R L where dir: "ump_dir S R L m ?a (uqp_rx ?b)"
    using chan_dir(1)[OF assms[unfolded s], of d] by (auto simp: ump_duplex_def ump_link_inv_def)
  have "chan_can_recv d s \<longleftrightarrow> smlt_ump_queue_can_recv m (uqp_rx ?b)"
    using q c n by (cases d) (simp_all add: s chan_can_recv_def smlt_channel_can_recv_def chan_sender_def Let_def
        smlt_queuepair_can_recv_def qp_fns_def own_end_def trg_end_def smlt_ump_queuepair_can_recv_def smlt_ump_queuepair_can_recv_raw_def)
  also have "\<dots> \<longleftrightarrow> ump_link_pending w (?b, m, ?a) \<noteq> []"
    using ump_dir_can_recv[OF dir] link_pending_eq[OF dir, of w] by auto
  also have "\<dots> \<longleftrightarrow> chan_pending w d s \<noteq> []" by (cases d) (simp_all add: s chan_pending_def)
  finally show ?thesis .
qed

text \<open>The channels of a network that passes messages of \<open>w\<close> words, and of one that passes notifications.\<close>

interpretation mnet: polled_channel
  "chan_inv w" "chan_pending w" "\<lambda>x. length x = w" chan_try_send "chan_try_recv w" chan_can_recv for w
  by unfold_locales (rule chan_can_recv_pending)

interpretation nnet: polled_channel
  "chan_inv 0" "chan_pending 0" "\<lambda>x. x = []" "\<lambda>d x. chan_notify d" chan_hear chan_can_recv
proof unfold_locales
  fix s d ok s' and x :: "u64 list"
  assume "chan_inv 0 s" "x = []" "chan_notify d s = (ok, s')"
  then show "chan_inv 0 s' \<and> chan_pending 0 d s' = chan_pending 0 d s @ (if ok then [x] else []) \<and>
    chan_pending 0 (\<not> d) s' = chan_pending 0 (\<not> d) s \<and> (ok \<or> chan_pending 0 d s \<noteq> [])"
    using chan_send_step[of 0 s "[]" d ok s'] chan_notify_eq by simp
next
  fix s d r s'
  assume "chan_inv 0 s" "chan_hear d s = (r, s')"
  then show "chan_inv 0 s' \<and> chan_pending 0 d s = (case r of None \<Rightarrow> [] | Some x \<Rightarrow> [x]) @ chan_pending 0 d s' \<and>
    chan_pending 0 (\<not> d) s' = chan_pending 0 (\<not> d) s \<and> (r = None \<longrightarrow> chan_pending 0 d s = [])"
    using chan_recv_step[of 0 s d r s'] chan_hear_eq by (auto split: option.splits)
qed (rule chan_can_recv_pending)

section \<open>The channels of a context\<close>

text \<open>
  The links of a context: its channels, \<open>M q\<close> the memory that the rings of the channel \<open>q\<close> are in. They
  are idle when every tree edge has a connected channel on which nothing is under way, which is how
  \<open>smlt_channel_create\<close> leaves it.
\<close>

definition context_links :: "smlt_context \<Rightarrow> (chan_ptr \<Rightarrow> mem) \<Rightarrow> chan_state links" where
  "context_links ctx M = (\<lambda>(p, c). (M (p, c), the (cn_children (cx_all_nodes ctx ! p)) ! c))"

definition links_idle :: "nat \<Rightarrow> smlt_topology \<Rightarrow> chan_state links \<Rightarrow> bool" where
  "links_idle w t L \<longleftrightarrow>
     (\<forall>p < topo_nodes t. \<forall>c j. child_at t p c = Some j \<longrightarrow>
        chan_inv w (L (p, c)) \<and> (\<forall>d. chan_pending w d (L (p, c)) = []))"

lemma links_idle_tree: "links_idle 0 t = nnet.tree_idle t" "links_idle w t = mnet.tree_idle w t"
  by (rule ext, simp add: links_idle_def nnet.tree_idle_def mnet.tree_idle_def)+

text \<open>The nodes run the barrier, \<open>is\<close> being the order of their moves.\<close>

definition barrier_run :: "smlt_context \<Rightarrow> nat list \<Rightarrow> chan_state links \<Rightarrow> (chan_state, errval_t) net" where
  "barrier_run ctx is L =
     net_run (\<lambda>d x. chan_notify d) chan_hear chan_can_recv (\<lambda>i. smlt_barrier_wait ctx (of_nat i)) is (net_start L)"

text \<open>Two nodes, a parent and a child, with a channel between them.\<close>

definition pair_topology :: smlt_topology where
  "pair_topology = \<lparr>tp_name = ''pair'', tp_root = Some 0, tp_num_nodes = 2, tp_all_nodes = heap_nodes 2\<rparr>"

definition pair_context :: "smlt_channel \<Rightarrow> smlt_context" where
  "pair_context ch =
     \<lparr>cx_num_nodes = 2, cx_max_nid = 1, cx_nid_to_node = [Some 0, Some 1],
      cx_all_nodes =
        [\<lparr>cn_node_id = 0, cn_parent = None, cn_children = Some [ch], cn_num_children = 1, cn_index = 0\<rparr>,
         \<lparr>cn_node_id = 1, cn_parent = Some (0, 0), cn_children = None, cn_num_children = 0, cn_index = 0\<rparr>]\<rparr>"

lemma pair_topology_wf: "topo_wf pair_topology" "topo_nodes pair_topology = 2"
  by (auto simp: pair_topology_def topo_nodes_def intro!: heap_topo_wf[of _ 2])

lemma pair_child:
  "child_at pair_topology 0 c = (if c = 0 then Some 1 else None)" "child_at pair_topology (Suc 0) c = None"
  by (simp_all add: pair_topology_def child_at_def heap_node_def topology_node_zero_def)

lemma demo_chan_link:
  "\<exists>ch m. ch_owner ch = 0 \<and> ch_trg ch = 1 \<and>
     (\<forall>w \<le> 7. chan_inv w (m, ch) \<and> (\<forall>d. chan_pending w d (m, ch) = []))"
proof -
  obtain ch h' m where c: "smlt_channel_create (\<lambda>sz n h. (h, h + 65536)) (\<lambda>sz h. (h, h + 65536)) (\<lambda>b sz h. h) 3 (\<lambda>c. ucast c)
      demo_channel [0] [1] 1 1 (65536, \<lambda>_. 5) = Returns (errval SMLT_SUCCESS, ch, h', m)"
    using demo_create by blast
  have ends: "ch_owner ch = 0" "ch_trg ch = 1"
    using c channel_create_edge[of "\<lambda>sz n h. (h, h + 65536)" "\<lambda>sz h. (h, h + 65536)" "\<lambda>b sz h. h" 3 "\<lambda>c. ucast c"
        demo_channel 0 1 "(65536, \<lambda>_. 5)"] by auto
  have "chan_inv w (m, ch) \<and> (\<forall>d. chan_pending w d (m, ch) = [])" if "w \<le> 7" for w
    using chan_create_link[OF c _ _ that] demo_blocks by simp
  with ends show ?thesis by blast
qed

lemma pair_context_of:
  assumes "ch_owner ch = 0" "ch_trg ch = 1" "chan_inv w (m, ch)"
  shows "context_of pair_topology (pair_context ch)"
proof -
  have edge: "edge_channel 0 1 ch" using assms by (simp add: edge_channel_def chan_inv_def)
  have node: "node_at pair_topology i = heap_node 2 i" if "i < 2" for i using that by (simp add: pair_topology_def)
  have "node_context pair_topology i (cx_all_nodes (pair_context ch) ! i) \<and>
      cn_parent (cx_all_nodes (pair_context ch) ! i) = parent_chan pair_topology i" if i: "i < 2" for i
  proof -
    consider "i = 0" | "i = 1" using i by linarith
    then show ?thesis
      using edge
      by cases (auto simp: pair_child node_context_def pair_context_def node heap_node_def topology_node_zero_def parent_chan_def)
  qed
  then show ?thesis
    using pair_topology_wf(2) by (auto simp: context_of_def upt_rec) (simp_all add: pair_context_def pair_topology_def)
qed

lemma pair_links:
  "\<exists>ch M. context_of pair_topology (pair_context ch) \<and>
     (\<forall>w \<le> 7. links_idle w pair_topology (context_links (pair_context ch) M))"
proof -
  obtain ch m where ch: "ch_owner ch = 0" "ch_trg ch = 1" "\<forall>w \<le> 7. chan_inv w (m, ch) \<and> (\<forall>d. chan_pending w d (m, ch) = [])"
    using demo_chan_link by blast
  have "context_of pair_topology (pair_context ch)" using ch pair_context_of[of ch 7 m] by simp
  moreover have "links_idle w pair_topology (context_links (pair_context ch) (\<lambda>_. m))" if "w \<le> 7" for w
    unfolding links_idle_def pair_topology_wf(2)
  proof (intro allI impI)
    fix p c j
    assume "p < 2" "child_at pair_topology p c = Some j"
    then have "p = 0" "c = 0" by (auto simp: less_2_cases_iff pair_child split: if_splits)
    then show "chan_inv w (context_links (pair_context ch) (\<lambda>_. m) (p, c)) \<and>
        (\<forall>d. chan_pending w d (context_links (pair_context ch) (\<lambda>_. m) (p, c)) = [])"
      using ch(3) that by (simp add: context_links_def pair_context_def)
  qed
  ultimately show ?thesis by blast
qed

section \<open>Properties\<close>

text \<open>
  Claim C38: on a one-to-one channel over the UMP backend a notification is a message without words: one
  attempt of \<open>smlt_channel_notify\<close> does to memory and channel what an attempt of \<open>smlt_channel_send\<close> with
  an empty message does, and so does the receiving of one, whatever the length of the messages on the
  channel.
\<close>

theorem notification_is_empty_message:
  assumes "chan_inv w s"
  shows "chan_notify d s = chan_try_send d [] s \<and> chan_hear d s = chan_try_recv 0 d s"
  using chan_notify_eq[OF assms] chan_hear_eq[OF assms] by blast

theorem notification_is_empty_message_witness:
  "\<exists>s. chan_inv 3 s \<and> chan_notify True s = chan_try_send True [] s \<and> chan_hear True s = chan_try_recv 0 True s"
proof -
  obtain ch m where "\<forall>w \<le> 7. chan_inv w (m, ch)" using demo_chan_link by blast
  then have "chan_inv 3 (m, ch)" by simp
  from this notification_is_empty_message[OF this] show ?thesis by blast
qed

text \<open>
  Claim C2: the tree barrier is a barrier. When the nodes of a well-formed topology run
  \<open>smlt_barrier_wait\<close> over the channels of their context, with their moves interleaved in any order,
  then a node's return from it means that it returns success and that every node has entered it.
\<close>

theorem tree_barrier_safe:
  assumes "topo_wf t" "context_of t ctx" "links_idle 0 t (context_links ctx M)" "set is \<subseteq> {..<topo_nodes t}"
    and "i < topo_nodes t" "returned (barrier_run ctx is (context_links ctx M)) i r"
  shows "r = errval SMLT_SUCCESS \<and> (\<forall>j < topo_nodes t. entered (barrier_run ctx is (context_links ctx M)) j)"
  using nnet.barrier_safe[OF assms(1,2) _ _ assms(4) _ assms(5)] assms(3,6)
  by (simp add: links_idle_tree(1) barrier_run_def)

text \<open>
  Claim C6: the tree barrier does not deadlock. However far the nodes have got after any moves, more moves
  bring every one of them out of the barrier, with success, and leave all channels empty for the next
  one.
\<close>

theorem tree_barrier_completes:
  assumes "topo_wf t" "context_of t ctx" "links_idle 0 t (context_links ctx M)" "set is \<subseteq> {..<topo_nodes t}"
  shows "\<exists>js. set js \<subseteq> {..<topo_nodes t} \<and>
    (\<forall>i < topo_nodes t. returned (barrier_run ctx (is @ js) (context_links ctx M)) i (errval SMLT_SUCCESS)) \<and>
    links_idle 0 t (net_links (barrier_run ctx (is @ js) (context_links ctx M)))"
  using nnet.barrier_live[OF assms(1,2) _ _ assms(4)] assms(3)
  unfolding links_idle_tree(1) barrier_run_def by blast

theorem tree_barrier_completes_witness:
  "\<exists>ch M js. \<forall>i < 2. returned (barrier_run (pair_context ch) ([1, 0] @ js) (context_links (pair_context ch) M)) i (errval SMLT_SUCCESS)"
proof -
  obtain ch M where "context_of pair_topology (pair_context ch)" "links_idle 0 pair_topology (context_links (pair_context ch) M)"
    using pair_links by blast
  from tree_barrier_completes[OF pair_topology_wf(1) this, of "[1, 0]"] show ?thesis
    unfolding pair_topology_wf(2) by auto
qed

theorem tree_barrier_safe_witness:
  "\<exists>ch M is. returned (barrier_run (pair_context ch) is (context_links (pair_context ch) M)) 0 (errval SMLT_SUCCESS) \<and>
     (\<forall>j < 2. entered (barrier_run (pair_context ch) is (context_links (pair_context ch) M)) j)"
proof -
  obtain ch M where c: "context_of pair_topology (pair_context ch)" "links_idle 0 pair_topology (context_links (pair_context ch) M)"
    using pair_links by blast
  obtain js where js: "set js \<subseteq> {..<topo_nodes pair_topology}"
    "returned (barrier_run (pair_context ch) js (context_links (pair_context ch) M)) 0 (errval SMLT_SUCCESS)"
    using nnet.barrier_live[OF pair_topology_wf(1) c(1), of "context_links (pair_context ch) M" "[]"] c(2) pair_topology_wf(2)
    unfolding links_idle_tree(1) barrier_run_def by auto
  from tree_barrier_safe[OF pair_topology_wf(1) c js(1) _ js(2)] js(2) show ?thesis
    unfolding pair_topology_wf(2) by auto
qed

end
