(* ===== verification/Dissem_Net.thy ===== *)
theory Dissem_Net
  imports Channel_Net
begin

text \<open>
  The dissemination barrier on the channels that \<open>smlt_dissem_barrier_init\<close> creates: what the
  initialisation sets up, and that the barrier then holds and comes to its end.
\<close>

section \<open>Initialisation\<close>

lemma pair_index_eq:
  assumes "i < n" "j < n" "n < 2 ^ 16"
  shows "pair_index (of_nat n) i j = i * n + j"
proof -
  have "i * n + j < n * n" by (rule dissem_pair_less[OF assms(1,2)])
  also have "n * n \<le> 2 ^ 16 * 2 ^ 16" using assms(3) by (intro mult_le_mono) simp_all
  finally have "unat (of_nat (i * n + j) :: u32) = i * n + j" by (intro unat_of_nat_small) simp
  then show ?thesis by (simp add: pair_index_def)
qed

lemma pair_index_inj:
  "a * n + b = i * n + j \<Longrightarrow> b < n \<Longrightarrow> j < n \<Longrightarrow> a = i \<and> b = (j :: nat)"
  by (metis div_mult_self3 div_less add.commute mod_less mod_mult_self1 add_cancel_right_left less_nat_zero_code)

lemma dissem_channels_pairs:
  assumes "dissem_channels create nl cores (of_nat n) ps (channels, store, w) = Inr (errval SMLT_SUCCESS, channels', store', w')"
    and "length channels = n * n" "n < 2 ^ 16" "\<forall>(i, j) \<in> set ps. i \<le> j \<and> j < n"
  shows "length channels' = n * n"
    and "a < n \<Longrightarrow> b < n \<Longrightarrow> channels' ! (a * n + b) =
           (if (min a b, max a b) \<in> set ps then Some (min a b, max a b) else channels ! (a * n + b))"
proof -
  have "length channels' = n * n \<and> (\<forall>a < n. \<forall>b < n. channels' ! (a * n + b) =
           (if (min a b, max a b) \<in> set ps then Some (min a b, max a b) else channels ! (a * n + b)))"
    using assms(1,2,4)
  proof (induction ps arbitrary: channels store w)
    case (Cons p ps)
    obtain i j where p: "p = (i, j)" by fastforce
    have ij: "i \<le> j" "i < n" "j < n" using Cons.prems(3) p by auto
    note idx = pair_index_eq[OF ij(2,3) assms(3)] pair_index_eq[OF ij(3,2) assms(3)]
    let ?c = "channels[i * n + j := Some (i, j), j * n + i := Some (i, j)]"
    obtain store1 w1 where rest: "dissem_channels create nl cores (of_nat n) ps (?c, store1, w1) =
        Inr (errval SMLT_SUCCESS, channels', store', w')"
      using Cons.prems(1) unfolding p
      by (auto simp: idx bind_run_Inr nth_run_def Let_def errval_eq_iff split: if_splits prod.splits)
    have at: "?c ! (a * n + b) = (if (min a b, max a b) = (i, j) then Some (i, j) else channels ! (a * n + b))"
      if "a < n" "b < n" for a b
    proof -
      have eqs: "a * n + b = i * n + j \<longleftrightarrow> a = i \<and> b = j" "a * n + b = j * n + i \<longleftrightarrow> a = j \<and> b = i"
        using pair_index_inj[of a n b] that ij by auto
      have "?c ! (a * n + b) = (if a * n + b = j * n + i then Some (i, j)
          else if a * n + b = i * n + j then Some (i, j) else channels ! (a * n + b))"
        using dissem_pair_less[OF ij(2,3)] dissem_pair_less[OF ij(3,2)] Cons.prems(2)
        by (simp only: nth_list_update length_list_update) simp
      moreover have "(min a b, max a b) = (i, j) \<longleftrightarrow> a = i \<and> b = j \<or> a = j \<and> b = i"
        using ij(1) by (auto simp: min_def max_def)
      ultimately show ?thesis unfolding eqs by presburger
    qed
    show ?case
      using Cons.IH[OF rest] Cons.prems(2,3) at by (auto simp: p)
  qed simp
  then show "length channels' = n * n"
    "a < n \<Longrightarrow> b < n \<Longrightarrow> channels' ! (a * n + b) =
       (if (min a b, max a b) \<in> set ps then Some (min a b, max a b) else channels ! (a * n + b))" by blast+
qed

lemma dissem_channels_err:
  "dissem_channels create nl cores num ps s = Inr (err, s') \<Longrightarrow> \<not> smlt_err_is_fail err \<Longrightarrow> err = errval SMLT_SUCCESS"
proof (induction ps arbitrary: s)
  case (Cons p ps)
  obtain i j channels store w where "p = (i, j)" "s = (channels, store, w)" by (metis prod_cases3 surj_pair)
  then show ?case
    using Cons by (auto simp: bind_run_Inr Let_def smlt_err_is_fail_errval split: if_splits prod.splits)
qed simp

lemma set_dissem_pairs: "set (dissem_pairs n) = {(i, j). i \<le> j \<and> j < n}"
  by (force simp: dissem_pairs_def)

lemma copy_cores: "length xs = k \<Longrightarrow> k + m \<le> length cs \<Longrightarrow>
  for_run (\<lambda>i own. bind_run (nth_run cs i) (\<lambda>c. Inr (own @ [c]))) k m xs = Inr (xs @ take m (drop k cs))"
proof (induction m arbitrary: k xs)
  case (Suc m)
  then show ?case using Suc.IH[of "xs @ [cs ! k]" "Suc k"] by (simp add: nth_run_def Cons_nth_drop_Suc[symmetric])
qed simp

lemma dissem_init_bar:
  assumes init: "smlt_dissem_barrier_init na nl nf mx node cores num w = Inr (errval SMLT_SUCCESS, bar, store, w')"
    and n: "0 < num" "num < 2 ^ 16" and cores: "length cores = unat num" "distinct cores"
  shows "dissem_bar (unat num) bar" "db_cores bar = cores"
proof -
  let ?n = "unat num"
  have small: "?n < 2 ^ 16" "0 < ?n" using n by (simp_all add: word_less_nat_alt unat_gt_0)
  obtain channels w4 err w3 where c: "dissem_channels (smlt_channel_create na nl nf mx node) nl cores num (dissem_pairs ?n)
      (replicate (?n * ?n) None, \<lambda>_. channel_zero, w3) = Inr (err, channels, store, w4)" "\<not> smlt_err_is_fail err"
    and bar: "bar = \<lparr>db_num_threads = sint num, db_rounds = of_nat (ceillog2 ?n), db_cores = cores, db_channels = channels\<rparr>"
    using init copy_cores[of "[]" 0 ?n cores] cores(1)
    by (auto simp: smlt_dissem_barrier_init_def Let_def bind_run_Inr smlt_err_is_fail_errval split: if_splits prod.splits)
  have err: "err = errval SMLT_SUCCESS"
    using c by (simp add: dissem_channels_err)
  have "uint num < 65536" using n(2) by (simp add: word_less_def)
  moreover have "0 \<le> uint num" "- (2 ^ 31) \<le> (0 :: int)" "(65536 :: int) \<le> 2 ^ 31" by simp_all
  ultimately have "signed_take_bit 31 (uint num) = uint num" by (intro signed_take_bit_int_eq_self) linarith+
  then have "sint num = int ?n" by (simp add: sint_uint)
  moreover have "length channels = ?n * ?n" "\<forall>a < ?n. \<forall>b < ?n. channels ! (a * ?n + b) = Some (min a b, max a b)"
  proof -
    have "dissem_channels (smlt_channel_create na nl nf mx node) nl cores (of_nat ?n) (dissem_pairs ?n)
        (replicate (?n * ?n) None, \<lambda>_. channel_zero, w3) = Inr (errval SMLT_SUCCESS, channels, store, w4)" using c err by simp
    from dissem_channels_pairs[OF this _ small(1)]
    show "length channels = ?n * ?n" "\<forall>a < ?n. \<forall>b < ?n. channels ! (a * ?n + b) = Some (min a b, max a b)"
      by (simp_all add: set_dissem_pairs min_le_iff_disj)
  qed
  ultimately show "dissem_bar (unat num) bar" "db_cores bar = cores"
    using small cores by (simp_all add: bar dissem_bar_def)
qed

section \<open>Runs\<close>

text \<open>The channels of the barrier, \<open>M q\<close> the memory of the rings of the channel \<open>q\<close>; initially idle.\<close>

definition store_links :: "chan_store \<Rightarrow> (chan_ptr \<Rightarrow> mem) \<Rightarrow> chan_state links" where
  "store_links store M = (\<lambda>q. (M q, store q))"

definition store_idle :: "nat \<Rightarrow> chan_state links \<Rightarrow> bool" where
  "store_idle n L \<longleftrightarrow> (\<forall>j < n. \<forall>i < j. chan_inv 0 (L (i, j)) \<and> (\<forall>d. chan_pending 0 d (L (i, j)) = []))"

lemma store_idle_pairs: "store_idle n L = nnet.pairs_idle n L"
  by (simp add: store_idle_def nnet.pairs_idle_def)

definition dissem_run :: "smlt_dissem_barrier \<Rightarrow> nat list \<Rightarrow> chan_state links \<Rightarrow> (chan_state, errval_t) net" where
  "dissem_run bar is L =
     net_run (\<lambda>d x. chan_notify d) chan_hear chan_can_recv
       (\<lambda>i. smlt_dissem_barrier_wait bar (db_cores bar ! i)) is (net_start L)"

text \<open>A barrier of two threads, on an allocator that hands out 64 KiB at a time.\<close>

abbreviation (input) block_alloc :: "u64 \<Rightarrow> u64 \<Rightarrow> addr \<times> u64" where
  "block_alloc \<equiv> \<lambda>sz h. (h, h + 65536)"

lemma demo_alloc:
  assumes "h \<in> {65536, 131072, 196608, 262144, 589824, 917504}"
  shows "\<exists>p m'. p \<noteq> 0 \<and> alloc_run block_alloc bytes 64 (h, m) = Inr (p, h + 65536, m')"
  using assms by (auto simp: alloc_run_def smlt_platform_alloc_def Let_def SMLT_MEM_IS_POWER_OF_TWO_def SMLT_MEM_ALIGN_def)

lemma demo_chan_create:
  assumes "h \<in> {327680, 655360, 983040}"
  shows "\<exists>ch m'. smlt_channel_create (\<lambda>sz n. block_alloc sz) block_alloc (\<lambda>b sz h. h) 3 (\<lambda>c. 0) channel_zero [a] [b] 1 1 (h, m) =
      Returns (errval SMLT_SUCCESS, ch, h + 262144, m')"
proof -
  have pow: "SMLT_MEM_IS_POWER_OF_TWO 4096" "SMLT_MEM_IS_POWER_OF_TWO 64" by (simp_all add: SMLT_MEM_IS_POWER_OF_TWO_def)
  then show ?thesis
    using assms
    by (auto simp: smlt_channel_create_def smlt_queuepair_create_def smlt_ump_queuepair_init_def ump_queuepair_zero_def init_tx_eq
        init_rx_eq Let_def smlt_platform_alloc_on_node_def SMLT_MEM_ALIGN_def smlt_err_is_fail_errval)
qed

lemma demo_chan_blocks:
  "numa_blocks_ok (\<lambda>sz n. block_alloc sz) (65 * 64 + 4096 + 16) 0 0
     (qp_heap (\<lambda>sz n. block_alloc sz) 3 0 0 (655360, m))"
  by (simp add: numa_blocks_ok_def qp_heap_def smlt_platform_alloc_on_node_def Let_def SMLT_MEM_IS_POWER_OF_TWO_def
      SMLT_MEM_ALIGN_def)

lemma demo_dissem_init:
  "\<exists>bar store w' m.
     smlt_dissem_barrier_init (\<lambda>sz n. block_alloc sz) block_alloc (\<lambda>b sz h. h) 3 (\<lambda>c. 0) [0, 1] 2 (65536, \<lambda>_. 5) =
       Inr (errval SMLT_SUCCESS, bar, store, w') \<and> chan_inv 0 (m, store (0, 1)) \<and> (\<forall>d. chan_pending 0 d (m, store (0, 1)) = [])"
proof -
  let ?create = "smlt_channel_create (\<lambda>sz n. block_alloc sz) block_alloc (\<lambda>b sz h. h) 3 (\<lambda>c. 0) channel_zero"
  obtain p1 m1 where a1: "p1 \<noteq> 0" "alloc_run block_alloc 24 64 (65536, \<lambda>_. 5) = Inr (p1, 131072, m1)"
    using demo_alloc[of 65536 24 "\<lambda>_. 5"] by auto
  obtain p2 m2 where a2: "p2 \<noteq> 0" "alloc_run block_alloc 8 64 (131072, m1) = Inr (p2, 196608, m2)"
    using demo_alloc[of 131072 8 m1] by auto
  obtain p3 m3 where a3: "p3 \<noteq> 0" "alloc_run block_alloc 32 64 (196608, m2) = Inr (p3, 262144, m3)"
    using demo_alloc[of 196608 32 m2] by auto
  obtain p4 m4 where a4: "p4 \<noteq> 0" "alloc_run block_alloc 136 64 (262144, m3) = Inr (p4, 327680, m4)"
    using demo_alloc[of 262144 136 m3] by auto
  obtain c1 m5 where c1: "?create [0] [0] 1 1 (327680, m4) = Returns (errval SMLT_SUCCESS, c1, 589824, m5)"
    using demo_chan_create[of 327680 0 0 m4] by auto
  obtain p6 m6 where a6: "p6 \<noteq> 0" "alloc_run block_alloc 136 64 (589824, m5) = Inr (p6, 655360, m6)"
    using demo_alloc[of 589824 136 m5] by auto
  obtain c2 m7 where c2: "?create [0] [1] 1 1 (655360, m6) = Returns (errval SMLT_SUCCESS, c2, 917504, m7)"
    using demo_chan_create[of 655360 0 1 m6] by auto
  obtain p8 m8 where a8: "p8 \<noteq> 0" "alloc_run block_alloc 136 64 (917504, m7) = Inr (p8, 983040, m8)"
    using demo_alloc[of 917504 136 m7] by auto
  obtain c3 m9 where c3: "?create [1] [1] 1 1 (983040, m8) = Returns (errval SMLT_SUCCESS, c3, 1245184, m9)"
    using demo_chan_create[of 983040 1 1 m8] by auto
  have pairs: "dissem_pairs 2 = [(0, 0), (0, 1), (1, 1)]" by (simp add: dissem_pairs_def upt_rec)
  let ?store = "(\<lambda>_. channel_zero)((0, 0) := c1, (0, 1) := c2, (1, 1) := c3) :: chan_store"
  obtain bar where "smlt_dissem_barrier_init (\<lambda>sz n. block_alloc sz) block_alloc (\<lambda>b sz h. h) 3 (\<lambda>c. 0) [0, 1] 2 (65536, \<lambda>_. 5) =
      Inr (errval SMLT_SUCCESS, bar, ?store, 1245184, m9)"
    using a1 a2 a3 a4 c1 a6 c2 a8 c3 copy_cores[of "[]" 0 2 "[0, 1] :: u32 list"]
    by (simp add: smlt_dissem_barrier_init_def pairs pair_index_def nth_run_def Let_def smlt_err_is_fail_errval)
  moreover have "chan_inv 0 (m7, c2)" "\<forall>d. chan_pending 0 d (m7, c2) = []"
    using chan_create_link[OF c2, of 0] demo_chan_blocks by simp_all
  moreover have "?store (0, 1) = c2" by simp
  ultimately show ?thesis by (intro exI[of _ bar] exI[of _ ?store] exI[of _ "(1245184, m9)"] exI[of _ m7]) simp
qed

section \<open>Properties\<close>

text \<open>
  Claim C3: the dissemination barrier is a barrier. For up to 65535 different cores, after
  \<open>smlt_dissem_barrier_init\<close> has succeeded, no thread returns from \<open>smlt_dissem_barrier_wait\<close> before every
  thread has entered it, in any interleaving of their moves; and what is returned is success.
\<close>

theorem dissem_barrier_safe:
  assumes "smlt_dissem_barrier_init na nl nf mx node cores num w = Inr (errval SMLT_SUCCESS, bar, store, w')"
    and "0 < num" "num < 2 ^ 16" "length cores = unat num" "distinct cores"
    and "store_idle (unat num) (store_links store M)" "set is \<subseteq> {..<unat num}"
    and "i < unat num" "returned (dissem_run bar is (store_links store M)) i r"
  shows "r = errval SMLT_SUCCESS \<and> (\<forall>j < unat num. entered (dissem_run bar is (store_links store M)) j)"
  using nnet.dissem_safe[OF dissem_init_bar(1)[OF assms(1-5)] _ _ assms(7) _ assms(8)] assms(6,9)
  by (simp add: store_idle_pairs dissem_run_def)

text \<open>
  Claim C9: the dissemination barrier terminates under every fair schedule. If the schedule consists of at
  least \<open>2 \<lceil>log\<^sub>2 n\<rceil> + 1\<close> passes, in each of which every thread moves at least once, in any order and as
  often as it likes, then all threads have returned success.
\<close>

theorem dissem_barrier_terminates:
  assumes "smlt_dissem_barrier_init na nl nf mx node cores num w = Inr (errval SMLT_SUCCESS, bar, store, w')"
    and "0 < num" "num < 2 ^ 16" "length cores = unat num" "distinct cores"
    and "store_idle (unat num) (store_links store M)"
    and "\<forall>js \<in> set passes. set js = {..<unat num}" "2 * ceillog2 (unat num) < length passes" "i < unat num"
  shows "returned (dissem_run bar (concat passes) (store_links store M)) i (errval SMLT_SUCCESS)"
  using nnet.dissem_terminates[OF dissem_init_bar(1)[OF assms(1-5)] _ _ assms(7,8) _ assms(9)] assms(6)
  by (simp add: store_idle_pairs dissem_run_def)

theorem dissem_barrier_terminates_witness:
  "\<exists>bar store w' M.
     smlt_dissem_barrier_init (\<lambda>sz n. block_alloc sz) block_alloc (\<lambda>b sz h. h) 3 (\<lambda>c. 0) [0, 1] 2 (65536, \<lambda>_. 5) =
       Inr (errval SMLT_SUCCESS, bar, store, w') \<and>
     returned (dissem_run bar (concat [[0, 1], [1, 0], [1, 1, 0]]) (store_links store M)) 1 (errval SMLT_SUCCESS)"
proof -
  obtain bar store w' m where init: "smlt_dissem_barrier_init (\<lambda>sz n. block_alloc sz) block_alloc (\<lambda>b sz h. h) 3 (\<lambda>c. 0)
      [0, 1] 2 (65536, \<lambda>_. 5) = Inr (errval SMLT_SUCCESS, bar, store, w')"
    and ch: "chan_inv 0 (m, store (0, 1))" "\<forall>d. chan_pending 0 d (m, store (0, 1)) = []"
    using demo_dissem_init by blast
  have idle: "store_idle (unat (2 :: u32)) (store_links store (\<lambda>_. m))"
    using ch by (auto simp: store_idle_def store_links_def less_2_cases_iff)
  have passes: "\<forall>js \<in> set [[0, 1], [1, 0], [1, 1, 0]]. set js = {..<unat (2 :: u32)}" by auto
  have "returned (dissem_run bar (concat [[0, 1], [1, 0], [1, 1, 0]]) (store_links store (\<lambda>_. m))) 1 (errval SMLT_SUCCESS)"
    by (rule dissem_barrier_terminates[OF init _ _ _ _ idle passes]) simp_all
  then show ?thesis using init by blast
qed

theorem dissem_barrier_safe_witness:
  "\<exists>bar store w' M.
     smlt_dissem_barrier_init (\<lambda>sz n. block_alloc sz) block_alloc (\<lambda>b sz h. h) 3 (\<lambda>c. 0) [0, 1] 2 (65536, \<lambda>_. 5) =
       Inr (errval SMLT_SUCCESS, bar, store, w') \<and>
     returned (dissem_run bar [0, 0, 1, 1, 0] (store_links store M)) 0 (errval SMLT_SUCCESS) \<and>
     (\<forall>j < 2. entered (dissem_run bar [0, 0, 1, 1, 0] (store_links store M)) j)"
proof -
  obtain bar store w' m where init: "smlt_dissem_barrier_init (\<lambda>sz n. block_alloc sz) block_alloc (\<lambda>b sz h. h) 3 (\<lambda>c. 0)
      [0, 1] 2 (65536, \<lambda>_. 5) = Inr (errval SMLT_SUCCESS, bar, store, w')"
    and ch: "chan_inv 0 (m, store (0, 1))" "\<forall>d. chan_pending 0 d (m, store (0, 1)) = []"
    using demo_dissem_init by blast
  let ?s = "dissem_run bar [0, 0, 1, 1, 0] (store_links store (\<lambda>_. m))"
  have idle: "store_idle (unat (2 :: u32)) (store_links store (\<lambda>_. m))"
    using ch by (auto simp: store_idle_def store_links_def less_2_cases_iff)
  have bar: "dissem_bar 2 bar" using dissem_init_bar(1)[OF init] by simp
  have "dissem_count 2 [0, 0, 1, 1, 0] (\<lambda>_. None) 0 = Some 2"
    by (simp add: dissem_next_def peer_from_def)
  moreover have "dissem_inv (chan_inv 0) (chan_pending 0) 2 bar (dissem_count 2 [0, 0, 1, 1, 0] (\<lambda>_. None)) ?s"
    using nnet.dissem_reach[OF bar, of "store_links store (\<lambda>_. m)" "[0, 0, 1, 1, 0]"] idle
    by (simp add: store_idle_pairs dissem_run_def)
  ultimately have ret: "returned ?s 0 (errval SMLT_SUCCESS)"
    using dissem_done_code[of bar 2 0] by (simp add: dissem_inv_def returned_def)
  then have "\<forall>j < 2. entered ?s j"
    using dissem_barrier_safe[OF init _ _ _ _ idle, of "[0, 0, 1, 1, 0]" 0] by simp
  then show ?thesis using init ret by blast
qed

end
