(* ===== verification/Broadcast_Net.thy ===== *)
theory Broadcast_Net
  imports Channel_Net
begin

text \<open>
  \<open>smlt_broadcast\<close> over the channels of a context: the root's message reaches every node, unchanged.
\<close>

text \<open>The nodes run the broadcast, each with its message, for messages of \<open>w\<close> words; \<open>is\<close> is the order of their moves.\<close>

definition broadcast_run ::
  "nat \<Rightarrow> smlt_context \<Rightarrow> (nat \<Rightarrow> smlt_msg) \<Rightarrow> nat list \<Rightarrow> chan_state links \<Rightarrow> (chan_state, errval_t \<times> smlt_msg) net"
where
  "broadcast_run w ctx msgs is L =
     net_run chan_try_send (chan_try_recv w) chan_can_recv (\<lambda>i. smlt_broadcast ctx (of_nat i) (msgs i)) is (net_start L)"

lemma bcast_msg_payload:
  assumes "topo_wf t" "tp_root t = Some r" "\<forall>i < topo_nodes t. unat (msg_words (msgs i)) = w" "i < topo_nodes t"
  shows "msg_payload (bcast_msg t msgs (msg_payload (msgs r)) i) = msg_payload (msgs r)"
proof (cases "parent_chan t i = None")
  case True
  have "tn_parent (node_at t i) = None \<longrightarrow> i = r" using assms(1,4) by (induction rule: topo_induct) (use assms(2) in auto)
  then show ?thesis using True by (simp add: bcast_msg_def parent_chan_def split: option.splits)
next
  case False
  have "r < topo_nodes t" using assms(1,2) by (auto simp: topo_wf_def topo_rooted_def)
  then have "length (msg_payload (msgs r)) = unat (msg_words (msgs i))" using assms(3,4) by simp
  then show ?thesis using False by (auto simp: bcast_msg_def msg_payload_put)
qed

lemma broadcast_reach:
  assumes "topo_wf t" "context_of t ctx" "links_idle w t L" "set is \<subseteq> {..<topo_nodes t}"
    and "\<forall>i < topo_nodes t. unat (msg_words (msgs i)) = w" "tp_root t = Some r"
  obtains ix S where "bcast_inv (chan_inv w) (chan_pending w) t ix msgs (msg_payload (msgs r)) S (broadcast_run w ctx msgs is L)"
    and "\<forall>i < topo_nodes t. smlt_broadcast ctx (of_nat i) (msgs i) = bcast_code t ix msgs (msg_payload (msgs r)) i (bcast_first t i)"
proof -
  let ?ix = "\<lambda>i. projr (smlt_context_node_get_child_idx ctx (of_nat i))"
  have code: "\<forall>i < topo_nodes t. smlt_broadcast ctx (of_nat i) (msgs i) = bcast_code t ?ix msgs (msg_payload (msgs r)) i (bcast_first t i)"
    by (intro allI impI smlt_broadcast_code[OF assms(1,2)] refl)
  have "r < topo_nodes t" using assms(1,6) by (auto simp: topo_wf_def topo_rooted_def)
  then have "length (msg_payload (msgs r)) = w" using assms(5) by simp
  moreover have "mnet.tree_idle w t L" using assms(3) by (simp add: links_idle_tree(2))
  ultimately have "\<exists>S. bcast_inv (chan_inv w) (chan_pending w) t ?ix msgs (msg_payload (msgs r)) S (broadcast_run w ctx msgs is L)"
    unfolding broadcast_run_def using assms(4) code
    by (intro mnet.bcast_reach[OF assms(1)] bcast_msg_payload[OF assms(1,6,5)]) simp_all
  then show ?thesis using that[of ?ix] code by blast
qed

text \<open>
  Claim C4: a broadcast delivers the root's message. When the nodes of a well-formed topology run
  \<open>smlt_broadcast\<close> over the channels of their context, each with a message of the same number of words,
  and with their moves interleaved in any order, then a node that returns has success and, in its
  message, the words of the root's message.
\<close>

theorem broadcast_delivers:
  assumes "topo_wf t" "context_of t ctx" "links_idle w t (context_links ctx M)" "set is \<subseteq> {..<topo_nodes t}"
    and "\<forall>i < topo_nodes t. unat (msg_words (msgs i)) = w" "tp_root t = Some r"
    and "i < topo_nodes t" "returned (broadcast_run w ctx msgs is (context_links ctx M)) i (err, msg)"
  shows "err = errval SMLT_SUCCESS \<and> msg_payload msg = msg_payload (msgs r)"
proof -
  obtain ix S where I: "bcast_inv (chan_inv w) (chan_pending w) t ix msgs (msg_payload (msgs r)) S
    (broadcast_run w ctx msgs is (context_links ctx M))" using broadcast_reach[OF assms(1-6)] .
  from mnet.bcast_inv_returned[OF I assms(7,8)] bcast_msg_payload[OF assms(1,6,5,7)] show ?thesis by simp
qed

lemma broadcast_live:
  assumes "topo_wf t" "context_of t ctx" "links_idle w t L" "set is \<subseteq> {..<topo_nodes t}"
    and "\<forall>i < topo_nodes t. unat (msg_words (msgs i)) = w" "tp_root t = Some r"
  shows "\<exists>js. set js \<subseteq> {..<topo_nodes t} \<and> links_idle w t (net_links (broadcast_run w ctx msgs (is @ js) L)) \<and>
    (\<forall>i < topo_nodes t. returned (broadcast_run w ctx msgs (is @ js) L) i
       (errval SMLT_SUCCESS, bcast_msg t msgs (msg_payload (msgs r)) i))"
proof -
  let ?x = "msg_payload (msgs r)" and ?prog = "\<lambda>i. smlt_broadcast ctx (of_nat i) (msgs i)"
  obtain ix S where I: "bcast_inv (chan_inv w) (chan_pending w) t ix msgs ?x S (broadcast_run w ctx msgs is L)"
    and code: "\<forall>i < topo_nodes t. ?prog i = bcast_code t ix msgs ?x i (bcast_first t i)" using broadcast_reach[OF assms] .
  have "r < topo_nodes t" using assms(1,6) by (auto simp: topo_wf_def topo_rooted_def)
  then have "length ?x = w" using assms(5) by simp
  from mnet.bcast_completes[OF assms(1) this bcast_msg_payload[OF assms(1,6,5)], of ?prog ix S] code I
  obtain js S' where js: "set js \<subseteq> {..<topo_nodes t}" "\<forall>i < topo_nodes t. S' i = Some (Passing (kids t i))"
    "bcast_inv (chan_inv w) (chan_pending w) t ix msgs ?x S' (broadcast_run w ctx msgs (is @ js) L)"
    unfolding broadcast_run_def net_run_append by blast
  show ?thesis
    by (rule exI[of _ js]) (use js(1) mnet.bcast_inv_done[OF assms(1) js(3,2)] in \<open>simp add: links_idle_tree(2)\<close>)
qed

text \<open>
  Claim C7: a broadcast does not deadlock. However far the nodes have got after any moves, more moves
  bring every one of them to return with success and the root's words, and leave all channels empty.
\<close>

theorem broadcast_completes:
  assumes "topo_wf t" "context_of t ctx" "links_idle w t (context_links ctx M)" "set is \<subseteq> {..<topo_nodes t}"
    and "\<forall>i < topo_nodes t. unat (msg_words (msgs i)) = w" "tp_root t = Some r"
  shows "\<exists>js. set js \<subseteq> {..<topo_nodes t} \<and> links_idle w t (net_links (broadcast_run w ctx msgs (is @ js) (context_links ctx M))) \<and>
    (\<forall>i < topo_nodes t. \<exists>msg. returned (broadcast_run w ctx msgs (is @ js) (context_links ctx M)) i (errval SMLT_SUCCESS, msg) \<and>
       msg_payload msg = msg_payload (msgs r))"
  using broadcast_live[OF assms] bcast_msg_payload[OF assms(1,6,5)] by blast

definition demo_msgs :: "nat \<Rightarrow> smlt_msg" where
  "demo_msgs i = msg_of (if i = 0 then [11, 22] else [0, 0])"

lemma demo_msgs_facts: "unat (msg_words (demo_msgs i)) = 2" "msg_payload (demo_msgs 0) = [11, 22]"
  by (simp add: demo_msgs_def msg_of_def) (simp add: demo_msgs_def msg_payload_msg_of)

lemma pair_links_two:
  "\<exists>ch M. context_of pair_topology (pair_context ch) \<and> links_idle 2 pair_topology (context_links (pair_context ch) M)"
proof -
  have "2 \<le> (7 :: nat)" by simp
  then show ?thesis using pair_links by blast
qed

theorem broadcast_completes_witness:
  "\<exists>ch M js. \<forall>i < 2. \<exists>msg.
     returned (broadcast_run 2 (pair_context ch) demo_msgs ([1, 0] @ js) (context_links (pair_context ch) M)) i (errval SMLT_SUCCESS, msg) \<and>
     msg_payload msg = [11, 22]"
proof -
  obtain ch M where "context_of pair_topology (pair_context ch)" "links_idle 2 pair_topology (context_links (pair_context ch) M)"
    using pair_links_two by blast
  moreover have "tp_root pair_topology = Some 0" by (simp add: pair_topology_def)
  ultimately show ?thesis
    using broadcast_completes[OF pair_topology_wf(1), of "pair_context ch" 2 M "[1, 0]" demo_msgs 0]
    unfolding pair_topology_wf(2) demo_msgs_facts by auto
qed

theorem broadcast_delivers_witness:
  "\<exists>ch M is msg. returned (broadcast_run 2 (pair_context ch) demo_msgs is (context_links (pair_context ch) M)) 1 (errval SMLT_SUCCESS, msg) \<and>
     msg_payload msg = [11, 22]"
proof -
  obtain ch M where c: "context_of pair_topology (pair_context ch)" "links_idle 2 pair_topology (context_links (pair_context ch) M)"
    using pair_links_two by blast
  have r: "tp_root pair_topology = Some 0" by (simp add: pair_topology_def)
  have "\<exists>js. set js \<subseteq> {..<topo_nodes pair_topology} \<and> (\<forall>i < 2. \<exists>msg.
      returned (broadcast_run 2 (pair_context ch) demo_msgs js (context_links (pair_context ch) M)) i (errval SMLT_SUCCESS, msg))"
    using broadcast_live[OF pair_topology_wf(1) c _ _ r, of "[]" demo_msgs] demo_msgs_facts(1)
    unfolding pair_topology_wf(2) append_Nil list.set(1) by blast
  then obtain js msg where js: "set js \<subseteq> {..<topo_nodes pair_topology}"
    "returned (broadcast_run 2 (pair_context ch) demo_msgs js (context_links (pair_context ch) M)) 1 (errval SMLT_SUCCESS, msg)"
    using one_less_numeral_iff semiring_norm(76) by blast
  from broadcast_delivers[OF pair_topology_wf(1) c js(1) _ r _ js(2)] js(2) show ?thesis
    unfolding pair_topology_wf(2) demo_msgs_facts by auto
qed

end
