(* ===== verification/Reduce_Tree.thy ===== *)
theory Reduce_Tree
  imports Barrier_Live
begin

text \<open>
  The reduction: \<open>smlt_reduce\<close> with an operation, run by all nodes of a well-formed tree over any channels
  that keep the contract. A node applies the operation to its own two messages, takes a message from
  every child, each into the place of the one before, and sends what it has to its parent. What comes
  out is the contribution of one leaf; nobody is left waiting.
\<close>

section \<open>Stages\<close>

datatype reduce_stage = Gathering "smlt_msg collecting" | Sending smlt_msg | Gathered smlt_msg

definition sending_code :: "smlt_topology \<Rightarrow> nat \<Rightarrow> smlt_msg \<Rightarrow> (errval_t \<times> smlt_msg) code" where
  "sending_code t i m =
     (case parent_chan t i of
        None \<Rightarrow> Return (errval SMLT_SUCCESS, m)
      | Some q \<Rightarrow> Send q m (\<lambda>_. Return (errval SMLT_SUCCESS, m)))"

fun reduce_code :: "smlt_topology \<Rightarrow> nat \<Rightarrow> reduce_stage \<Rightarrow> (errval_t \<times> smlt_msg) code" where
  "reduce_code t i (Gathering st) = loop_code (reduce_step i (kids t i) (sending_code t i)) st"
| "reduce_code t i (Sending m) = sending_code t i m"
| "reduce_code t i (Gathered m) = Return (errval SMLT_SUCCESS, m)"

definition gather_stage :: "smlt_topology \<Rightarrow> nat \<Rightarrow> bool list \<Rightarrow> nat \<Rightarrow> nat \<Rightarrow> smlt_msg \<Rightarrow> reduce_stage" where
  "gather_stage t i recv num k m =
     (if num < kids t i then Gathering (Polling_child recv num k m)
      else if parent_chan t i = None then Gathered m else Sending m)"

definition reduce_first :: "smlt_topology \<Rightarrow> nat \<Rightarrow> smlt_msg \<Rightarrow> reduce_stage" where
  "reduce_first t i m = gather_stage t i (replicate (kids t i) False) 0 0 m"

lemma gather_stage_code:
  "reduce_code t i (gather_stage t i recv num k m) =
   loop_code (reduce_step i (kids t i) (sending_code t i)) (Polling_child recv num k m)"
proof (cases "num < kids t i")
  case True
  then show ?thesis by (simp add: gather_stage_def)
next
  case False
  then have "loop_code (reduce_step i (kids t i) (sending_code t i)) (Polling_child recv num k m) = sending_code t i m"
    by (subst loop_code.code) simp
  then show ?thesis using False by (simp add: gather_stage_def sending_code_def)
qed

lemma smlt_reduce_code:
  assumes "topo_wf t" "context_of t ctx" "i < topo_nodes t"
  shows "smlt_reduce ctx (of_nat i) input result (Some f) = reduce_code t i (reduce_first t i (fst (f result input)))"
  unfolding smlt_reduce_def context_accessors[OF assms] reduce_first_def gather_stage_code
  by (simp add: sending_code_def[abs_def] kids_def smlt_err_is_fail_errval)

section \<open>What comes from where\<close>

text \<open>The leaves of the part of the tree below a node.\<close>

inductive leaf_below :: "smlt_topology \<Rightarrow> nat \<Rightarrow> nat \<Rightarrow> bool" for t where
  leaf: "kids t i = 0 \<Longrightarrow> leaf_below t i i"
| inner: "child_at t i c = Some j \<Longrightarrow> leaf_below t j l \<Longrightarrow> leaf_below t i l"

definition from_leaf :: "smlt_topology \<Rightarrow> (nat \<Rightarrow> smlt_msg) \<Rightarrow> nat \<Rightarrow> u64 list \<Rightarrow> bool" where
  "from_leaf t own i x \<longleftrightarrow> (\<exists>l < topo_nodes t. leaf_below t i l \<and> x = msg_payload (own l))"

lemma from_leaf_up: "child_at t i c = Some j \<Longrightarrow> from_leaf t own j x \<Longrightarrow> from_leaf t own i x"
  by (auto simp: from_leaf_def intro: leaf_below.inner)

lemma from_leaf_length: "from_leaf t own i x \<Longrightarrow> (\<And>l. l < topo_nodes t \<Longrightarrow> unat (msg_words (own l)) = w) \<Longrightarrow> length x = w"
  by (auto simp: from_leaf_def)

fun told :: "reduce_stage option \<Rightarrow> bool" where
  "told (Some (Gathered _)) \<longleftrightarrow> True"
| "told _ \<longleftrightarrow> False"

fun heard :: "reduce_stage option \<Rightarrow> nat \<Rightarrow> bool" where
  "heard None c \<longleftrightarrow> False"
| "heard (Some (Gathering (Polling_child recv num k _))) c \<longleftrightarrow> recv ! c"
| "heard (Some (Gathering (Taking recv num k _))) c \<longleftrightarrow> recv ! c"
| "heard (Some (Gathering (Stopped _ _))) c \<longleftrightarrow> False"
| "heard (Some (Sending _)) c \<longleftrightarrow> True"
| "heard (Some (Gathered _)) c \<longleftrightarrow> True"

text \<open>A child that has sent its message and has not been heard has it under way.\<close>

definition reduce_edge ::
  "('s \<Rightarrow> bool) \<Rightarrow> (bool \<Rightarrow> 's \<Rightarrow> u64 list list) \<Rightarrow> (u64 list \<Rightarrow> bool) \<Rightarrow> bool \<Rightarrow> bool \<Rightarrow> 's \<Rightarrow> bool"
where
  "reduce_edge ok pending from sent got s \<longleftrightarrow>
     ok s \<and> pending True s = [] \<and> (got \<longrightarrow> sent) \<and>
     (if sent \<and> \<not> got then \<exists>x. pending False s = [x] \<and> from x else pending False s = [])"

text \<open>The message of a node with children is one of theirs once the last of them has been heard.\<close>

fun reduce_wf :: "nat \<Rightarrow> smlt_topology \<Rightarrow> (nat \<Rightarrow> smlt_msg) \<Rightarrow> nat \<Rightarrow> reduce_stage \<Rightarrow> bool" where
  "reduce_wf w t own i (Gathering st) \<longleftrightarrow>
     collecting_wf (kids t i) (map_collecting (\<lambda>_. ()) st) \<and> (\<forall>m \<in> set_collecting st. unat (msg_words m) = w)"
| "reduce_wf w t own i (Sending m) \<longleftrightarrow> parent_chan t i \<noteq> None \<and> from_leaf t own i (msg_payload m)"
| "reduce_wf w t own i (Gathered m) \<longleftrightarrow> from_leaf t own i (msg_payload m)"

definition reduce_inv ::
  "('s \<Rightarrow> bool) \<Rightarrow> (bool \<Rightarrow> 's \<Rightarrow> u64 list list) \<Rightarrow> nat \<Rightarrow> smlt_topology \<Rightarrow> (nat \<Rightarrow> smlt_msg) \<Rightarrow>
   (nat \<Rightarrow> reduce_stage option) \<Rightarrow> ('s, errval_t \<times> smlt_msg) net \<Rightarrow> bool"
where
  "reduce_inv ok pending w t own S s \<longleftrightarrow>
     (\<forall>i < topo_nodes t. net_code s i = map_option (reduce_code t i) (S i) \<and> (\<forall>\<sigma>. S i = Some \<sigma> \<longrightarrow> reduce_wf w t own i \<sigma>)) \<and>
     (\<forall>p < topo_nodes t. \<forall>c j. child_at t p c = Some j \<longrightarrow>
        reduce_edge ok pending (from_leaf t own j) (told (S j)) (heard (S p) c) (net_links s (p, c)))"

text \<open>The move of a node, by the messages under way from its children.\<close>

fun reduce_next :: "smlt_topology \<Rightarrow> nat \<Rightarrow> (nat \<Rightarrow> u64 list list) \<Rightarrow> reduce_stage \<Rightarrow> reduce_stage" where
  "reduce_next t i mail (Gathering (Polling_child recv num k m)) =
     Gathering (if recv ! k \<or> mail k = [] then Polling_child recv num (next_child (kids t i) k) m else Taking recv num k m)"
| "reduce_next t i mail (Gathering (Taking recv num k m)) =
     (case mail k of [] \<Rightarrow> Gathering (Taking recv num k m)
      | x # _ \<Rightarrow> gather_stage t i (recv[k := True]) (num + 1) (next_child (kids t i) k) (put_payload m x))"
| "reduce_next t i mail (Gathering (Stopped err m)) = Gathering (Stopped err m)"
| "reduce_next t i mail (Sending m) = Gathered m"
| "reduce_next t i mail (Gathered m) = Gathered m"

lemma next_child_less: "k < m \<Longrightarrow> next_child m k < m"
  by (auto simp: next_child_def)

lemma reduce_inv_cong:
  assumes t: "topo_wf t" and I: "reduce_inv ok pending w t own S s" and i: "i < topo_nodes t"
    and wf: "reduce_wf w t own i \<sigma>"
    and down: "\<And>c j. child_at t i c = Some j \<Longrightarrow>
      reduce_edge ok pending (from_leaf t own j) (told (S j)) (heard (Some \<sigma>) c) (L' (i, c))"
    and up: "\<And>p c. p < topo_nodes t \<Longrightarrow> child_at t p c = Some i \<Longrightarrow>
      reduce_edge ok pending (from_leaf t own i) (told (Some \<sigma>)) (heard (S p) c) (L' (p, c))"
    and others: "\<And>p c j. p < topo_nodes t \<Longrightarrow> child_at t p c = Some j \<Longrightarrow> p \<noteq> i \<Longrightarrow> j \<noteq> i \<Longrightarrow> L' (p, c) = net_links s (p, c)"
  shows "reduce_inv ok pending w t own (S(i \<mapsto> \<sigma>))
    (s\<lparr>net_links := L', net_code := (net_code s)(i \<mapsto> reduce_code t i \<sigma>)\<rparr>)"
proof -
  have "reduce_edge ok pending (from_leaf t own j) (told ((S(i \<mapsto> \<sigma>)) j)) (heard ((S(i \<mapsto> \<sigma>)) p) c) (L' (p, c))"
    if e: "p < topo_nodes t" "child_at t p c = Some j" for p c j
  proof -
    have j: "j < topo_nodes t" "tn_parent (node_at t j) = Some p" using child_at_parent[OF _ e] t by (simp_all add: topo_wf_def)
    then have "p \<noteq> j" using parent_not_self[OF t j(1)] by auto
    moreover have "reduce_edge ok pending (from_leaf t own j) (told (S j)) (heard (S p) c) (net_links s (p, c))"
      using I e by (simp add: reduce_inv_def)
    ultimately show ?thesis using down[of c j] up[OF e(1), of c] others[OF e] e by (cases "p = i"; cases "j = i") auto
  qed
  then show ?thesis using I wf by (simp add: reduce_inv_def)
qed

text \<open>A move that touches no channel and leaves what the node has told and heard.\<close>

lemma reduce_inv_still:
  assumes "topo_wf t" "reduce_inv ok pending w t own S s" "i < topo_nodes t" "reduce_wf w t own i \<sigma>"
    and "\<And>c. c < kids t i \<Longrightarrow> heard (Some \<sigma>) c = heard (S i) c" "parent_chan t i \<noteq> None \<Longrightarrow> told (Some \<sigma>) = told (S i)"
  shows "reduce_inv ok pending w t own (S(i \<mapsto> \<sigma>)) (s\<lparr>net_code := (net_code s)(i \<mapsto> reduce_code t i \<sigma>)\<rparr>)"
proof -
  have "reduce_inv ok pending w t own (S(i \<mapsto> \<sigma>))
    (s\<lparr>net_links := net_links s, net_code := (net_code s)(i \<mapsto> reduce_code t i \<sigma>)\<rparr>)"
  proof (rule reduce_inv_cong[OF assms(1-4)])
    fix c j
    assume "child_at t i c = Some j"
    then show "reduce_edge ok pending (from_leaf t own j) (told (S j)) (heard (Some \<sigma>) c) (net_links s (i, c))"
      using assms(2,3,5) child_at_kids by (auto simp: reduce_inv_def)
  next
    fix p c
    assume e: "p < topo_nodes t" "child_at t p c = Some i"
    then have "parent_chan t i \<noteq> None" using parent_chan_iff[OF assms(1,3), of p c] by simp
    then show "reduce_edge ok pending (from_leaf t own i) (told (Some \<sigma>)) (heard (S p) c) (net_links s (p, c))"
      using assms(2,6) e by (auto simp: reduce_inv_def)
  qed simp
  then show ?thesis by simp
qed

lemma reduce_first_facts:
  assumes "unat (msg_words (own i)) = w" "i < topo_nodes t"
  shows "reduce_wf w t own i (reduce_first t i (own i))" "c < kids t i \<Longrightarrow> \<not> heard (Some (reduce_first t i (own i))) c"
    "parent_chan t i \<noteq> None \<Longrightarrow> \<not> told (Some (reduce_first t i (own i)))"
  using assms by (auto simp: reduce_first_def gather_stage_def from_leaf_def intro: leaf_below.leaf)

lemma gather_stage_wf:
  assumes "length recv = kids t i" "num = length (filter id recv)" "num < kids t i" "k < kids t i" "\<not> recv ! k"
    and "unat (msg_words m) = w" "from_leaf t own i (msg_payload m)"
  shows "reduce_wf w t own i (gather_stage t i (recv[k := True]) (num + 1) (next_child (kids t i) k) m)"
    "c < kids t i \<Longrightarrow> heard (Some (gather_stage t i (recv[k := True]) (num + 1) (next_child (kids t i) k) m)) c = (c = k \<or> recv ! c)"
proof -
  let ?r = "recv[k := True]"
  have num: "length (filter id ?r) = num + 1" using filter_see_one[of k recv] assms by simp
  then show "reduce_wf w t own i (gather_stage t i ?r (num + 1) (next_child (kids t i) k) m)"
    using assms by (auto simp: gather_stage_def next_child_less)
  have "?r ! c" if "num + 1 = kids t i" "c < kids t i" by (rule filter_all_seen) (use num that assms(1) in simp_all)
  then show "heard (Some (gather_stage t i ?r (num + 1) (next_child (kids t i) k) m)) c = (c = k \<or> recv ! c)" if "c < kids t i"
    using that assms by (auto simp: gather_stage_def nth_list_update split: if_splits)
qed

lemma reduce_inv_wf: "reduce_inv ok pending w t own S s \<Longrightarrow> i < topo_nodes t \<Longrightarrow> S i = Some \<sigma> \<Longrightarrow> reduce_wf w t own i \<sigma>"
  by (simp add: reduce_inv_def)

section \<open>Moves\<close>

context polled_channel
begin

lemma reduce_inv_poll:
  assumes t: "topo_wf t" and I: "reduce_inv inv pending w t own S s" and i: "i < topo_nodes t"
    and S: "S i = Some (Gathering (Polling_child recv num k m))"
    and \<sigma>: "\<sigma> = reduce_next t i (\<lambda>c. pending False (net_links s (i, c))) (Gathering (Polling_child recv num k m))"
    and step: "code_step snd_op rcv_op can_op i (reduce_code t i (Gathering (Polling_child recv num k m))) (net_links s) = (c', L')"
  shows "c' = reduce_code t i \<sigma> \<and> reduce_inv inv pending w t own (S(i \<mapsto> \<sigma>))
    (s\<lparr>net_links := L', net_code := (net_code s)(i \<mapsto> reduce_code t i \<sigma>)\<rparr>)"
proof -
  have wf: "length recv = kids t i" "num = length (filter id recv)" "num < kids t i" "k < kids t i" "unat (msg_words m) = w"
    using I i S by (auto simp: reduce_inv_def)
  obtain j where j: "child_at t i k = Some j"
    using child_at_ex[OF _ i, of k] t wf(4) unfolding topo_wf_def kids_def by metis
  have "inv (net_links s (i, k))" using I i j by (auto simp: reduce_inv_def reduce_edge_def)
  then have ask: "answer i (Chan_can_recv (i, k)) (net_links s) =
      (Some (Yes_no (pending False (net_links s (i, k)) \<noteq> [])), net_links s)" by (simp add: can)
  have "c' = reduce_code t i \<sigma> \<and> L' = net_links s"
  proof (cases "recv ! k")
    case True
    then show ?thesis using step wf(3) by (simp add: \<sigma> loop_code_simps(2))
  next
    case False
    then have "reduce_code t i (Gathering (Polling_child recv num k m)) = Call (Chan_can_recv (i, k))
      (\<lambda>a. loop_code (reduce_step i (kids t i) (sending_code t i))
             (if ans_yes a then Taking recv num k m else Polling_child recv num (next_child (kids t i) k) m))"
      using wf(3) by (simp add: loop_code_simps(3))
    then show ?thesis using step ask False by (auto simp: \<sigma>)
  qed
  moreover have "reduce_inv inv pending w t own (S(i \<mapsto> \<sigma>)) (s\<lparr>net_code := (net_code s)(i \<mapsto> reduce_code t i \<sigma>)\<rparr>)"
    by (rule reduce_inv_still[OF t I i]) (use wf S in \<open>auto simp: \<sigma> next_child_less\<close>)
  ultimately show ?thesis by simp
qed

text \<open>Another attempt at taking a message, and the message taken.\<close>

lemma reduce_inv_retry:
  assumes t: "topo_wf t" and I: "reduce_inv inv pending w t own S s" and i: "i < topo_nodes t"
    and S: "S i = Some (Gathering (Taking recv num k m))" and s': "inv s'" "\<And>d. pending d s' = pending d (net_links s (i, k))"
  shows "reduce_inv inv pending w t own (S(i \<mapsto> Gathering (Taking recv num k m)))
    (s\<lparr>net_links := (net_links s)((i, k) := s'), net_code := (net_code s)(i \<mapsto> reduce_code t i (Gathering (Taking recv num k m)))\<rparr>)"
proof (rule reduce_inv_cong[OF t I i reduce_inv_wf[OF I i S]])
  have edge: "reduce_edge inv pending (from_leaf t own j) (told (S j)) (heard (S p) c) (net_links s (p, c))"
    if "p < topo_nodes t" "child_at t p c = Some j" for p c j using I that by (simp add: reduce_inv_def)
  show "reduce_edge inv pending (from_leaf t own j) (told (S j)) (heard (Some (Gathering (Taking recv num k m))) c)
      (((net_links s)((i, k) := s')) (i, c))" if "child_at t i c = Some j" for c j
    using edge[OF i that] s' S by (cases "c = k") (auto simp: reduce_edge_def)
  show "reduce_edge inv pending (from_leaf t own i) (told (Some (Gathering (Taking recv num k m)))) (heard (S p) c)
      (((net_links s)((i, k) := s')) (p, c))" if "p < topo_nodes t" "child_at t p c = Some i" for p c
    using edge[OF that] s' S by (cases "(p, c) = (i, k)") (auto simp: reduce_edge_def)
qed simp

lemma reduce_inv_took:
  assumes t: "topo_wf t" and I: "reduce_inv inv pending w t own S s" and i: "i < topo_nodes t"
    and S: "S i = Some (Gathering (Taking recv num k m))" and own: "\<And>l. l < topo_nodes t \<Longrightarrow> unat (msg_words (own l)) = w"
    and j: "child_at t i k = Some j" "told (S j)" and x: "from_leaf t own j x"
    and s': "inv s'" "pending True s' = []" "pending False s' = []"
    and \<sigma>: "\<sigma> = gather_stage t i (recv[k := True]) (num + 1) (next_child (kids t i) k) (put_payload m x)"
  shows "reduce_inv inv pending w t own (S(i \<mapsto> \<sigma>))
    (s\<lparr>net_links := (net_links s)((i, k) := s'), net_code := (net_code s)(i \<mapsto> reduce_code t i \<sigma>)\<rparr>)"
proof (rule reduce_inv_cong[OF t I i])
  have edge: "reduce_edge inv pending (from_leaf t own j) (told (S j)) (heard (S p) c) (net_links s (p, c))"
    if "p < topo_nodes t" "child_at t p c = Some j" for p c j using I that by (simp add: reduce_inv_def)
  have wf: "length recv = kids t i" "num = length (filter id recv)" "num < kids t i" "k < kids t i" "\<not> recv ! k" "unat (msg_words m) = w"
    using reduce_inv_wf[OF I i S] by auto
  have "length x = w" by (rule from_leaf_length[OF x own])
  then have new: "unat (msg_words (put_payload m x)) = w" "from_leaf t own i (msg_payload (put_payload m x))"
    using wf(6) from_leaf_up[OF j(1) x] by (simp_all add: msg_payload_put)
  note G = gather_stage_wf[OF wf(1-5) new]
  show "reduce_wf w t own i \<sigma>" unfolding \<sigma> by (rule G(1))
  show "reduce_edge inv pending (from_leaf t own j2) (told (S j2)) (heard (Some \<sigma>) c) (((net_links s)((i, k) := s')) (i, c))"
    if e: "child_at t i c = Some j2" for c j2
  proof -
    have "heard (Some \<sigma>) c = (c = k \<or> recv ! c)" unfolding \<sigma> by (rule G(2)) (rule child_at_kids[OF e])
    then show ?thesis using edge[OF i e] s' S e j by (cases "c = k") (auto simp: reduce_edge_def)
  qed
  show "reduce_edge inv pending (from_leaf t own i) (told (Some \<sigma>)) (heard (S p) c) (((net_links s)((i, k) := s')) (p, c))"
    if e: "p < topo_nodes t" "child_at t p c = Some i" for p c
  proof -
    have "p \<noteq> i" using parent_not_self[OF t i] child_at_parent(2)[OF _ e] t by (auto simp: topo_wf_def)
    moreover have "parent_chan t i \<noteq> None" using parent_chan_iff[OF t i, of p c] e by simp
    then have "\<not> told (Some \<sigma>)" by (auto simp: \<sigma> gather_stage_def)
    ultimately show ?thesis using edge[OF e] S by simp
  qed
qed simp

lemma reduce_inv_take:
  assumes t: "topo_wf t" and I: "reduce_inv inv pending w t own S s" and i: "i < topo_nodes t"
    and S: "S i = Some (Gathering (Taking recv num k m))" and own: "\<And>l. l < topo_nodes t \<Longrightarrow> unat (msg_words (own l)) = w"
    and \<sigma>: "\<sigma> = reduce_next t i (\<lambda>c. pending False (net_links s (i, c))) (Gathering (Taking recv num k m))"
    and step: "code_step snd_op rcv_op can_op i (reduce_code t i (Gathering (Taking recv num k m))) (net_links s) = (c', L')"
  shows "c' = reduce_code t i \<sigma> \<and> reduce_inv inv pending w t own (S(i \<mapsto> \<sigma>))
    (s\<lparr>net_links := L', net_code := (net_code s)(i \<mapsto> reduce_code t i \<sigma>)\<rparr>)"
proof -
  have wf: "k < kids t i" "\<not> recv ! k" using reduce_inv_wf[OF I i S] by auto
  obtain j where j: "child_at t i k = Some j"
    using child_at_ex[OF _ i, of k] t wf(1) unfolding topo_wf_def kids_def by metis
  have "reduce_edge inv pending (from_leaf t own j) (told (S j)) (heard (S i) k) (net_links s (i, k))"
    using I i j by (simp add: reduce_inv_def)
  then have E: "inv (net_links s (i, k))" "pending True (net_links s (i, k)) = []"
    "if told (S j) then \<exists>x. pending False (net_links s (i, k)) = [x] \<and> from_leaf t own j x else pending False (net_links s (i, k)) = []"
    using S wf(2) by (simp_all add: reduce_edge_def)
  let ?K = "\<lambda>a. loop_code (reduce_step i (kids t i) (sending_code t i))
      (if smlt_err_is_fail (ans_err a) then Stopped (ans_err a) (ans_msg a)
       else Polling_child (recv[k := True]) (num + 1) (next_child (kids t i) k) (ans_msg a))"
  have code: "reduce_code t i (Gathering (Taking recv num k m)) = Call (Chan_recv (i, k) m) ?K"
    by (simp add: loop_code_simps(3))
  obtain a where a: "answer i (Chan_recv_index (i, k) m 0) (net_links s) = (a, L')"
    and c': "c' = (case a of None \<Rightarrow> reduce_code t i (Gathering (Taking recv num k m)) | Some a \<Rightarrow> ?K a)"
    using step unfolding code by (auto split: prod.splits option.splits)
  obtain s' where L': "L' = (net_links s)((i, k) := s')" "inv s'" "pending True s' = []"
    and r: "(\<exists>x. a = Some (Err_msg (errval SMLT_SUCCESS) (put_payload m x)) \<and> pending False (net_links s (i, k)) = x # pending False s') \<or>
      a = None \<and> pending False s' = [] \<and> pending False (net_links s (i, k)) = []"
    by (rule answer_recv_index[OF E(1) a]) (use E(2) in simp)
  show ?thesis
  proof (cases a)
    case None
    then have \<sigma>': "\<sigma> = Gathering (Taking recv num k m)" using r by (simp add: \<sigma>)
    have "pending d s' = pending d (net_links s (i, k))" for d using r None E(2) L'(3) by (cases d) auto
    from reduce_inv_retry[OF t I i S L'(2) this] show ?thesis using c' None \<sigma>' L'(1) by simp
  next
    case (Some b)
    then obtain x where x: "a = Some (Err_msg (errval SMLT_SUCCESS) (put_payload m x))" "pending False (net_links s (i, k)) = [x]"
      "pending False s' = []" "from_leaf t own j x" "told (S j)" using r E(3) by (auto split: if_splits)
    have \<sigma>': "\<sigma> = gather_stage t i (recv[k := True]) (num + 1) (next_child (kids t i) k) (put_payload m x)"
      using x(2) by (simp add: \<sigma>)
    have "c' = reduce_code t i \<sigma>" using c' x(1) by (simp add: \<sigma>' gather_stage_code smlt_err_is_fail_errval)
    then show ?thesis using reduce_inv_took[OF t I i S own j x(5,4) L'(2,3) x(3) \<sigma>'] L'(1) by simp
  qed
qed

lemma reduce_inv_send:
  assumes t: "topo_wf t" and I: "reduce_inv inv pending w t own S s" and i: "i < topo_nodes t"
    and S: "S i = Some (Sending m)" and good: "\<And>x. length x = w \<Longrightarrow> good x"
    and own: "\<And>l. l < topo_nodes t \<Longrightarrow> unat (msg_words (own l)) = w"
    and step: "code_step snd_op rcv_op can_op i (reduce_code t i (Sending m)) (net_links s) = (c', L')"
  shows "c' = reduce_code t i (Gathered m) \<and> reduce_inv inv pending w t own (S(i \<mapsto> Gathered m))
    (s\<lparr>net_links := L', net_code := (net_code s)(i \<mapsto> reduce_code t i (Gathered m))\<rparr>)"
proof -
  have edge: "reduce_edge inv pending (from_leaf t own j) (told (S j)) (heard (S p) c) (net_links s (p, c))"
    if "p < topo_nodes t" "child_at t p c = Some j" for p c j using I that by (simp add: reduce_inv_def)
  obtain q where q: "parent_chan t i = Some q" and m: "from_leaf t own i (msg_payload m)" using reduce_inv_wf[OF I i S] by auto
  obtain p k where pk: "q = (p, k)" by fastforce
  then have e: "p < topo_nodes t" "child_at t p k = Some i" using q parent_chan_iff[OF t i, of p k] by auto
  have "p \<noteq> i" using parent_not_self[OF t i] child_at_parent(2)[OF _ e] t by (auto simp: topo_wf_def)
  have E: "inv (net_links s q)" "pending True (net_links s q) = []" "pending False (net_links s q) = []" "\<not> heard (S p) k"
    using edge[OF e] S by (auto simp: reduce_edge_def pk)
  have dir: "(i = fst q) = False" using \<open>p \<noteq> i\<close> pk by auto
  have g: "good (msg_payload m)" by (rule good[OF from_leaf_length[OF m own]])
  have code: "reduce_code t i (Sending m) = Call (Chan_send q m) (\<lambda>_. Return (errval SMLT_SUCCESS, m))"
    using q by (simp add: sending_code_def Send_def)
  obtain a where a: "answer i (Chan_send q m) (net_links s) = (a, L')"
    and c': "c' = (case a of None \<Rightarrow> reduce_code t i (Sending m) | Some a \<Rightarrow> Return (errval SMLT_SUCCESS, m))"
    using step unfolding code by (auto split: prod.splits option.splits)
  show ?thesis
  proof (rule answer_send[OF E(1) g a, unfolded dir])
    fix s'
    assume L': "L' = (net_links s)(q := s')" "inv s'" "pending (\<not> False) s' = pending (\<not> False) (net_links s q)"
      and r: "a = Some (Err (errval SMLT_SUCCESS)) \<and> pending False s' = pending False (net_links s q) @ [msg_payload m] \<or>
        a = None \<and> pending False s' = pending False (net_links s q) \<and> pending False (net_links s q) \<noteq> []"
    then have s': "a = Some (Err (errval SMLT_SUCCESS))" "pending False s' = [msg_payload m]" "pending True s' = []" using E by auto
    have "reduce_inv inv pending w t own (S(i \<mapsto> Gathered m))
        (s\<lparr>net_links := L', net_code := (net_code s)(i \<mapsto> reduce_code t i (Gathered m))\<rparr>)"
    proof (rule reduce_inv_cong[OF t I i])
      fix c j
      assume "child_at t i c = Some j"
      from edge[OF i this] show "reduce_edge inv pending (from_leaf t own j) (told (S j)) (heard (Some (Gathered m)) c) (L' (i, c))"
        using L'(1) S \<open>p \<noteq> i\<close> by (simp add: pk)
    next
      fix p2 k2
      assume e2: "p2 < topo_nodes t" "child_at t p2 k2 = Some i"
      then have "(p2, k2) = q" using q parent_chan_iff[OF t i, of p2 k2] by simp
      then show "reduce_edge inv pending (from_leaf t own i) (told (Some (Gathered m))) (heard (S p2) k2) (L' (p2, k2))"
        using E(4) L'(1,2) s' m pk by (auto simp: reduce_edge_def)
    qed (use L'(1) m e pk in auto)
    then show ?thesis using c' s'(1) by simp
  qed
qed

lemma reduce_inv_move:
  assumes t: "topo_wf t" and I: "reduce_inv inv pending w t own S s" and i: "i < topo_nodes t"
    and prog: "prog i = reduce_code t i (reduce_first t i (own i))"
    and good: "\<And>x. length x = w \<Longrightarrow> good x" and own: "\<And>l. l < topo_nodes t \<Longrightarrow> unat (msg_words (own l)) = w"
  shows "reduce_inv inv pending w t own
    (S(i \<mapsto> case S i of None \<Rightarrow> reduce_first t i (own i)
           | Some \<sigma> \<Rightarrow> reduce_next t i (\<lambda>c. pending False (net_links s (i, c))) \<sigma>))
    (net_move snd_op rcv_op can_op prog i s)"
proof (cases "S i")
  case None
  then have "net_code s i = None" using I i by (simp add: reduce_inv_def)
  moreover have "reduce_inv inv pending w t own (S(i \<mapsto> reduce_first t i (own i)))
      (s\<lparr>net_code := (net_code s)(i \<mapsto> reduce_code t i (reduce_first t i (own i)))\<rparr>)"
    by (rule reduce_inv_still[OF t I i]) (use reduce_first_facts[of own i w t, OF own[OF i] i] None in simp_all)
  ultimately show ?thesis using None by (simp add: net_move_def prog)
next
  case (Some \<sigma>)
  then have code: "net_code s i = Some (reduce_code t i \<sigma>)" using I i by (simp add: reduce_inv_def)
  have wf: "reduce_wf w t own i \<sigma>" using I i Some by (simp add: reduce_inv_def)
  obtain c' L' where step: "code_step snd_op rcv_op can_op i (reduce_code t i \<sigma>) (net_links s) = (c', L')" by fastforce
  define \<sigma>' where "\<sigma>' = reduce_next t i (\<lambda>c. pending False (net_links s (i, c))) \<sigma>"
  have "c' = reduce_code t i \<sigma>' \<and> reduce_inv inv pending w t own (S(i \<mapsto> \<sigma>'))
    (s\<lparr>net_links := L', net_code := (net_code s)(i \<mapsto> reduce_code t i \<sigma>')\<rparr>)"
  proof (cases \<sigma>)
    case (Gathering st)
    show ?thesis
    proof (cases st)
      case (Polling_child recv num k m)
      then have \<sigma>: "\<sigma> = Gathering (Polling_child recv num k m)" using Gathering by simp
      show ?thesis by (rule reduce_inv_poll[OF t I i Some[unfolded \<sigma>] \<sigma>'_def[unfolded \<sigma>] step[unfolded \<sigma>]])
    next
      case (Taking recv num k m)
      then have \<sigma>: "\<sigma> = Gathering (Taking recv num k m)" using Gathering by simp
      show ?thesis by (rule reduce_inv_take[OF t I i Some[unfolded \<sigma>] own \<sigma>'_def[unfolded \<sigma>] step[unfolded \<sigma>]])
    next
      case (Stopped err m)
      then show ?thesis using wf Gathering by simp
    qed
  next
    case (Sending m)
    then have "\<sigma>' = Gathered m" by (simp add: \<sigma>'_def)
    then show ?thesis using reduce_inv_send[OF t I i Some[unfolded Sending] good own step[unfolded Sending]] by simp
  next
    case (Gathered m)
    moreover have "S(i \<mapsto> \<sigma>) = S" "(net_code s)(i \<mapsto> reduce_code t i \<sigma>) = net_code s" using Some code by auto
    ultimately show ?thesis using step I by (auto simp: \<sigma>'_def)
  qed
  then show ?thesis using step code Some by (simp add: net_move_def \<sigma>'_def)
qed

end

section \<open>Nobody is left waiting\<close>

fun reduce_rank :: "nat \<Rightarrow> reduce_stage option \<Rightarrow> nat" where
  "reduce_rank m None = m + 3"
| "reduce_rank m (Some (Gathering (Polling_child recv num k _))) = m + 2 - num"
| "reduce_rank m (Some (Gathering (Taking recv num k _))) = m + 2 - num"
| "reduce_rank m (Some (Gathering (Stopped _ _))) = m + 2"
| "reduce_rank m (Some (Sending _)) = 1"
| "reduce_rank m (Some (Gathered _)) = 0"

lemma reduce_rank_first: "reduce_rank (kids t i) (Some (reduce_first t i m)) < kids t i + 3"
  by (auto simp: reduce_first_def gather_stage_def)

lemma reduce_rank_gather: "num < kids t i \<Longrightarrow> reduce_rank (kids t i) (Some (gather_stage t i recv (num + 1) k m)) < kids t i + 2 - num"
  by (auto simp: gather_stage_def)

definition reduce_ranks :: "smlt_topology \<Rightarrow> (nat \<Rightarrow> reduce_stage option) \<Rightarrow> nat" where
  "reduce_ranks t S = (\<Sum>i < topo_nodes t. reduce_rank (kids t i) (S i))"

lemma reduce_ranks_less:
  assumes "i < topo_nodes t" "reduce_rank (kids t i) \<sigma> < reduce_rank (kids t i) (S i)"
  shows "reduce_ranks t (S(i := \<sigma>)) < reduce_ranks t S"
  unfolding reduce_ranks_def
  by (rule sum_strict_mono_ex1) (use assms in \<open>auto intro!: bexI[of _ i]\<close>)

text \<open>A run of reductions whose messages all have the same number of words.\<close>

locale reducing =
  polled_channel inv pending good snd_op rcv_op can_op
  for inv :: "'s \<Rightarrow> bool" and pending :: "bool \<Rightarrow> 's \<Rightarrow> u64 list list" and good :: "u64 list \<Rightarrow> bool"
    and snd_op :: "bool \<Rightarrow> u64 list \<Rightarrow> 's \<Rightarrow> bool \<times> 's" and rcv_op :: "bool \<Rightarrow> 's \<Rightarrow> u64 list option \<times> 's"
    and can_op :: "bool \<Rightarrow> 's \<Rightarrow> bool" +
  fixes w :: nat
  assumes good_words: "length x = w \<Longrightarrow> good x"
begin

definition reduces :: "smlt_topology \<Rightarrow> (nat \<Rightarrow> smlt_msg) \<Rightarrow> (nat \<Rightarrow> (errval_t \<times> smlt_msg) code) \<Rightarrow> bool" where
  "reduces t own prog \<longleftrightarrow> topo_wf t \<and>
     (\<forall>i < topo_nodes t. unat (msg_words (own i)) = w \<and> prog i = reduce_code t i (reduce_first t i (own i)))"

lemma reduce_reach:
  assumes R: "reduces t own prog" and L: "tree_idle t L" and moves: "set is \<subseteq> {..<topo_nodes t}"
  shows "\<exists>S. reduce_inv inv pending w t own S (net_run snd_op rcv_op can_op prog is (net_start L))"
proof (rule net_run_invariant[where I = "\<lambda>s. \<exists>S. reduce_inv inv pending w t own S s"])
  show "\<exists>S. reduce_inv inv pending w t own S (net_start L)"
    using L by (intro exI[of _ "\<lambda>_. None"]) (simp add: reduce_inv_def net_start_def reduce_edge_def tree_idle_def)
  fix i s
  assume "i \<in> set is" and s: "\<exists>S. reduce_inv inv pending w t own S s"
  then have i: "i < topo_nodes t" using moves by blast
  obtain S where I: "reduce_inv inv pending w t own S s" using s by blast
  show "\<exists>S. reduce_inv inv pending w t own S (net_move snd_op rcv_op can_op prog i s)"
    using reduce_inv_move[OF _ I i _ good_words, of prog] R i unfolding reduces_def by blast
qed

lemma reduce_inv_returned:
  assumes "reduce_inv inv pending w t own S s" "i < topo_nodes t" "returned s i (err, m)"
  shows "err = errval SMLT_SUCCESS \<and> from_leaf t own i (msg_payload m)"
proof -
  obtain \<sigma> where \<sigma>: "S i = Some \<sigma>" "reduce_code t i \<sigma> = Return (err, m)"
    using assms by (auto simp: reduce_inv_def returned_def)
  note wf = reduce_inv_wf[OF assms(1,2) \<sigma>(1)]
  show ?thesis
  proof (cases \<sigma>)
    case (Gathering st)
    then show ?thesis using \<sigma>(2) wf by (cases st) (auto simp: loop_code_simps(3) loop_code.code[of _ "Polling_child _ _ _ _"] split: if_splits)
  next
    case (Sending m')
    then show ?thesis using \<sigma>(2) wf by (auto simp: sending_code_def Send_def)
  next
    case (Gathered m')
    then show ?thesis using \<sigma>(2) wf by simp
  qed
qed

text \<open>Moves of the node \<open>i\<close> alone that bring it nearer to its end.\<close>

definition goes_on ::
  "(nat \<Rightarrow> (errval_t \<times> smlt_msg) code) \<Rightarrow> smlt_topology \<Rightarrow> (nat \<Rightarrow> smlt_msg) \<Rightarrow> (nat \<Rightarrow> reduce_stage option) \<Rightarrow>
   ('s, errval_t \<times> smlt_msg) net \<Rightarrow> nat \<Rightarrow> bool"
where
  "goes_on prog t own S s i \<longleftrightarrow>
     (\<exists>d \<sigma>. reduce_inv inv pending w t own (S(i := \<sigma>)) (net_run snd_op rcv_op can_op prog (replicate d i) s) \<and>
            reduce_rank (kids t i) \<sigma> < reduce_rank (kids t i) (S i))"

lemma move:
  assumes "reduces t own prog" "i < topo_nodes t" "reduce_inv inv pending w t own S s" "S i = Some \<sigma>"
  shows "reduce_inv inv pending w t own (S(i \<mapsto> reduce_next t i (\<lambda>c. pending False (net_links s (i, c))) \<sigma>))
    (net_move snd_op rcv_op can_op prog i s)"
  using reduce_inv_move[OF _ assms(3,2) _ good_words, of prog] assms(1,2,4) by (simp add: reduces_def)

lemma goes_on_now:
  assumes "reduces t own prog" "i < topo_nodes t" "reduce_inv inv pending w t own S s" "S i = Some \<sigma>"
    and "reduce_rank (kids t i) (Some (reduce_next t i (\<lambda>c. pending False (net_links s (i, c))) \<sigma>)) < reduce_rank (kids t i) (S i)"
  shows "goes_on prog t own S s i"
  unfolding goes_on_def using move[OF assms(1-4)] assms(5) by (intro exI[of _ 1] exI) auto

lemma goes_on_later:
  assumes "goes_on prog t own (S(i \<mapsto> \<sigma>)) (net_move snd_op rcv_op can_op prog i s) i"
    and "reduce_rank (kids t i) (Some \<sigma>) = reduce_rank (kids t i) (S i)"
  shows "goes_on prog t own S s i"
proof -
  obtain d \<sigma>' where
    "reduce_inv inv pending w t own (S(i := \<sigma>')) (net_run snd_op rcv_op can_op prog (replicate d i) (net_move snd_op rcv_op can_op prog i s))"
    "reduce_rank (kids t i) \<sigma>' < reduce_rank (kids t i) (S i)" using assms by (auto simp: goes_on_def)
  then show ?thesis unfolding goes_on_def by (intro exI[of _ "Suc d"] exI[of _ \<sigma>']) simp
qed

lemma take_goes_on:
  assumes R: "reduces t own prog" and i: "i < topo_nodes t" and I: "reduce_inv inv pending w t own S s"
    and S: "S i = Some (Gathering (Taking recv num k m))" and c: "child_at t i k = Some j" "told (S j)"
  shows "goes_on prog t own S s i"
proof (rule goes_on_now[OF R i I S])
  have wf: "num < kids t i" "\<not> recv ! k" using reduce_inv_wf[OF I i S] by auto
  have "reduce_edge inv pending (from_leaf t own j) (told (S j)) (heard (S i) k) (net_links s (i, k))"
    using I i c(1) by (simp add: reduce_inv_def)
  then obtain x where "pending False (net_links s (i, k)) = [x]" using c(2) S wf(2) by (auto simp: reduce_edge_def)
  then show "reduce_rank (kids t i) (Some (reduce_next t i (\<lambda>c. pending False (net_links s (i, c))) (Gathering (Taking recv num k m))))
      < reduce_rank (kids t i) (S i)" using S reduce_rank_gather[OF wf(1)] by simp
qed

text \<open>The rest is for a node whose children have all sent.\<close>

definition kids_told :: "smlt_topology \<Rightarrow> (nat \<Rightarrow> reduce_stage option) \<Rightarrow> nat \<Rightarrow> bool" where
  "kids_told t S i \<longleftrightarrow> (\<forall>c j. child_at t i c = Some j \<longrightarrow> told (S j))"

lemma kids_told_update:
  assumes "topo_wf t" "i < topo_nodes t" "kids_told t S i"
  shows "kids_told t (S(i := \<sigma>)) i"
proof -
  have "j \<noteq> i" if "child_at t i c = Some j" for c j
    using child_at_parent[OF _ assms(2) that] parent_not_self[OF assms(1,2)] assms(1) by (auto simp: topo_wf_def)
  then show ?thesis using assms(3) by (auto simp: kids_told_def)
qed

lemma saw_goes_on:
  assumes R: "reduces t own prog" and i: "i < topo_nodes t" and told: "kids_told t S i" and I: "reduce_inv inv pending w t own S s"
    and S: "S i = Some (Gathering (Polling_child recv num k m))" and k: "\<not> recv ! k" "pending False (net_links s (i, k)) \<noteq> []"
  shows "goes_on prog t own S s i"
proof -
  have t: "topo_wf t" using R by (simp add: reduces_def)
  have "k < kids t i" using reduce_inv_wf[OF I i S] by auto
  then obtain j where j: "child_at t i k = Some j"
    using child_at_ex[OF _ i, of k] t unfolding topo_wf_def kids_def by metis
  have "reduce_inv inv pending w t own (S(i \<mapsto> Gathering (Taking recv num k m))) (net_move snd_op rcv_op can_op prog i s)"
    using move[OF R i I S] k by simp
  from take_goes_on[OF R i this _ j] kids_told_update[OF t i told] j
  show ?thesis by (intro goes_on_later[of prog t own S i "Gathering (Taking recv num k m)"]) (auto simp: S kids_told_def)
qed

lemma poll_goes_on:
  assumes R: "reduces t own prog" and i: "i < topo_nodes t" and c: "c < kids t i" "\<not> recv ! c"
  shows "reduce_inv inv pending w t own S s \<Longrightarrow> S i = Some (Gathering (Polling_child recv num k m)) \<Longrightarrow> kids_told t S i \<Longrightarrow>
         (next_child (kids t i) ^^ d) k = c \<Longrightarrow> goes_on prog t own S s i"
proof (induction d arbitrary: k S s)
  case 0
  have t: "topo_wf t" using R by (simp add: reduces_def)
  obtain j where j: "child_at t i c = Some j"
    using child_at_ex[OF _ i, of c] t c(1) unfolding topo_wf_def kids_def by metis
  have "reduce_edge inv pending (from_leaf t own j) (told (S j)) (heard (S i) c) (net_links s (i, c))"
    using 0(1) i j by (simp add: reduce_inv_def)
  then have "pending False (net_links s (i, c)) \<noteq> []" using 0 c(2) j by (auto simp: reduce_edge_def kids_told_def)
  then show ?case using saw_goes_on[OF R i 0(3,1,2)] c(2) 0(4) by simp
next
  case (Suc d)
  have t: "topo_wf t" using R by (simp add: reduces_def)
  show ?case
  proof (cases "recv ! k \<or> pending False (net_links s (i, k)) = []")
    case True
    let ?\<sigma> = "Gathering (Polling_child recv num (next_child (kids t i) k) m)"
    have "reduce_inv inv pending w t own (S(i \<mapsto> ?\<sigma>)) (net_move snd_op rcv_op can_op prog i s)"
      using move[OF R i Suc(2,3)] True by simp
    then have "goes_on prog t own (S(i \<mapsto> ?\<sigma>)) (net_move snd_op rcv_op can_op prog i s) i"
      by (rule Suc.IH[OF _ _ kids_told_update[OF t i Suc(4)]]) (use Suc(5) in \<open>simp_all add: funpow_swap1\<close>)
    then show ?thesis by (rule goes_on_later) (simp add: Suc(3))
  next
    case False
    then show ?thesis using saw_goes_on[OF R i Suc(4,2,3)] by blast
  qed
qed

lemma node_goes_on:
  assumes R: "reduces t own prog" and i: "i < topo_nodes t" and I: "reduce_inv inv pending w t own S s"
    and told: "kids_told t S i" "\<not> told (S i)"
  shows "goes_on prog t own S s i"
proof (cases "S i")
  case None
  have "reduce_inv inv pending w t own (S(i \<mapsto> reduce_first t i (own i))) (net_move snd_op rcv_op can_op prog i s)"
    using reduce_inv_move[OF _ I i _ good_words, of prog] R i None by (simp add: reduces_def)
  then show ?thesis
    unfolding goes_on_def using None reduce_rank_first by (intro exI[of _ 1] exI[of _ "Some (reduce_first t i (own i))"]) simp
next
  case (Some \<sigma>)
  have t: "topo_wf t" using R by (simp add: reduces_def)
  note wf = reduce_inv_wf[OF I i Some]
  show ?thesis
  proof (cases \<sigma>)
    case (Gathering st)
    show ?thesis
    proof (cases st)
      case (Polling_child recv num k m)
      then have w: "length recv = kids t i" "num = length (filter id recv)" "num < kids t i" "k < kids t i" using wf Gathering by auto
      obtain c where c: "c < kids t i" "\<not> recv ! c" using unseen_child[of recv] w by auto
      obtain d where "(next_child (kids t i) ^^ d) k = c" using next_child_pow[OF w(4) c(1)] by blast
      then show ?thesis using poll_goes_on[OF R i c I] Some Gathering Polling_child told(1) by simp
    next
      case (Taking recv num k m)
      then have "k < kids t i" using wf Gathering by auto
      then obtain j where "child_at t i k = Some j" using child_at_ex[OF _ i, of k] t unfolding topo_wf_def kids_def by metis
      then show ?thesis using take_goes_on[OF R i I, of recv num k m j] Some Gathering Taking told(1) by (simp add: kids_told_def)
    next
      case (Stopped err m)
      then show ?thesis using wf Gathering by simp
    qed
  next
    case (Sending m)
    then show ?thesis using goes_on_now[OF R i I Some] Some by simp
  next
    case (Gathered m)
    then show ?thesis using Some told(2) by simp
  qed
qed

lemma reduce_completes:
  assumes R: "reduces t own prog" and I: "reduce_inv inv pending w t own S s"
  shows "\<exists>js S'. set js \<subseteq> {..<topo_nodes t} \<and> reduce_inv inv pending w t own S' (net_run snd_op rcv_op can_op prog js s) \<and>
    (\<forall>i < topo_nodes t. told (S' i))"
  using I
proof (induction "reduce_ranks t S" arbitrary: S s rule: less_induct)
  case less
  have t: "topo_wf t" using R by (simp add: reduces_def)
  show ?case
  proof (cases "\<exists>i < topo_nodes t. kids_told t S i \<and> \<not> told (S i)")
    case True
    then obtain i where i: "i < topo_nodes t" "goes_on prog t own S s i" using node_goes_on[OF R _ less.prems] by blast
    then obtain d \<sigma> where d: "reduce_rank (kids t i) \<sigma> < reduce_rank (kids t i) (S i)"
      "reduce_inv inv pending w t own (S(i := \<sigma>)) (net_run snd_op rcv_op can_op prog (replicate d i) s)"
      unfolding goes_on_def by blast
    from less.hyps[OF reduce_ranks_less[where S = S, OF i(1) d(1)] d(2)]
    obtain js S' where "set js \<subseteq> {..<topo_nodes t}" "\<forall>i < topo_nodes t. told (S' i)"
      "reduce_inv inv pending w t own S' (net_run snd_op rcv_op can_op prog (replicate d i @ js) s)" by (auto simp: net_run_append)
    then show ?thesis using i(1) by (intro exI[of _ "replicate d i @ js"] exI[of _ S']) auto
  next
    case False
    have "told (S i)" if "i < topo_nodes t" for i
      using t that by (induction rule: topo_induct_up) (use False in \<open>auto simp: kids_told_def\<close>)
    with less.prems show ?thesis by (intro exI[of _ "[]"] exI[of _ S] conjI) simp_all
  qed
qed

lemma reduce_inv_done:
  assumes t: "topo_wf t" and I: "reduce_inv inv pending w t own S s" and S: "\<forall>i < topo_nodes t. told (S i)"
  shows "i < topo_nodes t \<Longrightarrow> \<exists>m. returned s i (errval SMLT_SUCCESS, m)" "tree_idle t (net_links s)"
proof -
  have through: "\<exists>m. S i = Some (Gathered m)" if "i < topo_nodes t" for i
    using S that by (metis told.elims(2))
  then show "\<exists>m. returned s i (errval SMLT_SUCCESS, m)" if "i < topo_nodes t"
    using I that by (fastforce simp: reduce_inv_def returned_def)
  have "inv (net_links s (p, c)) \<and> (\<forall>d. pending d (net_links s (p, c)) = [])"
    if e: "p < topo_nodes t" "child_at t p c = Some j" for p c j
  proof -
    have "j < topo_nodes t" using child_at_parent(1)[OF _ e] t by (simp add: topo_wf_def)
    moreover have "reduce_edge inv pending (from_leaf t own j) (told (S j)) (heard (S p) c) (net_links s (p, c))"
      using I e by (simp add: reduce_inv_def)
    moreover have "heard (S p) c" using through[OF e(1)] by auto
    ultimately show ?thesis by (simp add: reduce_edge_def all_bool_eq)
  qed
  then show "tree_idle t (net_links s)" by (simp add: tree_idle_def)
qed

end

end
