(* ===== verification/Reduce_Net.thy ===== *)
theory Reduce_Net
  imports Broadcast_Net Reduce_Tree
begin

text \<open>
  \<open>smlt_reduce\<close> over the channels of a context: it ends on every node, and what a node ends with is the
  contribution of a single leaf below it. The operation is applied to a node's own messages and to
  nothing else, so that the contributions of the other leaves, and of every node with children, are lost.
\<close>

text \<open>The nodes run the reduction with the operation \<open>f\<close>, for messages of \<open>w\<close> words; \<open>is\<close> is the order of their moves.\<close>

definition reduce_run ::
  "nat \<Rightarrow> smlt_context \<Rightarrow> (smlt_msg \<Rightarrow> smlt_msg \<Rightarrow> smlt_msg \<times> smlt_msg) \<Rightarrow> (nat \<Rightarrow> smlt_msg) \<Rightarrow> (nat \<Rightarrow> smlt_msg) \<Rightarrow>
   nat list \<Rightarrow> chan_state links \<Rightarrow> (chan_state, errval_t \<times> smlt_msg) net"
where
  "reduce_run w ctx f inputs results is L =
     net_run chan_try_send (chan_try_recv w) chan_can_recv
       (\<lambda>i. smlt_reduce ctx (of_nat i) (inputs i) (results i) (Some f)) is (net_start L)"

interpretation mred: reducing
  "chan_inv w" "chan_pending w" "\<lambda>x. length x = w" chan_try_send "chan_try_recv w" chan_can_recv w for w
  by unfold_locales

lemma reduce_run_reduces:
  assumes "topo_wf t" "context_of t ctx" "\<forall>i < topo_nodes t. unat (msg_words (fst (f (results i) (inputs i)))) = w"
  shows "mred.reduces w t (\<lambda>i. fst (f (results i) (inputs i))) (\<lambda>i. smlt_reduce ctx (of_nat i) (inputs i) (results i) (Some f))"
  using assms by (simp add: mred.reduces_def smlt_reduce_code)

lemma reduce_run_reach:
  assumes "topo_wf t" "context_of t ctx" "links_idle w t L" "set is \<subseteq> {..<topo_nodes t}"
    and "\<forall>i < topo_nodes t. unat (msg_words (fst (f (results i) (inputs i)))) = w"
  shows "\<exists>S. reduce_inv (chan_inv w) (chan_pending w) w t (\<lambda>i. fst (f (results i) (inputs i))) S (reduce_run w ctx f inputs results is L)"
  unfolding reduce_run_def
  by (rule mred.reduce_reach[OF reduce_run_reduces[where f = f and results = results and inputs = inputs, OF assms(1,2,5)]]) (use assms(3,4) in \<open>simp_all add: links_idle_tree(2)\<close>)

text \<open>
  Claim C8: a reduction ends with the contribution of one leaf. When the nodes of a well-formed topology run
  \<open>smlt_reduce\<close> over the channels of their context, with their moves interleaved in any order, and the
  operation leaves messages of the same number of words on all of them, then a node that returns has
  success and the words that the operation left on one leaf of the tree below the node; and however far
  the nodes have got, more moves bring every one of them to return with success and leave all channels
  empty.
\<close>

theorem reduce_yields_one_leaf:
  assumes "topo_wf t" "context_of t ctx" "links_idle w t (context_links ctx M)" "set is \<subseteq> {..<topo_nodes t}"
    and "\<forall>i < topo_nodes t. unat (msg_words (fst (f (results i) (inputs i)))) = w"
  shows "(\<forall>i < topo_nodes t. \<forall>err msg. returned (reduce_run w ctx f inputs results is (context_links ctx M)) i (err, msg) \<longrightarrow>
       err = errval SMLT_SUCCESS \<and> (\<exists>l < topo_nodes t. leaf_below t i l \<and> msg_payload msg = msg_payload (fst (f (results l) (inputs l))))) \<and>
    (\<exists>js. set js \<subseteq> {..<topo_nodes t} \<and>
       links_idle w t (net_links (reduce_run w ctx f inputs results (is @ js) (context_links ctx M))) \<and>
       (\<forall>i < topo_nodes t. \<exists>msg. returned (reduce_run w ctx f inputs results (is @ js) (context_links ctx M)) i (errval SMLT_SUCCESS, msg)))"
proof -
  let ?own = "\<lambda>i. fst (f (results i) (inputs i))" and ?L = "context_links ctx M"
  let ?run = "\<lambda>is. reduce_run w ctx f inputs results is ?L"
  obtain S where S: "reduce_inv (chan_inv w) (chan_pending w) w t ?own S (?run is)" using reduce_run_reach[where f = f and results = results and inputs = inputs, OF assms] by blast
  then have "err = errval SMLT_SUCCESS \<and> (\<exists>l < topo_nodes t. leaf_below t i l \<and> msg_payload msg = msg_payload (?own l))"
    if "i < topo_nodes t" "returned (?run is) i (err, msg)" for i err msg
    using mred.reduce_inv_returned[OF S that] by (simp add: from_leaf_def)
  moreover obtain js S' where js: "set js \<subseteq> {..<topo_nodes t}" "reduce_inv (chan_inv w) (chan_pending w) w t ?own S' (?run (is @ js))"
    "\<forall>i < topo_nodes t. told (S' i)"
    using mred.reduce_completes[OF reduce_run_reduces[where f = f and results = results and inputs = inputs, OF assms(1,2,5)] S]
    unfolding reduce_run_def net_run_append by blast
  moreover have "links_idle w t (net_links (?run (is @ js)))" "\<forall>i < topo_nodes t. \<exists>msg. returned (?run (is @ js)) i (errval SMLT_SUCCESS, msg)"
    using mred.reduce_inv_done[OF assms(1) js(2,3)] by (simp_all add: links_idle_tree(2))
  ultimately show ?thesis by blast
qed

lemma pair_leaf:
  assumes "leaf_below pair_topology 0 l"
  shows "l = 1"
  using assms
proof (cases rule: leaf_below.cases)
  case leaf
  then show ?thesis by (simp add: kids_def pair_topology_def heap_node_def)
next
  case (inner c j)
  then have "leaf_below pair_topology 1 l" by (simp add: pair_child split: if_splits)
  then show ?thesis by (cases rule: leaf_below.cases) (simp_all add: pair_child)
qed

text \<open>The root adds to what it has; its child's message takes the place of the sum.\<close>

definition demo_add :: "smlt_msg \<Rightarrow> smlt_msg \<Rightarrow> smlt_msg \<times> smlt_msg" where
  "demo_add r x = (put_payload r (map2 (+) (msg_payload r) (msg_payload x)), x)"

theorem reduce_yields_one_leaf_witness:
  "\<exists>ch M js msg. returned (reduce_run 2 (pair_context ch) demo_add (\<lambda>i. msg_of [of_nat i + 5, 7]) (\<lambda>_. msg_of [0, 0]) js
       (context_links (pair_context ch) M)) 0 (errval SMLT_SUCCESS, msg) \<and> msg_payload msg = [6, 7]"
proof -
  let ?in = "\<lambda>i. msg_of [of_nat i + 5, 7]" and ?res = "\<lambda>_. msg_of [0, 0]"
  obtain ch M where c: "context_of pair_topology (pair_context ch)" "links_idle 2 pair_topology (context_links (pair_context ch) M)"
    using pair_links_two by blast
  have words: "\<forall>i < topo_nodes pair_topology. unat (msg_words (fst (demo_add (?res i) (?in i)))) = 2"
    by (simp add: demo_add_def msg_of_def)
  let ?run = "\<lambda>is. reduce_run 2 (pair_context ch) demo_add ?in ?res is (context_links (pair_context ch) M)"
  note reduces = reduce_yields_one_leaf[where f = demo_add and inputs = ?in and results = ?res, OF pair_topology_wf(1) c _ words]
  have "\<exists>js msg. set js \<subseteq> {..<topo_nodes pair_topology} \<and> returned (?run js) 0 (errval SMLT_SUCCESS, msg)"
    using conjunct2[OF reduces[of "[]"]] unfolding append_Nil pair_topology_wf(2) by fastforce
  then obtain js msg where js: "set js \<subseteq> {..<topo_nodes pair_topology}" "returned (?run js) 0 (errval SMLT_SUCCESS, msg)" by blast
  have "\<exists>l. leaf_below pair_topology 0 l \<and> msg_payload msg = msg_payload (fst (demo_add (?res l) (?in l)))"
    using conjunct1[OF reduces[OF js(1)], rule_format, of 0] js(2) unfolding pair_topology_wf(2) by fastforce
  then have "msg_payload msg = msg_payload (fst (demo_add (?res 1) (?in 1)))" using pair_leaf by blast
  also have "\<dots> = [6, 7]" by (simp add: demo_add_def msg_payload_def msg_of_def put_payload_def upt_rec)
  finally show ?thesis using js(2) by blast
qed

end
