(* ===== verification/Bench.thy ===== *)
theory Bench
  imports Smelt_Run Smelt_Error "HOL-Library.Multiset"
begin

text \<open>
  Measurements (\<open>src/bench.c\<close>, \<open>inc/smlt_bench.h\<close>): a ring of samples and their analysis. The samples
  are sorted in place by a quicksort with two cursors; here the array is the list of its elements, and
  an access outside of it aborts. The processor's time stamp is an argument of the functions that
  read it; the two floating-point expressions of the analysis are parameters.
\<close>

section \<open>Data\<close>

record smlt_bench_analyzed =
  ba_min :: u64
  ba_max :: u64
  ba_median :: u64
  ba_avg :: u64
  ba_stderr :: u64
  ba_count :: u32
  ba_ignored :: u32
  ba_valid :: bool

record smlt_bench_ctl =
  bc_data :: "u64 list"
  bc_last_tsc :: u64
  bc_count :: u32
  bc_idx :: u32
  bc_max_data :: u32
  bc_label :: string
  bc_a :: smlt_bench_analyzed

definition bench_analyzed_zero :: smlt_bench_analyzed where
  "bench_analyzed_zero = \<lparr>ba_min = 0, ba_max = 0, ba_median = 0, ba_avg = 0, ba_stderr = 0, ba_count = 0, ba_ignored = 0,
     ba_valid = False\<rparr>"

section \<open>Measuring\<close>

text \<open>The initialisation does nothing to the structure.\<close>

definition smlt_bench_ctl_init :: "smlt_bench_ctl \<Rightarrow> string \<Rightarrow> u32 \<Rightarrow> errval_t \<times> smlt_bench_ctl" where
  "smlt_bench_ctl_init ctl label num_measurements = (errval SMLT_SUCCESS, ctl)"

definition smlt_bench_ctl_reset :: "u64 \<Rightarrow> smlt_bench_ctl \<Rightarrow> smlt_bench_ctl" where
  "smlt_bench_ctl_reset tsc ctl = ctl\<lparr>bc_a := bench_analyzed_zero, bc_idx := 0, bc_count := 0, bc_last_tsc := tsc\<rparr>"

definition smlt_bench_ctl_start :: "u64 \<Rightarrow> smlt_bench_ctl \<Rightarrow> smlt_bench_ctl" where
  "smlt_bench_ctl_start tsc ctl = ctl\<lparr>bc_last_tsc := tsc\<rparr>"

definition smlt_bench_clt_add_value :: "smlt_bench_ctl \<Rightarrow> u64 \<Rightarrow> smlt_bench_ctl run" where
  "smlt_bench_clt_add_value ctl value =
     bind_run (nth_run (bc_data ctl) (unat (bc_idx ctl))) (\<lambda>_.
       Inr (ctl\<lparr>bc_count := bc_count ctl + 1, bc_data := (bc_data ctl)[unat (bc_idx ctl) := value],
                bc_idx := (if bc_idx ctl + 1 = bc_max_data ctl then 0 else bc_idx ctl + 1)\<rparr>))"

definition smlt_bench_ctl_add_measurement :: "u64 \<Rightarrow> u64 \<Rightarrow> smlt_bench_ctl \<Rightarrow> smlt_bench_ctl run" where
  "smlt_bench_ctl_add_measurement tsc overhead ctl =
     bind_run (smlt_bench_clt_add_value ctl (tsc - bc_last_tsc ctl - overhead)) (\<lambda>ctl'. Inr (ctl'\<lparr>bc_last_tsc := tsc\<rparr>))"

section \<open>Sorting\<close>

text \<open>The two inner loops. A cursor that runs out of the array, or below zero, accesses what is not there.\<close>

function scan_up :: "u64 list \<Rightarrow> u64 \<Rightarrow> nat \<Rightarrow> nat run" where
  "scan_up data pivot i =
     (if i < length data then if data ! i < pivot then scan_up data pivot (i + 1) else Inr i else Inl Wild)"
  by auto
termination by (relation "measure (\<lambda>(data, pivot, i). length data - i)") auto

declare scan_up.simps [simp del]

fun scan_down :: "u64 list \<Rightarrow> u64 \<Rightarrow> nat \<Rightarrow> nat run" where
  "scan_down data pivot 0 =
     (if 0 < length data then if pivot < data ! 0 then Inl Wild else Inr 0 else Inl Wild)"
| "scan_down data pivot (Suc j) =
     (if Suc j < length data then if pivot < data ! Suc j then scan_down data pivot j else Inr (Suc j) else Inl Wild)"

lemma scan_down_le: "scan_down data pivot j = Inr j' \<Longrightarrow> j' \<le> j"
  by (induction data pivot j rule: scan_down.induct) (auto split: if_splits)

text \<open>The outer loop: the cursor where the array is cut, and the array.\<close>

function partition_loop :: "u64 list \<Rightarrow> u64 \<Rightarrow> nat \<Rightarrow> nat \<Rightarrow> (nat \<times> u64 list) run" where
  "partition_loop data pivot i j =
     (case scan_up data pivot i of
        Inl a \<Rightarrow> Inl a
      | Inr i' \<Rightarrow>
          (case scan_down data pivot j of
             Inl a \<Rightarrow> Inl a
           | Inr j' \<Rightarrow>
               if j' \<le> i' then Inr (i', data)
               else partition_loop (data[i' := data ! j', j' := data ! i']) pivot (i' + 1) (j' - 1)))"
  by auto
termination by (relation "measure (\<lambda>(data, pivot, i, j). j)") (auto dest: scan_down_le)

declare partition_loop.simps [simp del]

text \<open>Where the cursors stop.\<close>

lemma scan_up_stops:
  assumes "i \<le> k" "k < length data" "pivot \<le> data ! k"
  shows "\<exists>i'. scan_up data pivot i = Inr i' \<and> i \<le> i' \<and> i' \<le> k \<and> pivot \<le> data ! i' \<and> (\<forall>l. i \<le> l \<longrightarrow> l < i' \<longrightarrow> data ! l < pivot)"
  using assms(1)
proof (induction "k - i" arbitrary: i)
  case 0
  then show ?case using assms by (subst scan_up.simps) auto
next
  case (Suc n)
  show ?case
  proof (cases "data ! i < pivot")
    case True
    have "n = k - (i + 1)" "i + 1 \<le> k" using Suc.hyps(2) by auto
    from Suc.hyps(1)[OF this] obtain i' where i': "scan_up data pivot (i + 1) = Inr i'" "i + 1 \<le> i'" "i' \<le> k" "pivot \<le> data ! i'"
      "\<forall>l. i + 1 \<le> l \<longrightarrow> l < i' \<longrightarrow> data ! l < pivot" by blast
    have "data ! l < pivot" if "i \<le> l" "l < i'" for l using that i'(5) True by (cases "l = i") auto
    then show ?thesis using i' True Suc.prems assms(2) by (subst scan_up.simps) auto
  next
    case False
    then show ?thesis using Suc.prems assms(2) by (subst scan_up.simps) auto
  qed
qed

lemma scan_down_stops:
  assumes "k \<le> j" "j < length data" "data ! k \<le> pivot"
  shows "\<exists>j'. scan_down data pivot j = Inr j' \<and> k \<le> j' \<and> j' \<le> j \<and> data ! j' \<le> pivot \<and> (\<forall>l. j' < l \<longrightarrow> l \<le> j \<longrightarrow> pivot < data ! l)"
  using assms(1,2)
proof (induction j)
  case 0
  then show ?case using assms by auto
next
  case (Suc j)
  show ?case
  proof (cases "pivot < data ! Suc j")
    case True
    then have "k \<le> j" using Suc.prems(1) assms(3) by (cases "k = Suc j") auto
    then obtain j' where j': "scan_down data pivot j = Inr j'" "k \<le> j'" "j' \<le> j" "data ! j' \<le> pivot"
      "\<forall>l. j' < l \<longrightarrow> l \<le> j \<longrightarrow> pivot < data ! l" using Suc by auto
    have "pivot < data ! l" if "j' < l" "l \<le> Suc j" for l using that j'(5) True by (cases "l = Suc j") auto
    then show ?thesis using j' True Suc.prems(2) by auto
  next
    case False
    then show ?thesis using Suc.prems by auto
  qed
qed

text \<open>
  The invariant of the outer loop: what is left of the first cursor is not above the pivot, what is
  right of the second one is not below it, and there are elements that stop both cursors; the second
  one stops above the first element as long as the first one has not moved.
\<close>

definition cursors_ok :: "u64 list \<Rightarrow> u64 \<Rightarrow> nat \<Rightarrow> nat \<Rightarrow> bool" where
  "cursors_ok data pivot i j \<longleftrightarrow>
     j < length data \<and> (\<forall>k < i. data ! k \<le> pivot) \<and> (\<forall>k. j < k \<longrightarrow> k < length data \<longrightarrow> pivot \<le> data ! k) \<and>
     (\<exists>k. i \<le> k \<and> k < length data \<and> pivot \<le> data ! k) \<and> (\<exists>k \<le> j. data ! k \<le> pivot) \<and>
     (0 < i \<or> (\<exists>k \<le> j. 0 < k \<and> data ! k \<le> pivot))"

definition cut_ok :: "u64 list \<Rightarrow> u64 \<Rightarrow> nat \<Rightarrow> u64 list \<Rightarrow> bool" where
  "cut_ok data pivot i data' \<longleftrightarrow>
     0 < i \<and> i < length data \<and> length data' = length data \<and> mset data' = mset data \<and>
     (\<forall>k < i. data' ! k \<le> pivot) \<and> (\<forall>k. i \<le> k \<longrightarrow> k < length data' \<longrightarrow> pivot \<le> data' ! k)"

lemma partition_loop_cuts:
  "cursors_ok data pivot i j \<Longrightarrow> \<exists>i' data'. partition_loop data pivot i j = Inr (i', data') \<and> cut_ok data pivot i' data'"
proof (induction j arbitrary: data i rule: less_induct)
  case (less j)
  have I: "j < length data" "\<forall>k < i. data ! k \<le> pivot" "\<forall>k. j < k \<longrightarrow> k < length data \<longrightarrow> pivot \<le> data ! k"
    "0 < i \<or> (\<exists>k \<le> j. 0 < k \<and> data ! k \<le> pivot)" using less.prems by (simp_all add: cursors_ok_def)
  obtain u where "i \<le> u" "u < length data" "pivot \<le> data ! u" using less.prems by (auto simp: cursors_ok_def)
  from scan_up_stops[OF this] obtain i' where i': "scan_up data pivot i = Inr i'" "i \<le> i'" "i' < length data"
    "pivot \<le> data ! i'" "\<forall>l. i \<le> l \<longrightarrow> l < i' \<longrightarrow> data ! l < pivot" using \<open>u < length data\<close> by auto
  obtain v where v: "v \<le> j" "data ! v \<le> pivot" "0 < i \<or> 0 < v" using less.prems I(4) by (auto simp: cursors_ok_def)
  from scan_down_stops[OF v(1) I(1) v(2)] obtain j' where j': "scan_down data pivot j = Inr j'" "v \<le> j'" "j' \<le> j"
    "data ! j' \<le> pivot" "\<forall>l. j' < l \<longrightarrow> l \<le> j \<longrightarrow> pivot < data ! l" by blast
  have low: "data ! k \<le> pivot" if "k < i'" for k using that I(2) i'(5) by (cases "k < i") (auto intro: less_imp_le)
  have high: "pivot \<le> data ! k" if "j' < k" "k < length data" for k using that I(3) j'(5) by (cases "j < k") (auto intro: less_imp_le)
  show ?case
  proof (cases "j' \<le> i'")
    case True
    have "0 < i'" using v(3) i'(2) j'(2) True by linarith
    moreover have "pivot \<le> data ! k" if "i' \<le> k" "k < length data" for k
      using that high i'(4) True by (cases "k = i'") auto
    ultimately have "cut_ok data pivot i' data" using i'(3) low by (simp add: cut_ok_def)
    then show ?thesis using i'(1) j'(1) True by (subst partition_loop.simps) auto
  next
    case False
    let ?d = "data[i' := data ! j', j' := data ! i']"
    have at: "?d ! i' = data ! j'" "?d ! j' = data ! i'" "k \<noteq> i' \<Longrightarrow> k \<noteq> j' \<Longrightarrow> ?d ! k = data ! k" for k
      using False i'(3) j'(3) I(1) by (simp_all add: nth_list_update)
    have "cursors_ok ?d pivot (i' + 1) (j' - 1)"
      unfolding cursors_ok_def
    proof (intro conjI allI impI)
      show "j' - 1 < length ?d" using j'(3) I(1) by simp
      show "?d ! k \<le> pivot" if "k < i' + 1" for k using that low at j'(4) False by (cases "k = i'") auto
      show "pivot \<le> ?d ! k" if "j' - 1 < k" "k < length ?d" for k using that high at i'(4) False by (cases "k = j'") auto
      show "\<exists>k. i' + 1 \<le> k \<and> k < length ?d \<and> pivot \<le> ?d ! k"
        using False at(2) i'(4) j'(3) I(1) by (intro exI[of _ j']) simp
      show "\<exists>k \<le> j' - 1. ?d ! k \<le> pivot" using False at(1) j'(4) by (intro exI[of _ i']) simp
      show "0 < i' + 1 \<or> (\<exists>k \<le> j' - 1. 0 < k \<and> ?d ! k \<le> pivot)" by simp
    qed
    moreover have "j' - 1 < j" using False j'(3) by simp
    ultimately obtain m d where "partition_loop ?d pivot (i' + 1) (j' - 1) = Inr (m, d)" "cut_ok ?d pivot m d"
      using less.IH by blast
    moreover have "mset ?d = mset data" using i'(3) j'(3) I(1) by (intro mset_swap) simp_all
    ultimately show ?thesis using i'(1) j'(1) False by (subst partition_loop.simps) (auto simp: cut_ok_def)
  qed
qed

lemma partition_cuts:
  assumes "2 \<le> length data"
  shows "\<exists>i data'. partition_loop data (data ! (length data div 2)) 0 (length data - 1) = Inr (i, data') \<and>
    cut_ok data (data ! (length data div 2)) i data'"
proof (rule partition_loop_cuts)
  have "0 < length data div 2" "length data div 2 \<le> length data - 1" using assms by auto
  then show "cursors_ok data (data ! (length data div 2)) 0 (length data - 1)"
    using assms by (auto simp: cursors_ok_def intro!: exI[of _ "length data div 2"])
qed

text \<open>\<open>smlt_bench_sort\<close>; the two recursive calls are on the two parts of the array, one after the other.\<close>

function smlt_bench_sort :: "u64 list \<Rightarrow> u64 list run" where
  "smlt_bench_sort data =
     (if length data < 2 then Inr data
      else
        (case partition_loop data (data ! (length data div 2)) 0 (length data - 1) of
           Inl a \<Rightarrow> Inl a
         | Inr (i, data') \<Rightarrow>
             (case smlt_bench_sort (take i data') of
                Inl a \<Rightarrow> Inl a
              | Inr xs \<Rightarrow>
                  (case smlt_bench_sort (drop i data') of
                     Inl a \<Rightarrow> Inl a
                   | Inr ys \<Rightarrow> Inr (xs @ ys)))))"
  by pat_completeness auto
termination
proof (relation "measure length")
  fix data i data' and p :: "nat \<times> u64 list"
  assume "\<not> length data < 2" "partition_loop data (data ! (length data div 2)) 0 (length data - 1) = Inr p" "(i, data') = p"
  then show "(take i data', data) \<in> measure length" using partition_cuts[of data] by (auto simp: cut_ok_def)
next
  fix data i data' and p :: "nat \<times> u64 list" and xs :: "u64 list"
  assume "\<not> length data < 2" "partition_loop data (data ! (length data div 2)) 0 (length data - 1) = Inr p" "(i, data') = p"
  then show "(drop i data', data) \<in> measure length" using partition_cuts[of data] by (auto simp: cut_ok_def)
qed simp

declare smlt_bench_sort.simps [simp del]

lemma bench_sort_sorts: "smlt_bench_sort data = Inr (sort data)"
proof (induction data rule: length_induct)
  case (1 data)
  show ?case
  proof (cases "length data < 2")
    case True
    then have "sort data = data" by (cases data; cases "tl data") auto
    then show ?thesis using True by (simp add: smlt_bench_sort.simps)
  next
    case False
    let ?p = "data ! (length data div 2)"
    obtain i d where p: "partition_loop data ?p 0 (length data - 1) = Inr (i, d)" and c: "cut_ok data ?p i d"
      using partition_cuts[of data] False by auto
    have "length (take i d) < length data" "length (drop i d) < length data" using c by (auto simp: cut_ok_def)
    then have "smlt_bench_sort (take i d) = Inr (sort (take i d))" "smlt_bench_sort (drop i d) = Inr (sort (drop i d))"
      using 1 by blast+
    then have run: "smlt_bench_sort data = Inr (sort (take i d) @ sort (drop i d))"
      using p False by (subst smlt_bench_sort.simps) simp
    have "x \<le> ?p" if "x \<in> set (take i d)" for x using that c by (auto simp: cut_ok_def in_set_conv_nth)
    moreover have "?p \<le> y" if "y \<in> set (drop i d)" for y using that c by (auto simp: cut_ok_def in_set_conv_nth)
    ultimately have "sorted (sort (take i d) @ sort (drop i d))" by (fastforce simp: sorted_append)
    moreover have "mset (sort (take i d) @ sort (drop i d)) = mset data"
      using c by (simp add: cut_ok_def) (metis append_take_drop_id mset_append)
    ultimately have "sort data = sort (take i d) @ sort (drop i d)" by (intro properties_for_sort) simp_all
    then show ?thesis using run by simp
  qed
qed

section \<open>Analysis\<close>

text \<open>The two loops over the samples; \<open>div_run\<close> is the integer division, undefined for a zero divisor.\<close>

definition div_run :: "u64 \<Rightarrow> u32 \<Rightarrow> u64 run" where
  "div_run x y = (if y = 0 then Inl Wild else Inr (x div ucast y))"

definition smlt_bench_avg :: "smlt_bench_ctl \<Rightarrow> smlt_bench_ctl run" where
  "smlt_bench_avg ctl =
     bind_run (for_run (\<lambda>i avg. bind_run (nth_run (bc_data ctl) i) (\<lambda>x. Inr (avg + x))) 0 (unat (ba_count (bc_a ctl))) 0) (\<lambda>avg.
     bind_run (div_run avg (ba_count (bc_a ctl))) (\<lambda>avg.
       Inr (ctl\<lparr>bc_a := (bc_a ctl)\<lparr>ba_avg := avg\<rparr>\<rparr>)))"

definition smlt_bench_stderr :: "(u64 \<Rightarrow> u64) \<Rightarrow> smlt_bench_ctl \<Rightarrow> smlt_bench_ctl run" where
  "smlt_bench_stderr fsqrt ctl =
     bind_run (smlt_bench_avg ctl) (\<lambda>ctl.
     bind_run (for_run (\<lambda>i s. bind_run (nth_run (bc_data ctl) i) (\<lambda>x. Inr (s + (x - ba_avg (bc_a ctl)) * (x - ba_avg (bc_a ctl)))))
                 0 (unat (ba_count (bc_a ctl))) 0) (\<lambda>s.
     bind_run (div_run s (ba_count (bc_a ctl))) (\<lambda>s.
       Inr (ctl\<lparr>bc_a := (bc_a ctl)\<lparr>ba_stderr := fsqrt s\<rparr>\<rparr>))))"

text \<open>
  \<open>scale count\<close> stands for \<open>(uint32_t)(count * ignore)\<close>. The call of the sort is on the first \<open>count\<close>
  elements of the array; a count beyond the array's end makes the sort read there.
\<close>

definition smlt_bench_ctl_prepare_analysis :: "(u64 \<Rightarrow> u64) \<Rightarrow> (u32 \<Rightarrow> u32) \<Rightarrow> smlt_bench_ctl \<Rightarrow> smlt_bench_ctl run" where
  "smlt_bench_ctl_prepare_analysis fsqrt scale ctl =
     (let count = (if bc_max_data ctl < bc_count ctl then bc_max_data ctl else bc_count ctl); n = unat count in
      bind_run (if n \<le> length (bc_data ctl) then smlt_bench_sort (take n (bc_data ctl)) else Inl Wild) (\<lambda>sorted_part.
      let data = sorted_part @ drop n (bc_data ctl); ignored = scale count; count = count - ignored in
      bind_run (nth_run data (unat (count div 2))) (\<lambda>median.
      bind_run (nth_run data 0) (\<lambda>least.
      bind_run (nth_run data (unat (count - 1))) (\<lambda>greatest.
      bind_run (smlt_bench_stderr fsqrt (ctl\<lparr>bc_data := data, bc_a := (bc_a ctl)\<lparr>ba_count := count, ba_ignored := ignored,
                  ba_median := median, ba_min := least, ba_max := greatest\<rparr>\<rparr>)) (\<lambda>ctl.
        Inr (ctl\<lparr>bc_a := (bc_a ctl)\<lparr>ba_valid := True\<rparr>\<rparr>)))))))"

text \<open>The two functions that print, with the values of their lines.\<close>

definition smlt_bench_ctl_print_analysis ::
  "(u64 \<Rightarrow> u64) \<Rightarrow> (u32 \<Rightarrow> u32) \<Rightarrow> smlt_bench_ctl \<Rightarrow> ((string \<times> u32 \<times> u64 \<times> u64 \<times> u64 \<times> u64 \<times> u64) \<times> smlt_bench_ctl) run" where
  "smlt_bench_ctl_print_analysis fsqrt scale_default ctl =
     bind_run (if ba_valid (bc_a ctl) then Inr ctl else smlt_bench_ctl_prepare_analysis fsqrt scale_default ctl) (\<lambda>ctl.
       let a = bc_a ctl in
       Inr ((bc_label ctl, ba_count a, ba_avg a, ba_median a, ba_stderr a, ba_min a, ba_max a), ctl))"

definition smlt_bench_clt_print_data :: "'c \<Rightarrow> smlt_bench_ctl \<Rightarrow> (('c \<times> string \<times> nat \<times> u64) list \<times> smlt_bench_ctl) run" where
  "smlt_bench_clt_print_data core_id ctl =
     (let ctl = (if bc_max_data ctl < bc_count ctl then ctl\<lparr>bc_count := bc_max_data ctl\<rparr> else ctl) in
      bind_run (for_run (\<lambda>i out. bind_run (nth_run (bc_data ctl) i) (\<lambda>x. Inr (out @ [(core_id, bc_label ctl, i, x)])))
                  0 (unat (bc_count ctl)) []) (\<lambda>out. Inr (out, ctl)))"

section \<open>Properties\<close>

text \<open>A loop that folds the elements of an array.\<close>

lemma for_run_fold:
  assumes "i + n \<le> length xs"
  shows "for_run (\<lambda>i s. bind_run (nth_run xs i) (\<lambda>x. Inr (g x s))) i n s = Inr (fold g (take n (drop i xs)) s)"
  using assms
proof (induction n arbitrary: i s)
  case (Suc n)
  then have "take (Suc n) (drop i xs) = xs ! i # take n (drop (Suc i) xs)" by (simp add: Cons_nth_drop_Suc[symmetric])
  then show ?case using Suc by (simp add: nth_run_def)
qed simp

lemma fold_plus_sum: "fold (\<lambda>x s. s + f x) xs s = s + sum_list (map f xs)" for s :: u64
  by (induction xs arbitrary: s) (simp_all add: ac_simps)

text \<open>What the analysis computes of the values it keeps.\<close>

definition mean :: "u64 list \<Rightarrow> u64" where
  "mean xs = sum_list xs div of_nat (length xs)"

definition variance :: "u64 list \<Rightarrow> u64" where
  "variance xs = sum_list (map (\<lambda>x. (x - mean xs) * (x - mean xs)) xs) div of_nat (length xs)"

lemma bench_avg_run:
  assumes "ba_count (bc_a ctl) = c" "c \<noteq> 0" "unat c \<le> length (bc_data ctl)"
  shows "smlt_bench_avg ctl = Inr (ctl\<lparr>bc_a := (bc_a ctl)\<lparr>ba_avg := mean (take (unat c) (bc_data ctl))\<rparr>\<rparr>)"
  using assms for_run_fold[of 0 "unat c" "bc_data ctl" "\<lambda>x s. s + x" 0] fold_plus_sum[of "\<lambda>x. x" "take (unat c) (bc_data ctl)" 0]
  by (simp add: smlt_bench_avg_def div_run_def mean_def min_def)

lemma bench_stderr_run:
  assumes "ba_count (bc_a ctl) = c" "c \<noteq> 0" "unat c \<le> length (bc_data ctl)"
  shows "smlt_bench_stderr fsqrt ctl =
    Inr (ctl\<lparr>bc_a := (bc_a ctl)\<lparr>ba_avg := mean (take (unat c) (bc_data ctl)), ba_stderr := fsqrt (variance (take (unat c) (bc_data ctl)))\<rparr>\<rparr>)"
proof -
  let ?m = "mean (take (unat c) (bc_data ctl))"
  show ?thesis
    using assms bench_avg_run[OF assms] for_run_fold[of 0 "unat c" "bc_data ctl" "\<lambda>x s. s + (x - ?m) * (x - ?m)" 0]
      fold_plus_sum[of "\<lambda>x. (x - ?m) * (x - ?m)" "take (unat c) (bc_data ctl)" 0]
    by (simp add: smlt_bench_stderr_def div_run_def variance_def min_def)
qed

subsection \<open>The ring of samples\<close>

fun add_values :: "u64 list \<Rightarrow> smlt_bench_ctl \<Rightarrow> smlt_bench_ctl run" where
  "add_values [] ctl = Inr ctl"
| "add_values (x # xs) ctl = bind_run (smlt_bench_clt_add_value ctl x) (add_values xs)"

definition last_n :: "nat \<Rightarrow> 'a list \<Rightarrow> 'a list" where
  "last_n n xs = drop (length xs - n) xs"

text \<open>The samples of a structure: all of them until the ring is full, then the latest from the index on.\<close>

definition holds_samples :: "nat \<Rightarrow> u64 list \<Rightarrow> smlt_bench_ctl \<Rightarrow> bool" where
  "holds_samples m xs ctl \<longleftrightarrow>
     (let i = length xs mod m in
      length (bc_data ctl) = m \<and> bc_max_data ctl = of_nat m \<and> 0 < m \<and> m < 2 ^ 32 \<and> bc_count ctl = of_nat (length xs) \<and> bc_idx ctl = of_nat i \<and>
      (if length xs < m then take i (bc_data ctl) = xs
       else drop i (bc_data ctl) @ take i (bc_data ctl) = last_n m xs))"

lemma last_n_snoc: "m \<le> length xs \<Longrightarrow> 0 < m \<Longrightarrow> last_n m (xs @ [x]) = tl (last_n m xs) @ [x]"
  by (simp add: last_n_def Suc_diff_le tl_drop flip: drop_Suc)

lemma rotate_put:
  assumes "i < length d"
  shows "let d' = d[i := x]; j = Suc i mod length d in drop j d' @ take j d' = tl (drop i d @ take i d) @ [x]"
proof (cases "Suc i = length d")
  case True
  then have "d \<noteq> []" "i = length d - 1" by auto
  then show ?thesis using True
    by (cases d rule: rev_cases) (auto simp: Let_def tl_append split: list.split)
next
  case False
  then show ?thesis using assms by (simp add: Let_def take_Suc_conv_app_nth Cons_nth_drop_Suc[symmetric])
qed

lemma add_value_holds:
  assumes "holds_samples m xs ctl"
  shows "post (\<lambda>_. False) (smlt_bench_clt_add_value ctl x) (holds_samples m (xs @ [x]))"
proof -
  let ?d = "bc_data ctl"
  let ?m = "length ?d"
  let ?i = "length xs mod ?m"
  have m: "?m = m" using assms by (simp add: holds_samples_def Let_def)
  have H: "bc_max_data ctl = of_nat ?m" "0 < ?m" "?m < 2 ^ 32" "bc_count ctl = of_nat (length xs)" "bc_idx ctl = of_nat ?i"
    using assms m by (simp_all add: holds_samples_def Let_def)
  have i: "?i < ?m" using H(2) by simp
  then have ui: "unat (bc_idx ctl) = ?i" using H(3,5) by (simp add: unat_of_nat_small)
  have "(of_nat (Suc ?i) :: u32) = of_nat ?m \<longleftrightarrow> Suc ?i = ?m"
    using i H(3) by (intro of_nat_small_inj) simp_all
  then have idx: "(if bc_idx ctl + 1 = bc_max_data ctl then 0 else bc_idx ctl + 1) = of_nat (length (xs @ [x]) mod ?m)"
    using i by (simp add: H mod_Suc add.commute)
  have "if length (xs @ [x]) < ?m then take (length (xs @ [x]) mod ?m) (?d[?i := x]) = xs @ [x]
    else drop (length (xs @ [x]) mod ?m) (?d[?i := x]) @ take (length (xs @ [x]) mod ?m) (?d[?i := x]) = last_n ?m (xs @ [x])"
  proof (cases "length xs < ?m")
    case True
    then have "take (length xs) ?d = xs" using assms m by (simp add: holds_samples_def Let_def)
    then have "take (Suc (length xs)) (?d[length xs := x]) = xs @ [x]" using True by (simp add: take_Suc_conv_app_nth)
    then show ?thesis using True by (cases "Suc (length xs) = ?m") (auto simp: last_n_def)
  next
    case False
    then have "drop ?i ?d @ take ?i ?d = last_n ?m xs" using assms m by (simp add: holds_samples_def Let_def)
    then show ?thesis using False rotate_put[OF i, of x] last_n_snoc[of ?m xs x] H(2)
      by (simp add: Let_def mod_Suc_eq mod_Suc split: if_splits)
  qed
  then show ?thesis using i H(1-4) idx unfolding smlt_bench_clt_add_value_def post_bind post_nth ui
    by (cases "Suc (length xs) < ?m") (simp_all add: holds_samples_def Let_def add.commute m)
qed

lemma add_values_holds:
  "holds_samples m xs ctl \<Longrightarrow> post (\<lambda>_. False) (add_values ys ctl) (holds_samples m (xs @ ys))"
proof (induction ys arbitrary: xs ctl)
  case (Cons y ys)
  have "post (\<lambda>_. False) (add_values ys c) (holds_samples m (xs @ y # ys))" if "holds_samples m (xs @ [y]) c" for c
    using Cons.IH[OF that] by simp
  then show ?case using add_value_holds[OF Cons.prems, of y] by (auto elim: post_weaken)
qed simp

lemma reset_holds_nothing:
  assumes "bc_max_data ctl = of_nat (length (bc_data ctl))" "0 < length (bc_data ctl)" "length (bc_data ctl) < 2 ^ 32"
  shows "holds_samples (length (bc_data ctl)) [] (smlt_bench_ctl_reset tsc ctl)"
  using assms by (simp add: holds_samples_def smlt_bench_ctl_reset_def Let_def)

text \<open>The samples an analysis looks at are the latest ones.\<close>

lemma holds_samples_latest:
  assumes "holds_samples m xs ctl" "length xs < 2 ^ 32"
  defines "n \<equiv> unat (if bc_max_data ctl < bc_count ctl then bc_max_data ctl else bc_count ctl)"
  shows "n = length (last_n m xs)" "n \<le> length (bc_data ctl)" "mset (take n (bc_data ctl)) = mset (last_n m xs)"
proof -
  have H: "length (bc_data ctl) = m" "bc_max_data ctl = of_nat m" "m < 2 ^ 32" "bc_count ctl = of_nat (length xs)"
    using assms(1) by (simp_all add: holds_samples_def Let_def)
  have "unat (bc_max_data ctl) = m" "unat (bc_count ctl) = length xs" using H assms(2) by (simp_all add: unat_of_nat_small)
  then have n: "n = min (length xs) m" by (auto simp: n_def word_less_nat_alt)
  then show "n = length (last_n m xs)" "n \<le> length (bc_data ctl)" using H(1) by (simp_all add: last_n_def)
  show "mset (take n (bc_data ctl)) = mset (last_n m xs)"
  proof (cases "length xs < m")
    case True
    then show ?thesis using n assms(1) by (simp add: holds_samples_def Let_def last_n_def)
  next
    case False
    then have "mset (last_n m xs) = mset (drop (length xs mod m) (bc_data ctl) @ take (length xs mod m) (bc_data ctl))"
      using assms(1) by (simp add: holds_samples_def Let_def)
    also have "\<dots> = mset (bc_data ctl)" by (metis append_take_drop_id mset_append union_commute)
    finally show ?thesis using False n H(1) by simp
  qed
qed

subsection \<open>The analysis of a structure\<close>

lemma prepare_analysis_run:
  assumes "n = unat (if bc_max_data ctl < bc_count ctl then bc_max_data ctl else bc_count ctl)"
    and "n \<le> length (bc_data ctl)" "unat (scale (of_nat n)) < n"
  shows "\<exists>ctl'. smlt_bench_ctl_prepare_analysis fsqrt scale ctl = Inr ctl' \<and>
    (let kept = take (n - unat (scale (of_nat n))) (sort (take n (bc_data ctl))) in
     bc_data ctl' = sort (take n (bc_data ctl)) @ drop n (bc_data ctl) \<and>
     bc_a ctl' = \<lparr>ba_min = hd kept, ba_max = last kept, ba_median = kept ! (length kept div 2), ba_avg = mean kept,
       ba_stderr = fsqrt (variance kept), ba_count = of_nat (length kept), ba_ignored = scale (of_nat n), ba_valid = True\<rparr>)"
proof -
  define count where "count = (if bc_max_data ctl < bc_count ctl then bc_max_data ctl else bc_count ctl)"
  have n: "n = unat count" "of_nat n = count" using assms(1) by (simp_all add: count_def)
  define ign where "ign = scale count"
  have "ign < count" using assms(3) n by (simp add: ign_def word_less_nat_alt)
  then have k: "unat (count - ign) = n - unat ign" "count - ign \<noteq> 0" "unat (count - ign - 1) = n - unat ign - 1"
    "unat ((count - ign) div 2) = (n - unat ign) div 2"
    using n by (auto simp: unat_sub unat_minus_one unat_div order.strict_implies_order)
  define d where "d = sort (take n (bc_data ctl)) @ drop n (bc_data ctl)"
  let ?k = "n - unat ign"
  have l: "?k \<le> n" "0 < ?k" "n \<le> length (bc_data ctl)" using assms(2,3) n by (auto simp: ign_def)
  have kept: "take ?k (sort (take n (bc_data ctl))) = take ?k d" using l by (simp add: d_def)
  have dl: "?k \<le> length d" "d \<noteq> []" "take ?k d \<noteq> []" using l by (auto simp: d_def simp flip: length_greater_0_conv)
  have ends: "d ! (?k div 2) = take ?k d ! (?k div 2)" "d ! 0 = hd (take ?k d)" "d ! (?k - 1) = last (take ?k d)"
    using dl by (auto simp: hd_conv_nth last_conv_nth min_def)
  have at: "nth_run d (?k div 2) = Inr (d ! (?k div 2))" "nth_run d 0 = Inr (d ! 0)" "nth_run d (?k - 1) = Inr (d ! (?k - 1))"
    using l(2) dl(1) by (auto simp: nth_run_def)
  let ?c = "ctl\<lparr>bc_data := d, bc_a := (bc_a ctl)\<lparr>ba_count := count - ign, ba_ignored := ign,
    ba_median := d ! (?k div 2), ba_min := d ! 0, ba_max := d ! (?k - 1)\<rparr>\<rparr>"
  have "smlt_bench_stderr fsqrt ?c =
    Inr (?c\<lparr>bc_a := (bc_a ?c)\<lparr>ba_avg := mean (take ?k d), ba_stderr := fsqrt (variance (take ?k d))\<rparr>\<rparr>)"
    using bench_stderr_run[of ?c "count - ign"] k dl by simp
  moreover have "smlt_bench_ctl_prepare_analysis fsqrt scale ctl =
    bind_run (smlt_bench_stderr fsqrt ?c) (\<lambda>ctl. Inr (ctl\<lparr>bc_a := (bc_a ctl)\<lparr>ba_valid := True\<rparr>\<rparr>))"
    using l(3) unfolding smlt_bench_ctl_prepare_analysis_def Let_def count_def[symmetric] ign_def[symmetric] n(1)[symmetric]
    by (simp only: bench_sort_sorts bind_run.simps if_True d_def[symmetric] k at)
  ultimately have "smlt_bench_ctl_prepare_analysis fsqrt scale ctl =
    Inr (?c\<lparr>bc_a := (bc_a ?c)\<lparr>ba_avg := mean (take ?k d), ba_stderr := fsqrt (variance (take ?k d)), ba_valid := True\<rparr>\<rparr>)" by simp
  moreover have "count - ign = of_nat (length (take ?k d))" using arg_cong[OF k(1), of "of_nat :: nat \<Rightarrow> u32"] dl(1) by (simp add: min_def)
  moreover have "length (take ?k d) = ?k" using dl(1) by simp
  ultimately show ?thesis
    unfolding Let_def n(2) ign_def[symmetric] kept ends by (simp add: d_def[symmetric])
qed

lemma sorted_ends:
  assumes "sorted xs" "xs \<noteq> []"
  shows "hd xs = Min (set xs)" "last xs = Max (set xs)"
proof -
  show "hd xs = Min (set xs)" using assms by (cases xs) (auto intro!: Min_eqI[symmetric])
  show "last xs = Max (set xs)" using assms by (cases xs rule: rev_cases) (auto simp: sorted_append intro!: Max_eqI[symmetric])
qed

text \<open>
  Claim C18: the quicksort of the measurements ends for every array, without leaving the array, with the elements of the
  array in ascending order.
\<close>

theorem bench_sort_ends_sorted: "\<exists>d. smlt_bench_sort data = Inr d \<and> sorted d \<and> mset d = mset data"
  by (simp add: bench_sort_sorts)

text \<open>
  Claim C39: a measurement from a reset structure. After any non-empty series of fewer than \<open>2\<^sup>3\<^sup>2\<close> samples the analysis is over the
  latest ones, as many as the ring has places, less the greatest ones that are to be ignored: minimum,
  maximum and median are those of the kept values, they are in order, and average and standard
  deviation are computed from all of the kept values and no others.
\<close>

theorem bench_analyses_latest:
  assumes "bc_max_data ctl = of_nat m" "length (bc_data ctl) = m" "0 < m" "m < 2 ^ 32"
    and "xs \<noteq> []" "length xs < 2 ^ 32"
    and "latest = last_n m xs" "unat (scale (of_nat (length latest))) < length latest"
    and "kept = take (length latest - unat (scale (of_nat (length latest)))) (sort latest)"
  shows "\<exists>ctl' a. bind_run (add_values xs (smlt_bench_ctl_reset tsc ctl)) (smlt_bench_ctl_prepare_analysis fsqrt scale) = Inr ctl' \<and>
    a = bc_a ctl' \<and> ba_valid a \<and> unat (ba_count a) = length kept \<and> ba_min a = Min (set latest) \<and> ba_max a = Max (set kept) \<and>
    ba_median a = kept ! (length kept div 2) \<and> ba_min a \<le> ba_median a \<and> ba_median a \<le> ba_max a \<and>
    ba_avg a = mean kept \<and> ba_stderr a = fsqrt (variance kept)"
proof -
  obtain c where c: "add_values xs (smlt_bench_ctl_reset tsc ctl) = Inr c" "holds_samples m xs c"
    using add_values_holds[OF reset_holds_nothing[of ctl tsc], of xs] assms(1-4) by (auto simp: post_total)
  define n where "n = unat (if bc_max_data c < bc_count c then bc_max_data c else bc_count c)"
  have n: "n = length latest" "n \<le> length (bc_data c)" "mset (take n (bc_data c)) = mset latest"
    using holds_samples_latest[OF c(2) assms(6)] assms(7) by (simp_all add: n_def)
  have srt: "sort (take n (bc_data c)) = sort latest" using n(3) by (metis mset_sort properties_for_sort sorted_sort)
  have k: "kept \<noteq> []" "sorted kept" using assms(8,9) by (auto simp: sorted_wrt_take simp flip: length_greater_0_conv)
  have kept: "kept = take (n - unat (scale (of_nat n))) (sort (take n (bc_data c)))" using assms(9) n(1) srt by simp
  obtain c' where "smlt_bench_ctl_prepare_analysis fsqrt scale c = Inr c'"
    "bc_a c' = \<lparr>ba_min = hd kept, ba_max = last kept, ba_median = kept ! (length kept div 2), ba_avg = mean kept,
       ba_stderr = fsqrt (variance kept), ba_count = of_nat (length kept), ba_ignored = scale (of_nat n), ba_valid = True\<rparr>"
    using prepare_analysis_run[OF n_def n(2), of scale fsqrt] assms(8) unfolding Let_def kept[symmetric] n(1)[symmetric] by blast
  moreover have "unat (of_nat (length kept) :: u32) = length kept"
    using assms(6,7,9) by (intro unat_of_nat_small) (simp add: last_n_def)
  moreover have "hd kept = Min (set latest)"
    using sorted_ends(1)[of "sort latest"] assms(8,9) by (simp flip: length_greater_0_conv)
  moreover have "last kept = Max (set kept)" by (rule sorted_ends(2)[OF k(2,1)])
  moreover have "hd kept \<le> kept ! (length kept div 2)" "kept ! (length kept div 2) \<le> last kept"
    using k by (auto simp: hd_conv_nth last_conv_nth intro!: sorted_nth_mono)
  ultimately show ?thesis using c(1) by simp
qed

definition demo_ctl :: smlt_bench_ctl where
  "demo_ctl = \<lparr>bc_data = [9, 9, 9], bc_last_tsc = 0, bc_count = 7, bc_idx = 1, bc_max_data = 3, bc_label = ''demo'',
     bc_a = bench_analyzed_zero\<rparr>"

text \<open>Four samples in a ring of three places: the first one is gone.\<close>

theorem bench_analyses_latest_witness:
  "\<exists>ctl' a. bind_run (add_values [1, 40, 20, 30] (smlt_bench_ctl_reset 5 demo_ctl)) (smlt_bench_ctl_prepare_analysis id (\<lambda>_. 1)) = Inr ctl' \<and>
    a = bc_a ctl' \<and> ba_valid a \<and> unat (ba_count a) = length [20, 30 :: u64] \<and> ba_min a = 20 \<and> ba_max a = 30 \<and> ba_median a = 30 \<and> ba_avg a = 25"
proof -
  have "last_n 3 [1, 40, 20, 30 :: u64] = [40, 20, 30]" by (simp add: last_n_def)
  then show ?thesis
    using bench_analyses_latest[of demo_ctl 3 "[1, 40, 20, 30]" "[40, 20, 30]" "\<lambda>_. 1" "[20, 30]" 5 id]
    by (auto simp: demo_ctl_def mean_def)
qed

end
