(* ===== verification/Generator.thy ===== *)
theory Generator
  imports Topology
begin

text \<open>
  The source of generated models (\<open>src/generator.c\<close>, \<open>contrib/sim.cpp\<close>, \<open>contrib/sim_wrapper.cpp\<close>): a service
  is asked over a socket, or a file is read, for a JSON document with the model. The JSON library, the
  sockets, the environment and the file system are parameters.
\<close>

section \<open>Reading the document\<close>

text \<open>
  What is used of the JSON library: parsing, the member of an object, and of a value its integer, its
  size, its element at an index, the elements that its iterator goes through. \<open>None\<close> is an exception.
\<close>

record 'j json_lib =
  jl_parse :: "string \<Rightarrow> 'j option"
  jl_get :: "'j \<Rightarrow> string \<Rightarrow> 'j option"
  jl_int :: "'j \<Rightarrow> int option"
  jl_size :: "'j \<Rightarrow> nat"
  jl_at :: "'j \<Rightarrow> nat \<Rightarrow> 'j option"
  jl_elems :: "'j \<Rightarrow> 'j list"
  jl_string :: "'j \<Rightarrow> string option"

text \<open>An exception leaves the outputs as they are at that moment: \<open>None\<close> beside them.\<close>

type_synonym 'a thrown = "('a option \<times> smlt_generated_model) run"

definition try_do :: "'a option \<Rightarrow> smlt_generated_model \<Rightarrow> ('a \<Rightarrow> 'b thrown) \<Rightarrow> 'b thrown" where
  "try_do x g k = (case x of None \<Rightarrow> Inr (None, g) | Some y \<Rightarrow> k y)"

fun read_leafs :: "'j json_lib \<Rightarrow> 'j \<Rightarrow> nat \<Rightarrow> nat \<Rightarrow> smlt_generated_model \<Rightarrow> unit thrown" where
  "read_leafs J v i 0 g = Inr (Some (), g)"
| "read_leafs J v i (Suc k) g =
     try_do (Option.bind (jl_at J v i) (jl_int J)) g (\<lambda>x.
       read_leafs J v (Suc i) k (g\<lparr>gm_leafs := (gm_leafs g)[i := word_of_int x]\<rparr>))"

text \<open>
  The cells of the row \<open>x\<close> of a matrix of \<open>sz\<close> columns, from the column \<open>y\<close> on. The index is computed in 32
  bits; a write behind the matrix is undefined.
\<close>

definition cell_index :: "nat \<Rightarrow> nat \<Rightarrow> nat \<Rightarrow> nat" where
  "cell_index x sz y = unat (of_nat x * of_nat sz + of_nat y :: u32)"

fun read_row :: "'j json_lib \<Rightarrow> nat \<Rightarrow> nat \<Rightarrow> nat \<Rightarrow> 'j list \<Rightarrow> smlt_generated_model \<Rightarrow> unit thrown" where
  "read_row J sz x y [] g = Inr (Some (), g)"
| "read_row J sz x y (v # vs) g =
     try_do (jl_int J v) g (\<lambda>n.
       if cell_index x sz y < length (gm_model g)
       then read_row J sz x (Suc y) vs (g\<lparr>gm_model := (gm_model g)[cell_index x sz y := word_of_int n]\<rparr>)
       else Inl Wild)"

fun read_rows :: "'j json_lib \<Rightarrow> nat \<Rightarrow> nat \<Rightarrow> 'j list \<Rightarrow> smlt_generated_model \<Rightarrow> unit thrown" where
  "read_rows J sz x [] g = Inr (Some (), g)"
| "read_rows J sz x (row # rows) g =
     bind_run (read_row J sz x 0 (jl_elems J row) g) (\<lambda>(r, g'). try_do r g' (\<lambda>_. read_rows J sz (Suc x) rows g'))"

text \<open>
  The body of the \<open>try\<close>. The two arrays come from \<open>malloc\<close>, with any contents: \<open>malloc32\<close> and \<open>malloc16\<close> by their
  number of elements, \<open>None\<close> for a null pointer, on which the assertion fails. The document given to the
  parser lacks the last character of the string.
\<close>

definition assert_nonnull :: "'a option \<Rightarrow> ('a \<Rightarrow> 'b thrown) \<Rightarrow> 'b thrown" where
  "assert_nonnull p k = (case p of None \<Rightarrow> Inl Assertion | Some a \<Rightarrow> k a)"

definition parse_document ::
  "'j json_lib \<Rightarrow> (nat \<Rightarrow> u32 list option) \<Rightarrow> (nat \<Rightarrow> u16 list option) \<Rightarrow> string \<Rightarrow> smlt_generated_model \<Rightarrow> unit thrown"
where
  "parse_document J malloc32 malloc16 json_string g =
     try_do (jl_parse J (butlast json_string)) g (\<lambda>root.
     try_do (jl_get J root ''root'') g (\<lambda>ln.
     try_do (jl_int J ln) g (\<lambda>lnval.
     let g = g\<lparr>gm_root := word_of_int lnval\<rparr> in
     try_do (jl_get J root ''git-version'') g (\<lambda>rev.
     try_do (jl_string J rev) g (\<lambda>_.
     try_do (jl_get J root ''leaf_nodes'') g (\<lambda>leafs.
     assert_nonnull (malloc32 (jl_size J leafs)) (\<lambda>ls.
     let g = g\<lparr>gm_num_leafs := of_nat (jl_size J leafs), gm_leafs := ls\<rparr> in
     bind_run (read_leafs J leafs 0 (jl_size J leafs) g) (\<lambda>(r, g).
     try_do r g (\<lambda>_.
     try_do (jl_get J root ''model'') g (\<lambda>elem.
     let n = jl_size J elem in
     assert_nonnull (malloc16 (n * n)) (\<lambda>model.
     read_rows J n 0 (jl_elems J elem) (g\<lparr>gm_model := model, gm_len := of_nat n\<rparr>))))))))))))"

definition smlt_tree_parse_wrapper ::
  "'j json_lib \<Rightarrow> (nat \<Rightarrow> u32 list option) \<Rightarrow> (nat \<Rightarrow> u16 list option) \<Rightarrow> string \<Rightarrow> smlt_generated_model \<Rightarrow> (int \<times> smlt_generated_model) run"
where
  "smlt_tree_parse_wrapper J malloc32 malloc16 json_string g =
     bind_run (parse_document J malloc32 malloc16 json_string g) (\<lambda>(r, g'). Inr (case r of None \<Rightarrow> -1 | Some _ \<Rightarrow> 0, g'))"

text \<open>
  The loop that is meant to stop after ten attempts; the counter is not increased. Running out of \<open>fuel\<close> is
  \<open>Hang\<close>.
\<close>

definition MAX_ATTEMPTS :: nat where
  "MAX_ATTEMPTS = 10"

fun parse_attempts ::
  "(smlt_generated_model \<Rightarrow> (int \<times> smlt_generated_model) run) \<Rightarrow> nat \<Rightarrow> int \<Rightarrow> nat \<Rightarrow> smlt_generated_model \<Rightarrow>
   (int \<times> smlt_generated_model) run"
where
  "parse_attempts parse 0 res attempts g = (if res \<noteq> 0 \<and> attempts < MAX_ATTEMPTS then Inl Hang else Inr (res, g))"
| "parse_attempts parse (Suc fuel) res attempts g =
     (if res \<noteq> 0 \<and> attempts < MAX_ATTEMPTS
      then bind_run (parse g) (\<lambda>(res', g'). parse_attempts parse fuel res' attempts g')
      else Inr (res, g))"

definition smlt_tree_parse where
  "smlt_tree_parse J malloc32 malloc16 fuel json_string g = parse_attempts (smlt_tree_parse_wrapper J malloc32 malloc16 json_string) fuel (-1) 0 g"

section \<open>Asking the service\<close>

text \<open>
  The network as the request finds it: the results of the calls, in order, and what \<open>recv\<close> delivers before
  it returns 0 or less. A piece that fills the buffer makes the terminator go behind the buffer's end.
\<close>

record network =
  nw_getaddrinfo :: int
  nw_socket :: int
  nw_connect :: int
  nw_rcvtimeo :: int
  nw_sndtimeo :: int
  nw_sent :: "string \<Rightarrow> int"
  nw_pieces :: "string list"
  nw_last_recv :: int

definition c_string :: "string \<Rightarrow> string" where
  "c_string s = takeWhile (\<lambda>c. c \<noteq> CHR 0x00) s"

fun receive_pieces :: "string list \<Rightarrow> string \<Rightarrow> string run" where
  "receive_pieces [] rec = Inr rec"
| "receive_pieces (p # ps) rec = (if length p < 1000 then receive_pieces ps (rec @ c_string p) else Inl Wild)"

definition smlt_tree_config_request where
  "smlt_tree_config_request J malloc32 malloc16 nw msg g =
     (if nw_getaddrinfo nw \<noteq> 0 then Inr (1, g)
      else if nw_socket nw = -1 then Inr (1, g)
      else if nw_connect nw = -1 then Inr (1, g)
      else if nw_rcvtimeo nw < 0 then Inl Assertion
      else if nw_sndtimeo nw < 0 then Inl Assertion
      else if nw_sent nw msg \<noteq> int (length msg) then Inl Assertion
      else
        bind_run (receive_pieces (nw_pieces nw) []) (\<lambda>rec.
        if nw_last_recv nw = -1 then Inr (1, g)
        else smlt_tree_parse_wrapper J malloc32 malloc16 rec g))"

definition get_env_str :: "(string \<Rightarrow> string option) \<Rightarrow> string \<Rightarrow> string \<Rightarrow> string" where
  "get_env_str getenv envname defaultvalue = (case getenv envname of None \<Rightarrow> defaultvalue | Some v \<Rightarrow> v)"

text \<open>
  The request for the tree over \<open>cores\<close>, or over the first \<open>ncores\<close> cores. \<open>write_doc\<close> is the JSON library's
  writer, applied to the members of the object; \<open>gethostname\<close> is the name of this machine, cut to the buffer.
\<close>

definition smlt_tree_generate_wrapper where
  "smlt_tree_generate_wrapper J malloc32 malloc16 nw getenv gethostname write_doc ncores cores tree_name g =
     (let host = get_env_str getenv ''SMLT_HOSTNAME'' []; machine = get_env_str getenv ''SMLT_MACHINE'' ''unknown'' in
      if length host = 0 then Inr (1 :: int, g)
      else
        let thishost = (if machine \<noteq> ''unknown'' then take 1000 machine else gethostname);
            topo_name = (case tree_name of None \<Rightarrow> get_env_str getenv ''SMLT_TOPO'' ''adaptivetree-shuffle-sort'' | Some n \<Rightarrow> n) in
        bind_run (case cores of None \<Rightarrow> Inr (map of_nat [0..<unat ncores])
                  | Some cs \<Rightarrow> if unat ncores \<le> length cs then Inr (take (unat ncores) cs) else Inl Wild) (\<lambda>coreids.
          smlt_tree_config_request J malloc32 malloc16 nw (write_doc thishost topo_name (coreids :: u32 list)) g))"

definition smlt_tree_generate where
  "smlt_tree_generate J malloc32 malloc16 nw getenv gethostname write_doc ncores cores tree_name g =
     smlt_tree_generate_wrapper J malloc32 malloc16 nw getenv gethostname write_doc ncores cores tree_name g"

section \<open>The generator\<close>

abbreviation (input) SIZEOF_SMLT_GENERATED_MODEL :: u64 where "SIZEOF_SMLT_GENERATED_MODEL \<equiv> 40"

definition generated_model_zero :: smlt_generated_model where
  "generated_model_zero = \<lparr>gm_ncores = 0, gm_len = 0, gm_root = 0, gm_model = [], gm_num_leafs = 0, gm_leafs = []\<rparr>"

text \<open>The two loops that print the model and look for an entry that is not zero.\<close>

definition scan_model :: "smlt_generated_model \<Rightarrow> u32 \<Rightarrow> bool run" where
  "scan_model g len =
     for_run (\<lambda>i. for_run (\<lambda>j all_zeros.
       bind_run (nth_run (gm_model g) (unat (of_nat i * len + of_nat j))) (\<lambda>v. Inr (if v \<noteq> 0 then False else all_zeros)))
       0 (unat len)) 0 (unat len) True"

text \<open>
  \<open>generate\<close> is \<open>smlt_tree_generate\<close>. It writes the length of the model through a pointer to a variable that
  is not initialised: \<open>len0\<close> is what the variable holds before. \<open>nprocs\<close> is the number of processors of the
  machine. The check of the allocation is on the wrong pointer and always passes.
\<close>

definition smlt_generate_model ::
  "(u64 \<Rightarrow> 'h \<Rightarrow> addr \<times> 'h) \<Rightarrow> int \<Rightarrow> u32 \<Rightarrow> (smlt_generated_model \<Rightarrow> (int \<times> smlt_generated_model) run) \<Rightarrow> u32 \<Rightarrow> 'h \<times> mem \<Rightarrow>
   (errval_t \<times> smlt_generated_model \<times> 'h \<times> mem) run"
where
  "smlt_generate_model nl nprocs len0 generate len w =
     bind_run (alloc_run nl SIZEOF_SMLT_GENERATED_MODEL TOPO_ALIGNMENT w) (\<lambda>(p, w').
     if p = 0 then Inl Wild
     else
       bind_run (generate (generated_model_zero\<lparr>gm_len := len0\<rparr>)) (\<lambda>(err, g).
       let len_model = gm_len g in
       if uint len_model \<noteq> nprocs then Inl Panic
       else
         bind_run (scan_model g len_model) (\<lambda>all_zeros.
           Inr (if err \<noteq> 0 then errval SMLT_ERR_GENERATOR else if all_zeros then errval SMLT_ERR_GENERATOR else errval SMLT_SUCCESS,
                g\<lparr>gm_ncores := len, gm_len := len_model\<rparr>, w'))))"

text \<open>
  The model of a file. \<open>contents\<close> is what the file holds, \<open>None\<close> when it cannot be opened; the buffer has no
  room for a terminator, \<open>beyond\<close> is the memory behind it.
\<close>

definition smlt_generate_modal_from_file ::
  "(u64 \<Rightarrow> 'h \<Rightarrow> addr \<times> 'h) \<Rightarrow> u32 \<Rightarrow> (string \<Rightarrow> smlt_generated_model \<Rightarrow> (int \<times> smlt_generated_model) run) \<Rightarrow> string \<Rightarrow> string option \<Rightarrow>
   u32 \<Rightarrow> 'h \<times> mem \<Rightarrow> (errval_t \<times> smlt_generated_model \<times> 'h \<times> mem) run"
where
  "smlt_generate_modal_from_file nl len0 tree_parse beyond contents ncores w =
     bind_run (alloc_run nl SIZEOF_SMLT_GENERATED_MODEL TOPO_ALIGNMENT w) (\<lambda>(p, w1).
     if p = 0 then Inl Assertion
     else
       let g = generated_model_zero\<lparr>gm_ncores := ncores\<rparr> in
       case contents of
         None \<Rightarrow> Inl Wild
       | Some file \<Rightarrow>
           bind_run (alloc_run nl (of_nat (length file)) TOPO_ALIGNMENT w1) (\<lambda>(_, w2).
           if length file = 0 then Inr (errval SMLT_ERR_GENERATOR, g, w2)
           else
             bind_run (tree_parse (c_string (file @ beyond)) (g\<lparr>gm_len := len0\<rparr>)) (\<lambda>(err, g').
               Inr (if err \<noteq> 0 then errval SMLT_ERR_GENERATOR else errval SMLT_SUCCESS, g', w2))))"

definition smlt_generator_update_measurments :: "errval_t run" where
  "smlt_generator_update_measurments = Inl Assertion"

section \<open>What is read\<close>

lemma read_leafs_run:
  assumes "\<And>j. j < k \<Longrightarrow> Option.bind (jl_at J v (i + j)) (jl_int J) = Some (f (i + j))" "length (gm_leafs g) = i + k"
  shows "read_leafs J v i k g = Inr (Some (), g\<lparr>gm_leafs := take i (gm_leafs g) @ map (word_of_int \<circ> f) [i..<i + k]\<rparr>)"
  using assms
proof (induction k arbitrary: i g)
  case (Suc k)
  have "Option.bind (jl_at J v (Suc i + j)) (jl_int J) = Some (f (Suc i + j))" if "j < k" for j
    using Suc.prems(1)[of "Suc j"] that by simp
  from Suc.IH[OF this] Suc.prems(1)[of 0] Suc.prems(2) show ?case
    by (simp add: try_do_def upt_conv_Cons[of i "Suc (i + k)"] take_Suc_conv_app_nth del: upt_Suc)
qed simp

lemma cell_index_small: "x * sz + y < 2 ^ 32 \<Longrightarrow> cell_index x sz y = x * sz + y"
  using unat_of_nat_small[of "x * sz + y", where 'a = 32] by (simp add: cell_index_def)

lemma read_row_run:
  assumes "map (jl_int J) vs = map Some ns" "x * sz + y + length vs \<le> length (gm_model g)" "length (gm_model g) < 2 ^ 32"
  shows "read_row J sz x y vs g =
    Inr (Some (), g\<lparr>gm_model := take (x * sz + y) (gm_model g) @ map word_of_int ns @ drop (x * sz + y + length vs) (gm_model g)\<rparr>)"
  using assms
proof (induction vs arbitrary: y ns g)
  case (Cons v vs)
  then obtain n ns' where ns: "ns = n # ns'" "jl_int J v = Some n" "map (jl_int J) vs = map Some ns'" by (cases ns) auto
  have "cell_index x sz y = x * sz + y" using Cons.prems(2,3) by (intro cell_index_small) simp
  then show ?case
    using ns Cons.prems(2,3) Cons.IH[of ns' "Suc y" "g\<lparr>gm_model := (gm_model g)[x * sz + y := word_of_int n]\<rparr>"]
    by (simp add: try_do_def take_Suc_conv_app_nth)
qed simp

lemma read_rows_run:
  assumes "list_all2 (\<lambda>row ns. map (jl_int J) (jl_elems J row) = map Some ns \<and> length ns = sz) rows nss"
    and "(x + length rows) * sz \<le> length (gm_model g)" "length (gm_model g) < 2 ^ 32"
  shows "read_rows J sz x rows g =
    Inr (Some (), g\<lparr>gm_model := take (x * sz) (gm_model g) @ map word_of_int (concat nss) @ drop ((x + length rows) * sz) (gm_model g)\<rparr>)"
  using assms
proof (induction rows nss arbitrary: x g rule: list_all2_induct)
  case (Cons row rows ns nss)
  have len: "length (jl_elems J row) = sz" using Cons.hyps(1) by (metis length_map)
  have fits: "x * sz + 0 + length (jl_elems J row) \<le> length (gm_model g)" using Cons.prems(1) len by (simp add: algebra_simps)
  let ?g = "g\<lparr>gm_model := take (x * sz) (gm_model g) @ map word_of_int ns @ drop (x * sz + sz) (gm_model g)\<rparr>"
  have row: "read_row J sz x 0 (jl_elems J row) g = Inr (Some (), ?g)"
    using read_row_run[OF conjunct1[OF Cons.hyps(1)] fits Cons.prems(2)] len by simp
  have "length (gm_model ?g) = length (gm_model g)" using Cons.hyps(1) fits len by simp
  then have "read_rows J sz (Suc x) rows ?g = Inr (Some (), ?g\<lparr>gm_model := take (Suc x * sz) (gm_model ?g) @
      map word_of_int (concat nss) @ drop ((Suc x + length rows) * sz) (gm_model ?g)\<rparr>)"
    using Cons.IH[of "Suc x" ?g] Cons.prems by simp
  moreover have "take (Suc x * sz) (gm_model ?g) = take (x * sz) (gm_model g) @ map word_of_int ns"
    "drop ((Suc x + length rows) * sz) (gm_model ?g) = drop ((Suc x + length rows) * sz) (gm_model g)"
    using Cons.hyps(1) fits len by (simp_all add: algebra_simps)
  ultimately show ?case using row by (simp add: try_do_def)
qed simp

lemma concat_nth_square:
  assumes "\<forall>xs \<in> set xss. length xs = n" "x < length xss" "y < n"
  shows "x * n + y < length (concat xss) \<and> concat xss ! (x * n + y) = xss ! x ! y"
  using assms
proof (induction xss arbitrary: x)
  case (Cons xs xss)
  show ?case
  proof (cases x)
    case 0
    then show ?thesis using Cons.prems by (simp add: nth_append)
  next
    case (Suc x')
    then show ?thesis using Cons.IH[of x'] Cons.prems by (simp add: nth_append algebra_simps)
  qed
qed simp

text \<open>
  A document that holds a model: the root, the leaves, and a square matrix, given by its rows.
\<close>

definition document_of :: "'j json_lib \<Rightarrow> string \<Rightarrow> int \<Rightarrow> int list \<Rightarrow> int list list \<Rightarrow> bool" where
  "document_of J s r ls nss \<longleftrightarrow>
     (\<exists>doc jr jv jls jm. jl_parse J (butlast s) = Some doc \<and>
        jl_get J doc ''root'' = Some jr \<and> jl_int J jr = Some r \<and>
        jl_get J doc ''git-version'' = Some jv \<and> jl_string J jv \<noteq> None \<and>
        jl_get J doc ''leaf_nodes'' = Some jls \<and> jl_size J jls = length ls \<and>
        (\<forall>i < length ls. Option.bind (jl_at J jls i) (jl_int J) = Some (ls ! i)) \<and>
        jl_get J doc ''model'' = Some jm \<and> jl_size J jm = length nss \<and>
        list_all2 (\<lambda>row ns. map (jl_int J) (jl_elems J row) = map Some ns \<and> length ns = length nss) (jl_elems J jm) nss)"

lemma document_square:
  assumes "document_of J s r ls nss"
  shows "\<forall>ns \<in> set nss. length ns = length nss"
proof
  fix ns
  assume "ns \<in> set nss"
  then obtain i where i: "i < length nss" "nss ! i = ns" by (auto simp: in_set_conv_nth)
  obtain rows where "list_all2 (\<lambda>row ns. map (jl_int J) (jl_elems J row) = map Some ns \<and> length ns = length nss) rows nss"
    using assms by (auto simp: document_of_def)
  from list_all2_nthD2[OF this i(1)] i(2) show "length ns = length nss" by simp
qed

lemma square_small:
  assumes "n < 2 ^ 16"
  shows "n * n < (2 :: nat) ^ 32"
proof (cases n)
  case (Suc k)
  then have "n * n < 2 ^ 16 * 2 ^ 16" using assms by (intro mult_strict_mono) auto
  then show ?thesis by simp
qed simp

lemma parse_wrapper_reads:
  assumes "document_of J s r ls nss" "length nss < 2 ^ 16"
    and "\<And>k. \<exists>xs. malloc32 k = Some xs \<and> length xs = k" "\<And>k. \<exists>xs. malloc16 k = Some xs \<and> length xs = k"
  shows "smlt_tree_parse_wrapper J malloc32 malloc16 s g =
    Inr (0, g\<lparr>gm_root := word_of_int r, gm_num_leafs := of_nat (length ls), gm_leafs := map word_of_int ls,
      gm_model := map word_of_int (concat nss), gm_len := of_nat (length nss)\<rparr>)"
proof -
  obtain doc jr jv v jls jm where d: "jl_parse J (butlast s) = Some doc"
    "jl_get J doc ''root'' = Some jr" "jl_int J jr = Some r"
    "jl_get J doc ''git-version'' = Some jv" "jl_string J jv = Some v"
    "jl_get J doc ''leaf_nodes'' = Some jls" "jl_size J jls = length ls"
    "\<forall>i < length ls. Option.bind (jl_at J jls i) (jl_int J) = Some (ls ! i)"
    "jl_get J doc ''model'' = Some jm" "jl_size J jm = length nss"
    "list_all2 (\<lambda>row ns. map (jl_int J) (jl_elems J row) = map Some ns \<and> length ns = length nss) (jl_elems J jm) nss"
    using assms(1) unfolding document_of_def by blast
  have ls: "map (word_of_int \<circ> (!) ls) [0..<length ls] = (map word_of_int ls :: u32 list)"
    by (simp add: map_nth flip: map_map)
  have leafs: "read_leafs J jls 0 (length ls) g' = Inr (Some (), g'\<lparr>gm_leafs := map word_of_int ls\<rparr>)"
    if "length (gm_leafs g') = length ls" for g'
    using read_leafs_run[of "length ls" J jls 0 "(!) ls" g'] d(8) that ls by simp
  have n: "length (jl_elems J jm) = length nss" using d(11) by (rule list_all2_lengthD)
  have rows: "read_rows J (length nss) 0 (jl_elems J jm) g' = Inr (Some (), g'\<lparr>gm_model := map word_of_int (concat nss)\<rparr>)"
    if "length (gm_model g') = length nss * length nss" for g'
    using read_rows_run[OF d(11), of 0 g'] that n square_small[OF assms(2)] by simp
  obtain ls0 ms0 where a: "malloc32 (length ls) = Some ls0" "length ls0 = length ls"
    "malloc16 (length nss * length nss) = Some ms0" "length ms0 = length nss * length nss"
    using assms(3,4) by meson
  show ?thesis
    using d(1-7,9,10) a
    by (simp add: smlt_tree_parse_wrapper_def parse_document_def try_do_def assert_nonnull_def Let_def leafs rows)
qed

text \<open>A string that is not a document keeps \<open>smlt_tree_parse\<close> busy for ever.\<close>

lemma tree_parse_hangs:
  assumes "jl_parse J (butlast s) = None"
  shows "smlt_tree_parse J malloc32 malloc16 fuel s g = Inl Hang"
proof -
  have "smlt_tree_parse_wrapper J malloc32 malloc16 s g = Inr (-1, g)" for g
    using assms by (simp add: smlt_tree_parse_wrapper_def parse_document_def try_do_def)
  then have "parse_attempts (smlt_tree_parse_wrapper J malloc32 malloc16 s) fuel (-1) 0 g = Inl Hang"
    by (induction fuel) (simp_all add: MAX_ATTEMPTS_def)
  then show ?thesis by (simp add: smlt_tree_parse_def)
qed

text \<open>
  Claim C40: from a file that holds a document with a model of \<open>n\<close> rows and columns, the generator returns
  success and this model: its root, its leaves and its length are those of the document, and the
  entry that the topology code reads at row \<open>x\<close> and column \<open>y\<close> is the document's, cut to 16 bits; whatever the
  memory held before. The matrix has fewer than 65536 rows and no allocation fails.
\<close>

theorem generator_reads_model:
  assumes "document_of J s r ls nss" "length nss < 2 ^ 16"
    and "\<And>k. \<exists>xs. malloc32 k = Some xs \<and> length xs = k" "\<And>k. \<exists>xs. malloc16 k = Some xs \<and> length xs = k"
    and "0 < fuel" "s = c_string (file @ beyond)" "file \<noteq> []" "alloc_succeeds nl"
  shows "\<exists>g w'. smlt_generate_modal_from_file nl len0 (smlt_tree_parse J malloc32 malloc16 fuel) beyond (Some file) ncores w =
      Inr (errval SMLT_SUCCESS, g, w') \<and>
    gm_root g = word_of_int r \<and> gm_ncores g = ncores \<and> gm_len g = of_nat (length nss) \<and> gm_leafs g = map word_of_int ls \<and>
    gm_num_leafs g = of_nat (length ls) \<and>
    (\<forall>x < length nss. \<forall>y < length nss. model_at g x y = Inr (uint (word_of_int (nss ! x ! y) :: u16)))"
proof -
  define g where "g = generated_model_zero\<lparr>gm_ncores := ncores, gm_len := len0, gm_root := word_of_int r, gm_num_leafs := of_nat (length ls),
    gm_leafs := map word_of_int ls, gm_model := map word_of_int (concat nss), gm_len := of_nat (length nss)\<rparr>"
  have parse: "smlt_tree_parse J malloc32 malloc16 fuel s (generated_model_zero\<lparr>gm_ncores := ncores, gm_len := len0\<rparr>) = Inr (0, g)"
    using parse_wrapper_reads[OF assms(1-4)] assms(5)
    by (cases fuel; cases "fuel - 1") (simp_all add: smlt_tree_parse_def MAX_ATTEMPTS_def g_def)
  have "post (\<lambda>_. False) (smlt_generate_modal_from_file nl len0 (smlt_tree_parse J malloc32 malloc16 fuel) beyond (Some file) ncores w)
    (\<lambda>(err, g', w'). err = errval SMLT_SUCCESS \<and> g' = g)"
    using assms(6,7,8) parse
    by (auto simp: smlt_generate_modal_from_file_def Let_def simp flip: assms(6) intro!: post_alloc)
  moreover have "model_at g x y = Inr (uint (word_of_int (nss ! x ! y) :: u16))" if xy: "x < length nss" "y < length nss" for x y
  proof -
    have sq: "\<forall>ns \<in> set nss. length ns = length nss"
      using document_square[OF assms(1)] .
    have "x * length nss + y < Suc x * length nss" using xy by simp
    also have "Suc x * length nss \<le> length nss * length nss" using xy by (intro mult_le_mono) simp_all
    also note square_small[OF assms(2)]
    finally have "unat (of_nat (x * length nss + y) :: u32) = x * length nss + y" by (intro unat_of_nat_small) simp
    then show ?thesis
      using concat_nth_square[OF sq xy] by (simp add: model_at_def nth_run_def g_def)
  qed
  ultimately show ?thesis by (auto simp: post_total g_def generated_model_zero_def)
qed

text \<open>A JSON library for documents of one kind, and the document of the tree of a root and its child.\<close>

datatype demo_json = Num int | Text string | Arr "demo_json list" | Obj "(string \<times> demo_json) list"

definition demo_doc :: demo_json where
  "demo_doc = Obj [(''root'', Num 0), (''git-version'', Text ''1''), (''leaf_nodes'', Arr [Num 1]),
     (''model'', Arr [Arr [Num 0, Num 1], Arr [Num 99, Num 0]])]"

definition demo_lib :: "demo_json json_lib" where
  "demo_lib = \<lparr>jl_parse = (\<lambda>s. if s = ''pair'' then Some demo_doc else None),
     jl_get = (\<lambda>j k. case j of Obj ms \<Rightarrow> Some (case map_of ms k of None \<Rightarrow> Text [] | Some v \<Rightarrow> v) | _ \<Rightarrow> None),
     jl_int = (\<lambda>j. case j of Num n \<Rightarrow> Some n | _ \<Rightarrow> None),
     jl_size = (\<lambda>j. case j of Arr vs \<Rightarrow> length vs | Obj ms \<Rightarrow> length ms | _ \<Rightarrow> 0),
     jl_at = (\<lambda>j i. case j of Arr vs \<Rightarrow> if i < length vs then Some (vs ! i) else None | _ \<Rightarrow> None),
     jl_elems = (\<lambda>j. case j of Arr vs \<Rightarrow> vs | _ \<Rightarrow> []),
     jl_string = (\<lambda>j. case j of Text t \<Rightarrow> Some t | _ \<Rightarrow> None)\<rparr>"

lemma demo_document: "document_of demo_lib ''pair!'' 0 [1] [[0, 1], [99, 0]]"
  unfolding document_of_def
  by (rule exI[of _ demo_doc], rule exI[of _ "Num 0"], rule exI[of _ "Text ''1''"], rule exI[of _ "Arr [Num 1]"],
      rule exI[of _ "Arr [Arr [Num 0, Num 1], Arr [Num 99, Num 0]]"])
    (simp add: demo_lib_def demo_doc_def)

theorem generator_reads_model_witness:
  "\<exists>g w'. smlt_generate_modal_from_file page_alloc 7 (smlt_tree_parse demo_lib (\<lambda>k. Some (replicate k 5)) (\<lambda>k. Some (replicate k 6)) 1)
      [CHR 0x00] (Some ''pair!'') 2 (0, \<lambda>_. 5) = Inr (errval SMLT_SUCCESS, g, w') \<and>
    gm_root g = 0 \<and> gm_leafs g = [1] \<and> model_at g 1 0 = Inr 99"
proof -
  have "''pair!'' = c_string (''pair!'' @ [CHR 0x00])" by (simp add: c_string_def)
  from generator_reads_model[OF demo_document _ _ _ _ this _ alloc_succeeds_page_alloc,
      of "\<lambda>k. Some (replicate k 5)" "\<lambda>k. Some (replicate k 6)" 1 7 2 "(0, \<lambda>_. 5)"]
  obtain g w' where g: "smlt_generate_modal_from_file page_alloc 7 (smlt_tree_parse demo_lib (\<lambda>k. Some (replicate k 5)) (\<lambda>k. Some (replicate k 6)) 1)
      [CHR 0x00] (Some ''pair!'') 2 (0, \<lambda>_. 5) = Inr (errval SMLT_SUCCESS, g, w')" "gm_root g = 0" "gm_leafs g = [1]"
    "\<forall>x < length [[0, 1], [99, 0 :: int]]. \<forall>y < length [[0, 1], [99, 0 :: int]].
       model_at g x y = Inr (uint (word_of_int ([[0, 1], [99, 0]] ! x ! y) :: u16))"
    by auto
  have "model_at g 1 0 = Inr 99" using g(4)[rule_format, of 1 0] by simp
  then show ?thesis using g(1-3) by blast
qed

end
