(* ===== verification/Platform.thy ===== *)
theory Platform
  imports Smelt_Run Smelt_Error
begin

text \<open>
  The Linux platform (\<open>src/platforms/linux/platform.c\<close>, \<open>threads.c\<close>, \<open>barrier.c\<close>) and the nodes that run on
  it (\<open>src/node.c\<close>, \<open>inc/smlt_node.h\<close>). libnuma and the operating system are parameters: the number of
  configured processors and NUMA nodes, the processor mask of a NUMA node, and the system calls, which
  act on a state \<open>'os\<close> and return C's \<open>int\<close>.
\<close>

section \<open>Processors\<close>

definition smlt_platform_init :: "int \<Rightarrow> int \<Rightarrow> u32 \<Rightarrow> u32" where
  "smlt_platform_init numa_available numa_num_configured_cpus num_proc =
     (if numa_available \<noteq> 0 then 0
      else if num_proc > word_of_int numa_num_configured_cpus then word_of_int numa_num_configured_cpus
      else num_proc)"

definition smlt_platform_num_clusters :: "int \<Rightarrow> u32" where
  "smlt_platform_num_clusters numa_num_configured_nodes = word_of_int numa_num_configured_nodes"

definition smlt_platform_num_cores :: "int \<Rightarrow> u32" where
  "smlt_platform_num_cores numa_num_configured_cpus = word_of_int numa_num_configured_cpus"

text \<open>
  \<open>numa_node_to_cpus\<close> gives C's success value and the mask. The array comes from \<open>malloc\<close> with contents
  \<open>result\<close>, \<open>None\<close> for a null pointer; a write behind its end is undefined. The first argument is the number
  of NUMA nodes, the second the number of processors; neither is negative.
\<close>

fun collect_cores :: "(nat \<Rightarrow> bool) \<Rightarrow> nat \<Rightarrow> nat \<Rightarrow> u32 list \<times> nat \<Rightarrow> (u32 list \<times> nat) run" where
  "collect_cores isset i 0 s = Inr s"
| "collect_cores isset i (Suc k) (result, j) =
     (if isset i then
        if j < length result then collect_cores isset (Suc i) k (result[j := of_nat i], j + 1) else Inl Wild
      else collect_cores isset (Suc i) k (result, j))"

definition smlt_platform_cores_of_cluster ::
  "int \<Rightarrow> int \<Rightarrow> (int \<Rightarrow> u32 list option) \<Rightarrow> (u8 \<Rightarrow> int \<times> (nat \<Rightarrow> bool)) \<Rightarrow> u8 \<Rightarrow> (errval_t \<times> u32 list option \<times> u32) run"
where
  "smlt_platform_cores_of_cluster max_nodes num_cores malloc numa_node_to_cpus cluster_id =
     (if max_nodes = 0 then Inl Wild
      else
        let node_size = num_cores div max_nodes in
        case malloc node_size of
          None \<Rightarrow> Inl Assertion
        | Some result \<Rightarrow>
            let (r, mask) = numa_node_to_cpus cluster_id in
            if r = 0 then
              bind_run (collect_cores mask 0 (nat num_cores) (result, 0)) (\<lambda>(result, _).
                Inr (errval SMLT_SUCCESS, Some result, word_of_int node_size))
            else Inr (errval SMLT_ERR_TOPOLOGY_INIT, None, 0))"

text \<open>\<open>bits\<close> is the number of bits of a mask, \<open>numa_bitmask_weight\<close> counts those that are set.\<close>

definition smlt_platform_num_cores_of_cluster :: "nat \<Rightarrow> (u8 \<Rightarrow> int \<times> (nat \<Rightarrow> bool)) \<Rightarrow> u8 \<Rightarrow> u32" where
  "smlt_platform_num_cores_of_cluster bits numa_node_to_cpus cluster_id =
     (let (r, mask) = numa_node_to_cpus cluster_id in
      if r = 0 then of_nat (length (filter mask [0..<bits])) else 0)"

definition smlt_platform_cluster_of_core :: "(u32 \<Rightarrow> int) \<Rightarrow> u32 \<Rightarrow> u8" where
  "smlt_platform_cluster_of_core numa_node_of_cpu core_id = word_of_int (numa_node_of_cpu core_id)"

section \<open>Threads\<close>

definition smlt_platform_pin_thread :: "(u32 \<Rightarrow> 'os \<Rightarrow> int \<times> 'os) \<Rightarrow> u32 \<Rightarrow> 'os \<Rightarrow> errval_t \<times> 'os" where
  "smlt_platform_pin_thread sched_setaffinity core os =
     (let (err, os') = sched_setaffinity core os in (if err \<noteq> 0 then -1 else errval SMLT_SUCCESS, os'))"

definition smlt_platform_get_core_id :: "('os \<Rightarrow> int) \<Rightarrow> 'os \<Rightarrow> u32" where
  "smlt_platform_get_core_id sched_getcpu os = word_of_int (sched_getcpu os)"

definition smlt_platform_thread_start_hook :: errval_t where
  "smlt_platform_thread_start_hook = errval SMLT_SUCCESS"

definition smlt_platform_thread_end_hook :: errval_t where
  "smlt_platform_thread_end_hook = errval SMLT_SUCCESS"

text \<open>The barrier of the platform is the one of the thread library, whose C result is the error value.\<close>

definition smlt_platform_barrier_init :: "(u32 \<Rightarrow> 'os \<Rightarrow> int \<times> 'os) \<Rightarrow> u32 \<Rightarrow> 'os \<Rightarrow> errval_t \<times> 'os" where
  "smlt_platform_barrier_init pthread_barrier_init count os = (let (r, os') = pthread_barrier_init count os in (word_of_int r, os'))"

definition smlt_platform_barrier_destroy :: "('os \<Rightarrow> int \<times> 'os) \<Rightarrow> 'os \<Rightarrow> errval_t \<times> 'os" where
  "smlt_platform_barrier_destroy pthread_barrier_destroy os = (let (r, os') = pthread_barrier_destroy os in (word_of_int r, os'))"

definition smlt_platform_barrier_wait :: "('os \<Rightarrow> int \<times> 'os) \<Rightarrow> 'os \<Rightarrow> errval_t \<times> 'os" where
  "smlt_platform_barrier_wait pthread_barrier_wait os = (let (r, os') = pthread_barrier_wait os in (word_of_int r, os'))"

section \<open>Nodes\<close>

text \<open>
  A node. \<open>'p\<close> is the type of thread handles, \<open>'f\<close> that of start functions and \<open>'a\<close> that of their
  arguments. The array of channels at the end of the structure has one entry per node: an entry names
  the place of the queue pairs that the channel in it points to. The place \<open>(i, j)\<close> is the one of the
  channel \<open>j\<close> in the memory of the node \<open>i\<close>; entries that are copies of each other name the same place.
\<close>

record ('p, 'f, 'a) smlt_node =
  nd_id :: u32
  nd_core :: u32
  nd_handle :: "'p option"
  nd_fn :: "'f option"
  nd_arg :: "'a option"
  nd_mp_recv :: u8
  nd_mp_send :: u8
  nd_shm_send :: u8
  nd_shm_recv :: u8
  nd_chan :: "(nat \<times> nat) list"

record smlt_node_args =
  na_id :: u32
  na_core :: u32
  na_num_nodes :: u32

abbreviation (input) SIZEOF_SMLT_NODE :: u64 where "SIZEOF_SMLT_NODE \<equiv> 40"

definition SMLT_NODE_SIZE :: "u64 \<Rightarrow> u32 \<Rightarrow> u64" where
  "SMLT_NODE_SIZE sizeof_channel num = SIZEOF_SMLT_NODE + ucast num * sizeof_channel"

definition smlt_platform_node_create :: "('p, 'f, 'a) smlt_node \<Rightarrow> errval_t" where
  "smlt_platform_node_create node = errval SMLT_SUCCESS"

text \<open>
  The node comes from a clearing allocation. \<open>at\<close> is its index in the array of all nodes, which names the
  places of its channels; \<open>node_ptr\<close> is false for a null argument.
\<close>

definition smlt_node_create ::
  "(u64 \<Rightarrow> 'h \<Rightarrow> addr \<times> 'h) \<Rightarrow> u64 \<Rightarrow> nat \<Rightarrow> bool \<Rightarrow> smlt_node_args \<Rightarrow> 'h \<times> mem \<Rightarrow>
   (errval_t \<times> ('p, 'f, 'a) smlt_node option \<times> 'h \<times> mem) run"
where
  "smlt_node_create nl sizeof_channel at node_ptr args w =
     (if \<not> node_ptr then Inr (errval SMLT_ERR_INVAL, None, w)
      else
        bind_run (alloc_run nl (SMLT_NODE_SIZE sizeof_channel (na_num_nodes args)) 64 w) (\<lambda>(new_node, w').
        if new_node = 0 then Inr (errval SMLT_ERR_MALLOC_FAIL, None, w')
        else
          let node = \<lparr>nd_id = na_id args, nd_core = na_core args, nd_handle = None, nd_fn = None, nd_arg = None,
                nd_mp_recv = 0, nd_mp_send = 0, nd_shm_send = 0, nd_shm_recv = 0,
                nd_chan = map (Pair at) [0..<unat (na_num_nodes args)]\<rparr>;
              err = smlt_platform_node_create node in
          if smlt_err_is_fail err then Inr (err, None, w') else Inr (errval SMLT_SUCCESS, Some node, w')))"

definition smlt_platform_node_start ::
  "(('p, 'f, 'a) smlt_node \<Rightarrow> 'os \<Rightarrow> int \<times> 'p \<times> 'os) \<Rightarrow> ('p, 'f, 'a) smlt_node \<Rightarrow> 'os \<Rightarrow> errval_t \<times> ('p, 'f, 'a) smlt_node \<times> 'os"
where
  "smlt_platform_node_start pthread_create node os =
     (let (err, h, os') = pthread_create node os in
      if err \<noteq> 0 then (-1, node, os') else (errval SMLT_SUCCESS, node\<lparr>nd_handle := Some h\<rparr>, os'))"

definition smlt_node_start ::
  "(('p, 'f, 'a) smlt_node \<Rightarrow> 'os \<Rightarrow> int \<times> 'p \<times> 'os) \<Rightarrow> ('p, 'f, 'a) smlt_node \<Rightarrow> 'f option \<Rightarrow> 'a option \<Rightarrow> 'os \<Rightarrow>
   errval_t \<times> ('p, 'f, 'a) smlt_node \<times> 'os"
where
  "smlt_node_start pthread_create node fn arg os =
     smlt_platform_node_start pthread_create (node\<lparr>nd_fn := fn, nd_arg := arg\<rparr>) os"

definition smlt_platform_node_join :: "('p option \<Rightarrow> 'os \<Rightarrow> int \<times> 'os) \<Rightarrow> ('p, 'f, 'a) smlt_node \<Rightarrow> 'os \<Rightarrow> errval_t \<times> 'os" where
  "smlt_platform_node_join pthread_join node os =
     (let (err, os') = pthread_join (nd_handle node) os in (if err \<noteq> 0 then -1 else errval SMLT_SUCCESS, os'))"

definition smlt_node_join :: "('p option \<Rightarrow> 'os \<Rightarrow> int \<times> 'os) \<Rightarrow> ('p, 'f, 'a) smlt_node \<Rightarrow> 'os \<Rightarrow> errval_t \<times> 'os" where
  "smlt_node_join pthread_join node os = smlt_platform_node_join pthread_join node os"

definition smlt_platform_node_cancel :: "('p, 'f, 'a) smlt_node \<Rightarrow> errval_t" where
  "smlt_platform_node_cancel node = errval SMLT_SUCCESS"

definition smlt_node_cancel :: "('p, 'f, 'a) smlt_node \<Rightarrow> errval_t" where
  "smlt_node_cancel node = errval SMLT_SUCCESS"

section \<open>The thread of a node\<close>

text \<open>The variables that every thread has of its own.\<close>

record 'n thread =
  smlt_node_self :: "'n option"
  smlt_node_self_id :: u32

definition smlt_node_get_id_of_node :: "('p, 'f, 'a) smlt_node \<Rightarrow> u32" where
  "smlt_node_get_id_of_node node = nd_id node"

definition smlt_node_get_coreid_of_node :: "('p, 'f, 'a) smlt_node \<Rightarrow> u32" where
  "smlt_node_get_coreid_of_node node = nd_core node"

definition smlt_node_get_id :: "('p, 'f, 'a) smlt_node thread \<Rightarrow> u32 run" where
  "smlt_node_get_id th = bind_run (deref_run (smlt_node_self th)) (\<lambda>node. Inr (smlt_node_get_id_of_node node))"

definition smlt_node_get_coreid :: "('p, 'f, 'a) smlt_node thread \<Rightarrow> u32 run" where
  "smlt_node_get_coreid th = bind_run (deref_run (smlt_node_self th)) (\<lambda>node. Inr (smlt_node_get_coreid_of_node node))"

definition smlt_node_lowlevel_init ::
  "(u32 \<Rightarrow> 'os \<Rightarrow> int \<times> 'os) \<Rightarrow> u32 \<Rightarrow> ('p, 'f, 'a) smlt_node thread \<Rightarrow> 'os \<Rightarrow> errval_t \<times> 'os"
where
  "smlt_node_lowlevel_init sched_setaffinity nid th os =
     (let err = smlt_platform_thread_start_hook in
      if smlt_err_is_fail err then (err, os)
      else
        let core = (case smlt_node_self th of None \<Rightarrow> nid | Some node \<Rightarrow> nd_core node);
            (err, os') = smlt_platform_pin_thread sched_setaffinity core os in
        if smlt_err_is_fail err then (err, os') else (errval SMLT_SUCCESS, os'))"

text \<open>The error value of \<open>smlt_node_lowlevel_init\<close> is dropped.\<close>

definition smlt_node_exec_start ::
  "(u32 \<Rightarrow> 'os \<Rightarrow> int \<times> 'os) \<Rightarrow> ('p, 'f, 'a) smlt_node \<Rightarrow> ('p, 'f, 'a) smlt_node thread \<Rightarrow> 'os \<Rightarrow>
   errval_t \<times> ('p, 'f, 'a) smlt_node thread \<times> 'os"
where
  "smlt_node_exec_start sched_setaffinity node th os =
     (let th = th\<lparr>smlt_node_self := Some node, smlt_node_self_id := nd_id node\<rparr>;
          (_, os') = smlt_node_lowlevel_init sched_setaffinity (nd_id node) th os in
      (0, th, os'))"

definition smlt_node_exec_end ::
  "('p, 'f, 'a) smlt_node \<Rightarrow> ('p, 'f, 'a) smlt_node thread \<Rightarrow> errval_t \<times> ('p, 'f, 'a) smlt_node thread"
where
  "smlt_node_exec_end node th = (0, th\<lparr>smlt_node_self := None\<rparr>)"

text \<open>\<open>apply_fn\<close> runs a start function on its argument, in a thread, with the effect it has on the operating system.\<close>

definition smlt_node_run ::
  "('f \<Rightarrow> 'a option \<Rightarrow> ('p, 'f, 'a) smlt_node thread \<Rightarrow> 'os \<Rightarrow> 'r option \<times> 'os) \<Rightarrow> ('p, 'f, 'a) smlt_node \<Rightarrow>
   ('p, 'f, 'a) smlt_node thread \<Rightarrow> 'os \<Rightarrow> 'r option \<times> 'os"
where
  "smlt_node_run apply_fn node th os = (case nd_fn node of Some fn \<Rightarrow> apply_fn fn (nd_arg node) th os | None \<Rightarrow> (None, os))"

definition smlt_platform_node_start_wrapper ::
  "(u32 \<Rightarrow> 'os \<Rightarrow> int \<times> 'os) \<Rightarrow> ('f \<Rightarrow> 'a option \<Rightarrow> ('p, 'f, 'a) smlt_node thread \<Rightarrow> 'os \<Rightarrow> 'r option \<times> 'os) \<Rightarrow>
   ('p, 'f, 'a) smlt_node \<Rightarrow> ('p, 'f, 'a) smlt_node thread \<Rightarrow> 'os \<Rightarrow> 'r option \<times> ('p, 'f, 'a) smlt_node thread \<times> 'os"
where
  "smlt_platform_node_start_wrapper sched_setaffinity apply_fn node th os =
     (let (_, th1, os1) = smlt_node_exec_start sched_setaffinity node th os;
          (result, os2) = smlt_node_run apply_fn node th1 os1;
          (_, th2) = smlt_node_exec_end node th1 in
      (result, th2, os2))"

section \<open>The cores of a cluster\<close>

lemma collect_cores_run:
  assumes "j + length (filter isset [i..<i + k]) \<le> length result"
  shows "collect_cores isset i k (result, j) =
    Inr (take j result @ map of_nat (filter isset [i..<i + k]) @ drop (j + length (filter isset [i..<i + k])) result,
         j + length (filter isset [i..<i + k]))"
  using assms
proof (induction k arbitrary: i result j)
  case (Suc k)
  have u: "[i..<i + Suc k] = i # [Suc i..<Suc i + k]" by (simp add: upt_conv_Cons)
  show ?case
  proof (cases "isset i")
    case True
    then have j: "j < length result" "Suc j + length (filter isset [Suc i..<Suc i + k]) \<le> length (result[j := of_nat i])"
      using Suc.prems unfolding u by (simp_all del: upt_Suc)
    then show ?thesis
      using Suc.IH[OF j(2)] True unfolding u by (simp add: take_Suc_conv_app_nth del: upt_Suc)
  next
    case False
    then show ?thesis using Suc unfolding u by (simp del: upt_Suc)
  qed
qed simp

lemma collect_cores_overflow:
  assumes "length result < j + length (filter isset [i..<i + k])" "j \<le> length result"
  shows "collect_cores isset i k (result, j) = Inl Wild"
  using assms
proof (induction k arbitrary: i result j)
  case (Suc k)
  have u: "[i..<i + Suc k] = i # [Suc i..<Suc i + k]" by (simp add: upt_conv_Cons)
  show ?case
    using Suc.IH[of "result[j := of_nat i]" "Suc j" "Suc i"] Suc.IH[of result j "Suc i"] Suc.prems
    unfolding u by (auto simp del: upt_Suc split: if_splits)
qed simp

text \<open>
  The array has room for the average number of cores per cluster: a cluster with more is written behind
  the end of it, and one with fewer is reported with the average number.
\<close>

lemma cores_of_cluster_cases:
  assumes "0 < max_nodes" "0 \<le> num_cores" "malloc (num_cores div max_nodes) = Some result"
    and "length result = nat (num_cores div max_nodes)" "numa_node_to_cpus c = (0, isset)"
    and "cores = filter isset [0..<nat num_cores]"
  shows "smlt_platform_cores_of_cluster max_nodes num_cores malloc numa_node_to_cpus c =
    (if length cores \<le> nat (num_cores div max_nodes)
     then Inr (errval SMLT_SUCCESS, Some (map of_nat cores @ drop (length cores) result), word_of_int (num_cores div max_nodes))
     else Inl Wild)"
  using assms collect_cores_run[of 0 isset 0 "nat num_cores" result] collect_cores_overflow[of result 0 isset 0 "nat num_cores"]
  by (auto simp: smlt_platform_cores_of_cluster_def)

text \<open>
  The start function of a node runs in a thread that knows its node and is pinned to the node's core,
  if the operating system pins it at all; the thread forgets its node afterwards.
\<close>

lemma start_wrapper_runs:
  assumes "sched_setaffinity (nd_core node) os = (r, os1)" "nd_fn node = Some fn"
    and "apply_fn fn (nd_arg node) (th\<lparr>smlt_node_self := Some node, smlt_node_self_id := nd_id node\<rparr>) os1 = (res, os2)"
  shows "smlt_platform_node_start_wrapper sched_setaffinity apply_fn node th os =
    (res, th\<lparr>smlt_node_self := None, smlt_node_self_id := nd_id node\<rparr>, os2)"
  using assms
  by (cases "r = 0"; cases "smlt_err_is_fail (- 1)")
    (simp_all add: smlt_platform_node_start_wrapper_def smlt_node_exec_start_def smlt_node_lowlevel_init_def
      smlt_platform_thread_start_hook_def smlt_platform_pin_thread_def smlt_node_run_def smlt_node_exec_end_def
      smlt_err_is_fail_errval Let_def)

end
