(* ===== verification/Runtime.thy ===== *)
theory Runtime
  imports Context Platform
begin

text \<open>
  The runtime (\<open>src/smlt.c\<close>, the master share of \<open>src/backends/shm/shm.c\<close>, and the channel calls of
  \<open>inc/smlt_node.h\<close>): the global variables, the initialisation with its mesh of channels between all nodes,
  and the sending and receiving by node id.
\<close>

section \<open>State\<close>

text \<open>
  The global variables. \<open>rt_chans\<close> holds the channels by their place; a place of the array of a node that
  has been overwritten with a copy of another channel shares the queue pairs of that other channel, so
  it is the other place that counts from then on (see the array in the structure of a node).
\<close>

record ('p, 'f, 'a) smlt_runtime =
  rt_initialized :: bool
  rt_num_proc :: u32
  rt_all_nodes :: "('p, 'f, 'a) smlt_node option list"
  rt_node_count :: u32
  rt_master_share :: addr
  rt_chans :: "nat \<times> nat \<Rightarrow> smlt_channel"

definition SHM_SIZE :: u64 where
  "SHM_SIZE = 16 * 4096"

definition smlt_shm_init_master_share ::
  "(u64 \<Rightarrow> 'h \<Rightarrow> addr \<times> 'h) \<Rightarrow> ('p, 'f, 'a) smlt_runtime \<times> 'h \<times> mem \<Rightarrow> (errval_t \<times> ('p, 'f, 'a) smlt_runtime \<times> 'h \<times> mem) run"
where
  "smlt_shm_init_master_share nl = (\<lambda>(rt, w).
     if rt_master_share rt \<noteq> 0 then Inr (errval SMLT_SUCCESS, rt, w)
     else
       bind_run (alloc_run nl SHM_SIZE SMLT_DEFAULT_ALIGNMENT w) (\<lambda>(share, w').
         Inr (if share = 0 then errval SMLT_ERR_MALLOC_FAIL else errval SMLT_SUCCESS, rt\<lparr>rt_master_share := share\<rparr>, w')))"

definition smlt_shm_get_master_share :: "('p, 'f, 'a) smlt_runtime \<Rightarrow> addr" where
  "smlt_shm_get_master_share rt = rt_master_share rt"

definition map_master_share :: int where
  "map_master_share = 0"

section \<open>Initialisation\<close>

text \<open>The loop that creates the nodes \<open>i\<close>, ..., one per processor; it returns at the first failure.\<close>

fun create_nodes ::
  "(u64 \<Rightarrow> 'h \<Rightarrow> addr \<times> 'h) \<Rightarrow> nat \<Rightarrow> nat \<Rightarrow> ('p, 'f, 'a) smlt_runtime \<times> 'h \<times> mem \<Rightarrow>
   (errval_t \<times> ('p, 'f, 'a) smlt_runtime \<times> 'h \<times> mem) run"
where
  "create_nodes nl i 0 s = Inr (errval SMLT_SUCCESS, s)"
| "create_nodes nl i (Suc k) (rt, w) =
     bind_run (smlt_node_create nl SIZEOF_SMLT_CHANNEL i True
                 \<lparr>na_id = of_nat i, na_core = of_nat i, na_num_nodes = rt_num_proc rt\<rparr> w) (\<lambda>(err, node, w').
     if smlt_err_is_fail err then Inr (smlt_err_push err SMLT_ERR_NODE_CREATE, rt, w')
     else create_nodes nl (Suc i) k
            (rt\<lparr>rt_all_nodes := (rt_all_nodes rt)[i := node], rt_node_count := rt_node_count rt + 1\<rparr>, w'))"

text \<open>The object behind a pointer of the array of all nodes.\<close>

definition node_of :: "('p, 'f, 'a) smlt_runtime \<Rightarrow> nat \<Rightarrow> ('p, 'f, 'a) smlt_node run" where
  "node_of rt i = bind_run (nth_run (rt_all_nodes rt) i) deref_run"

text \<open>The body of the two loops that connect the nodes. The error value of the creation is dropped.\<close>

definition mesh_step ::
  "('h \<times> mem) chan_creator \<Rightarrow> nat \<Rightarrow> nat \<Rightarrow> ('p, 'f, 'a) smlt_runtime \<times> 'h \<times> mem \<Rightarrow> (('p, 'f, 'a) smlt_runtime \<times> 'h \<times> mem) run"
where
  "mesh_step create i j = (\<lambda>(rt, w).
     bind_run (node_of rt i) (\<lambda>ni.
     bind_run (nth_run (nd_chan ni) j) (\<lambda>q.
     bind_run (run_call (create (rt_chans rt q) [of_nat i] [of_nat j] 1 1 w)) (\<lambda>(_, chan, w').
     bind_run (node_of rt j) (\<lambda>nj.
     bind_run (nth_run (nd_chan nj) i) (\<lambda>_.
       Inr (rt\<lparr>rt_chans := (rt_chans rt)(q := chan),
               rt_all_nodes := (rt_all_nodes rt)[j := Some (nj\<lparr>nd_chan := (nd_chan nj)[i := q]\<rparr>)]\<rparr>, w')))))))"

definition mesh ::
  "('h \<times> mem) chan_creator \<Rightarrow> nat \<Rightarrow> ('p, 'f, 'a) smlt_runtime \<times> 'h \<times> mem \<Rightarrow> (('p, 'f, 'a) smlt_runtime \<times> 'h \<times> mem) run"
where
  "mesh create n = for_run (\<lambda>i. for_run (mesh_step create i) (i + 1) (n - (i + 1))) 0 n"

text \<open>
  \<open>smlt_init\<close>: \<open>nprocs\<close> is what \<open>sysconf\<close> reports, \<open>numa_available\<close> and \<open>cpus\<close> are libnuma's; the operating
  system's state holds the barrier of the master share, whose initialisation is not checked.
\<close>

definition smlt_init ::
  "int \<Rightarrow> int \<Rightarrow> int \<Rightarrow> (u32 \<Rightarrow> 'os \<Rightarrow> int \<times> 'os) \<Rightarrow> (u64 \<Rightarrow> 'h \<Rightarrow> addr \<times> 'h) \<Rightarrow> ('h \<times> mem) chan_creator \<Rightarrow>
   u32 \<Rightarrow> bool \<Rightarrow> ('p, 'f, 'a) smlt_runtime \<times> 'os \<times> 'h \<times> mem \<Rightarrow>
   (errval_t \<times> ('p, 'f, 'a) smlt_runtime \<times> 'os \<times> 'h \<times> mem) run"
where
  "smlt_init nprocs numa_available cpus pthread_barrier_init nl create num_proc eagerly = (\<lambda>(rt, os, w).
     if uint num_proc > nprocs then Inr (errval SMLT_ERR_PLATFORM_INIT, rt, os, w)
     else
       let n = smlt_platform_init numa_available cpus num_proc; rt = rt\<lparr>rt_num_proc := n\<rparr> in
       if n = 0 then Inr (errval SMLT_ERR_PLATFORM_INIT, rt, os, w)
       else
         bind_run (smlt_shm_init_master_share nl (rt, w)) (\<lambda>(err, rt, w).
         if smlt_err_is_fail err then Inr (smlt_err_push err SMLT_ERR_SHM_INIT, rt, os, w)
         else
           let (_, os) = smlt_platform_barrier_init pthread_barrier_init n os in
           if \<not> eagerly then Inr (errval SMLT_SUCCESS, rt, os, w)
           else
             bind_run (alloc_run nl (ucast n * 8) 64 w) (\<lambda>(nodes, w).
             if nodes = 0 then Inr (errval SMLT_ERR_MALLOC_FAIL, rt, os, w)
             else
               bind_run (create_nodes nl 0 (unat n) (rt\<lparr>rt_all_nodes := replicate (unat n) None\<rparr>, w)) (\<lambda>(err, rt, w).
               if smlt_err_is_fail err then Inr (err, rt, os, w)
               else
                 bind_run (mesh create (unat n) (rt, w)) (\<lambda>(rt, w).
                 let err = smlt_topology_init in
                 if smlt_err_is_fail err then Inr (smlt_err_push err SMLT_ERR_TOPOLOGY_INIT, rt, os, w)
                 else Inr (errval SMLT_SUCCESS, rt\<lparr>rt_initialized := True\<rparr>, os, w))))))"

section \<open>Nodes by their id\<close>

definition smlt_get_node_by_id :: "('p, 'f, 'a) smlt_runtime \<Rightarrow> u32 \<Rightarrow> ('p, 'f, 'a) smlt_node option run" where
  "smlt_get_node_by_id rt nid = (if nid < rt_node_count rt then nth_run (rt_all_nodes rt) (unat nid) else Inr None)"

definition smlt_add_node :: "('p, 'f, 'a) smlt_node \<Rightarrow> errval_t run" where
  "smlt_add_node node = Inl Panic"

definition smlt_get_num_proc :: "('p, 'f, 'a) smlt_runtime \<Rightarrow> u32" where
  "smlt_get_num_proc rt = rt_num_proc rt"

section \<open>Sending and receiving\<close>

text \<open>A call on the channel that a node has for the calling thread; the calls may have to poll.\<close>

fun call_run :: "'a run \<Rightarrow> 'a call_result" where
  "call_run (Inr x) = Returns x"
| "call_run (Inl _) = Crash"

definition on_chan ::
  "('e \<times> mem \<times> smlt_channel \<Rightarrow> ('r \<times> 'e \<times> mem \<times> smlt_channel) call_result) \<Rightarrow> ('p, 'f, 'a) smlt_node \<Rightarrow> u32 \<Rightarrow>
   'e \<times> mem \<times> ('p, 'f, 'a) smlt_runtime \<Rightarrow> ('r \<times> 'e \<times> mem \<times> ('p, 'f, 'a) smlt_runtime) call_result"
where
  "on_chan f node self = (\<lambda>(e, m, rt).
     bind_call (call_run (nth_run (nd_chan node) (unat self))) (\<lambda>q.
     bind_call (f (e, m, rt_chans rt q)) (\<lambda>(r, e', m', ch).
       Returns (r, e', m', rt\<lparr>rt_chans := (rt_chans rt)(q := ch)\<rparr>))))"

text \<open>The calls of \<open>inc/smlt_node.h\<close>; \<open>self\<close> is \<open>smlt_node_self_id\<close> of the calling thread.\<close>

definition smlt_node_send where
  "smlt_node_send env fuel self node msg = on_chan (smlt_channel_send env fuel self msg) node self"

definition smlt_node_notify where
  "smlt_node_notify env fuel self node = on_chan (smlt_channel_notify env fuel self) node self"

definition smlt_node_can_send where
  "smlt_node_can_send self node =
     on_chan (\<lambda>(e, m, ch). bind_call (smlt_channel_can_send self m ch) (\<lambda>(ok, ch'). Returns (ok, e, m, ch'))) node self"

definition smlt_node_recv where
  "smlt_node_recv env fuel self node msg = on_chan (smlt_channel_recv env fuel self msg) node self"

definition smlt_node_can_recv where
  "smlt_node_can_recv self node =
     on_chan (\<lambda>(e, m, ch). bind_call (smlt_channel_can_recv self m ch) (\<lambda>ok. Returns (ok, e, m, ch))) node self"

text \<open>A call on a node by its id, with the result for an id that no node has.\<close>

definition on_node ::
  "'r \<Rightarrow> (('p, 'f, 'a) smlt_node \<Rightarrow> 'e \<times> mem \<times> ('p, 'f, 'a) smlt_runtime \<Rightarrow> ('r \<times> 'e \<times> mem \<times> ('p, 'f, 'a) smlt_runtime) call_result) \<Rightarrow>
   u32 \<Rightarrow> 'e \<times> mem \<times> ('p, 'f, 'a) smlt_runtime \<Rightarrow> ('r \<times> 'e \<times> mem \<times> ('p, 'f, 'a) smlt_runtime) call_result"
where
  "on_node invalid f nid = (\<lambda>(e, m, rt).
     bind_call (call_run (smlt_get_node_by_id rt nid)) (\<lambda>node.
       case node of None \<Rightarrow> Returns (invalid, e, m, rt) | Some node \<Rightarrow> f node (e, m, rt)))"

definition smlt_send where
  "smlt_send env fuel self nid msg = on_node (errval SMLT_ERR_NODE_INVALD) (\<lambda>node. smlt_node_send env fuel self node msg) nid"

definition smlt_notify where
  "smlt_notify env fuel self nid = on_node (errval SMLT_ERR_NODE_INVALD) (smlt_node_notify env fuel self) nid"

definition smlt_can_send where
  "smlt_can_send self nid = on_node False (smlt_node_can_send self) nid"

definition smlt_recv_any :: "smlt_msg \<Rightarrow> errval_t run" where
  "smlt_recv_any msg = Inl Assertion"

definition smlt_recv where
  "smlt_recv env fuel self nid msg =
     on_node (errval SMLT_ERR_NODE_INVALD, msg) (\<lambda>node. smlt_node_recv env fuel self node msg) nid"

definition smlt_can_recv where
  "smlt_can_recv self nid = on_node False (smlt_node_can_recv self) nid"

end
