(* ===== verification/Runtime_Mesh.thy ===== *)
theory Runtime_Mesh
  imports Runtime Context_Tree
begin

text \<open>
  What the initialisation leaves behind: one node per processor and one channel for every two of them,
  which both find under the other's id. Sending and receiving by node id go to this channel.
\<close>

section \<open>The nodes\<close>

definition fresh_node :: "nat \<Rightarrow> nat \<Rightarrow> ('p, 'f, 'a) smlt_node" where
  "fresh_node n i = \<lparr>nd_id = of_nat i, nd_core = of_nat i, nd_handle = None, nd_fn = None, nd_arg = None,
     nd_mp_recv = 0, nd_mp_send = 0, nd_shm_send = 0, nd_shm_recv = 0, nd_chan = map (Pair i) [0..<n]\<rparr>"

lemma post_node_create:
  assumes "alloc_succeeds nl" "n = unat (na_num_nodes args)" "na_id args = of_nat i" "na_core args = of_nat i"
    and "\<And>w'. Q (errval SMLT_SUCCESS, Some (fresh_node n i), w')"
  shows "post (\<lambda>_. False) (smlt_node_create nl sz i True args w) Q"
proof -
  have "post (\<lambda>_. False) (alloc_run nl (SMLT_NODE_SIZE sz (na_num_nodes args)) 64 w) (\<lambda>(p, w'). p \<noteq> 0)"
    by (rule post_alloc) (use assms(1) in auto)
  then show ?thesis
    using assms(2-5) by (auto simp: smlt_node_create_def smlt_platform_node_create_def smlt_err_is_fail_errval fresh_node_def Let_def
        elim!: post_weaken)
qed

lemma post_create_nodes:
  assumes "alloc_succeeds nl" "n = unat (rt_num_proc rt)" "i + k \<le> length (rt_all_nodes rt)"
    and "\<And>w'. Q (errval SMLT_SUCCESS, rt\<lparr>rt_all_nodes := take i (rt_all_nodes rt) @ map (\<lambda>a. Some (fresh_node n a)) [i..<i + k] @
      drop (i + k) (rt_all_nodes rt), rt_node_count := rt_node_count rt + of_nat k\<rparr>, w')"
  shows "post (\<lambda>_. False) (create_nodes nl i k (rt, w)) Q"
  using assms(2-)
proof (induction k arbitrary: i rt w)
  case 0
  then show ?case by simp
next
  case (Suc k)
  let ?rt = "rt\<lparr>rt_all_nodes := (rt_all_nodes rt)[i := Some (fresh_node n i)], rt_node_count := rt_node_count rt + 1\<rparr>"
  have i: "i < length (rt_all_nodes rt)" using Suc.prems(2) by simp
  have u: "[i..<i + Suc k] = i # [Suc i..<Suc i + k]" by (simp add: upt_conv_Cons)
  have "post (\<lambda>_. False) (create_nodes nl (Suc i) k (?rt, w')) Q" for w'
  proof (rule Suc.IH)
    show "Q (errval SMLT_SUCCESS, ?rt\<lparr>rt_all_nodes := take (Suc i) (rt_all_nodes ?rt) @ map (\<lambda>a. Some (fresh_node n a)) [Suc i..<Suc i + k] @
      drop (Suc i + k) (rt_all_nodes ?rt), rt_node_count := rt_node_count ?rt + of_nat k\<rparr>, w'')" for w''
      using Suc.prems(3)[of w''] i unfolding u
      by (simp add: take_Suc_conv_app_nth ac_simps del: upt_Suc)
  qed (use Suc.prems in simp_all)
  then show ?case
    using Suc.prems(1) unfolding create_nodes.simps post_bind
    by (intro post_node_create[OF assms(1), of n]) (simp_all add: smlt_err_is_fail_errval)
qed

section \<open>The mesh\<close>

text \<open>
  The nodes and channels when the channels between the pairs \<open>done\<close> are made: a node has, for a pair that
  is done, the place in the memory of the smaller node, and its own place else.
\<close>

definition mesh_ok ::
  "nat \<Rightarrow> (nat \<times> nat \<Rightarrow> smlt_channel) \<Rightarrow> (nat \<Rightarrow> nat \<Rightarrow> bool) \<Rightarrow> ('p, 'f, 'a) smlt_runtime \<Rightarrow> bool"
where
  "mesh_ok n chans made rt \<longleftrightarrow>
     length (rt_all_nodes rt) = n \<and>
     (\<forall>k < n. rt_all_nodes rt ! k = Some ((fresh_node n k)\<lparr>nd_chan := map (\<lambda>l. if made l k then (l, k) else (k, l)) [0..<n]\<rparr>)) \<and>
     (\<forall>a b. if made a b then edge_channel a b (rt_chans rt (a, b)) else rt_chans rt (a, b) = chans (a, b))"

lemma mesh_ok_node:
  assumes "mesh_ok n chans made rt" "k < n"
  shows "node_of rt k = Inr ((fresh_node n k)\<lparr>nd_chan := map (\<lambda>l. if made l k then (l, k) else (k, l)) [0..<n]\<rparr>)"
  using assms by (simp add: mesh_ok_def node_of_def nth_run_def deref_run_def)

text \<open>The pairs that are made before the round \<open>(i, j)\<close>.\<close>

definition before :: "nat \<Rightarrow> nat \<Rightarrow> nat \<Rightarrow> nat \<Rightarrow> nat \<Rightarrow> bool" where
  "before n i j a b \<longleftrightarrow> a < b \<and> b < n \<and> (a < i \<or> a = i \<and> b < j)"

text \<open>The rest of the state.\<close>

definition same_rest :: "('p, 'f, 'a) smlt_runtime \<Rightarrow> ('p, 'f, 'a) smlt_runtime \<Rightarrow> bool" where
  "same_rest rt rt' \<longleftrightarrow>
     rt_initialized rt' = rt_initialized rt \<and> rt_num_proc rt' = rt_num_proc rt \<and> rt_node_count rt' = rt_node_count rt \<and>
     rt_master_share rt' = rt_master_share rt"

lemma post_mesh_step:
  assumes I: "mesh_ok n chans (before n i j) rt" and ij: "i < j" "j < n"
  shows "post (\<lambda>_. False) (mesh_step (smlt_channel_create na nl nf mx node_of_cpu) i j (rt, w))
    (\<lambda>(rt', w'). mesh_ok n chans (before n i (Suc j)) rt' \<and> same_rest rt rt')"
proof -
  have "\<not> before n i j j i" "\<not> before n i j i j" using ij by (auto simp: before_def)
  then have q: "nth_run (map (\<lambda>l. if before n i j l i then (l, i) else (i, l)) [0..<n]) j = Inr (i, j)"
    using ij by (simp add: nth_run_def)
  have i: "nth_run (map (\<lambda>l. if before n i j l j then (l, j) else (j, l)) [0..<n]) i = Inr (j, i)"
    using ij \<open>\<not> before n i j i j\<close> by (simp add: nth_run_def)
  obtain err ch w1 where c: "smlt_channel_create na nl nf mx node_of_cpu (rt_chans rt (i, j)) [of_nat i] [of_nat j] 1 1 w = Returns (err, ch, w1)"
    and ch: "edge_channel i j ch"
    using channel_create_edge[of na nl nf mx node_of_cpu "rt_chans rt (i, j)" "of_nat i" "of_nat j" w] by (auto simp: edge_channel_def)
  let ?nj = "(fresh_node n j)\<lparr>nd_chan := (map (\<lambda>l. if before n i j l j then (l, j) else (j, l)) [0..<n])[i := (i, j)]\<rparr>"
  let ?rt = "rt\<lparr>rt_chans := (rt_chans rt)((i, j) := ch), rt_all_nodes := (rt_all_nodes rt)[j := Some ?nj]\<rparr>"
  have step: "mesh_step (smlt_channel_create na nl nf mx node_of_cpu) i j (rt, w) = Inr (?rt, w1)"
    using mesh_ok_node[OF I] ij q i c by (simp add: mesh_step_def)
  have same: "before n i (Suc j) l k = before n i j l k" if "k \<noteq> j \<or> l \<noteq> i" for l k using that by (auto simp: before_def)
  have new: "before n i (Suc j) i j" using ij by (simp add: before_def)
  have entry: "(map (\<lambda>l. if before n i j l j then (l, j) else (j, l)) [0..<n])[i := (i, j)] =
    map (\<lambda>l. if before n i (Suc j) l j then (l, j) else (j, l)) [0..<n]"
    using ij new same by (intro nth_equalityI) (auto simp: nth_list_update)
  have "mesh_ok n chans (before n i (Suc j)) ?rt"
    unfolding mesh_ok_def
  proof (intro conjI allI impI)
    show "length (rt_all_nodes ?rt) = n" using I by (simp add: mesh_ok_def)
    show "rt_all_nodes ?rt ! k = Some ((fresh_node n k)\<lparr>nd_chan := map (\<lambda>l. if before n i (Suc j) l k then (l, k) else (k, l)) [0..<n]\<rparr>)"
      if "k < n" for k
      using I that entry same[of k] by (cases "k = j") (simp_all add: mesh_ok_def)
    show "if before n i (Suc j) a b then edge_channel a b (rt_chans ?rt (a, b)) else rt_chans ?rt (a, b) = chans (a, b)" for a b
      using I ch new same[of b a] by (cases "(a, b) = (i, j)") (auto simp: mesh_ok_def)
  qed
  then show ?thesis unfolding step by (simp add: same_rest_def)
qed

definition meshed :: "nat \<Rightarrow> ('p, 'f, 'a) smlt_runtime \<Rightarrow> (nat \<Rightarrow> nat \<Rightarrow> bool) \<Rightarrow> ('p, 'f, 'a) smlt_runtime \<Rightarrow> bool" where
  "meshed n rt made rt' \<longleftrightarrow> mesh_ok n (rt_chans rt) made rt' \<and> same_rest rt rt'"

lemma post_mesh:
  fixes rt :: "('p, 'f, 'a) smlt_runtime" and w :: "'h \<times> mem"
  assumes "meshed n rt (\<lambda>_ _. False) rt"
  shows "post (\<lambda>_. False) (mesh (smlt_channel_create na nl nf mx node_of_cpu) n (rt, w))
    (\<lambda>(rt', w'). meshed n rt (\<lambda>a b. a < b \<and> b < n) rt')"
proof -
  let ?step = "mesh_step (smlt_channel_create na nl nf mx node_of_cpu)"
  have row: "post (\<lambda>_. False) (for_run (?step i) (i + 1) (n - (i + 1)) s)
      (\<lambda>(rt', w'). meshed n rt (before n (Suc i) 0) rt')"
    if i: "i < n" and s: "case s of (rt', w') \<Rightarrow> meshed n rt (before n i 0) rt'" for i and s :: "('p, 'f, 'a) smlt_runtime \<times> 'h \<times> mem"
  proof -
    have eq: "before n i 0 = before n i (i + 1)" "before n i (i + 1 + (n - (i + 1))) = before n (Suc i) 0"
      using i by (auto simp: before_def fun_eq_iff)
    have "post (\<lambda>_. False) (for_run (?step i) (i + 1) (n - (i + 1)) s)
      ((\<lambda>j (rt', w'). meshed n rt (before n i j) rt') (i + 1 + (n - (i + 1))))"
    proof (rule post_for)
      show "case s of (rt', w') \<Rightarrow> meshed n rt (before n i (i + 1)) rt'" using s eq(1) by simp
      fix j and s :: "('p, 'f, 'a) smlt_runtime \<times> 'h \<times> mem"
      assume j: "i + 1 \<le> j" "j < i + 1 + (n - (i + 1))" and s: "case s of (rt', w') \<Rightarrow> meshed n rt (before n i j) rt'"
      obtain rt1 w1 where s1: "s = (rt1, w1)" by (cases s)
      have m: "mesh_ok n (rt_chans rt) (before n i j) rt1" "same_rest rt rt1" using s s1 by (simp_all add: meshed_def)
      have "i < j" "j < n" using j by auto
      from post_mesh_step[OF m(1) this] show "post (\<lambda>_. False) (?step i j s) (\<lambda>(rt', w'). meshed n rt (before n i (Suc j)) rt')"
        unfolding s1 by (rule post_weaken) (use m(2) in \<open>auto simp: meshed_def same_rest_def\<close>)
    qed
    then show ?thesis unfolding eq(2) .
  qed
  have "before n 0 0 = (\<lambda>_ _. False)" "before n n 0 = (\<lambda>a b. a < b \<and> b < n)" by (auto simp: before_def fun_eq_iff)
  then show ?thesis
    using post_for0[where I = "\<lambda>i (rt', w'). meshed n rt (before n i 0) rt'" and s = "(rt, w)" and k = n
        and f = "\<lambda>i. for_run (?step i) (i + 1) (n - (i + 1))"] assms row
    unfolding mesh_def by auto
qed

section \<open>The initialised runtime\<close>

text \<open>The type invariant of the runtime: \<open>n\<close> nodes, with a shared channel for every two of them.\<close>

definition runtime_ok :: "nat \<Rightarrow> ('p, 'f, 'a) smlt_runtime \<Rightarrow> bool" where
  "runtime_ok n rt \<longleftrightarrow>
     rt_initialized rt \<and> unat (rt_num_proc rt) = n \<and> unat (rt_node_count rt) = n \<and> length (rt_all_nodes rt) = n \<and>
     (\<forall>k < n. \<exists>nd. rt_all_nodes rt ! k = Some nd \<and> nd_id nd = of_nat k \<and> nd_core nd = of_nat k \<and>
        length (nd_chan nd) = n \<and> (\<forall>l < n. nd_chan nd ! l = (min k l, max k l))) \<and>
     (\<forall>a b. a < b \<longrightarrow> b < n \<longrightarrow> edge_channel a b (rt_chans rt (a, b))) \<and>
     (\<forall>k < n. rt_chans rt (k, k) = channel_zero)"

lemma meshed_runtime_ok:
  assumes "meshed n rt (\<lambda>a b. a < b \<and> b < n) rt'" "rt_chans rt = (\<lambda>_. channel_zero)"
    and "unat (rt_num_proc rt) = n" "unat (rt_node_count rt) = n"
  shows "runtime_ok n (rt'\<lparr>rt_initialized := True\<rparr>)"
  using assms by (auto simp: runtime_ok_def meshed_def mesh_ok_def same_rest_def fresh_node_def min_def max_def)

lemma platform_init_count:
  assumes "0 < cpus" "cpus < 2 ^ 31"
  shows "unat (smlt_platform_init 0 cpus num_proc) = min (unat num_proc) (nat cpus)"
proof -
  have "unat (word_of_int cpus :: u32) = nat cpus" using assms by (simp add: unat_eq_nat_uint uint_word_of_int)
  then show ?thesis by (simp add: smlt_platform_init_def word_less_nat_alt)
qed

lemma post_init:
  fixes rt :: "('p, 'f, 'a) smlt_runtime" and w :: "'h \<times> mem"
  assumes nl: "alloc_succeeds nl" and cpus: "uint num_proc \<le> nprocs" "0 < cpus" "cpus < 2 ^ 31" "num_proc \<noteq> 0"
    and rt: "rt_node_count rt = 0" "rt_chans rt = (\<lambda>_. channel_zero)" and n: "n = min (unat num_proc) (nat cpus)"
  shows "post (\<lambda>_. False) (smlt_init nprocs 0 cpus bi nl (smlt_channel_create na nl nf mx node_of_cpu) num_proc True (rt, os, w))
    (\<lambda>(err, rt', os', w'). err = errval SMLT_SUCCESS \<and> runtime_ok n rt')"
proof -
  define np where "np = smlt_platform_init 0 cpus num_proc"
  have np: "unat np = n" "np \<noteq> 0" using platform_init_count[OF cpus(2,3), of num_proc] cpus n by (auto simp: np_def unat_eq_0[symmetric])
  let ?rt = "rt\<lparr>rt_num_proc := np\<rparr>"
  have share: "post (\<lambda>_. False) (smlt_shm_init_master_share nl (?rt, w))
      (\<lambda>(err, rt1, w'). err = errval SMLT_SUCCESS \<and> (\<exists>a. rt1 = ?rt\<lparr>rt_master_share := a\<rparr>))"
  proof -
    have "post (\<lambda>_. False) (alloc_run nl SHM_SIZE SMLT_DEFAULT_ALIGNMENT w) (\<lambda>(p, w'). p \<noteq> 0)"
      by (rule post_alloc) (use nl in auto)
    then show ?thesis
      by (auto simp: smlt_shm_init_master_share_def intro: exI[of _ "rt_master_share rt"] elim!: post_weaken)
  qed
  have array: "post (\<lambda>_. False) (alloc_run nl (ucast np * 8) 64 w') (\<lambda>(p, w''). p \<noteq> 0)" for w' :: "'h \<times> mem"
    by (rule post_alloc) (use nl in auto)
  have rest: "post (\<lambda>_. False) (mesh (smlt_channel_create na nl nf mx node_of_cpu) (unat np) (rt2, w'))
      (\<lambda>(rt3, w''). runtime_ok n (rt3\<lparr>rt_initialized := True\<rparr>))"
    if "meshed n rt2 (\<lambda>_ _. False) rt2" "rt_num_proc rt2 = np" "rt_node_count rt2 = np" "rt_chans rt2 = (\<lambda>_. channel_zero)"
    for rt2 :: "('p, 'f, 'a) smlt_runtime" and w' :: "'h \<times> mem"
    unfolding np(1) using post_mesh[OF that(1), of na nl nf mx node_of_cpu w']
    by (rule post_weaken) (auto intro: meshed_runtime_ok simp: that np)
  have nodes: "post (\<lambda>_. False) (create_nodes nl 0 (unat np) (?rt\<lparr>rt_master_share := a, rt_all_nodes := replicate (unat np) None\<rparr>, w'))
      (\<lambda>(err, rt2, w''). err = errval SMLT_SUCCESS \<and>
         post (\<lambda>_. False) (mesh (smlt_channel_create na nl nf mx node_of_cpu) (unat np) (rt2, w''))
           (\<lambda>(rt3, w''). runtime_ok n (rt3\<lparr>rt_initialized := True\<rparr>)))" for a and w' :: "'h \<times> mem"
  proof (rule post_create_nodes[OF nl, of n])
    fix w'' :: "'h \<times> mem"
    let ?rt1 = "?rt\<lparr>rt_master_share := a, rt_all_nodes := replicate (unat np) None\<rparr>"
    let ?rt2 = "?rt1\<lparr>rt_all_nodes := take 0 (rt_all_nodes ?rt1) @ map (\<lambda>a. Some (fresh_node n a)) [0..<0 + unat np] @
      drop (0 + unat np) (rt_all_nodes ?rt1), rt_node_count := rt_node_count ?rt1 + of_nat (unat np)\<rparr>"
    have "meshed n ?rt2 (\<lambda>_ _. False) ?rt2" using np(1) by (simp add: meshed_def mesh_ok_def same_rest_def fresh_node_def)
    from rest[OF this, of w''] show "case (errval SMLT_SUCCESS, ?rt2, w'') of (err, rt2, w'') \<Rightarrow> err = errval SMLT_SUCCESS \<and>
        post (\<lambda>_. False) (mesh (smlt_channel_create na nl nf mx node_of_cpu) (unat np) (rt2, w''))
          (\<lambda>(rt3, w''). runtime_ok n (rt3\<lparr>rt_initialized := True\<rparr>))"
      using rt by simp
  qed (use np(1) in simp_all)
  obtain r os1 where b: "smlt_platform_barrier_init bi np os = (r, os1)" by fastforce
  show ?thesis
    using cpus(1) np unfolding smlt_init_def np_def[symmetric] Let_def
    by (auto simp: b smlt_err_is_fail_errval smlt_topology_init_def
        intro!: post_weaken[OF share] post_weaken[OF array] post_weaken[OF nodes] elim!: post_weaken)
qed

lemma node_by_id:
  assumes "runtime_ok n rt"
  shows "if unat nid < n
    then \<exists>nd. smlt_get_node_by_id rt nid = Inr (Some nd) \<and> (\<forall>self. unat self < n \<longrightarrow>
      nth_run (nd_chan nd) (unat self) = Inr (min (unat nid) (unat self), max (unat nid) (unat self)))
    else smlt_get_node_by_id rt nid = Inr None"
  using assms by (auto simp: runtime_ok_def smlt_get_node_by_id_def nth_run_def word_less_nat_alt)

text \<open>The channel of a node with itself is the cleared one: a send finds no queue pair, a receive no array.\<close>

lemma zero_channel_calls:
  "smlt_channel_send env fuel self msg (e, m, channel_zero) = Returns (errval SMLT_SUCCESS, e, m, channel_zero)"
  "smlt_channel_recv env fuel self msg (e, m, channel_zero) = Crash"
  by (simp_all add: smlt_channel_send_def smlt_channel_recv_def channel_zero_def num_chan_def on_field_def recv_at_def call_at_def)

section \<open>Properties\<close>

text \<open>
  Claim C16: an eager \<open>smlt_init\<close> in a fresh process succeeds and establishes the type invariant of the
  runtime: as many nodes as processors were asked for and are there, every node with its id, its core
  and a channel for every node; the entries of two nodes for each other are the same one-to-one
  channel, owned by the one with the smaller id and with the other as its target.
\<close>

theorem init_establishes_mesh:
  assumes "alloc_succeeds nl" "uint num_proc \<le> nprocs" "0 < cpus" "cpus < 2 ^ 31" "num_proc \<noteq> 0"
    and "rt_node_count rt = 0" "rt_chans rt = (\<lambda>_. channel_zero)"
  shows "\<exists>rt' os' w'. smlt_init nprocs 0 cpus pthread_barrier_init nl (smlt_channel_create na nl nf mx node_of_cpu) num_proc True (rt, os, w) =
      Inr (errval SMLT_SUCCESS, rt', os', w') \<and> runtime_ok (min (unat num_proc) (nat cpus)) rt'"
  using post_init[OF assms refl, of pthread_barrier_init na nf mx node_of_cpu os w] by (auto simp: post_total)

definition fresh_runtime :: "(unit, unit, unit) smlt_runtime" where
  "fresh_runtime = \<lparr>rt_initialized = False, rt_num_proc = 0, rt_all_nodes = [], rt_node_count = 0, rt_master_share = 0,
     rt_chans = (\<lambda>_. channel_zero)\<rparr>"

theorem init_establishes_mesh_witness:
  "\<exists>rt' os' w'. smlt_init 8 0 4 (\<lambda>_ os. (0, os)) page_alloc
      (smlt_channel_create (\<lambda>sz n. page_alloc sz) page_alloc (\<lambda>b sz h. h) 3 (\<lambda>c. ucast c)) 6 True (fresh_runtime, (), 0, \<lambda>_. 5) =
      Inr (errval SMLT_SUCCESS, rt', os', w') \<and> runtime_ok 4 rt'"
  using init_establishes_mesh[OF alloc_succeeds_page_alloc, of 6 8 4 fresh_runtime "\<lambda>_ os. (0, os)" "\<lambda>sz n. page_alloc sz"
      "\<lambda>b sz h. h" 3 "\<lambda>c. ucast c" "()" "(0, \<lambda>_. 5)"]
  by (simp add: fresh_runtime_def)

text \<open>
  Claim C17: sending and receiving by node id in the initialised runtime. A send by the node \<open>self\<close> to
  another node, and that node's receive from \<open>self\<close>, are the send and the receive of these two nodes on
  one and the same channel, which is the only thing in the runtime they change. For an id that no node
  has the calls return \<open>SMLT_ERR_NODE_INVALD\<close>. A node that sends to itself is told that it has sent, but
  nothing is, and receiving from itself dereferences a null pointer.
\<close>

theorem calls_by_node_id:
  assumes "runtime_ok n rt" "unat self < n"
  shows "let q = (min (unat nid) (unat self), max (unat nid) (unat self)) in
    smlt_send env fuel self nid msg (e, m, rt) =
      (if n \<le> unat nid then Returns (errval SMLT_ERR_NODE_INVALD, e, m, rt)
       else if nid = self then Returns (errval SMLT_SUCCESS, e, m, rt)
       else bind_call (smlt_channel_send env fuel self msg (e, m, rt_chans rt q)) (\<lambda>(r, e', m', ch).
              Returns (r, e', m', rt\<lparr>rt_chans := (rt_chans rt)(q := ch)\<rparr>))) \<and>
    (unat nid < n \<longrightarrow> smlt_recv env fuel nid self msg (e, m, rt) =
      (if nid = self then Crash
       else bind_call (smlt_channel_recv env fuel nid msg (e, m, rt_chans rt q)) (\<lambda>(r, e', m', ch).
              Returns (r, e', m', rt\<lparr>rt_chans := (rt_chans rt)(q := ch)\<rparr>)))) \<and>
    (n \<le> unat nid \<longrightarrow> smlt_recv env fuel self nid msg (e, m, rt) = Returns ((errval SMLT_ERR_NODE_INVALD, msg), e, m, rt))"
proof -
  have zero: "rt_chans rt (unat self, unat self) = channel_zero" using assms by (simp add: runtime_ok_def)
  then have same: "(rt_chans rt)((unat self, unat self) := channel_zero) = rt_chans rt" by auto
  have swap: "min (unat self) (unat nid) = min (unat nid) (unat self)" "max (unat self) (unat nid) = max (unat nid) (unat self)"
    by (simp_all add: min.commute max.commute)
  show ?thesis
    using node_by_id[OF assms(1), of nid] node_by_id[OF assms(1), of self] assms(2)
    unfolding Let_def smlt_send_def smlt_recv_def on_node_def smlt_node_send_def smlt_node_recv_def on_chan_def
    by (cases "unat nid < n"; cases "nid = self") (auto simp: zero same zero_channel_calls swap)
qed

lemma demo_runtime: "\<exists>rt :: (unit, unit, unit) smlt_runtime. runtime_ok 4 rt"
proof -
  have "rt_node_count fresh_runtime = 0" "rt_chans fresh_runtime = (\<lambda>_. channel_zero)" "4 = min (unat (4 :: u32)) (nat 4)"
    by (simp_all add: fresh_runtime_def)
  from post_init[OF alloc_succeeds_page_alloc _ _ _ _ this, of 8 "\<lambda>_ os. (0, os)" "\<lambda>sz n. page_alloc sz"
      "\<lambda>b sz h. h" 3 "\<lambda>c. ucast c" "()" "(0, \<lambda>_. 5)"]
  show ?thesis unfolding post_total by force
qed

theorem calls_by_node_id_witness:
  "\<exists>rt :: (unit, unit, unit) smlt_runtime. runtime_ok 4 rt \<and>
     smlt_send (\<lambda>_. id) 0 1 9 (msg_of [7]) ((), \<lambda>_. 5, rt) = Returns (errval SMLT_ERR_NODE_INVALD, (), \<lambda>_. 5, rt) \<and>
     smlt_send (\<lambda>_. id) 0 1 1 (msg_of [7]) ((), \<lambda>_. 5, rt) = Returns (errval SMLT_SUCCESS, (), \<lambda>_. 5, rt)"
proof -
  obtain rt :: "(unit, unit, unit) smlt_runtime" where rt: "runtime_ok 4 rt" using demo_runtime by blast
  have self: "unat (1 :: u32) < 4" by simp
  have "smlt_send (\<lambda>_. id) 0 1 9 (msg_of [7]) ((), \<lambda>_. 5, rt) = Returns (errval SMLT_ERR_NODE_INVALD, (), \<lambda>_. 5, rt)"
    using calls_by_node_id[OF rt self, of 9 "\<lambda>_. id" 0 "msg_of [7]" "()" "\<lambda>_. 5", unfolded Let_def, THEN conjunct1] by simp
  moreover have "smlt_send (\<lambda>_. id) 0 1 1 (msg_of [7]) ((), \<lambda>_. 5, rt) = Returns (errval SMLT_SUCCESS, (), \<lambda>_. 5, rt)"
    using calls_by_node_id[OF rt self, of 1 "\<lambda>_. id" 0 "msg_of [7]" "()" "\<lambda>_. 5", unfolded Let_def, THEN conjunct1] by simp
  ultimately show ?thesis using rt by blast
qed

end
