(* ===== verification/Spec2Isabelle.thy ===== *)
theory Spec2Isabelle
  imports Ffq_Concurrent Dissem_Net Reduce_Net Bench Generator Runtime_Mesh
begin

text \<open>
  Verification of Smelt, a C library for message passing between the cores of a machine.

  \<^bold>\<open>The program.\<close> One node runs on every core, as a pinned thread. Two nodes exchange messages through a
  queue pair: two rings of cache-line sized slots in shared memory, one for each direction. There are
  three backends for queue pairs: UMP, whose slots carry a sequence number and whose receiver
  acknowledges once per round; FFQ, whose slots are marked as empty by their first word; and the shared
  memory queue, whose writer synchronises with the reader's position now and then. A fourth queue has one
  writer and many readers. A channel joins one owner with one or many other nodes over these. A topology
  is a tree of nodes, either the binary tree or one that a generator service proposes; a context is a
  topology with a channel on each of its edges. On contexts there are collective operations: broadcasts,
  reductions and the tree barrier; the dissemination barrier has channels of its own. The runtime starts
  the nodes and gives every two of them a channel. Paths below are relative to \<open>src/\<close>.

  \<^bold>\<open>Theories and sources.\<close>

  \<^item> \<open>Smelt_Prelude\<close>: C's integers as words of their width (arithmetic wraps around), the memory as a
    function from addresses to 64-bit cells, bulk copies, the arithmetic of ring positions. The collections
    \<open>ring_simps\<close> and \<open>cell_simps\<close> serve all backend proofs.
  \<^item> \<open>Smelt_Error\<close>: \<open>inc/smlt_error.h\<close>, error codes and the stack of errors in an error value.
  \<^item> \<open>Smelt_Memory\<close>: \<open>src/platforms/linux/mem.c\<close>, allocation with alignment and release.
  \<^item> \<open>Smelt_Message\<close>: \<open>inc/smlt_message.h\<close>, \<open>src/message.c\<close>.
  \<^item> \<open>Smelt_Run\<close>: control flow of code that does not wait: a value or an abort.
  \<^item> \<open>Ump_Queue\<close>, \<open>Ffq_Queue\<close>, \<open>Shm_Queue\<close>, \<open>Swmr_Queue\<close>: the queues of \<open>inc/backends/\<close> and
    \<open>src/backends/\<close>, their queue pairs and their blocking and non-blocking operations.
  \<^item> \<open>Queuepair\<close>: \<open>inc/smlt_queuepair.h\<close>, \<open>src/queuepair.c\<close>, \<open>src/qp_func_wrapper.c\<close>, the choice of the
    backend, the table of function pointers, and the loops that retry.
  \<^item> \<open>Channel\<close>: \<open>inc/smlt_channel.h\<close>, \<open>src/channel.c\<close>.
  \<^item> \<open>Topology\<close>: \<open>inc/smlt_topology.h\<close>, \<open>src/topology.c\<close>. \<open>Generator\<close>: \<open>src/generator.c\<close>,
    \<open>contrib/sim.cpp\<close>, \<open>contrib/sim_wrapper.cpp\<close>.
  \<^item> \<open>Context\<close>: \<open>inc/smlt_context.h\<close>, \<open>src/context.c\<close>.
  \<^item> \<open>Collective_Code\<close>: \<open>src/broadcast.c\<close>, \<open>src/reduction.c\<close> and the tree barrier of \<open>src/barrier.c\<close>;
    \<open>Dissem_Barrier\<close>: the other barriers of \<open>src/barrier.c\<close>.
  \<^item> \<open>Bench\<close>: \<open>inc/smlt_bench.h\<close>, \<open>src/bench.c\<close>.
  \<^item> \<open>Platform\<close>: \<open>platform.c\<close>, \<open>threads.c\<close> and \<open>barrier.c\<close> of \<open>src/platforms/linux\<close>, and \<open>src/node.c\<close>.
    \<open>Runtime\<close>: \<open>src/smlt.c\<close>, the calls of \<open>inc/smlt_node.h\<close>, and the master share of
    \<open>src/backends/shm/shm.c\<close>.

  A structure is a record whose field names carry a prefix, a function is a definition of the same name,
  and a loop is a function of its own; a function takes the parts of the state that it reads and returns
  those that it writes. A pointer to an object of an array is the index of the object, a null pointer is
  \<open>None\<close> or the address 0.

  \<^bold>\<open>Waiting and failing.\<close> There are four shapes of results, by what the code can do.

  \<^item> A function that cannot fail returns its value; an error is a value of type \<open>errval_t\<close>, as in the code.
  \<^item> Set-up code has the type \<open>run\<close>: a value, or one of the aborts \<open>Assertion\<close>, \<open>Panic\<close>, \<open>Wild\<close> (an access
    that is undefined in C) and \<open>Hang\<close>.
  \<^item> A blocking operation on a queue takes \<open>env\<close>, what the rest of the machine does before its \<open>k\<close>-th poll,
    and \<open>fuel\<close>, the number of polls that are looked at; \<open>None\<close>, or \<open>Polling\<close>, says that it is still waiting
    then. No bound is put on the fuel: what is proved of a result holds for every fuel and every \<open>env\<close> that
    keeps the invariant, and that an operation returns is proved with the fuel that is enough: for a UMP
    send one poll more than there are messages pending, for the shared memory queue a single poll.
  \<^item> A collective operation has the type \<open>code\<close>: the tree of the channel calls that a node makes and of the
    answers that it may get, infinite where a loop polls.

  \<^bold>\<open>Interfaces.\<close> \<open>Fifo_Channel\<close> states the contracts as locales: \<open>fifo_channel\<close>, a bounded first-in
  first-out channel with non-blocking operations; \<open>multicast_channel\<close>, one writer and many readers, of which
  the former is the case of a single reader (a \<open>sublocale\<close>); \<open>duplex_channel\<close>, two independent directions.
  \<open>Network\<close> extends the last one by polling (\<open>polled_channel\<close>), and \<open>Reduce_Tree\<close> fixes the number of words
  of the messages (\<open>reducing\<close>). Each of them is interpreted on the definitions of the code: the first one for
  UMP, FFQ, the shared memory queue and for queue pairs of any backend, the second one for the queue with
  many readers and for one-to-many channels, the others for one-to-one channels.

  \<^bold>\<open>What the lemmas show.\<close>

  \<^item> \<open>Ump_Refine\<close>, \<open>Ffq_Refine\<close>, \<open>Shm_Refine\<close>, \<open>Swmr_Refine\<close>: the invariant of each queue, over counters that
    no one stores; initialisation establishes it, every operation keeps it, and the code refines the
    contract for every interleaving of calls. Sends and receives return when the other side is active.
    Where a queue breaks its promise, a theorem says when: a FFQ message that starts with the empty mark is
    never received and lets a later message overtake others, and the writer of the queue with many readers blocks for ever once it is a ring ahead of the
    message number \<open>0xFFFFFFFF\<close>.
  \<^item> \<open>Ffq_Concurrent\<close>: the two sides of a FFQ ring as a step relation whose steps are single loads and
    stores; every interleaving of them is first-in first-out as long as no message starts with the mark
    of an empty slot.
  \<^item> \<open>Queuepair_Refine\<close>, \<open>Channel_Refine\<close>: the contracts carry over to queue pairs and channels, for the
    messages that the backend can carry; the owner of a one-to-many channel hears every receiver exactly
    once, in whatever order they notify.
  \<^item> \<open>Smelt_Memory\<close>, \<open>Smelt_Message\<close>: allocations are aligned, cleared and inside the block of libnuma, and what
    is released is that block; a message owns its descriptor and its words.
  \<^item> \<open>Topology_Tree\<close>, \<open>Topology_Parse\<close>: the binary tree of any size, and the topology that is read from a
    matrix that encodes a tree, are well-formed; which matrices are rejected, by a failed assertion or a panic. \<open>Context_Tree\<close>: the context of a
    well-formed topology has a channel per edge, which both ends find.
  \<^item> \<open>Network\<close>, \<open>Barrier_Tree\<close>, \<open>Barrier_Live\<close>, \<open>Broadcast_Tree\<close>, \<open>Reduce_Tree\<close>, \<open>Dissem_Proof\<close>: all nodes of a
    machine side by side, over any channels that keep the contract, a schedule saying which node moves next.
    Each operation is refined to a state machine of stages, with an invariant on nodes and edges, and with a
    rank that some moves of some node lower while anybody is left inside. \<open>Channel_Net\<close>, \<open>Broadcast_Net\<close>,
    \<open>Reduce_Net\<close>, \<open>Dissem_Net\<close> put the channels of the code in: a barrier releases nobody before all have
    entered, a broadcast delivers the root's message to all, a reduction ends with what one of the leaves
    had, and none of them deadlocks.
  \<^item> \<open>Runtime_Mesh\<close>: after the initialisation every two nodes share one channel, which the calls by node id
    use; what these calls do with other ids. \<open>Bench\<close>: the samples are sorted, and the analysis is over the
    latest ones. \<open>Generator\<close>: a model that is read from a document is the model in the document.

  \<^bold>\<open>Assumptions.\<close> libnuma, the operating system, the network and the JSON library are parameters. The
  allocator gives disjoint blocks where a statement is about several of them (\<open>well_placed\<close>,
  \<open>message_blocks_ok\<close> and the like).
  Memory is sequentially consistent: on x86 with its write barriers stores become visible in program order,
  which is what the code relies on. Operations of a queue are taken as atomic in the refinements, other than
  in \<open>Ffq_Concurrent\<close>; a blocking operation is interleaved at its polls. In a network a move is one channel
  call, tried once; every channel has its rings in a memory of its own, and its messages have a fixed number
  of words, at most seven. A network is a tree of one-to-one channels over UMP, which is what the creation
  of a context gives on a topology without shared memory. The assertions of the UMP and FFQ headers are
  compiled out by default and are not modelled; neither is \<open>SMLT_CONFIG_LINUX_NUMA_ALIGN\<close>, which is off.

  \<^bold>\<open>Not modelled.\<close> The Barrelfish platform, which is an alternative to the Linux platform and calls the
  libraries of that system; \<open>src/debug.c\<close>, which prints; \<open>inc/smlt_endpoint.h\<close>, which declares what nobody
  implements; code under \<open>#if 0\<close>, among it the bodies of nearly all functions of \<open>src/backends/shm/shm.c\<close>
  and of the older barriers; \<open>contrib/jsoncpp\<close>, which is third-party code; \<open>bench/\<close> and \<open>test/\<close>, which are
  programs that use the library. The square root and the scaling of the count in \<open>src/bench.c\<close> are
  floating-point expressions and are parameters. Of the collective operations, those over channels that
  use shared memory are modelled as code, and nothing is proved about networks of them; the same holds of
  \<open>smlt_reduce_all\<close>, which is a reduction followed by a broadcast.
\<close>

end
